(* ===== verification/Prelude.thy ===== *)
theory Prelude
  imports Main "HOL-Library.Word" "HOL-Library.List_Lexorder" "HOL-Library.Char_ord"
begin

unbundle bit_operations_syntax

text \<open>
  Shared vocabulary of the development: machine integers and byte strings, the collections of
  rewrite rules the component theories fill, and the generic facts about words, lists and maps
  that more than one component needs.
\<close>

type_synonym u8 = "8 word"
type_synonym u32 = "32 word"
type_synonym u64 = "64 word"
type_synonym bytes = "8 word list"

text \<open>Go strings are byte sequences; a \<open>string\<close> of HOL is read as its bytes.\<close>

definition string_bytes :: "string \<Rightarrow> bytes" where
  "string_bytes s = map of_char s"

named_theorems codec_simps \<open>round trips and lengths of the byte-level encoders\<close>
named_theorems inv_intros \<open>operations preserve their component's invariant\<close>
named_theorems refines \<open>operations commute with a component's abstraction function\<close>

section \<open>Words\<close>

lemma unat_of_nat_le: "unat (of_nat n :: 'a::len word) \<le> n"
  by (simp add: unat_of_nat)

lemma unat_of_nat_u64 [simp]: "n < 2 ^ 64 \<Longrightarrow> unat (of_nat n :: u64) = n"
  by (simp add: unat_of_nat)

lemma unat_of_nat_u32 [simp]: "n < 2 ^ 32 \<Longrightarrow> unat (of_nat n :: u32) = n"
  by (simp add: unat_of_nat)

lemma of_nat_u32_nonzero: "0 < n \<Longrightarrow> n < 2 ^ 32 \<Longrightarrow> (of_nat n :: u32) \<noteq> 0"
  by (metis less_irrefl unat_0 unat_of_nat_u32)

lemma unat_u64_less: "unat (v::u64) < 2 ^ 64"
  using unsigned_less [of v] by simp

lemma unat_inc: "(i::u64) < - 1 \<Longrightarrow> unat (i + 1) = Suc (unat i)"
proof -
  assume "i < - 1"
  then have "1 + i \<noteq> 0" by (metis add.commute add_eq_0_iff less_irrefl)
  then show ?thesis using unatSuc [of i] by (simp add: add.commute)
qed

lemma word_less_inc: "(i::u64) < - 1 \<Longrightarrow> i < i + 1"
  by (simp add: word_less_nat_alt unat_inc)

lemma power_split: "k = m + n \<Longrightarrow> (2::nat) ^ k = 2 ^ m * 2 ^ n"
  by (simp add: power_add)

lemma unat_drop_bit: "unat (drop_bit k (x::'a::len word)) = unat x div 2 ^ k"
  unfolding drop_bit_eq_div [where 'a = nat, symmetric] by (rule unat_drop_bit_eq)

text \<open>Go's \<open>int\<close> and \<open>int64\<close>: results are taken modulo two to the 64th into the signed range.\<close>

definition i64 :: "int \<Rightarrow> int" where
  "i64 x = signed_take_bit 63 x"

lemma i64_add [simp]: "i64 (i64 a + b) = i64 (a + b)" "i64 (a + i64 b) = i64 (a + b)"
  by (metis i64_def signed_take_bit_add signed_take_bit_signed_take_bit min.idem)+

lemma i64_id: "- (2 ^ 63) \<le> x \<Longrightarrow> x < 2 ^ 63 \<Longrightarrow> i64 x = x"
  by (simp add: i64_def signed_take_bit_int_eq_self)

lemma i64_0 [simp]: "i64 0 = 0"
  by (simp add: i64_def)

section \<open>Lists\<close>

lemma take_prefix_concat:
  "take n (a @ b) = (if n < length a then take n a else a @ take (n - length a) b)"
  by simp

lemma sorted_wrt_filter [intro]: "sorted_wrt P xs \<Longrightarrow> sorted_wrt P (filter Q xs)"
  by (induction xs) auto

lemma filter_not_dropWhile: "filter (\<lambda>x. \<not> P x) (dropWhile P xs) = filter (\<lambda>x. \<not> P x) xs"
  by (induction xs) auto

lemma sorted_wrt_insert_mid:
  "sorted_wrt P (xs @ ys) \<Longrightarrow> \<forall>x\<in>set xs. P x a \<Longrightarrow> \<forall>y\<in>set ys. P a y \<Longrightarrow> sorted_wrt P (xs @ a # ys)"
  by (simp add: sorted_wrt_append)

lemma map_of_filter_fst:
  "map_of (filter (\<lambda>(k, v). P k) xs) k = (if P k then map_of xs k else None)"
  by (induction xs) auto

end
