(* ===== verification/Text.thy ===== *)
theory Text
  imports Prelude
begin

text \<open>
  The text routines of the standard library the program relies on: decimal printing
  (\<open>strconv.Itoa\<close>, \<open>fmt\<close>'s zero-padded \<open>%0nd\<close>), \<open>strconv.ParseUint\<close>, \<open>strings.Split\<close> on a
  one-character separator, \<open>strings.TrimSpace\<close> (on ASCII text) and suffix tests.
\<close>

definition digit_char :: "nat \<Rightarrow> char" where
  "digit_char d = char_of (48 + d)"

definition is_digit :: "char \<Rightarrow> bool" where
  "is_digit c \<longleftrightarrow> 48 \<le> (of_char c :: nat) \<and> (of_char c :: nat) \<le> 57"

definition digit_val :: "char \<Rightarrow> nat" where
  "digit_val c = of_char c - 48"

fun dec :: "nat \<Rightarrow> string" where
  "dec n = (if n < 10 then [digit_char n] else dec (n div 10) @ [digit_char (n mod 10)])"

declare dec.simps [simp del]

definition zpad :: "nat \<Rightarrow> string \<Rightarrow> string" where
  "zpad w s = replicate (w - length s) CHR ''0'' @ s"

text \<open>
  \<open>ParseUint(s, 10, 64)\<close> with its error ignored: 0 on a syntax error, the largest value as soon as
  the number leaves 64 bits.
\<close>

fun parse_uint_loop :: "nat \<Rightarrow> string \<Rightarrow> nat" where
  "parse_uint_loop n [] = n"
| "parse_uint_loop n (c # cs) =
     (if \<not> is_digit c then 0
      else let n' = n * 10 + digit_val c in
        if n' \<ge> 2 ^ 64 then 2 ^ 64 - 1 else parse_uint_loop n' cs)"

definition parse_uint :: "string \<Rightarrow> nat" where
  "parse_uint s = (if s = [] then 0 else parse_uint_loop 0 s)"

fun split_on :: "'a \<Rightarrow> 'a list \<Rightarrow> 'a list list" where
  "split_on c [] = [[]]"
| "split_on c (x # xs) =
     (if x = c then [] # split_on c xs
      else case split_on c xs of [] \<Rightarrow> [[x]] | p # ps \<Rightarrow> (x # p) # ps)"

definition is_space :: "char \<Rightarrow> bool" where
  "is_space c \<longleftrightarrow> c \<in> {CHR 0x09, CHR 0x0A, CHR 0x0B, CHR 0x0C, CHR 0x0D, CHR '' ''}"

definition trim_space :: "string \<Rightarrow> string" where
  "trim_space s = rev (dropWhile is_space (rev (dropWhile is_space s)))"

definition has_suffix :: "string \<Rightarrow> string \<Rightarrow> bool" where
  "has_suffix s suf \<longleftrightarrow> length suf \<le> length s \<and> drop (length s - length suf) s = suf"

definition trim_suffix :: "string \<Rightarrow> string \<Rightarrow> string" where
  "trim_suffix s suf = (if has_suffix s suf then take (length s - length suf) s else s)"

definition bytes_string :: "bytes \<Rightarrow> string" where
  "bytes_string bs = map (\<lambda>b. char_of (unat b)) bs"

lemma bytes_string_string_bytes [simp]: "bytes_string (string_bytes s) = s"
proof -
  have "char_of (unat (of_char c :: u8)) = c" for c
  proof -
    have "unat (of_char c :: u8) = unat (of_nat (of_char c) :: u8)" by (simp only: of_nat_of_char)
    also have "\<dots> = of_char c" by (simp add: unat_of_nat)
    finally show ?thesis by simp
  qed
  then show ?thesis by (simp add: bytes_string_def string_bytes_def comp_def)
qed

lemma string_bytes_append [simp]: "string_bytes (s @ t) = string_bytes s @ string_bytes t"
  by (simp add: string_bytes_def)

section \<open>Decimal numbers round-trip\<close>

lemma digit_char: "d < 10 \<Longrightarrow> is_digit (digit_char d) \<and> digit_val (digit_char d) = d"
  by (simp add: is_digit_def digit_val_def digit_char_def)

lemma dec_digits: "\<forall>c\<in>set (dec n). is_digit c"
proof (induction n rule: dec.induct)
  case (1 n)
  then show ?case by (cases "n < 10") (auto simp: dec.simps [of n] digit_char)
qed

lemma dec_not_Nil [simp]: "dec n \<noteq> []"
  by (simp add: dec.simps [of n])

fun dec_value :: "nat \<Rightarrow> string \<Rightarrow> nat" where
  "dec_value n [] = n"
| "dec_value n (c # cs) = dec_value (n * 10 + digit_val c) cs"

lemma dec_value_append: "dec_value n (s @ t) = dec_value (dec_value n s) t"
  by (induction s arbitrary: n) auto

lemma dec_value_dec: "dec_value 0 (dec n) = n"
proof (induction n rule: dec.induct)
  case (1 n)
  then show ?case by (cases "n < 10") (auto simp: dec.simps [of n] dec_value_append digit_char)
qed

lemma dec_value_mono: "n \<le> dec_value n s"
proof (induction s arbitrary: n)
  case (Cons c s)
  have "n \<le> n * 10 + digit_val c" by simp
  also have "\<dots> \<le> dec_value (n * 10 + digit_val c) s" by (rule Cons.IH)
  finally show ?case by simp
qed simp

lemma parse_uint_loop_value:
  "\<forall>c\<in>set s. is_digit c \<Longrightarrow> dec_value n s < 2 ^ 64 \<Longrightarrow> parse_uint_loop n s = dec_value n s"
proof (induction s arbitrary: n)
  case (Cons c s)
  have "n * 10 + digit_val c \<le> dec_value n (c # s)" using dec_value_mono by simp
  with Cons show ?case by (simp add: Let_def)
qed simp

lemma dec_value_zeros: "dec_value 0 (replicate k CHR ''0'') = 0"
  by (induction k) (simp_all add: digit_val_def)

lemma zpad_digits: "\<forall>c\<in>set (zpad w (dec n)). is_digit c"
  using dec_digits by (auto simp: zpad_def is_digit_def)

lemma parse_uint_zpad [codec_simps]:
  assumes "n < 2 ^ 64" shows "parse_uint (zpad w (dec n)) = n"
proof -
  have "dec_value 0 (zpad w (dec n)) = n"
    by (simp add: zpad_def dec_value_append dec_value_zeros dec_value_dec)
  then show ?thesis
    using assms parse_uint_loop_value [OF zpad_digits, of 0 w n] by (simp add: parse_uint_def zpad_def)
qed

lemma dec_inj: "dec m = dec n \<longleftrightarrow> m = n"
  using dec_value_dec by metis

section \<open>Lines\<close>

lemma split_on_line: "c \<notin> set s \<Longrightarrow> split_on c (s @ c # t) = s # split_on c t"
  by (induction s) auto

lemma trim_space_id: "\<forall>c\<in>set s. \<not> is_space c \<Longrightarrow> trim_space s = s"
proof -
  have *: "\<forall>c\<in>set t. \<not> is_space c \<Longrightarrow> dropWhile is_space t = t" for t
    by (cases t) auto
  assume "\<forall>c\<in>set s. \<not> is_space c"
  then show ?thesis by (simp add: trim_space_def *)
qed

lemma trim_suffix_append [simp]: "trim_suffix (s @ suf) suf = s"
  by (simp add: trim_suffix_def has_suffix_def)

lemma has_suffix_append [simp]: "has_suffix (s @ suf) suf"
  by (simp add: has_suffix_def)

lemma digit_not_space: "is_digit c \<Longrightarrow> \<not> is_space c \<and> c \<noteq> CHR 0x0A"
  by (auto simp: is_digit_def is_space_def)

text \<open>Decimal printing of a signed integer (\<open>%d\<close>, \<open>strconv.FormatInt\<close>).\<close>

definition sdec :: "int \<Rightarrow> string" where
  "sdec x = (if x < 0 then CHR ''-'' # dec (nat (- x)) else dec (nat x))"

lemma sdec_inj [simp]: "sdec x = sdec y \<longleftrightarrow> x = y"
proof -
  have "dec n \<noteq> CHR ''-'' # s" for n s using dec_digits [of n] by (auto simp: is_digit_def)
  then show ?thesis by (auto simp: sdec_def dec_inj dest: sym)
qed

end
