(* ===== verification/Sample.thy ===== *)
theory Sample
  imports Text
begin

text \<open>
  A plain self-delimiting encoding of numbers, strings and byte strings. The encodings of payloads are
  parameters of the models; the witnesses instantiate them with this one.
\<close>

definition enc_nat :: "nat \<Rightarrow> bytes" where
  "enc_nat n = replicate n 1 @ [0]"

definition dec_nat :: "bytes \<Rightarrow> nat \<times> bytes" where
  "dec_nat bs = (length (takeWhile ((=) 1) bs), tl (dropWhile ((=) 1) bs))"

definition enc_bytes :: "bytes \<Rightarrow> bytes" where
  "enc_bytes bs = enc_nat (length bs) @ bs"

definition dec_bytes :: "bytes \<Rightarrow> bytes \<times> bytes" where
  "dec_bytes bs = (case dec_nat bs of (n, r) \<Rightarrow> (take n r, drop n r))"

lemma dec_enc [codec_simps]: "dec_nat (enc_nat n @ r) = (n, r)" "dec_bytes (enc_bytes bs @ r) = (bs, r)"
  by (simp_all add: dec_nat_def enc_nat_def dec_bytes_def enc_bytes_def takeWhile_append dropWhile_append)

definition enc_int :: "int \<Rightarrow> bytes" where
  "enc_int i = enc_nat (nat i) @ enc_nat (nat (- i))"

definition dec_int :: "bytes \<Rightarrow> int \<times> bytes" where
  "dec_int bs = (case dec_nat bs of (p, r) \<Rightarrow> case dec_nat r of (m, r1) \<Rightarrow> (int p - int m, r1))"

definition enc_string :: "string \<Rightarrow> bytes" where
  "enc_string s = enc_bytes (string_bytes s)"

definition dec_string :: "bytes \<Rightarrow> string \<times> bytes" where
  "dec_string bs = (case dec_bytes bs of (t, r) \<Rightarrow> (bytes_string t, r))"

lemma dec_enc_more [codec_simps]: "dec_int (enc_int i @ r) = (i, r)" "dec_string (enc_string s @ r) = (s, r)"
  by (simp_all add: dec_int_def enc_int_def dec_string_def enc_string_def codec_simps)

lemma dec_enc_end [codec_simps]: "dec_int (enc_int i) = (i, [])"
  using dec_enc_more(1) [of i "[]"] by simp

end
