(* ===== verification/Codec.thy ===== *)
theory Codec
  imports Prelude
begin

unbundle bit_operations_syntax

text \<open>
  The record codec of the storage engine (\<open>pkg/storage/codec.go\<close>, \<open>types.go\<close>): one framed
  record format shared by the write-ahead log and the tables,
  \<^verbatim>\<open>[payloadLen uvarint][crc32 4B LE][payload]\<close> with
  \<^verbatim>\<open>payload = [keyLen uvarint][key][flags][value]\<close>.
  A buffered reader is the list of bytes it has not read yet; the encoders append, so an
  encoder is the list of the bytes it appends. The standard library's varint and CRC routines are
  written out. Every error return of \<open>decodeRec\<close> is a value of \<open>rd_err\<close>; an out-of-range slice
  expression is the value \<open>Panic\<close>.
\<close>

section \<open>Records (types.go)\<close>

record rec =
  rkey :: bytes
  rval :: bytes
  rtomb :: bool

datatype rd_err =
    EOF              \<comment> \<open>io.EOF: clean end of the stream\<close>
  | UnexpectedEOF    \<comment> \<open>io.ErrUnexpectedEOF: torn tail\<close>
  | ErrCorrupt       \<comment> \<open>storage.ErrCorrupt\<close>
  | ErrOverflow      \<comment> \<open>the varint reader's own overflow error, passed on as it is\<close>
  | ErrRead          \<comment> \<open>an error of the operating system's read call\<close>
  | Panic            \<comment> \<open>a runtime panic (slice bounds)\<close>

section \<open>Varints (encoding/binary)\<close>

function put_uvarint :: "u64 \<Rightarrow> bytes" where
  "put_uvarint v =
     (if v < 128 then [ucast v] else (ucast v OR 128) # put_uvarint (drop_bit 7 v))"
  by pat_completeness auto
termination
  by (relation "measure unat") (auto simp: unat_drop_bit word_less_nat_alt)

declare put_uvarint.simps [simp del]

text \<open>\<open>binary.ReadUvarint\<close>: \<open>i\<close> is the loop counter, \<open>s\<close> the shift, \<open>x\<close> the accumulator.\<close>

fun read_uvarint_loop :: "nat \<Rightarrow> nat \<Rightarrow> u64 \<Rightarrow> bytes \<Rightarrow> rd_err + (u64 \<times> bytes)" where
  "read_uvarint_loop i s x [] = Inl (if i = 0 then EOF else UnexpectedEOF)"
| "read_uvarint_loop i s x (b # bs) =
     (if i \<ge> 10 then Inl ErrOverflow
      else if b < 128 then
        (if i = 9 \<and> b > 1 then Inl ErrOverflow else Inr (x OR push_bit s (ucast b), bs))
      else read_uvarint_loop (Suc i) (s + 7) (x OR push_bit s (ucast (b AND 127))) bs)"

definition read_uvarint :: "bytes \<Rightarrow> rd_err + (u64 \<times> bytes)" where
  "read_uvarint = read_uvarint_loop 0 0 0"

text \<open>
  \<open>binary.Uvarint\<close> on a buffer: the value and the number of bytes read, 0 when the buffer is too
  short, negative on overflow.
\<close>

fun uvarint_loop :: "nat \<Rightarrow> nat \<Rightarrow> u64 \<Rightarrow> bytes \<Rightarrow> u64 \<times> int" where
  "uvarint_loop i s x [] = (0, 0)"
| "uvarint_loop i s x (b # bs) =
     (if i = 10 then (0, - (int i + 1))
      else if b < 128 then
        (if i = 9 \<and> b > 1 then (0, - (int i + 1)) else (x OR push_bit s (ucast b), int i + 1))
      else uvarint_loop (Suc i) (s + 7) (x OR push_bit s (ucast (b AND 127))) bs)"

definition uvarint :: "bytes \<Rightarrow> u64 \<times> int" where
  "uvarint = uvarint_loop 0 0 0"

section \<open>CRC-32 (hash/crc32, IEEE polynomial)\<close>

definition crc_bit :: "u32 \<Rightarrow> u32" where
  "crc_bit c = (if c AND 1 = 1 then drop_bit 1 c XOR 0xEDB88320 else drop_bit 1 c)"

definition crc_byte :: "u32 \<Rightarrow> u8 \<Rightarrow> u32" where
  "crc_byte c b =
     crc_bit (crc_bit (crc_bit (crc_bit (crc_bit (crc_bit (crc_bit (crc_bit (c XOR ucast b))))))))"

definition crc32 :: "bytes \<Rightarrow> u32" where
  "crc32 bs = NOT (foldl crc_byte 0xFFFFFFFF bs)"

section \<open>Fixed-width little-endian words\<close>

definition le32 :: "u32 \<Rightarrow> bytes" where
  "le32 w = [ucast w, ucast (drop_bit 8 w), ucast (drop_bit 16 w), ucast (drop_bit 24 w)]"

fun of_le32 :: "bytes \<Rightarrow> u32" where
  "of_le32 [a, b, c, d] =
     ucast a OR push_bit 8 (ucast b) OR push_bit 16 (ucast c) OR push_bit 24 (ucast d)"
| "of_le32 _ = 0"

section \<open>Encoding and decoding records (codec.go)\<close>

definition maxRecBytes :: u64 where
  "maxRecBytes = 268435456"  \<comment> \<open>1 << 28\<close>

definition payload_of :: "rec \<Rightarrow> bytes" where
  "payload_of r =
     put_uvarint (of_nat (length (rkey r))) @ rkey r @ [if rtomb r then 1 else 0] @ rval r"

definition encodeRec :: "rec \<Rightarrow> bytes" where
  "encodeRec r =
     (let p = payload_of r in put_uvarint (of_nat (length p)) @ le32 (crc32 p) @ p)"

text \<open>
  The bounds check of \<open>decodeRec\<close> is on \<open>uint64\<close> and can wrap around; the slice expression after it
  then panics.
\<close>

definition parse_payload :: "bytes \<Rightarrow> rd_err + rec" where
  "parse_payload p =
     (case uvarint p of (klen, n) \<Rightarrow>
        if n \<le> 0 \<or> of_int n + klen + 1 > (of_nat (length p) :: u64) then Inl ErrCorrupt
        else let a = nat n; e = unat (of_int n + klen :: u64) in
          if e < a \<or> length p \<le> e then Inl Panic
          else Inr \<lparr>rkey = take (e - a) (drop a p),
                    rval = drop (Suc e) p,
                    rtomb = ((p ! e) AND 1 = 1)\<rparr>)"

definition decodeRec :: "bytes \<Rightarrow> rd_err + (rec \<times> bytes)" where
  "decodeRec br =
     (case read_uvarint br of
        Inl e \<Rightarrow> Inl e
      | Inr (plen, br1) \<Rightarrow>
          if plen = 0 \<or> plen > maxRecBytes then Inl ErrCorrupt
          else if length br1 < 4 then Inl UnexpectedEOF
          else let crcb = take 4 br1; br2 = drop 4 br1 in
            if length br2 < unat plen then Inl UnexpectedEOF
            else let payload = take (unat plen) br2 in
              if crc32 payload \<noteq> of_le32 crcb then Inl ErrCorrupt
              else case parse_payload payload of
                  Inl e \<Rightarrow> Inl e
                | Inr r \<Rightarrow> Inr (r, drop (unat plen) br2))"

lemma crc32_check: "crc32 (string_bytes ''123456789'') = 0xCBF43926"
  by code_simp

section \<open>Varints round-trip\<close>

lemma unat_ucast_byte: "unat (ucast (v::u64) :: u8) = unat v mod 256"
  by (simp add: unsigned_ucast_eq take_bit_eq_mod)

lemma ucast_low_byte: "(v::u64) < 128 \<Longrightarrow> ucast (ucast v :: u8) = v"
  by (simp add: word_unat_eq_iff word_less_nat_alt unsigned_ucast_eq take_bit_eq_mod unat_mod)

lemma low_byte_less: "(v::u64) < 128 \<Longrightarrow> (ucast v :: u8) < 128"
  by (simp add: word_less_nat_alt unat_ucast_byte)

lemma low_byte_le1: "unat (v::u64) < 2 \<Longrightarrow> \<not> (1::u8) < ucast v"
  by (simp add: word_less_nat_alt unat_ucast_byte)

lemma cont_byte_ge [simp]: "\<not> (b OR 128 :: u8) < 128"
  using le_word_or1 [of 128 b] by (simp add: not_less)

lemma cont_byte_low: "(ucast ((ucast (v::u64) OR 128 :: u8) AND 127) :: u64) = take_bit 7 v"
proof -
  have m: "(127::u8) = mask 7" by (simp add: mask_eq_exp_minus_1)
  have e: "bit (128::u8) n \<longleftrightarrow> n = 7" for n
    using bit_exp_iff [where 'a = u8, of 7 n] by (auto simp: possible_bit_def)
  show ?thesis
    unfolding m
    by (rule bit_word_eqI) (simp only: bit_unsigned_iff bit_or_iff bit_and_iff bit_mask_iff
        bit_take_bit_iff e possible_bit_word, auto)
qed

lemma push_bit_split7:
  "push_bit s (take_bit 7 v) OR push_bit (s + 7) (drop_bit 7 v) = push_bit s (v :: u64)"
proof (rule bit_word_eqI)
  fix n assume "n < LENGTH(64)"
  moreover have "7 + (n - (s + 7)) = n - s" if "s + 7 \<le> n" using that by arith
  ultimately show "bit (push_bit s (take_bit 7 v) OR push_bit (s + 7) (drop_bit 7 v)) n
      = bit (push_bit s v) n"
    by (cases "s + 7 \<le> n") (auto simp: bit_simps)
qed

lemma read_uvarint_loop_put:
  assumes "i \<le> 9" and "unat v < 2 ^ (64 - 7 * i)"
  shows "read_uvarint_loop i s x (put_uvarint v @ rest) = Inr (x OR push_bit s v, rest)"
  using assms
proof (induction v arbitrary: i s x rule: put_uvarint.induct)
  case (1 v)
  show ?case
  proof (cases "v < 128")
    case True
    moreover have "\<not> (i = 9 \<and> (1::u8) < ucast v)"
      using "1.prems" low_byte_le1 [of v] by auto
    ultimately show ?thesis
      using "1.prems" by (simp add: put_uvarint.simps [of v] low_byte_less ucast_low_byte)
  next
    case False
    then have big: "128 \<le> unat v" by (simp add: word_less_nat_alt)
    have "i \<noteq> 9" using "1.prems" big by auto
    then have i: "Suc i \<le> 9" using "1.prems" by simp
    have pow: "(2::nat) ^ (64 - 7 * i) = 2 ^ (64 - 7 * Suc i) * 2 ^ 7"
      using i by (intro power_split) arith
    have "unat (drop_bit 7 v) < 2 ^ (64 - 7 * Suc i)"
      using "1.prems" unfolding pow by (simp add: unat_drop_bit less_mult_imp_div_less)
    with "1.IH" [OF False i, of "s + 7" "x OR push_bit s (take_bit 7 v)"] False i
    show ?thesis
      by (simp add: put_uvarint.simps [of v] cont_byte_low push_bit_split7 or.assoc)
  qed
qed

lemma read_uvarint_put [codec_simps]: "read_uvarint (put_uvarint v @ rest) = Inr (v, rest)"
  using read_uvarint_loop_put [of 0 v 0 0 rest] unat_u64_less [of v] by (simp add: read_uvarint_def)

lemma put_uvarint_not_Nil [simp]: "put_uvarint v \<noteq> []"
  by (subst put_uvarint.simps) simp

lemma length_put_uvarint_pos [simp]: "0 < length (put_uvarint v)"
  by simp

text \<open>Reading a strict prefix of a varint: a clean end only before the first byte.\<close>

lemma read_uvarint_loop_torn:
  assumes "i \<le> 9" and "unat v < 2 ^ (64 - 7 * i)" and "n < length (put_uvarint v)"
  shows "read_uvarint_loop i s x (take n (put_uvarint v))
    = Inl (if i = 0 \<and> n = 0 then EOF else UnexpectedEOF)"
  using assms
proof (induction v arbitrary: i s x n rule: put_uvarint.induct)
  case (1 v)
  show ?case
  proof (cases n)
    case 0
    then show ?thesis by simp
  next
    case (Suc m)
    with "1.prems" have nv: "\<not> v < 128" by (auto simp: put_uvarint.simps [of v])
    then have big: "128 \<le> unat v" by (simp add: word_less_nat_alt)
    have "i \<noteq> 9" using "1.prems" big by auto
    then have i: "Suc i \<le> 9" using "1.prems" by simp
    have pow: "(2::nat) ^ (64 - 7 * i) = 2 ^ (64 - 7 * Suc i) * 2 ^ 7"
      using i by (intro power_split) arith
    have "unat (drop_bit 7 v) < 2 ^ (64 - 7 * Suc i)"
      using "1.prems" unfolding pow by (simp add: unat_drop_bit less_mult_imp_div_less)
    with "1.IH" [OF nv i, of m "s + 7" "x OR push_bit s (take_bit 7 v)"] nv i Suc "1.prems"
    show ?thesis
      by (simp add: put_uvarint.simps [of v] cont_byte_low)
  qed
qed

lemma read_uvarint_torn:
  "n < length (put_uvarint v) \<Longrightarrow>
   read_uvarint (take n (put_uvarint v)) = Inl (if n = 0 then EOF else UnexpectedEOF)"
  using read_uvarint_loop_torn [of 0 v n 0 0] unat_u64_less [of v] by (simp add: read_uvarint_def)

text \<open>The buffer version reads what the stream version reads and reports its length.\<close>

lemma uvarint_loop_put:
  assumes "i \<le> 9" and "unat v < 2 ^ (64 - 7 * i)"
  shows "uvarint_loop i s x (put_uvarint v @ rest)
    = (x OR push_bit s v, int i + int (length (put_uvarint v)))"
  using assms
proof (induction v arbitrary: i s x rule: put_uvarint.induct)
  case (1 v)
  show ?case
  proof (cases "v < 128")
    case True
    moreover have "\<not> (i = 9 \<and> (1::u8) < ucast v)"
      using "1.prems" low_byte_le1 [of v] by auto
    ultimately show ?thesis
      using "1.prems" by (simp add: put_uvarint.simps [of v] low_byte_less ucast_low_byte)
  next
    case False
    then have big: "128 \<le> unat v" by (simp add: word_less_nat_alt)
    have "i \<noteq> 9" using "1.prems" big by auto
    then have i: "Suc i \<le> 9" using "1.prems" by simp
    have pow: "(2::nat) ^ (64 - 7 * i) = 2 ^ (64 - 7 * Suc i) * 2 ^ 7"
      using i by (intro power_split) arith
    have "unat (drop_bit 7 v) < 2 ^ (64 - 7 * Suc i)"
      using "1.prems" unfolding pow by (simp add: unat_drop_bit less_mult_imp_div_less)
    with "1.IH" [OF False i, of "s + 7" "x OR push_bit s (take_bit 7 v)"] False i
    show ?thesis
      by (simp add: put_uvarint.simps [of v] cont_byte_low push_bit_split7 or.assoc)
  qed
qed

lemma uvarint_put [codec_simps]:
  "uvarint (put_uvarint v @ rest) = (v, int (length (put_uvarint v)))"
  using uvarint_loop_put [of 0 v 0 0 rest] unat_u64_less [of v] by (simp add: uvarint_def)

lemma length_put_uvarint_le: "unat v < 2 ^ (7 * Suc k) \<Longrightarrow> length (put_uvarint v) \<le> Suc k"
proof (induction k arbitrary: v)
  case 0
  then show ?case by (simp add: put_uvarint.simps [of v] word_less_nat_alt)
next
  case (Suc k)
  have "(2::nat) ^ (7 * Suc (Suc k)) = 2 ^ (7 * Suc k) * 2 ^ 7"
    by (intro power_split) simp
  then have "unat (drop_bit 7 v) < 2 ^ (7 * Suc k)"
    using Suc.prems by (simp add: unat_drop_bit less_mult_imp_div_less)
  from Suc.IH [OF this] show ?case by (simp add: put_uvarint.simps [of v])
qed

lemma length_put_uvarint_bound: "length (put_uvarint v) \<le> 10"
  using length_put_uvarint_le [of v 9] unat_u64_less [of v]
  by (simp add: less_le_trans [of _ "2 ^ 64"])

section \<open>Little-endian words round-trip\<close>

lemma length_le32 [simp]: "length (le32 w) = 4"
  by (simp add: le32_def)

lemma of_le32_le32 [codec_simps]: "of_le32 (le32 w) = w"
  unfolding le32_def of_le32.simps
proof (rule bit_word_eqI)
  fix n assume "n < LENGTH(32)"
  then consider "n < 8" | "8 \<le> n" "n < 16" | "16 \<le> n" "n < 24" | "24 \<le> n" "n < 32" by force
  then show "bit (ucast (ucast w :: u8) OR push_bit 8 (ucast (ucast (drop_bit 8 w) :: u8)) OR
      push_bit 16 (ucast (ucast (drop_bit 16 w) :: u8)) OR
      push_bit 24 (ucast (ucast (drop_bit 24 w) :: u8)) :: u32) n = bit w n"
    by cases (auto simp: bit_simps)
qed

section \<open>Records round-trip\<close>

text \<open>
  The encoder checks no bound; the decoder refuses payloads above \<open>maxRecBytes\<close>. A record the
  decoder can read back is one whose payload fits.
\<close>

definition rec_fits :: "rec \<Rightarrow> bool" where
  "rec_fits r \<longleftrightarrow> length (payload_of r) \<le> 268435456"

lemma payload_of_not_Nil [simp]: "payload_of r \<noteq> []"
  by (simp add: payload_of_def)

lemma payload_of_length:
  "length (payload_of r) =
     length (put_uvarint (of_nat (length (rkey r)))) + length (rkey r) + 1 + length (rval r)"
  by (simp add: payload_of_def)

lemma rec_fits_key: "rec_fits r \<Longrightarrow> length (rkey r) < 268435456"
  using payload_of_length [of r] length_put_uvarint_pos [of "of_nat (length (rkey r))"]
  unfolding rec_fits_def by linarith

lemma parse_payload_of [codec_simps]:
  assumes "rec_fits r"
  shows "parse_payload (payload_of r) = Inr r"
proof -
  let ?u = "put_uvarint (of_nat (length (rkey r)))"
  let ?n = "length ?u" and ?k = "length (rkey r)"
  have kb: "?k < 268435456" using assms by (rule rec_fits_key)
  have nb: "?n \<le> 10" by (rule length_put_uvarint_bound)
  have pb: "length (payload_of r) \<le> 268435456" using assms by (simp add: rec_fits_def)
  have len: "length (payload_of r) = ?n + ?k + 1 + length (rval r)"
    by (rule payload_of_length)
  have uv: "uvarint (payload_of r) = (of_nat ?k, int ?n)"
    by (simp add: payload_of_def codec_simps)
  have e: "unat (of_nat ?n + of_nat ?k :: u64) = ?n + ?k"
    using kb nb by (simp flip: of_nat_add)
  have e1': "(of_nat ?n + of_nat ?k + 1 :: u64) = of_nat (?n + ?k + 1)" by simp
  have e1: "unat (of_nat ?n + of_nat ?k + 1 :: u64) = ?n + ?k + 1"
    unfolding e1' using kb nb by (intro unat_of_nat_u64) simp
  have fit: "\<not> (of_nat ?n + of_nat ?k + 1 > (of_nat (length (payload_of r)) :: u64))"
  proof -
    have "unat (of_nat (length (payload_of r)) :: u64) = length (payload_of r)"
      using pb by (intro unat_of_nat_u64) simp
    then show ?thesis unfolding word_less_nat_alt e1 using len by linarith
  qed
  have nth: "payload_of r ! (?n + ?k) = (if rtomb r then 1 else 0)"
    by (simp add: payload_of_def nth_append)
  have tk: "take ?k (drop ?n (payload_of r)) = rkey r"
    by (simp add: payload_of_def)
  have dr: "drop (Suc (?n + ?k)) (payload_of r) = rval r"
    by (simp add: payload_of_def)
  have n0: "?n \<noteq> 0" by simp
  show ?thesis
    unfolding parse_payload_def uv using fit n0 nth tk dr len
    by (simp add: e del: put_uvarint_not_Nil)
qed

lemma plen_bounds:
  assumes "rec_fits r"
  shows "unat (of_nat (length (payload_of r)) :: u64) = length (payload_of r)"
    and "(of_nat (length (payload_of r)) :: u64) \<noteq> 0"
    and "\<not> (of_nat (length (payload_of r)) :: u64) > maxRecBytes"
proof -
  have "length (payload_of r) \<le> 268435456" using assms by (simp add: rec_fits_def)
  then show u: "unat (of_nat (length (payload_of r)) :: u64) = length (payload_of r)"
    by simp
  show "(of_nat (length (payload_of r)) :: u64) \<noteq> 0"
    using u by (metis length_0_conv payload_of_not_Nil unat_0)
  show "\<not> (of_nat (length (payload_of r)) :: u64) > maxRecBytes"
    using u assms by (simp add: word_less_nat_alt maxRecBytes_def rec_fits_def)
qed

lemma decodeRec_encodeRec [codec_simps]:
  "rec_fits r \<Longrightarrow> decodeRec (encodeRec r @ rest) = Inr (r, rest)"
  by (simp add: decodeRec_def encodeRec_def Let_def plen_bounds codec_simps)

lemma encodeRec_not_Nil [simp]: "encodeRec r \<noteq> []"
  by (simp add: encodeRec_def Let_def)

text \<open>Every strict prefix of a frame reads as a clean end (no byte) or a torn tail.\<close>

lemma decodeRec_torn:
  assumes "rec_fits r" and "n < length (encodeRec r)"
  shows "decodeRec (take n (encodeRec r)) = Inl (if n = 0 then EOF else UnexpectedEOF)"
proof -
  let ?l = "put_uvarint (of_nat (length (payload_of r)))"
  show ?thesis
  proof (cases "n < length ?l")
    case True
    then show ?thesis
      by (simp add: decodeRec_def encodeRec_def Let_def read_uvarint_torn)
  next
    case False
    then have "n \<noteq> 0" using length_put_uvarint_pos [of "of_nat (length (payload_of r))"] by linarith
    with False assms show ?thesis
      by (auto simp: decodeRec_def encodeRec_def Let_def plen_bounds codec_simps)
  qed
qed

text \<open>A record above the bound is written without complaint and refused when it is read.\<close>

lemma decodeRec_oversized:
  assumes "268435456 < length (payload_of r)" and "length (payload_of r) < 2 ^ 64"
  shows "decodeRec (encodeRec r @ rest) = Inl ErrCorrupt"
proof -
  have "(of_nat (length (payload_of r)) :: u64) > maxRecBytes"
    using assms by (simp add: word_less_nat_alt maxRecBytes_def)
  then show ?thesis
    by (simp add: decodeRec_def encodeRec_def Let_def codec_simps)
qed

lemma read_uvarint_loop_shorter:
  "read_uvarint_loop i s x bs = Inr (v, bs') \<Longrightarrow> length bs' < length bs"
  by (induction i s x bs rule: read_uvarint_loop.induct) (force split: if_splits)+

lemma decodeRec_shorter: "decodeRec bs = Inr (r, bs') \<Longrightarrow> length bs' < length bs"
  unfolding decodeRec_def read_uvarint_def
  by (auto split: sum.splits prod.splits if_splits simp: Let_def dest!: read_uvarint_loop_shorter)

end
