(* ===== verification/Wal.thy ===== *)
theory Wal
  imports Codec
begin

text \<open>
  The write-ahead log (\<open>pkg/storage/wal.go\<close>): an append-only file of framed records, replayed from
  its start when the engine opens. The file is its bytes; \<open>None\<close> is a file that does not exist.
  Successful system calls are modelled; a crash in the middle of an append leaves a prefix of it.
\<close>

record wal =
  wfile :: bytes
  wsync :: bool

definition openWAL :: "bytes option \<Rightarrow> bool \<Rightarrow> wal" where
  "openWAL f sync = \<lparr>wfile = (case f of None \<Rightarrow> [] | Some bs \<Rightarrow> bs), wsync = sync\<rparr>"

definition wal_append :: "wal \<Rightarrow> rec \<Rightarrow> wal" where
  "wal_append w r = w\<lparr>wfile := wfile w @ encodeRec r\<rparr>"

definition wal_reset :: "wal \<Rightarrow> wal" where
  "wal_reset w = w\<lparr>wfile := []\<rparr>"

text \<open>
  The replay loop hands each record to \<open>fn\<close> before it reads the next; the model returns the records
  handed over and the error, if the loop ends with one. Torn and corrupt records end it silently.
\<close>

function replay_loop :: "bytes \<Rightarrow> rec list \<times> rd_err option" where
  "replay_loop br =
     (case decodeRec br of
        Inl EOF \<Rightarrow> ([], None)
      | Inl UnexpectedEOF \<Rightarrow> ([], None)
      | Inl ErrCorrupt \<Rightarrow> ([], None)
      | Inl e \<Rightarrow> ([], Some e)
      | Inr (r, br') \<Rightarrow> (case replay_loop br' of (rs, e) \<Rightarrow> (r # rs, e)))"
  by pat_completeness auto
termination
  by (relation "measure length") (auto dest: decodeRec_shorter)

declare replay_loop.simps [simp del]

definition replayWAL :: "bytes option \<Rightarrow> rec list \<times> rd_err option" where
  "replayWAL f = (case f of None \<Rightarrow> ([], None) | Some bs \<Rightarrow> replay_loop bs)"

section \<open>Replay\<close>

definition wal_bytes :: "rec list \<Rightarrow> bytes" where
  "wal_bytes rs = concat (map encodeRec rs)"

lemma wal_bytes_simps [simp]:
  "wal_bytes [] = []" "wal_bytes (r # rs) = encodeRec r @ wal_bytes rs"
  "wal_bytes (rs @ ss) = wal_bytes rs @ wal_bytes ss"
  by (simp_all add: wal_bytes_def)

lemma replay_loop_Nil [simp]: "replay_loop [] = ([], None)"
  by (simp add: replay_loop.simps decodeRec_def read_uvarint_def)

lemma replay_loop_rec [codec_simps]:
  "rec_fits r \<Longrightarrow> replay_loop (encodeRec r @ bs) =
     (case replay_loop bs of (rs, e) \<Rightarrow> (r # rs, e))"
  by (subst replay_loop.simps) (simp add: codec_simps)

lemma replay_loop_append:
  "\<forall>r\<in>set rs. rec_fits r \<Longrightarrow> replay_loop (wal_bytes rs @ bs) =
     (case replay_loop bs of (ss, e) \<Rightarrow> (rs @ ss, e))"
  by (induction rs) (auto simp: codec_simps split: prod.splits)

lemma replay_wal_bytes [codec_simps]:
  "\<forall>r\<in>set rs. rec_fits r \<Longrightarrow> replay_loop (wal_bytes rs) = (rs, None)"
  using replay_loop_append [of rs "[]"] by simp

text \<open>
  A log cut at any byte: the records whose frames are complete, in order, and nothing else.
  \<open>complete\<close> counts them.
\<close>

fun complete :: "nat \<Rightarrow> rec list \<Rightarrow> nat" where
  "complete n [] = 0"
| "complete n (r # rs) =
     (if length (encodeRec r) \<le> n then Suc (complete (n - length (encodeRec r)) rs) else 0)"

lemma replay_torn:
  "\<forall>r\<in>set rs. rec_fits r \<Longrightarrow>
   replay_loop (take n (wal_bytes rs)) = (take (complete n rs) rs, None)"
proof (induction rs arbitrary: n)
  case Nil
  then show ?case by simp
next
  case (Cons r rs)
  show ?case
  proof (cases "length (encodeRec r) \<le> n")
    case True
    with Cons show ?thesis by (simp add: codec_simps)
  next
    case False
    then have "decodeRec (take n (encodeRec r)) = Inl (if n = 0 then EOF else UnexpectedEOF)"
      using Cons.prems by (intro decodeRec_torn) auto
    with False show ?thesis by (subst replay_loop.simps) simp
  qed
qed

lemma complete_append:
  "length (wal_bytes rs) \<le> n \<Longrightarrow>
   complete n (rs @ ss) = length rs + complete (n - length (wal_bytes rs)) ss"
  by (induction rs arbitrary: n) auto

lemma replay_append_torn:
  assumes "\<forall>r\<in>set rs. rec_fits r" and "rec_fits r"
  shows "replay_loop (wal_bytes rs @ take n (encodeRec r)) =
    (if length (encodeRec r) \<le> n then rs @ [r] else rs, None)"
proof (cases "length (encodeRec r) \<le> n")
  case True
  with assms replay_wal_bytes [of "rs @ [r]"] show ?thesis by simp
next
  case False
  with assms replay_torn [of "[r]" n] show ?thesis
    by (simp add: replay_loop_append)
qed

text \<open>\<^bold>\<open>C19\<close> Torn-tail recovery: however many bytes of the log a crash leaves, replaying it yields
  a prefix of the records written, in order, with every completely written record and no error.\<close>

theorem wal_crash_replay:
  assumes "\<forall>r\<in>set rs. rec_fits r"
  shows "replayWAL (Some (take n (wfile (fold (\<lambda>r w. wal_append w r) rs (openWAL None s)))))
    = (take (complete n rs) rs, None)"
proof -
  have "wfile (fold (\<lambda>r w. wal_append w r) rs w) = wfile w @ wal_bytes rs" for w
    by (induction rs arbitrary: w) (simp_all add: wal_append_def)
  then show ?thesis using replay_torn [OF assms] by (simp add: replayWAL_def openWAL_def)
qed

theorem wal_crash_replay_witness:
  "replayWAL (Some (take 3 (wfile (fold (\<lambda>r w. wal_append w r)
      [\<lparr>rkey = [1], rval = [7, 8], rtomb = False\<rparr>, \<lparr>rkey = [2], rval = [], rtomb = True\<rparr>] (openWAL None True)))))
    = (take (complete 3 [\<lparr>rkey = [1], rval = [7, 8], rtomb = False\<rparr>, \<lparr>rkey = [2], rval = [], rtomb = True\<rparr>])
        [\<lparr>rkey = [1], rval = [7, 8], rtomb = False\<rparr>, \<lparr>rkey = [2], rval = [], rtomb = True\<rparr>], None)"
  by (rule wal_crash_replay) (simp add: rec_fits_def payload_of_def put_uvarint.simps)

end
