(* ===== verification/Bloom.thy ===== *)
theory Bloom
  imports Codec
begin

unbundle bit_operations_syntax

text \<open>
  The Bloom filter of a table (\<open>pkg/storage/bloom.go\<close>): FNV-1a, double hashing on the two 32-bit
  halves of the hash, one byte array of bits. \<open>uint32(nbits)\<close> wraps around, and a zero modulus is
  Go's division panic, the value \<open>None\<close> or \<open>Inl Panic\<close>.
\<close>

record bloom =
  bk :: u8
  bbits :: bytes

definition bloomHash :: "bytes \<Rightarrow> u64" where
  "bloomHash b = foldl (\<lambda>h c. (h XOR ucast c) * 1099511628211) 14695981039346656037 b"

definition bloom_pos :: "u64 \<Rightarrow> nat \<Rightarrow> u32 \<Rightarrow> nat" where
  "bloom_pos h i nbits =
     (let h1 = (ucast h :: u32); h2 = (ucast (drop_bit 32 h) :: u32) OR 1
      in unat ((h1 + of_nat i * h2) mod nbits))"

definition bloom_set :: "bytes \<Rightarrow> nat \<Rightarrow> bytes" where
  "bloom_set bs p = bs[p div 8 := bs ! (p div 8) OR push_bit (p mod 8) 1]"

definition bloom_test :: "bytes \<Rightarrow> nat \<Rightarrow> bool" where
  "bloom_test bs p \<longleftrightarrow> bs ! (p div 8) AND push_bit (p mod 8) 1 \<noteq> 0"

text \<open>
  \<open>int(float64(bitsPerKey) * 0.69)\<close>, clamped to 1..30: below 44 bits the product is at least 0.01
  away from an integer and above it the clamp decides, so the integer quotient is exact.
\<close>

definition bloom_k :: "nat \<Rightarrow> nat" where
  "bloom_k bitsPerKey = (let k = bitsPerKey * 69 div 100 in if k < 1 then 1 else if k > 30 then 30 else k)"

definition bloom_nbits :: "nat \<Rightarrow> nat \<Rightarrow> nat" where
  "bloom_nbits nkeys bitsPerKey =
     (let n = nkeys * bitsPerKey; n = (if n < 64 then 64 else n) in (n + 7) div 8 * 8)"

definition newBloom :: "u64 list \<Rightarrow> nat \<Rightarrow> bloom option" where
  "newBloom hashes bitsPerKey =
     (let k = bloom_k bitsPerKey; nbits = bloom_nbits (length hashes) bitsPerKey;
          m = (of_nat nbits :: u32)
      in if m = 0 \<and> hashes \<noteq> [] then None
         else Some \<lparr>bk = of_nat k,
                    bbits = foldl (\<lambda>bs h. foldl (\<lambda>bs i. bloom_set bs (bloom_pos h i m)) bs [0..<k])
                                  (replicate (nbits div 8) 0) hashes\<rparr>)"

definition mayContain :: "bloom \<Rightarrow> u64 \<Rightarrow> rd_err + bool" where
  "mayContain b h =
     (let m = (of_nat (length (bbits b) * 8) :: u32)
      in if m = 0 \<and> bk b \<noteq> 0 then Inl Panic
         else Inr (list_all (\<lambda>i. bloom_test (bbits b) (bloom_pos h i m)) [0..<unat (bk b)]))"

definition bloom_marshal :: "bloom \<Rightarrow> bytes" where
  "bloom_marshal b = bk b # put_uvarint (of_nat (length (bbits b))) @ bbits b"

definition unmarshalBloom :: "bytes \<Rightarrow> rd_err + bloom" where
  "unmarshalBloom buf =
     (if length buf < 2 then Inl ErrCorrupt
      else case uvarint (tl buf) of (nbytes, n) \<Rightarrow>
        if n \<le> 0 \<or> of_nat (length (drop (nat n) (tl buf))) \<noteq> nbytes then Inl ErrCorrupt
        else Inr \<lparr>bk = hd buf, bbits = drop (nat n) (tl buf)\<rparr>)"

section \<open>No false negatives\<close>

lemma length_bloom_set [simp]: "length (bloom_set bs p) = length bs"
  by (simp add: bloom_set_def)

lemma bloom_test_set: "p div 8 < length bs \<Longrightarrow> bloom_test (bloom_set bs p) p"
proof -
  assume "p div 8 < length bs"
  moreover have "(x OR push_bit (p mod 8) 1) AND push_bit (p mod 8) 1 \<noteq> (0::u8)" for x
  proof
    assume "(x OR push_bit (p mod 8) 1) AND push_bit (p mod 8) 1 = (0::u8)"
    then have "\<not> bit ((x OR push_bit (p mod 8) 1) AND push_bit (p mod 8) 1 :: u8) (p mod 8)"
      by (simp only: bit_0_eq bot_apply bot_bool_def not_False_eq_True)
    moreover have "p mod 8 < 8" by simp
    ultimately show False by (simp add: bit_simps)
  qed
  ultimately show ?thesis by (simp add: bloom_set_def bloom_test_def)
qed

lemma bloom_test_mono: "bloom_test bs q \<Longrightarrow> bloom_test (bloom_set bs p) q"
proof -
  assume t: "bloom_test bs q"
  have mono: "(x OR y) AND z \<noteq> 0" if "x AND z \<noteq> 0" for x y z :: u8
  proof
    assume "(x OR y) AND z = 0"
    then have "x AND z = 0"
      by (metis and.assoc and.commute and_zero_eq bit.conj_disj_distrib2 or_eq_0_iff)
    with that show False by contradiction
  qed
  consider "p div 8 = q div 8" "p div 8 < length bs" | "length bs \<le> p div 8" | "p div 8 \<noteq> q div 8"
    by linarith
  then show ?thesis
    using t mono by cases (simp_all add: bloom_set_def bloom_test_def list_update_beyond)
qed

lemma foldl_bloom_length [simp]: "length (foldl (\<lambda>bs i. bloom_set bs (f i)) bs is) = length bs"
  by (induction "is" arbitrary: bs) auto

lemma foldl_bloom_mono:
  "bloom_test bs q \<Longrightarrow> bloom_test (foldl (\<lambda>bs i. bloom_set bs (f i)) bs is) q"
  by (induction "is" arbitrary: bs) (auto simp: bloom_test_mono)

lemma foldl_bloom_sets:
  "i \<in> set is \<Longrightarrow> f i div 8 < length bs \<Longrightarrow>
   bloom_test (foldl (\<lambda>bs i. bloom_set bs (f i)) bs is) (f i)"
  by (induction "is" arbitrary: bs) (auto simp: bloom_test_set foldl_bloom_mono)

lemma foldl2_bloom_length [simp]:
  "length (foldl (\<lambda>bs h. foldl (\<lambda>bs i. bloom_set bs (f h i)) bs is) bs hs) = length bs"
  by (induction hs arbitrary: bs) auto

lemma foldl2_bloom_mono:
  "bloom_test bs q \<Longrightarrow>
   bloom_test (foldl (\<lambda>bs h. foldl (\<lambda>bs i. bloom_set bs (f h i)) bs is) bs hs) q"
  by (induction hs arbitrary: bs) (auto simp: foldl_bloom_mono)

lemma foldl2_bloom_sets:
  "h \<in> set hs \<Longrightarrow> i \<in> set is \<Longrightarrow> f h i div 8 < length bs \<Longrightarrow>
   bloom_test (foldl (\<lambda>bs h. foldl (\<lambda>bs i. bloom_set bs (f h i)) bs is) bs hs) (f h i)"
  by (induction hs arbitrary: bs) (auto simp: foldl_bloom_sets foldl2_bloom_mono)

lemma bloom_k_range: "1 \<le> bloom_k b" "bloom_k b \<le> 30"
  by (auto simp: bloom_k_def Let_def)

lemma bloom_nbits_ge: "64 \<le> bloom_nbits n b" and bloom_nbits_dvd: "bloom_nbits n b div 8 * 8 = bloom_nbits n b"
  by (auto simp: bloom_nbits_def Let_def)

lemma bloom_pos_less:
  assumes "(of_nat n :: u32) \<noteq> 0"
  shows "bloom_pos h i (of_nat n) < n"
proof -
  have "bloom_pos h i (of_nat n) < unat (of_nat n :: u32)"
    using assms unfolding bloom_pos_def Let_def word_less_nat_alt [symmetric]
    by (simp add: word_mod_less_divisor word_neq_0_conv)
  also have "\<dots> \<le> n" by (rule unat_of_nat_le)
  finally show ?thesis .
qed

lemma newBloom_mayContain:
  assumes "newBloom hs b = Some f" and "h \<in> set hs"
  shows "mayContain f h = Inr True"
proof -
  let ?n = "bloom_nbits (length hs) b" and ?k = "bloom_k b"
  let ?m = "of_nat ?n :: u32"
  have m: "?m \<noteq> 0" using assms by (auto simp: newBloom_def Let_def split: if_splits)
  have f: "bbits f = foldl (\<lambda>bs h. foldl (\<lambda>bs i. bloom_set bs (bloom_pos h i ?m)) bs [0..<?k])
      (replicate (?n div 8) 0) hs" and k: "bk f = of_nat ?k"
    using assms by (auto simp: newBloom_def Let_def split: if_splits)
  have len: "length (bbits f) * 8 = ?n"
    by (simp add: f bloom_nbits_dvd)
  have uk: "unat (bk f) = ?k"
    using bloom_k_range [of b] by (simp add: k unat_of_nat)
  have "bloom_test (bbits f) (bloom_pos h i ?m)" if "i < ?k" for i
    unfolding f
    using that assms(2) bloom_pos_less [OF m, of h i] bloom_nbits_dvd [of "length hs" b]
    by (intro foldl2_bloom_sets) auto
  then show ?thesis
    using m by (simp add: mayContain_def Let_def len uk list_all_iff del: of_nat_mult)
qed

lemma newBloom_defined:
  assumes "bloom_nbits (length hs) b < 2 ^ 32"
  obtains f where "newBloom hs b = Some f"
proof -
  have "(of_nat (bloom_nbits (length hs) b) :: u32) \<noteq> 0"
    using assms bloom_nbits_ge [of "length hs" b] unat_of_nat_u32 [OF assms] by force
  with that show ?thesis by (auto simp: newBloom_def Let_def)
qed

lemma newBloom_length:
  "newBloom hs b = Some f \<Longrightarrow> length (bbits f) = bloom_nbits (length hs) b div 8"
  by (auto simp: newBloom_def Let_def split: if_splits)

lemma unmarshal_marshal [codec_simps]:
  assumes "length (bbits b) < 2 ^ 64"
  shows "unmarshalBloom (bloom_marshal b) = Inr b"
  using assms by (simp add: unmarshalBloom_def bloom_marshal_def uvarint_put Suc_le_eq)

text \<open>\<^bold>\<open>C38\<close> A filter built from a table's key hashes, written to the file and read back, never
  denies a key that is in the table.\<close>

theorem bloom_no_false_negative:
  assumes "newBloom hs b = Some f" and "h \<in> set hs" and "length (bbits f) < 2 ^ 64"
  shows "\<exists>g. unmarshalBloom (bloom_marshal f) = Inr g \<and> mayContain g h = Inr True"
  using newBloom_mayContain [OF assms(1,2)] unmarshal_marshal [OF assms(3)] by blast

theorem bloom_no_false_negative_witness:
  "\<exists>f g. newBloom [bloomHash [1, 2], bloomHash [3]] 10 = Some f
    \<and> unmarshalBloom (bloom_marshal f) = Inr g \<and> mayContain g (bloomHash [3]) = Inr True"
proof -
  let ?hs = "[bloomHash [1, 2], bloomHash [3]]"
  have n: "bloom_nbits (length ?hs) 10 = 64" by (simp add: bloom_nbits_def)
  obtain f where f: "newBloom ?hs 10 = Some f"
    by (rule newBloom_defined [of ?hs 10]) (simp_all add: bloom_nbits_def)
  then have "length (bbits f) < 2 ^ 64" using newBloom_length [OF f] unfolding n by simp
  then show ?thesis using bloom_no_false_negative [OF f, of "bloomHash [3]"] f by auto
qed

end
