(* ===== verification/Records.thy ===== *)
theory Records
  imports Codec
begin

text \<open>
  Key-sorted record lists, the specification the layers of the storage engine share: what the
  memtable and a table hold, what an iterator yields and what a lookup returns. The locale
  \<open>sorted_source\<close> is the interface a layer offers to the database: its records, a point lookup and
  a scan from a key.
\<close>

definition rsorted :: "rec list \<Rightarrow> bool" where
  "rsorted rs \<longleftrightarrow> sorted_wrt (\<lambda>a b. rkey a < rkey b) rs"

definition rlookup :: "rec list \<Rightarrow> bytes \<Rightarrow> rec option" where
  "rlookup rs k = find (\<lambda>r. rkey r = k) rs"

definition rfrom :: "bytes \<Rightarrow> rec list \<Rightarrow> rec list" where
  "rfrom k rs = filter (\<lambda>r. k \<le> rkey r) rs"

definition rupsert :: "rec \<Rightarrow> rec list \<Rightarrow> rec list" where
  "rupsert r rs = takeWhile (\<lambda>x. rkey x < rkey r) rs @ r # dropWhile (\<lambda>x. rkey x \<le> rkey r) rs"

lemma rsorted_simps [simp]:
  "rsorted []" "rsorted (r # rs) \<longleftrightarrow> (\<forall>x\<in>set rs. rkey r < rkey x) \<and> rsorted rs"
  by (simp_all add: rsorted_def)

lemma rsorted_append:
  "rsorted (rs @ ss) \<longleftrightarrow> rsorted rs \<and> rsorted ss \<and> (\<forall>r\<in>set rs. \<forall>s\<in>set ss. rkey r < rkey s)"
  by (auto simp: rsorted_def sorted_wrt_append)

lemma rsorted_filter [intro]: "rsorted rs \<Longrightarrow> rsorted (filter P rs)"
  by (auto simp: rsorted_def)

lemma rlookup_simps [simp]:
  "rlookup [] k = None" "rlookup (r # rs) k = (if rkey r = k then Some r else rlookup rs k)"
  by (simp_all add: rlookup_def)

lemma rlookup_append: "rlookup (rs @ ss) k = (case rlookup rs k of None \<Rightarrow> rlookup ss k | Some r \<Rightarrow> Some r)"
  by (induction rs) auto

lemma rlookup_None: "rlookup rs k = None \<longleftrightarrow> (\<forall>r\<in>set rs. rkey r \<noteq> k)"
  by (induction rs) auto

lemma rlookup_SomeD: "rlookup rs k = Some r \<Longrightarrow> r \<in> set rs \<and> rkey r = k"
  by (induction rs) (auto split: if_splits)

lemma rlookup_mem: "rsorted rs \<Longrightarrow> r \<in> set rs \<Longrightarrow> rlookup rs (rkey r) = Some r"
proof (induction rs)
  case (Cons a rs)
  then show ?case by (cases "r = a") (simp, metis less_irrefl rlookup_simps(2) rsorted_simps(2) set_ConsD)
qed simp

lemma rlookup_Some: "rsorted rs \<Longrightarrow> rlookup rs k = Some r \<longleftrightarrow> r \<in> set rs \<and> rkey r = k"
  by (auto dest: rlookup_SomeD simp: rlookup_mem)

lemma rlookup_filter: "rlookup (filter (\<lambda>r. P (rkey r)) rs) k = (if P k then rlookup rs k else None)"
  by (induction rs) auto

lemma rsorted_inj: "rsorted rs \<Longrightarrow> r \<in> set rs \<Longrightarrow> s \<in> set rs \<Longrightarrow> rkey r = rkey s \<Longrightarrow> r = s"
  by (metis rlookup_mem option.inject)

text \<open>A sorted list is determined by its lookups.\<close>

lemma rsorted_map_key: "rsorted rs \<longleftrightarrow> sorted (map rkey rs) \<and> distinct (map rkey rs)"
  unfolding strict_sorted_iff [symmetric] by (simp add: rsorted_def sorted_wrt_map)

lemma rsorted_set_eqI:
  assumes "rsorted rs" "rsorted ss" "set rs = set ss"
  shows "rs = ss"
proof -
  have "map rkey rs = map rkey ss"
    using assms by (intro sorted_distinct_set_unique) (auto simp: rsorted_map_key)
  moreover have "inj_on rkey (set rs \<union> set ss)"
    using assms rsorted_inj [OF assms(2)] by (auto intro!: inj_onI)
  ultimately show ?thesis by (rule map_inj_on)
qed

lemma rsorted_eqI:
  assumes "rsorted rs" "rsorted ss" "\<And>k. rlookup rs k = rlookup ss k"
  shows "rs = ss"
proof (rule rsorted_set_eqI [OF assms(1,2)], rule set_eqI)
  fix r
  have "r \<in> set rs \<longleftrightarrow> rlookup rs (rkey r) = Some r"
    using rlookup_Some [OF assms(1), of "rkey r" r] by simp
  also have "\<dots> \<longleftrightarrow> r \<in> set ss"
    unfolding assms(3) using rlookup_Some [OF assms(2), of "rkey r" r] by simp
  finally show "r \<in> set rs \<longleftrightarrow> r \<in> set ss" .
qed

lemma rfrom_dropWhile: "rsorted rs \<Longrightarrow> dropWhile (\<lambda>r. rkey r < k) rs = rfrom k rs"
proof (induction rs)
  case (Cons r rs)
  show ?case
  proof (cases "rkey r < k")
    case False
    then have "\<forall>x\<in>set rs. k \<le> rkey x" using Cons.prems by (auto simp: not_less)
    then show ?thesis using False by (simp add: rfrom_def not_less)
  qed (use Cons in \<open>simp add: rfrom_def not_less\<close>)
qed (simp add: rfrom_def)

lemma rlookup_rfrom: "rlookup (rfrom k rs) k' = (if k \<le> k' then rlookup rs k' else None)"
  by (simp add: rfrom_def rlookup_filter)

lemma rsorted_rfrom [intro]: "rsorted rs \<Longrightarrow> rsorted (rfrom k rs)"
  by (auto simp: rfrom_def)

lemma rfrom_Nil [simp]: "rfrom [] rs = rs"
  by (simp add: rfrom_def)

lemma rupsert_Cons:
  "rupsert r [] = [r]"
  "rupsert r (x # xs) =
     (if rkey x < rkey r then x # rupsert r xs else if rkey x = rkey r then r # dropWhile (\<lambda>x. rkey x \<le> rkey r) xs else r # x # xs)"
  by (auto simp: rupsert_def)

lemma rsorted_dropWhile: "rsorted (x # xs) \<Longrightarrow> rkey x = k \<Longrightarrow> dropWhile (\<lambda>x. rkey x \<le> k) xs = xs"
  by (cases xs) auto

lemma set_rupsert: "rsorted rs \<Longrightarrow> set (rupsert r rs) = insert r {x \<in> set rs. rkey x \<noteq> rkey r}"
  by (induction rs) (force simp: rupsert_Cons rsorted_dropWhile)+

lemma rsorted_rupsert: "rsorted rs \<Longrightarrow> rsorted (rupsert r rs)"
  by (induction rs) (auto simp: rupsert_Cons rsorted_dropWhile set_rupsert)

lemma rlookup_rupsert:
  "rsorted rs \<Longrightarrow> rlookup (rupsert r rs) k = (if k = rkey r then Some r else rlookup rs k)"
  by (induction rs) (auto simp: rupsert_Cons rsorted_dropWhile rlookup_None)

lemma rsorted_fold_upsert: "rsorted ss \<Longrightarrow> rsorted (fold rupsert rs ss)"
  by (induction rs arbitrary: ss) (simp_all add: rsorted_rupsert)

lemma rlookup_fold_upsert:
  "rsorted ss \<Longrightarrow> rlookup (fold rupsert rs ss) k = rlookup (rev rs @ ss) k"
  by (induction rs arbitrary: ss)
    (auto simp: rlookup_append rsorted_rupsert rlookup_rupsert split: option.splits)

section \<open>The interface of a layer\<close>

locale sorted_source =
  fixes inv :: "'s \<Rightarrow> bool"
    and entries :: "'s \<Rightarrow> rec list"
    and get :: "'s \<Rightarrow> bytes \<Rightarrow> rec option option"
    and scan :: "'s \<Rightarrow> bytes \<Rightarrow> rec list option"
  assumes entries_sorted: "inv s \<Longrightarrow> rsorted (entries s)"
    and get_lookup: "inv s \<Longrightarrow> get s k = Some (rlookup (entries s) k)"
    and scan_from: "inv s \<Longrightarrow> scan s k = Some (rfrom k (entries s))"
begin

text \<open>A point lookup and a scan agree.\<close>

lemma scan_get: "inv s \<Longrightarrow> scan s k = Some rs \<Longrightarrow> k \<le> k' \<Longrightarrow> get s k' = Some (rlookup rs k')"
  by (auto simp: get_lookup scan_from rlookup_rfrom)

lemma scan_sorted: "inv s \<Longrightarrow> scan s k = Some rs \<Longrightarrow> rsorted rs"
  using entries_sorted by (auto simp: scan_from)

end

end
