(* ===== verification/Memtable.thy ===== *)
theory Memtable
  imports Records
begin

text \<open>
  The memtable (\<open>pkg/storage/memtable.go\<close>): a skip list over an explicit heap of nodes. A node is
  its record and its array of next pointers; an address is the node's index in the heap, the head
  has address 0 and nodes are never freed. The generator is the sequence \<open>rnd\<close> of the results of
  \<open>m.rng.Intn(4)\<close> with the number of draws made so far. \<open>None\<close> is a run of the code that does not
  return: a nil dereference, a level beyond a node's array, or a level walked longer than there are
  nodes. The invariant \<open>skip_inv\<close> excludes all three.
\<close>

record skipNode =
  nrec :: rec
  nnext :: "nat option list"

record memtable =
  mheap :: "skipNode list"
  mrng :: nat
  msize :: int
  mn :: nat

definition skipMaxHeight :: nat where
  "skipMaxHeight = 12"

definition newMemtable :: memtable where
  "newMemtable =
     \<lparr>mheap = [\<lparr>nrec = \<lparr>rkey = [], rval = [], rtomb = False\<rparr>, nnext = replicate skipMaxHeight None\<rparr>],
      mrng = 0, msize = 0, mn = 0\<rparr>"

function randomHeight :: "(nat \<Rightarrow> nat) \<Rightarrow> nat \<Rightarrow> nat \<Rightarrow> nat \<times> nat" where
  "randomHeight rnd h pos =
     (if h < skipMaxHeight
      then if rnd pos = 0 then randomHeight rnd (Suc h) (Suc pos) else (h, Suc pos)
      else (h, pos))"
  by pat_completeness auto
termination
  by (relation "measure (\<lambda>(_, h, _). skipMaxHeight - h)") auto

declare randomHeight.simps [simp del]

abbreviation nkey :: "skipNode list \<Rightarrow> nat \<Rightarrow> bytes" where
  "nkey H a \<equiv> rkey (nrec (H ! a))"

abbreviation height :: "skipNode list \<Rightarrow> nat \<Rightarrow> nat" where
  "height H a \<equiv> length (nnext (H ! a))"

text \<open>The inner loop of a search: along level \<open>lvl\<close> while the next key is smaller.\<close>

fun walk_lvl :: "skipNode list \<Rightarrow> bytes \<Rightarrow> nat \<Rightarrow> nat \<Rightarrow> nat \<Rightarrow> nat option" where
  "walk_lvl H k lvl 0 x = None"
| "walk_lvl H k lvl (Suc f) x =
     (if lvl < height H x
      then case nnext (H ! x) ! lvl of
          None \<Rightarrow> Some x
        | Some y \<Rightarrow> if nkey H y < k then walk_lvl H k lvl f y else Some x
      else None)"

text \<open>The outer loop, from level \<open>n - 1\<close> down to 0: the predecessors \<open>prev[0..n-1]\<close>.\<close>

fun descend :: "skipNode list \<Rightarrow> bytes \<Rightarrow> nat \<Rightarrow> nat \<Rightarrow> nat list option" where
  "descend H k 0 x = Some []"
| "descend H k (Suc lvl) x =
     (case walk_lvl H k lvl (length H) x of
        None \<Rightarrow> None
      | Some y \<Rightarrow> (case descend H k lvl y of
            None \<Rightarrow> None
          | Some prev \<Rightarrow> Some (prev @ [y])))"

definition set_next :: "nat \<Rightarrow> nat \<Rightarrow> nat option \<Rightarrow> skipNode list \<Rightarrow> skipNode list" where
  "set_next a lvl v H = H[a := (H ! a)\<lparr>nnext := (nnext (H ! a))[lvl := v]\<rparr>]"

definition link_lvl :: "nat list \<Rightarrow> nat \<Rightarrow> nat \<Rightarrow> skipNode list \<Rightarrow> skipNode list" where
  "link_lvl prev a lvl H =
     set_next (prev ! lvl) lvl (Some a) (set_next a lvl (nnext (H ! (prev ! lvl)) ! lvl) H)"

definition mem_put :: "(nat \<Rightarrow> nat) \<Rightarrow> memtable \<Rightarrow> rec \<Rightarrow> memtable option" where
  "mem_put rnd m r =
     (let H = mheap m;
          ins = (\<lambda>prev. let (h, pos) = randomHeight rnd 1 (mrng m);
                   a = length H;
                   H' = H @ [\<lparr>nrec = r, nnext = replicate h None\<rparr>]
               in m\<lparr>mheap := fold (link_lvl prev a) [0..<h] H', mrng := pos,
                    msize := msize m + int (length (rkey r)) + int (length (rval r)) + 16,
                    mn := mn m + 1\<rparr>)
      in case descend H (rkey r) skipMaxHeight 0 of
           None \<Rightarrow> None
         | Some prev \<Rightarrow>
            (case nnext (H ! (prev ! 0)) ! 0 of
               Some c \<Rightarrow>
                 if nkey H c = rkey r
                 then Some (m\<lparr>msize := msize m + (int (length (rval r)) - int (length (rval (nrec (H ! c))))),
                      mheap := H[c := (H ! c)\<lparr>nrec := (nrec (H ! c))\<lparr>rval := rval r, rtomb := rtomb r\<rparr>\<rparr>]\<rparr>)
                 else Some (ins prev)
             | None \<Rightarrow> Some (ins prev)))"

definition mem_get :: "memtable \<Rightarrow> bytes \<Rightarrow> rec option option" where
  "mem_get m k =
     (case descend (mheap m) k skipMaxHeight 0 of
        None \<Rightarrow> None
      | Some prev \<Rightarrow> Some (case nnext (mheap m ! (prev ! 0)) ! 0 of
            Some c \<Rightarrow> if nkey (mheap m) c = k then Some (nrec (mheap m ! c)) else None
          | None \<Rightarrow> None))"

text \<open>Iterators: \<open>memIter\<close> is the current node; \<open>iterFrom\<close> starts at the first key \<open>\<ge> from\<close>.\<close>

definition mem_iterFrom :: "memtable \<Rightarrow> bytes \<Rightarrow> nat option option" where
  "mem_iterFrom m from =
     map_option (\<lambda>prev. nnext (mheap m ! (prev ! 0)) ! 0) (descend (mheap m) from skipMaxHeight 0)"

definition memIter_next :: "memtable \<Rightarrow> nat option \<Rightarrow> rec option \<times> nat option" where
  "memIter_next m it =
     (case it of None \<Rightarrow> (None, None) | Some a \<Rightarrow> (Some (nrec (mheap m ! a)), nnext (mheap m ! a) ! 0))"

text \<open>The records an iterator yields; the fuel is the number of nodes.\<close>

fun mem_drain :: "memtable \<Rightarrow> nat \<Rightarrow> nat option \<Rightarrow> rec list" where
  "mem_drain m 0 it = []"
| "mem_drain m (Suc f) it =
     (case memIter_next m it of (None, _) \<Rightarrow> [] | (Some r, it') \<Rightarrow> r # mem_drain m f it')"

definition mem_entries :: "memtable \<Rightarrow> rec list" where
  "mem_entries m = mem_drain m (length (mheap m)) (nnext (mheap m ! 0) ! 0)"

section \<open>Chains of next pointers\<close>

fun chain :: "skipNode list \<Rightarrow> nat \<Rightarrow> nat \<Rightarrow> nat list \<Rightarrow> bool" where
  "chain H l x [] \<longleftrightarrow> nnext (H ! x) ! l = None"
| "chain H l x (a # as) \<longleftrightarrow> nnext (H ! x) ! l = Some a \<and> chain H l a as"

definition lev :: "skipNode list \<Rightarrow> nat \<Rightarrow> nat list \<Rightarrow> nat list" where
  "lev H l as = filter (\<lambda>a. l < height H a) as"

text \<open>
  \<open>as\<close> lists the addresses in key order; level \<open>l\<close> links exactly the nodes of \<open>as\<close> that are tall
  enough. A node's array has 1 to 12 entries, the head's has 12.
\<close>

definition skip_inv :: "skipNode list \<Rightarrow> nat list \<Rightarrow> bool" where
  "skip_inv H as \<longleftrightarrow>
     H \<noteq> [] \<and> height H 0 = skipMaxHeight \<and> set as = {1..<length H} \<and> distinct as
     \<and> sorted_wrt (\<lambda>a b. nkey H a < nkey H b) as
     \<and> (\<forall>a\<in>set as. 1 \<le> height H a \<and> height H a \<le> skipMaxHeight)
     \<and> (\<forall>l < skipMaxHeight. chain H l 0 (lev H l as))"

lemma skip_invD:
  assumes "skip_inv H as"
  shows "H \<noteq> []" "height H 0 = skipMaxHeight" "set as = {1..<length H}" "distinct as"
    "sorted_wrt (\<lambda>a b. nkey H a < nkey H b) as"
    "\<And>a. a \<in> set as \<Longrightarrow> 1 \<le> height H a \<and> height H a \<le> skipMaxHeight"
    "\<And>l. l < skipMaxHeight \<Longrightarrow> chain H l 0 (lev H l as)"
    "length as < length H"
proof -
  show "length as < length H"
    using assms distinct_card [of as] by (cases H) (simp_all add: skip_inv_def)
qed (use assms in \<open>auto simp: skip_inv_def\<close>)

lemma chain_append: "chain H l x (xs @ y # ys) \<Longrightarrow> chain H l y ys"
  by (induction xs arbitrary: x) auto

lemma chain_last: "chain H l x (xs @ ys) \<Longrightarrow> chain H l (last (x # xs)) ys"
  by (induction xs arbitrary: x) auto

lemma lev_append [simp]: "lev H l (xs @ ys) = lev H l xs @ lev H l ys"
  by (simp add: lev_def)

lemma set_lev: "set (lev H l as) = {a \<in> set as. l < height H a}"
  by (auto simp: lev_def)

lemma lev_Suc: "lev H (Suc l) as = filter (\<lambda>a. Suc l < height H a) (lev H l as)"
  by (auto simp: lev_def intro: filter_cong)

text \<open>The nodes below a key are a prefix of the order.\<close>

abbreviation below :: "skipNode list \<Rightarrow> bytes \<Rightarrow> nat list \<Rightarrow> nat list" where
  "below H k as \<equiv> takeWhile (\<lambda>a. nkey H a < k) as"

abbreviation above :: "skipNode list \<Rightarrow> bytes \<Rightarrow> nat list \<Rightarrow> nat list" where
  "above H k as \<equiv> dropWhile (\<lambda>a. nkey H a < k) as"

lemma above_ge:
  assumes "sorted_wrt (\<lambda>a b. nkey H a < nkey H b) as" and "a \<in> set (above H k as)"
  shows "k \<le> nkey H a"
  using assms
proof (induction as)
  case (Cons b bs)
  then show ?case by (cases "nkey H b < k") (auto simp: not_less)
qed simp

lemma walk_lvl_chain:
  assumes "chain H l x (xs @ ys)" and "\<forall>a\<in>set xs. nkey H a < k" and "\<forall>a\<in>set ys. k \<le> nkey H a"
    and "\<forall>a\<in>set (x # xs). l < height H a" and "length xs < f"
  shows "walk_lvl H k l f x = Some (last (x # xs))"
  using assms
proof (induction xs arbitrary: x f)
  case Nil
  then obtain g where "f = Suc g" by (cases f) auto
  with Nil show ?case by (cases ys) (auto simp: not_less)
next
  case (Cons a xs)
  then obtain g where "f = Suc g" by (cases f) auto
  with Cons show ?case by auto
qed

definition prev_at :: "skipNode list \<Rightarrow> bytes \<Rightarrow> nat list \<Rightarrow> nat \<Rightarrow> nat" where
  "prev_at H k as l = last (0 # lev H l (below H k as))"

lemma prev_at_split:
  assumes "l' \<le> l"
  shows "prev_at H k as l = 0
    \<or> (\<exists>xs1 xs2. lev H l' (below H k as) = xs1 @ prev_at H k as l # xs2)"
proof (cases "lev H l (below H k as) = []")
  case False
  then have "prev_at H k as l \<in> set (lev H l (below H k as))"
    by (simp add: prev_at_def)
  then have "prev_at H k as l \<in> set (lev H l' (below H k as))"
    using assms by (auto simp: set_lev)
  then show ?thesis by (meson split_list)
qed (simp add: prev_at_def)

lemma walk_from_prev:
  assumes inv: "skip_inv H as" and l: "l < skipMaxHeight"
  shows "walk_lvl H k l (length H) (prev_at H k as (Suc l)) = Some (prev_at H k as l)"
proof -
  let ?x = "prev_at H k as (Suc l)" and ?B = "lev H l (below H k as)" and ?A = "lev H l (above H k as)"
  note D = skip_invD [OF inv]
  have ch: "chain H l 0 (?B @ ?A)"
    using D(7) [OF l] by (simp flip: lev_append)
  have lo: "\<forall>a\<in>set ?B. nkey H a < k \<and> l < height H a"
    by (auto simp: set_lev dest: set_takeWhileD)
  have hi: "\<forall>a\<in>set ?A. k \<le> nkey H a"
    using above_ge [OF D(5)] by (auto simp: set_lev)
  have len: "length ?B < length H"
  proof -
    have "length ?B \<le> length (below H k as)" by (simp add: lev_def)
    also have "\<dots> \<le> length as" by (rule length_takeWhile_le)
    finally show ?thesis using D(8) by simp
  qed
  show ?thesis
  proof (cases "?x = 0")
    case True
    then show ?thesis
      using walk_lvl_chain [OF ch, of k "length H"] lo hi len D(2) l by (simp add: prev_at_def [of H k as l])
  next
    case False
    then obtain xs1 xs2 where 4: "?B = xs1 @ ?x # xs2"
      using prev_at_split [of l "Suc l" H k as] by auto
    have "chain H l ?x (xs2 @ ?A)" using ch chain_append [of H l 0 xs1 ?x] by (simp add: 4)
    moreover have "last (?x # xs2) = prev_at H k as l" using 4 by (simp add: prev_at_def [of H k as l])
    moreover have "length xs2 < length H" using len 4 by simp
    moreover have "\<forall>a\<in>set xs2. nkey H a < k" "\<forall>a\<in>set (?x # xs2). l < height H a"
      using lo unfolding 4 by auto
    ultimately show ?thesis using walk_lvl_chain [of H l ?x xs2 ?A k "length H"] hi by simp
  qed
qed

lemma descend_prevs:
  assumes "skip_inv H as" and "l \<le> skipMaxHeight"
  shows "descend H k l (prev_at H k as l) = Some (map (prev_at H k as) [0..<l])"
  using assms(2)
  by (induction l) (simp_all add: walk_from_prev [OF assms(1)])

lemma prev_at_top:
  assumes "skip_inv H as" shows "prev_at H k as skipMaxHeight = 0"
proof -
  have "a \<notin> set (lev H skipMaxHeight (below H k as))" for a
    using skip_invD(6) [OF assms, of a] by (auto simp: set_lev dest: set_takeWhileD)
  then have "lev H skipMaxHeight (below H k as) = []" by (meson last_in_set)
  then show ?thesis by (simp add: prev_at_def)
qed

text \<open>The search the three operations share: it returns, and \<open>prev[lvl]\<close> is the last smaller node.\<close>

lemma descend_result:
  "skip_inv H as \<Longrightarrow> descend H k skipMaxHeight 0 = Some (map (prev_at H k as) [0..<skipMaxHeight])"
  using descend_prevs [of H as skipMaxHeight k] by (simp add: prev_at_top)

lemma lev_0: "skip_inv H as \<Longrightarrow> set bs \<subseteq> set as \<Longrightarrow> lev H 0 bs = bs"
  using skip_invD(6) [of H as] by (fastforce simp: lev_def filter_id_conv)

lemma prev0_next:
  assumes "skip_inv H as"
  shows "nnext (H ! prev_at H k as 0) ! 0 = (case above H k as of [] \<Rightarrow> None | a # _ \<Rightarrow> Some a)"
proof -
  have "chain H 0 0 (lev H 0 (below H k as) @ lev H 0 (above H k as))"
    using skip_invD(7) [OF assms, of 0] by (simp add: skipMaxHeight_def flip: lev_append)
  then have "chain H 0 (prev_at H k as 0) (lev H 0 (above H k as))"
    unfolding prev_at_def by (rule chain_last)
  moreover have "lev H 0 (above H k as) = above H k as"
    by (rule lev_0 [OF assms]) (auto dest: set_dropWhileD)
  ultimately have "chain H 0 (prev_at H k as 0) (above H k as)" by simp
  then show ?thesis by (cases "above H k as") (simp_all only: chain.simps list.case)
qed

section \<open>Lookups and iterators\<close>

lemma mem_drain_chain:
  "chain (mheap m) 0 x as \<Longrightarrow> length as < f \<Longrightarrow>
   mem_drain m f (nnext (mheap m ! x) ! 0) = map (\<lambda>a. nrec (mheap m ! a)) as"
proof (induction as arbitrary: x f)
  case Nil
  then show ?case by (cases f) (auto simp: memIter_next_def)
next
  case (Cons a as)
  then obtain g where "f = Suc g" by (cases f) auto
  with Cons show ?case by (simp add: memIter_next_def)
qed

lemma entries_order:
  assumes "skip_inv (mheap m) as"
  shows "mem_entries m = map (\<lambda>a. nrec (mheap m ! a)) as"
  unfolding mem_entries_def
  using skip_invD(7) [OF assms, of 0] skip_invD(8) [OF assms] lev_0 [OF assms, of as]
  by (intro mem_drain_chain) (simp_all add: skipMaxHeight_def)

lemma skip_inv_sorted: "skip_inv H as \<Longrightarrow> rsorted (map (\<lambda>a. nrec (H ! a)) as)"
  using skip_invD(5) by (auto simp: rsorted_def sorted_wrt_map)

lemma dropWhile_recs:
  "dropWhile (\<lambda>r. rkey r < k) (map (\<lambda>a. nrec (H ! a)) as)
   = map (\<lambda>a. nrec (H ! a)) (above H k as)"
  by (induction as) auto

lemma rlookup_above:
  assumes "rsorted rs"
  shows "rlookup rs k = (case dropWhile (\<lambda>r. rkey r < k) rs of
      [] \<Rightarrow> None | r # _ \<Rightarrow> if rkey r = k then Some r else None)"
  using assms
proof (induction rs)
  case (Cons a rs)
  consider "rkey a < k" | "rkey a = k" | "k < rkey a" by fastforce
  then show ?case
  proof cases
    case 3
    then have "rlookup rs k = None" using Cons.prems by (force simp: rlookup_None)
    with 3 show ?thesis by auto
  qed (use Cons in auto)
qed simp

lemma rlookup_order:
  assumes "skip_inv (mheap m) as"
  shows "rlookup (mem_entries m) k = (case above (mheap m) k as of
      [] \<Rightarrow> None | a # _ \<Rightarrow> if nkey (mheap m) a = k then Some (nrec (mheap m ! a)) else None)"
  unfolding rlookup_above [OF skip_inv_sorted [OF assms]] entries_order [OF assms] dropWhile_recs
  by (cases "above (mheap m) k as") (simp_all del: dropWhile_eq_Nil_conv)

lemma descend_prev0:
  "skip_inv H as \<Longrightarrow> \<exists>prev. descend H k skipMaxHeight 0 = Some prev \<and> prev ! 0 = prev_at H k as 0"
  by (simp add: descend_result) (simp add: skipMaxHeight_def)

lemma mem_iterFrom_entries:
  assumes "skip_inv (mheap m) as"
  shows "\<exists>it. mem_iterFrom m k = Some it \<and> mem_drain m (length (mheap m)) it = rfrom k (mem_entries m)"
proof -
  let ?H = "mheap m" and ?p = "prev_at (mheap m) k as 0"
  note D = skip_invD [OF assms]
  have "mem_iterFrom m k = Some (nnext (?H ! ?p) ! 0)"
    using descend_prev0 [OF assms, of k] by (auto simp: mem_iterFrom_def)
  moreover have "mem_drain m (length ?H) (nnext (?H ! ?p) ! 0) = map (\<lambda>a. nrec (?H ! a)) (above ?H k as)"
  proof (rule mem_drain_chain)
    have "chain ?H 0 0 (lev ?H 0 (below ?H k as) @ lev ?H 0 (above ?H k as))"
      using D(7) [of 0] by (simp add: skipMaxHeight_def flip: lev_append)
    then show "chain ?H 0 ?p (above ?H k as)"
      using lev_0 [OF assms, of "above ?H k as"] chain_last
      by (fastforce simp: prev_at_def dest: set_dropWhileD)
    show "length (above ?H k as) < length ?H"
      using D(8) length_dropWhile_le [of _ as] by (meson le_less_trans)
  qed
  ultimately show ?thesis
    unfolding entries_order [OF assms] rfrom_dropWhile [OF skip_inv_sorted [OF assms], symmetric]
    by (simp add: dropWhile_recs)
qed

lemma mem_get_entries:
  assumes "skip_inv (mheap m) as"
  shows "mem_get m k = Some (rlookup (mem_entries m) k)"
proof -
  let ?H = "mheap m"
  note D = skip_invD [OF assms]
  have "mem_get m k = Some (case above ?H k as of [] \<Rightarrow> None
      | a # _ \<Rightarrow> if nkey ?H a = k then Some (nrec (?H ! a)) else None)"
    using descend_prev0 [OF assms, of k]
    by (auto simp: mem_get_def prev0_next [OF assms] simp del: dropWhile_eq_Nil_conv split: list.split)
  then show ?thesis by (simp only: rlookup_order [OF assms])
qed

section \<open>Insertion\<close>

lemma randomHeight_range:
  "h \<le> skipMaxHeight \<Longrightarrow> randomHeight rnd h pos = (h', pos') \<Longrightarrow> h \<le> h' \<and> h' \<le> skipMaxHeight"
proof (induction rnd h pos arbitrary: h' pos' rule: randomHeight.induct)
  case (1 rnd h pos)
  then show ?case by (subst (asm) (2) randomHeight.simps) (auto split: if_splits)
qed

lemma chain_cong:
  "\<forall>b\<in>set (x # as). nnext (H' ! b) ! l = nnext (H ! b) ! l \<Longrightarrow> chain H' l x as = chain H l x as"
  by (induction as arbitrary: x) auto

lemma chain_insert:
  assumes "chain H l x (LA @ LB)" and "distinct (x # LA @ LB)" and "a \<notin> set (x # LA @ LB)"
    and "nnext (H' ! a) ! l = nnext (H ! last (x # LA)) ! l"
    and "nnext (H' ! last (x # LA)) ! l = Some a"
    and "\<forall>b\<in>set (x # LA @ LB). b \<noteq> last (x # LA) \<longrightarrow> nnext (H' ! b) ! l = nnext (H ! b) ! l"
  shows "chain H' l x (LA @ a # LB)"
  using assms
proof (induction LA arbitrary: x)
  case Nil
  have "chain H' l a LB"
  proof (cases LB)
    case (Cons b LB')
    have "chain H' l b LB' = chain H l b LB'"
      by (rule chain_cong) (use Nil Cons in auto)
    then show ?thesis using Nil Cons by simp
  qed (use Nil in simp)
  then show ?case using Nil by simp
next
  case (Cons b LA)
  from Cons.prems have "x \<noteq> last (b # LA)"
    by (metis append_is_Nil_conv distinct.simps(2) last_in_set list.distinct(1) set_append Un_iff append_Cons)
  then show ?case using Cons by auto
qed

lemma nth_set_next:
  "a < length H \<Longrightarrow> l < height H a \<Longrightarrow>
   nrec (set_next a l v H ! b) = nrec (H ! b) \<and> height (set_next a l v H) b = height H b
   \<and> nnext (set_next a l v H ! b) ! l' = (if b = a \<and> l' = l then v else nnext (H ! b) ! l')"
  by (auto simp: set_next_def nth_list_update)

lemma length_set_next [simp]: "length (set_next a l v H) = length H"
  by (simp add: set_next_def)

lemma length_link_fold [simp]: "length (fold (link_lvl prev a) ls H) = length H"
  by (induction ls arbitrary: H) (simp_all add: link_lvl_def)

lemma link_fold:
  assumes "\<forall>l<h. prev ! l \<noteq> a \<and> prev ! l < length H \<and> l < height H (prev ! l)"
    and "a < length H" and "height H a = h" and "j \<le> h"
  shows "nrec (fold (link_lvl prev a) [0..<j] H ! b) = nrec (H ! b)
    \<and> height (fold (link_lvl prev a) [0..<j] H) b = height H b
    \<and> nnext (fold (link_lvl prev a) [0..<j] H ! b) ! l
      = (if l < j \<and> b = a then nnext (H ! (prev ! l)) ! l
         else if l < j \<and> b = prev ! l then Some a else nnext (H ! b) ! l)"
  using assms(4)
proof (induction j arbitrary: b l)
  case (Suc j)
  let ?F = "fold (link_lvl prev a) [0..<j] H"
  have IH: "nrec (?F ! b) = nrec (H ! b)" "height ?F b = height H b"
    "nnext (?F ! b) ! l = (if l < j \<and> b = a then nnext (H ! (prev ! l)) ! l
         else if l < j \<and> b = prev ! l then Some a else nnext (H ! b) ! l)" for b l
    using Suc by auto
  let ?p = "prev ! j" and ?G = "set_next a j (nnext (?F ! (prev ! j)) ! j) ?F"
  have p: "?p \<noteq> a" "?p < length ?F" "j < height ?F ?p" and a: "a < length ?F" "j < height ?F a"
    using assms Suc.prems IH(2) by auto
  note G = nth_set_next [OF a, of "nnext (?F ! (prev ! j)) ! j"]
  have p': "?p < length ?G" "j < height ?G ?p"
    using p G by auto
  have "fold (link_lvl prev a) [0..<Suc j] H = set_next ?p j (Some a) ?G"
    using link_lvl_def [of prev a j ?F] by simp
  then show ?case
    using nth_set_next [OF p', of "Some a" b l] G [of b l] IH(1,2) [of b] IH(3) [of b l] IH(3) [of ?p j] p(1)
    by (simp add: less_Suc_eq) auto
qed simp

lemma prev_at_cases:
  assumes "skip_inv H as"
  shows "prev_at H k as l = 0 \<or> prev_at H k as l \<in> set as \<and> l < height H (prev_at H k as l)"
proof (cases "lev H l (below H k as) = []")
  case False
  then have "prev_at H k as l \<in> set (lev H l (below H k as))"
    by (simp add: prev_at_def)
  then show ?thesis by (auto simp: set_lev dest: set_takeWhileD)
qed (simp add: prev_at_def)

lemma prev_at_range:
  assumes "skip_inv H as" and "l < skipMaxHeight"
  shows "prev_at H k as l < length H \<and> l < height H (prev_at H k as l)"
  using prev_at_cases [OF assms(1), of k l] skip_invD(1,2,3) [OF assms(1)] assms(2) by auto

lemma skip_inv_insert:
  fixes h :: nat and "as" :: "nat list" and H :: "skipNode list" and r :: rec
  defines "prev \<equiv> map (prev_at H (rkey r) as) [0..<skipMaxHeight]" and "a \<equiv> length H"
  defines "H' \<equiv> fold (link_lvl prev a) [0..<h] (H @ [\<lparr>nrec = r, nnext = replicate h None\<rparr>])"
    and "as' \<equiv> below H (rkey r) as @ a # above H (rkey r) as"
  assumes inv: "skip_inv H as" and new: "\<forall>b\<in>set as. nkey H b \<noteq> rkey r"
    and h: "1 \<le> h" "h \<le> skipMaxHeight"
  shows "skip_inv H' as' \<and> map (\<lambda>a. nrec (H' ! a)) as'
    = rupsert r (map (\<lambda>a. nrec (H ! a)) as)"
proof -
  let ?k = "rkey r" and ?H1 = "H @ [\<lparr>nrec = r, nnext = replicate h None\<rparr>]"
  note D = skip_invD [OF inv]
  have prev: "\<forall>l<h. prev ! l \<noteq> a \<and> prev ! l < length ?H1 \<and> l < height ?H1 (prev ! l)"
  proof (intro allI impI)
    fix l assume "l < h"
    then show "prev ! l \<noteq> a \<and> prev ! l < length ?H1 \<and> l < height ?H1 (prev ! l)"
      using h prev_at_range [OF inv, of l ?k] by (simp add: prev_def a_def nth_append)
  qed
  have a1: "a < length ?H1" "height ?H1 a = h" by (simp_all add: a_def)
  note F = link_fold [OF prev a1 order.refl, folded H'_def]
  have rec': "nrec (H' ! b) = nrec (H ! b)" "height H' b = height H b" if "b < length H" for b
    using F that by (auto simp: nth_append)
  have reca: "nrec (H' ! a) = r" "height H' a = h"
    using F [of a] by (simp_all add: a_def)
  have inas: "b < length H" "0 < b" if "b \<in> set as" for b
    using D(3) that by auto
  have below: "set (below H ?k as) \<subseteq> set as" and above: "set (above H ?k as) \<subseteq> set as"
    by (auto dest: set_takeWhileD set_dropWhileD)
  have lev': "lev H' l bs = lev H l bs" if "set bs \<subseteq> set as" for l bs
    unfolding lev_def by (rule filter_cong) (use that rec' inas in auto)
  have above_less: "?k < nkey H b" if "b \<in> set (above H ?k as)" for b
  proof -
    have "b \<in> set as" using above that by (rule subsetD)
    then have "nkey H b \<noteq> ?k" using new by blast
    with above_ge [OF D(5) that] show ?thesis by (simp add: order.strict_iff_order)
  qed
  have chains: "chain H' l 0 (lev H' l as')" if l: "l < skipMaxHeight" for l
  proof -
    let ?LA = "lev H l (below H ?k as)" and ?LB = "lev H l (above H ?k as)"
    let ?p = "prev_at H ?k as l"
    have ch: "chain H l 0 (?LA @ ?LB)" using D(7) [OF l] by (simp flip: lev_append)
    have dis: "distinct (0 # ?LA @ ?LB)" and sub: "set (?LA @ ?LB) \<subseteq> set as"
      using D(3,4) below above by (auto simp: lev_def simp flip: filter_append)
    have p: "?p = last (0 # ?LA)" by (simp add: prev_at_def)
    have na: "a \<notin> set (0 # ?LA @ ?LB)" using sub D(1) inas by (auto simp: a_def)
    have inH: "b < length H \<and> b \<noteq> a" if "b \<in> set (0 # ?LA @ ?LB)" for b
      using that sub D(1) inas by (auto simp: a_def)
    show ?thesis
    proof (cases "l < h")
      case True
      have pl: "prev ! l = ?p" using l by (simp add: prev_def)
      have pH: "?p < length H" "?p \<noteq> a" using prev_at_range [OF inv l, of ?k] by (auto simp: a_def)
      have "chain H' l 0 (?LA @ a # ?LB)"
        using ch dis na
      proof (rule chain_insert)
        show "nnext (H' ! a) ! l = nnext (H ! last (0 # ?LA)) ! l"
          unfolding p [symmetric] using F [of a l] True pl pH by (simp add: nth_append)
        show "nnext (H' ! last (0 # ?LA)) ! l = Some a"
          unfolding p [symmetric] using F [of ?p l] True pl pH by simp
        show "\<forall>b\<in>set (0 # ?LA @ ?LB). b \<noteq> last (0 # ?LA) \<longrightarrow> nnext (H' ! b) ! l = nnext (H ! b) ! l"
          unfolding p [symmetric] using F [of _ l] pl inH by (auto simp: nth_append)
      qed
      moreover have "lev H' l as' = ?LA @ a # ?LB"
        using True reca lev' [OF below] lev' [OF above] by (simp add: as'_def) (simp add: lev_def)
      ultimately show ?thesis by simp
    next
      case False
      have "chain H' l 0 (?LA @ ?LB) = chain H l 0 (?LA @ ?LB)"
        by (rule chain_cong) (use F [of _ l] False inH in \<open>auto simp: nth_append\<close>)
      moreover have "lev H' l as' = ?LA @ ?LB"
        using False reca lev' [OF below] lev' [OF above] by (simp add: as'_def) (simp add: lev_def)
      ultimately show ?thesis using ch by simp
    qed
  qed
  have sorted: "sorted_wrt (\<lambda>a b. nkey H' a < nkey H' b) as'"
  proof -
    have "sorted_wrt (\<lambda>a b. nkey H a < nkey H b) (below H ?k as @ above H ?k as)" using D(5) by simp
    then have "sorted_wrt (\<lambda>a b. nkey H' a < nkey H' b) (below H ?k as @ above H ?k as)"
      by (rule sorted_wrt_mono_rel [rotated]) (use rec' inas in \<open>auto simp flip: set_append\<close>)
    then show ?thesis
      unfolding as'_def
    proof (rule sorted_wrt_insert_mid)
      show "\<forall>x\<in>set (below H ?k as). nkey H' x < nkey H' a"
        using reca rec' inas below by (auto dest: set_takeWhileD)
      show "\<forall>y\<in>set (above H ?k as). nkey H' a < nkey H' y"
        using reca rec' inas above above_less by (auto dest: set_dropWhileD)
    qed
  qed
  have "skip_inv H' as'"
    unfolding skip_inv_def
  proof (intro conjI)
    show "set as' = {1..<length H'}"
    proof -
      have "set as' = insert a (set (below H ?k as) \<union> set (above H ?k as))" by (simp add: as'_def)
      also have "\<dots> = insert a (set as)" by (simp flip: set_append)
      finally show ?thesis using D(1,3) by (cases H) (auto simp: a_def H'_def)
    qed
    have "distinct (below H ?k as)" "distinct (above H ?k as)" "set (below H ?k as) \<inter> set (above H ?k as) = {}"
      using D(4) by (metis distinct_append takeWhile_dropWhile_id)+
    moreover have "a \<notin> set as" using inas by (auto simp: a_def)
    ultimately show "distinct as'" using below above by (auto simp: as'_def)
    show "\<forall>b\<in>set as'. 1 \<le> height H' b \<and> height H' b \<le> skipMaxHeight"
      using D(6) inas rec' reca h below above by (auto simp: as'_def)
    have "length H' = Suc (length H)" by (simp add: H'_def)
    then show "H' \<noteq> []" by auto
    show "height H' 0 = skipMaxHeight" using D(1,2) rec' by simp
  qed (use chains sorted in auto)
  moreover have "map (\<lambda>a. nrec (H' ! a)) as' = rupsert r (map (\<lambda>a. nrec (H ! a)) as)"
  proof -
    have "map (\<lambda>a. nrec (H' ! a)) as'
      = map (\<lambda>a. nrec (H ! a)) (below H ?k as) @ r # map (\<lambda>a. nrec (H ! a)) (above H ?k as)"
      using rec' reca inas below above by (auto simp: as'_def)
    moreover have "takeWhile (\<lambda>x. rkey x < ?k) (map (\<lambda>a. nrec (H ! a)) as) = map (\<lambda>a. nrec (H ! a)) (below H ?k as)"
      by (simp add: takeWhile_map comp_def)
    moreover have "dropWhile (\<lambda>x. rkey x \<le> ?k) (map (\<lambda>a. nrec (H ! a)) as) = map (\<lambda>a. nrec (H ! a)) (above H ?k as)"
      using new by (simp add: dropWhile_map comp_def order.order_iff_strict cong: dropWhile_cong)
    ultimately show ?thesis by (simp add: rupsert_def)
  qed
  ultimately show ?thesis ..
qed

section \<open>put\<close>

lemma skip_inv_update:
  assumes inv: "skip_inv H as" and c: "c \<in> set as" and k: "nkey H c = rkey r"
  defines "H' \<equiv> H[c := (H ! c)\<lparr>nrec := (nrec (H ! c))\<lparr>rval := rval r, rtomb := rtomb r\<rparr>\<rparr>]"
  shows "skip_inv H' as \<and> map (\<lambda>a. nrec (H' ! a)) as = rupsert r (map (\<lambda>a. nrec (H ! a)) as)"
proof -
  note D = skip_invD [OF inv]
  have cl: "c < length H" using D(3) c by auto
  have r: "nrec (H' ! c) = r" using cl k by (cases r) (auto simp: H'_def intro!: rec.equality)
  have other: "H' ! b = H ! b" if "b \<noteq> c" for b using that by (simp add: H'_def)
  have nx: "nnext (H' ! b) = nnext (H ! b)" for b
    using cl by (cases "b = c") (simp_all add: H'_def)
  have key: "nkey H' b = nkey H b" for b
    using r k other by (cases "b = c") simp_all
  have "chain H' l x bs = chain H l x bs" for l x bs
    by (rule chain_cong) (simp add: nx)
  moreover have "lev H' l bs = lev H l bs" for l bs by (simp add: lev_def nx)
  moreover have "length H' = length H" "H' \<noteq> []" using D(1) by (simp_all add: H'_def)
  ultimately have inv': "skip_inv H' as"
    using inv by (simp add: skip_inv_def nx key)
  have "map (\<lambda>a. nrec (H' ! a)) as = rupsert r (map (\<lambda>a. nrec (H ! a)) as)"
  proof (rule rsorted_set_eqI)
    show "rsorted (map (\<lambda>a. nrec (H' ! a)) as)" by (rule skip_inv_sorted [OF inv'])
    show "rsorted (rupsert r (map (\<lambda>a. nrec (H ! a)) as))"
      by (rule rsorted_rupsert [OF skip_inv_sorted [OF inv]])
    have "inj_on (\<lambda>a. nkey H a) (set as)"
      using skip_inv_sorted [OF inv] by (simp add: rsorted_map_key distinct_map comp_def)
    then have "(nkey H b \<noteq> rkey r) = (b \<noteq> c)" if "b \<in> set as" for b
      using that c unfolding k [symmetric] by (auto dest: inj_onD)
    then have "{x \<in> set (map (\<lambda>a. nrec (H ! a)) as). rkey x \<noteq> rkey r} = (\<lambda>b. nrec (H ! b)) ` (set as - {c})"
      by auto
    moreover have "set (map (\<lambda>a. nrec (H' ! a)) as) = insert r ((\<lambda>b. nrec (H ! b)) ` (set as - {c}))"
    proof -
      have "set (map (\<lambda>a. nrec (H' ! a)) as) = (\<lambda>a. nrec (H' ! a)) ` insert c (set as - {c})"
        using c by (simp add: insert_absorb)
      also have "\<dots> = insert r ((\<lambda>b. nrec (H' ! b)) ` (set as - {c}))" by (simp only: image_insert r)
      also have "(\<lambda>b. nrec (H' ! b)) ` (set as - {c}) = (\<lambda>b. nrec (H ! b)) ` (set as - {c})"
        by (rule image_cong) (simp_all add: other)
      finally show ?thesis .
    qed
    ultimately show "set (map (\<lambda>a. nrec (H' ! a)) as) = set (rupsert r (map (\<lambda>a. nrec (H ! a)) as))"
      using set_rupsert [OF skip_inv_sorted [OF inv]] by simp
  qed
  with inv' show ?thesis ..
qed

definition rec_bytes :: "rec \<Rightarrow> int" where
  "rec_bytes r = int (length (rkey r)) + int (length (rval r)) + 16"

definition mem_ok :: "memtable \<Rightarrow> bool" where
  "mem_ok m \<longleftrightarrow> (\<exists>as. skip_inv (mheap m) as)
     \<and> mn m = length (mem_entries m) \<and> msize m = sum_list (map rec_bytes (mem_entries m))"

lemma mem_okE:
  assumes "mem_ok m"
  obtains as where "skip_inv (mheap m) as" "mem_entries m = map (\<lambda>a. nrec (mheap m ! a)) as"
  using assms entries_order by (auto simp: mem_ok_def)

lemma sum_rupsert:
  assumes "rsorted rs"
  shows "sum_list (map rec_bytes (rupsert r rs)) =
    sum_list (map rec_bytes rs) + rec_bytes r - (case rlookup rs (rkey r) of None \<Rightarrow> 0 | Some c \<Rightarrow> rec_bytes c)"
    and "length (rupsert r rs) = (case rlookup rs (rkey r) of None \<Rightarrow> Suc (length rs) | Some c \<Rightarrow> length rs)"
proof -
  have none: "rlookup rs' (rkey r) = None" if "\<forall>x\<in>set rs'. rkey a < rkey x" "\<not> rkey a < rkey r" for rs' a
    using that by (force simp: rlookup_None)
  show "sum_list (map rec_bytes (rupsert r rs)) =
    sum_list (map rec_bytes rs) + rec_bytes r - (case rlookup rs (rkey r) of None \<Rightarrow> 0 | Some c \<Rightarrow> rec_bytes c)"
    using assms by (induction rs) (auto simp: rupsert_Cons rsorted_dropWhile none split: option.splits)
  show "length (rupsert r rs) = (case rlookup rs (rkey r) of None \<Rightarrow> Suc (length rs) | Some c \<Rightarrow> length rs)"
    using assms by (induction rs) (auto simp: rupsert_Cons rsorted_dropWhile none split: option.splits)
qed

theorem mem_put_refines:
  assumes ok: "mem_ok m"
  shows "\<exists>m'. mem_put rnd m r = Some m' \<and> mem_ok m' \<and> mem_entries m' = rupsert r (mem_entries m)"
proof -
  let ?H = "mheap m"
  obtain as' where as': "skip_inv ?H as'" and ents: "mem_entries m = map (\<lambda>a. nrec (?H ! a)) as'"
    using ok by (rule mem_okE)
  note D = skip_invD [OF as'] and S = skip_inv_sorted [OF as', folded ents]
  let ?prev = "map (prev_at ?H (rkey r) as') [0..<skipMaxHeight]"
  have desc: "descend ?H (rkey r) skipMaxHeight 0 = Some ?prev" "?prev ! 0 = prev_at ?H (rkey r) as' 0"
    using descend_result [OF as', of "rkey r"] by (simp_all add: skipMaxHeight_def)
  have look: "rlookup (mem_entries m) (rkey r) = (case above ?H (rkey r) as' of
      [] \<Rightarrow> None | a # _ \<Rightarrow> if nkey ?H a = rkey r then Some (nrec (?H ! a)) else None)"
    by (rule rlookup_order [OF as'])
  have fin: ?thesis if "mem_put rnd m r = Some m'" "skip_inv (mheap m') bs"
      "map (\<lambda>a. nrec (mheap m' ! a)) bs = rupsert r (mem_entries m)"
      "mn m' = length (rupsert r (mem_entries m))"
      "msize m' = sum_list (map rec_bytes (rupsert r (mem_entries m)))" for m' bs
  proof -
    have "mem_entries m' = rupsert r (mem_entries m)"
      using entries_order [OF that(2)] that(3) by simp
    with that show ?thesis by (auto simp: mem_ok_def)
  qed
  have ok': "mn m = length (mem_entries m)" "msize m = sum_list (map rec_bytes (mem_entries m))"
    using ok by (simp_all add: mem_ok_def)
  show ?thesis
  proof (cases "rlookup (mem_entries m) (rkey r)")
    case (Some c)
    then obtain a bs where ab: "above ?H (rkey r) as' = a # bs" "nkey ?H a = rkey r" "c = nrec (?H ! a)"
      unfolding look by (auto split: list.splits if_splits)
    have "a \<in> set as'" using ab(1) by (metis list.set_intros(1) set_dropWhileD)
    note U = skip_inv_update [OF as' this ab(2)]
    let ?m' = "m\<lparr>msize := msize m + (int (length (rval r)) - int (length (rval c))),
      mheap := ?H[a := (?H ! a)\<lparr>nrec := (nrec (?H ! a))\<lparr>rval := rval r, rtomb := rtomb r\<rparr>\<rparr>]\<rparr>"
    have "mem_put rnd m r = Some ?m'"
      using ab by (simp add: mem_put_def Let_def desc prev0_next [OF as'])
    then show ?thesis
      by (rule fin [where bs = as']) (use U ab ok' Some sum_rupsert [OF S, of r] in \<open>simp_all add: rec_bytes_def ents [symmetric]\<close>)
  next
    case None
    obtain h pos where hp: "randomHeight rnd 1 (mrng m) = (h, pos)" by fastforce
    then have h: "1 \<le> h" "h \<le> skipMaxHeight"
      using randomHeight_range [of 1 rnd "mrng m" h pos] by (simp_all add: skipMaxHeight_def)
    have new: "\<forall>b\<in>set as'. nkey ?H b \<noteq> rkey r"
      using None by (auto simp: ents rlookup_None)
    have nx: "\<not> (\<exists>a. nnext (?H ! (prev_at ?H (rkey r) as' 0)) ! 0 = Some a \<and> nkey ?H a = rkey r)"
      using None unfolding look prev0_next [OF as']
      by (cases "above ?H (rkey r) as'") (simp_all del: dropWhile_eq_Nil_conv split: if_splits)
    note I = skip_inv_insert [OF as' new h]
    let ?m' = "m\<lparr>mheap := fold (link_lvl ?prev (length ?H)) [0..<h] (?H @ [\<lparr>nrec = r, nnext = replicate h None\<rparr>]),
      mrng := pos, msize := msize m + int (length (rkey r)) + int (length (rval r)) + 16, mn := mn m + 1\<rparr>"
    have "mem_put rnd m r = Some ?m'"
      using nx desc(2) by (auto simp: mem_put_def Let_def desc(1) hp [simplified] split: option.splits)
    then show ?thesis
      by (rule fin [where bs = "below ?H (rkey r) as' @ length ?H # above ?H (rkey r) as'"]) (use I ok' None sum_rupsert [OF S, of r] in \<open>simp_all add: rec_bytes_def ents [symmetric]\<close>)
  qed
qed

lemma newMemtable_ok: "mem_ok newMemtable" "mem_entries newMemtable = []"
proof -
  have "skip_inv (mheap newMemtable) []"
    by (auto simp: skip_inv_def newMemtable_def lev_def)
  from entries_order [OF this] this show "mem_entries newMemtable = []" "mem_ok newMemtable"
    by (auto simp: mem_ok_def newMemtable_def)
qed

section \<open>The memtable is a sorted source\<close>

definition mem_scan :: "memtable \<Rightarrow> bytes \<Rightarrow> rec list option" where
  "mem_scan m from = map_option (mem_drain m (length (mheap m))) (mem_iterFrom m from)"

interpretation mem: sorted_source mem_ok mem_entries mem_get mem_scan
proof unfold_locales
  fix m k assume "mem_ok m"
  then obtain as' where as': "skip_inv (mheap m) as'" "mem_entries m = map (\<lambda>a. nrec (mheap m ! a)) as'"
    by (rule mem_okE)
  show "rsorted (mem_entries m)" using skip_inv_sorted [OF as'(1)] as'(2) by simp
  show "mem_get m k = Some (rlookup (mem_entries m) k)" by (rule mem_get_entries [OF as'(1)])
  show "mem_scan m k = Some (rfrom k (mem_entries m))"
    using mem_iterFrom_entries [OF as'(1), of k] by (auto simp: mem_scan_def)
qed

definition mem_puts :: "(nat \<Rightarrow> nat) \<Rightarrow> rec list \<Rightarrow> memtable option \<Rightarrow> memtable option" where
  "mem_puts rnd rs m = fold (\<lambda>r m. Option.bind m (\<lambda>m. mem_put rnd m r)) rs m"

lemma mem_puts_simps [simp]:
  "mem_puts rnd [] m = m"
  "mem_puts rnd (r # rs) m = mem_puts rnd rs (Option.bind m (\<lambda>m. mem_put rnd m r))"
  by (simp_all add: mem_puts_def)

lemma mem_puts_refines:
  "mem_ok m \<Longrightarrow> \<exists>m'. mem_puts rnd rs (Some m) = Some m' \<and> mem_ok m'
     \<and> mem_entries m' = fold rupsert rs (mem_entries m)"
proof (induction rs arbitrary: m)
  case (Cons r rs)
  from mem_put_refines [OF Cons.prems, of rnd r] Cons.IH show ?case by fastforce
qed simp

text \<open>\<^bold>\<open>C16\<close> The skip list is a sorted map: for every sequence of puts and every outcome of the coin
  flips, no operation runs into a nil pointer or an endless walk, a get returns the last record put
  under the key, and a scan returns exactly the live keys in strictly ascending order.\<close>

theorem memtable_last_write:
  "\<exists>m. mem_puts rnd rs (Some newMemtable) = Some m
     \<and> (\<forall>k. mem_get m k = Some (rlookup (rev rs) k))
     \<and> (\<exists>ss. mem_scan m [] = Some ss \<and> rsorted ss \<and> (\<forall>k. rlookup ss k = rlookup (rev rs) k))"
proof -
  obtain m where m: "mem_puts rnd rs (Some newMemtable) = Some m" "mem_ok m"
    "mem_entries m = fold rupsert rs []"
    using mem_puts_refines [OF newMemtable_ok(1), of rnd rs] newMemtable_ok(2) by auto
  have "rlookup (mem_entries m) k = rlookup (rev rs) k" for k
    unfolding m(3) using rlookup_fold_upsert [of "[]" rs k] by simp
  with m mem.get_lookup [OF m(2)] mem.scan_from [OF m(2), of "[]"] mem.entries_sorted [OF m(2)]
  show ?thesis by auto
qed

end
