(* ===== verification/Merge.thy ===== *)
theory Merge
  imports Records
begin

text \<open>
  The merging iterator and the tombstone filter (\<open>pkg/storage/merge.go\<close>). A source of the
  \<open>iterator\<close> interface is the records it still yields and the error it ends with, if any. The merge
  keeps one pending head per source; source 0 is the newest and wins ties.
\<close>

record source =
  pend :: "rec list"
  fault :: "rd_err option"

definition src_next :: "source \<Rightarrow> rd_err + (rec option \<times> source)" where
  "src_next s =
     (case pend s of
        r # rs \<Rightarrow> Inr (Some r, s\<lparr>pend := rs\<rparr>)
      | [] \<Rightarrow> (case fault s of None \<Rightarrow> Inr (None, s) | Some e \<Rightarrow> Inl e))"

record mergeIter =
  srcs :: "source list"
  heads :: "rec option list"
  mdone :: "bool list"

definition newMergeIter :: "source list \<Rightarrow> mergeIter" where
  "newMergeIter ss =
     \<lparr>srcs = ss, heads = replicate (length ss) None, mdone = replicate (length ss) False\<rparr>"

text \<open>The first loop of \<open>next\<close>: pull a head from every source that has none and is not done.\<close>

fun merge_fill :: "nat list \<Rightarrow> mergeIter \<Rightarrow> rd_err + mergeIter" where
  "merge_fill [] m = Inr m"
| "merge_fill (i # is) m =
     (if heads m ! i = None \<and> \<not> mdone m ! i
      then case src_next (srcs m ! i) of
          Inl e \<Rightarrow> Inl e
        | Inr (None, s) \<Rightarrow> merge_fill is (m\<lparr>srcs := (srcs m)[i := s], mdone := (mdone m)[i := True]\<rparr>)
        | Inr (Some r, s) \<Rightarrow> merge_fill is (m\<lparr>srcs := (srcs m)[i := s], heads := (heads m)[i := Some r]\<rparr>)
      else merge_fill is m)"

text \<open>The second loop: the smallest head, the lowest index among equals. The accumulator is \<open>best\<close>.\<close>

fun merge_best :: "rec option list \<Rightarrow> rec option \<Rightarrow> rec option" where
  "merge_best [] best = best"
| "merge_best (None # hs) best = merge_best hs best"
| "merge_best (Some h # hs) best =
     merge_best hs (case best of None \<Rightarrow> Some h | Some b \<Rightarrow> if rkey h < rkey b then Some h else best)"

definition merge_next :: "mergeIter \<Rightarrow> rd_err + (rec option \<times> mergeIter)" where
  "merge_next m =
     (case merge_fill [0..<length (srcs m)] m of
        Inl e \<Rightarrow> Inl e
      | Inr m \<Rightarrow>
          (case merge_best (heads m) None of
             None \<Rightarrow> Inr (None, m)
           | Some out \<Rightarrow> Inr (Some out, m\<lparr>heads := map (\<lambda>h. case h of
                 None \<Rightarrow> None | Some r \<Rightarrow> if rkey r = rkey out then None else Some r) (heads m)\<rparr>)))"

text \<open>
  \<open>dropTombIter.next\<close> loops over its source until a live record; the fuel bounds the loop, and a
  fuel above the number of pending records is enough (\<open>drop_drain_merge\<close>).
\<close>

fun drop_next :: "nat \<Rightarrow> mergeIter \<Rightarrow> rd_err + (rec option \<times> mergeIter)" where
  "drop_next 0 m = Inr (None, m)"
| "drop_next (Suc f) m =
     (case merge_next m of
        Inl e \<Rightarrow> Inl e
      | Inr (None, m) \<Rightarrow> Inr (None, m)
      | Inr (Some r, m) \<Rightarrow> if rtomb r then drop_next f m else Inr (Some r, m))"

text \<open>Consumers call \<open>next\<close> until it reports the end.\<close>

fun drop_drain :: "nat \<Rightarrow> mergeIter \<Rightarrow> rd_err + rec list" where
  "drop_drain 0 m = Inr []"
| "drop_drain (Suc f) m =
     (case drop_next (Suc f) m of
        Inl e \<Rightarrow> Inl e
      | Inr (None, _) \<Rightarrow> Inr []
      | Inr (Some r, m) \<Rightarrow> (case drop_drain f m of Inl e \<Rightarrow> Inl e | Inr rs \<Rightarrow> Inr (r # rs)))"

section \<open>What is still to come from each source\<close>

definition content :: "mergeIter \<Rightarrow> nat \<Rightarrow> rec list" where
  "content m i = (case heads m ! i of None \<Rightarrow> [] | Some r \<Rightarrow> [r]) @ pend (srcs m ! i)"

definition contents :: "mergeIter \<Rightarrow> rec list list" where
  "contents m = map (content m) [0..<length (srcs m)]"

definition merge_inv :: "mergeIter \<Rightarrow> bool" where
  "merge_inv m \<longleftrightarrow> length (heads m) = length (srcs m) \<and> length (mdone m) = length (srcs m)
     \<and> (\<forall>i<length (srcs m). fault (srcs m ! i) = None
          \<and> (mdone m ! i \<longrightarrow> pend (srcs m ! i) = []))"

lemma contents_new: "contents (newMergeIter ss) = map pend ss"
proof -
  have "content (newMergeIter ss) i = pend (ss ! i)" if "i < length ss" for i
    using that by (simp add: content_def newMergeIter_def)
  then show ?thesis
    by (intro nth_equalityI) (simp_all add: contents_def newMergeIter_def)
qed

lemma merge_inv_new: "\<forall>s\<in>set ss. fault s = None \<Longrightarrow> merge_inv (newMergeIter ss)"
  by (simp add: merge_inv_def newMergeIter_def)

definition filled :: "mergeIter \<Rightarrow> nat \<Rightarrow> bool" where
  "filled m i \<longleftrightarrow> heads m ! i \<noteq> None \<or> pend (srcs m ! i) = []"

lemma filled_head: "filled m i \<Longrightarrow> heads m ! i = (case content m i of [] \<Rightarrow> None | r # _ \<Rightarrow> Some r)"
  by (auto simp: filled_def content_def split: option.splits)

definition fills_to :: "nat set \<Rightarrow> mergeIter \<Rightarrow> mergeIter \<Rightarrow> bool" where
  "fills_to A m m' \<longleftrightarrow> merge_inv m' \<and> length (srcs m') = length (srcs m)
     \<and> (\<forall>j<length (srcs m). content m' j = content m j \<and> (filled m j \<or> j \<in> A \<longrightarrow> filled m' j))"

lemma fills_to_trans: "fills_to {i} m m1 \<Longrightarrow> fills_to A m1 m2 \<Longrightarrow> fills_to (insert i A) m m2"
  by (auto simp: fills_to_def)

lemma merge_fill_step:
  assumes "merge_inv m" and "i < length (srcs m)"
  shows "\<exists>m1. fills_to {i} m m1 \<and> merge_fill (i # is) m = merge_fill is m1"
proof (cases "heads m ! i = None \<and> \<not> mdone m ! i")
  case False
  then have "fills_to {i} m m" using assms by (auto simp: fills_to_def filled_def merge_inv_def)
  with False show ?thesis by (auto intro: exI [of _ m])
next
  case True
  note inv = assms [unfolded merge_inv_def]
  show ?thesis
  proof (cases "pend (srcs m ! i)")
    case Nil
    let ?m = "m\<lparr>srcs := (srcs m)[i := srcs m ! i], mdone := (mdone m)[i := True]\<rparr>"
    have "fills_to {i} m ?m"
      using inv Nil by (auto simp: fills_to_def merge_inv_def filled_def content_def nth_list_update)
    with True Nil inv show ?thesis by (auto simp: src_next_def intro!: exI [of _ ?m])
  next
    case (Cons r rs)
    let ?m = "m\<lparr>srcs := (srcs m)[i := (srcs m ! i)\<lparr>pend := rs\<rparr>], heads := (heads m)[i := Some r]\<rparr>"
    have "fills_to {i} m ?m"
      using inv Cons True
      by (auto simp: fills_to_def merge_inv_def filled_def content_def nth_list_update)
    with True Cons show ?thesis by (auto simp: src_next_def intro!: exI [of _ ?m])
  qed
qed

lemma merge_fill_inv:
  assumes "merge_inv m" and "\<forall>i\<in>set is. i < length (srcs m)"
  shows "\<exists>m'. merge_fill is m = Inr m' \<and> fills_to (set is) m m'"
  using assms
proof (induction "is" arbitrary: m)
  case Nil
  then show ?case by (auto simp: fills_to_def)
next
  case (Cons i "is")
  then obtain m1 where m1: "fills_to {i} m m1" "merge_fill (i # is) m = merge_fill is m1"
    using merge_fill_step by force
  moreover from m1(1) have "merge_inv m1" "length (srcs m1) = length (srcs m)"
    by (simp_all add: fills_to_def)
  ultimately obtain m' where "merge_fill is m1 = Inr m'" "fills_to (set is) m1 m'"
    using Cons.IH [of m1] Cons.prems(2) by auto
  with m1 fills_to_trans show ?case by auto
qed

section \<open>The smallest head is the next record of the merge\<close>

definition present :: "rec option list \<Rightarrow> rec list" where
  "present hs = map the (filter (\<lambda>h. h \<noteq> None) hs)"

lemma present_simps [simp]:
  "present [] = []" "present (None # hs) = present hs" "present (Some h # hs) = h # present hs"
  by (simp_all add: present_def)

lemma merge_best_None: "merge_best hs best = None \<longleftrightarrow> best = None \<and> present hs = []"
  by (induction hs best rule: merge_best.induct) (auto split: option.splits if_splits)

lemma merge_best_Some:
  assumes "merge_best hs best = Some out"
  defines "ps \<equiv> (case best of None \<Rightarrow> [] | Some b \<Rightarrow> [b]) @ present hs"
  shows "rlookup ps (rkey out) = Some out \<and> (\<forall>h\<in>set ps. rkey out \<le> rkey h)"
  using assms(1) unfolding ps_def
proof (induction hs best rule: merge_best.induct)
  case (3 h hs best)
  show ?case
  proof (cases best)
    case None
    with 3 show ?thesis by simp
  next
    case (Some b)
    show ?thesis
    proof (cases "rkey h < rkey b")
      case True
      with 3 Some show ?thesis by auto
    next
      case False
      with 3 Some have "rlookup (b # present hs) (rkey out) = Some out"
        "\<forall>x\<in>set (b # present hs). rkey out \<le> rkey x" by auto
      with False Some show ?thesis by (auto split: if_splits)
    qed
  qed
qed auto

definition head_of :: "rec list \<Rightarrow> rec option" where
  "head_of c = (case c of [] \<Rightarrow> None | r # _ \<Rightarrow> Some r)"

lemma rlookup_heads:
  "\<forall>c\<in>set cs. rsorted c \<Longrightarrow> \<forall>h\<in>set (present (map head_of cs)). k \<le> rkey h \<Longrightarrow>
   rlookup (concat cs) k = rlookup (present (map head_of cs)) k"
proof (induction cs)
  case (Cons c cs)
  show ?case
  proof (cases c)
    case (Cons r rs)
    with Cons.prems have "k \<le> rkey r" "rlookup rs k = None"
      by (force simp: head_of_def rlookup_None)+
    with Cons Cons.IH Cons.prems show ?thesis by (auto simp: head_of_def rlookup_append)
  qed (use Cons in \<open>simp add: head_of_def\<close>)
qed simp

lemma heads_below:
  "\<forall>c\<in>set cs. rsorted c \<Longrightarrow> \<forall>h\<in>set (present (map head_of cs)). k \<le> rkey h \<Longrightarrow>
   \<forall>r\<in>set (concat cs). k \<le> rkey r"
proof (induction cs)
  case (Cons c cs)
  show ?case
  proof (cases c)
    case Nil
    with Cons show ?thesis by (simp add: head_of_def)
  next
    case (Cons r rs)
    with Cons.prems have "k \<le> rkey r" "\<forall>x\<in>set rs. rkey r < rkey x" by (simp_all add: head_of_def)
    then have "\<forall>x\<in>set c. k \<le> rkey x" unfolding Cons by force
    with Cons Cons.IH Cons.prems show ?thesis by (auto simp: head_of_def)
  qed
qed simp

lemma present_head_Nil: "present (map head_of cs) = [] \<longleftrightarrow> concat cs = []"
proof (induction cs)
  case (Cons c cs)
  then show ?case by (cases c) (simp_all add: head_of_def)
qed simp

text \<open>
  One call of \<open>next\<close> on sorted, healthy sources: the end exactly when nothing is left; otherwise the
  smallest key that is left, with the record of its newest source, and every source loses that key.
\<close>

lemma merge_next_spec:
  assumes inv: "merge_inv m" and sorted: "\<forall>c\<in>set (contents m). rsorted c"
  shows "concat (contents m) = [] \<and> (\<exists>m'. merge_next m = Inr (None, m'))
    \<or> (\<exists>out m'. merge_next m = Inr (Some out, m') \<and> merge_inv m'
        \<and> rlookup (concat (contents m)) (rkey out) = Some out
        \<and> (\<forall>r\<in>set (concat (contents m)). rkey out \<le> rkey r)
        \<and> contents m' = map (filter (\<lambda>r. rkey r \<noteq> rkey out)) (contents m))"
proof -
  obtain m1 where m1: "merge_fill [0..<length (srcs m)] m = Inr m1" "fills_to {0..<length (srcs m)} m m1"
    using merge_fill_inv [OF inv, of "[0..<length (srcs m)]"] by auto
  then have inv1: "merge_inv m1" and len1: "length (srcs m1) = length (srcs m)"
    and c1: "contents m1 = contents m" and f1: "\<forall>j<length (srcs m1). filled m1 j"
    by (auto simp: fills_to_def contents_def)
  have heads: "heads m1 = map head_of (contents m)"
    unfolding c1 [symmetric] using inv1 f1
    by (auto simp: contents_def merge_inv_def head_of_def filled_head intro!: nth_equalityI)
  show ?thesis
  proof (cases "merge_best (heads m1) None")
    case None
    then have "present (heads m1) = []" by (simp add: merge_best_None)
    then have "concat (contents m) = []" by (simp only: heads present_head_Nil)
    with m1 None show ?thesis by (simp add: merge_next_def)
  next
    case (Some out)
    let ?drop = "\<lambda>h. case h of None \<Rightarrow> None | Some r \<Rightarrow> if rkey r = rkey out then None else Some r"
    let ?m = "m1\<lparr>heads := map ?drop (heads m1)\<rparr>"
    have best: "rlookup (present (heads m1)) (rkey out) = Some out"
      "\<forall>h\<in>set (present (heads m1)). rkey out \<le> rkey h"
      using merge_best_Some [OF Some] by auto
    have ge: "\<forall>r\<in>set (concat (contents m)). rkey out \<le> rkey r"
      using heads_below [OF sorted] best(2) by (simp add: heads)
    have "contents ?m = map (filter (\<lambda>r. rkey r \<noteq> rkey out)) (contents m1)"
    proof (rule nth_equalityI)
      fix i assume "i < length (contents ?m)"
      then have i: "i < length (srcs m1)" by (simp add: contents_def)
      have hd: "heads m1 ! i = head_of (content m1 i)" using i f1 by (simp add: filled_head head_of_def)
      have srt: "rsorted (content m1 i)"
        using sorted i unfolding c1 [symmetric] by (auto simp: contents_def)
      have ci: "content ?m i = (case ?drop (heads m1 ! i) of None \<Rightarrow> [] | Some r \<Rightarrow> [r]) @ pend (srcs m1 ! i)"
        using i inv1 by (simp add: content_def merge_inv_def)
      have "content ?m i = filter (\<lambda>r. rkey r \<noteq> rkey out) (content m1 i)"
      proof (cases "heads m1 ! i")
        case None
        with i f1 have "pend (srcs m1 ! i) = []" "content m1 i = []"
          by (auto simp: filled_def content_def [of m1])
        with None show ?thesis by (simp add: ci)
      next
        case (Some r)
        then have c: "content m1 i = r # pend (srcs m1 ! i)" by (simp add: content_def)
        have "rkey out \<le> rkey r"
          using ge i unfolding c1 [symmetric] by (auto simp: contents_def c)
        then have "\<forall>x\<in>set (pend (srcs m1 ! i)). rkey x \<noteq> rkey out"
          using srt by (auto simp: c)
        with Some show ?thesis by (simp add: ci c)
      qed
      with i show "contents ?m ! i = map (filter (\<lambda>r. rkey r \<noteq> rkey out)) (contents m1) ! i"
        by (simp add: contents_def)
    qed (simp add: contents_def)
    moreover have "merge_next m = Inr (Some out, ?m)"
      using m1 Some by (simp add: merge_next_def)
    moreover have "merge_inv ?m" using inv1 by (simp add: merge_inv_def)
    moreover have "rlookup (concat (contents m)) (rkey out) = Some out"
      using rlookup_heads [OF sorted] best by (simp add: heads)
    ultimately show ?thesis using ge c1 by auto
  qed
qed

section \<open>The merged view\<close>

text \<open>What the merge stands for: each key's record in the newest source that has it.\<close>

definition merged :: "rec list list \<Rightarrow> rec list" where
  "merged cs = fold rupsert (rev (concat cs)) []"

lemma rsorted_merged [simp]: "rsorted (merged cs)"
  by (simp add: merged_def rsorted_fold_upsert)

lemma rlookup_merged [simp]: "rlookup (merged cs) k = rlookup (concat cs) k"
  by (simp add: merged_def rlookup_fold_upsert)

lemma merged_mem: "r \<in> set (merged cs) \<Longrightarrow> r \<in> set (concat cs)"
  using rlookup_mem [OF rsorted_merged, of r cs] by (auto dest: rlookup_SomeD)

lemma merged_step:
  assumes "rlookup (concat cs) (rkey out) = Some out" and "\<forall>r\<in>set (concat cs). rkey out \<le> rkey r"
  shows "merged cs = out # merged (map (filter (\<lambda>r. rkey r \<noteq> rkey out)) cs)"
    (is "_ = out # merged ?cs")
proof (rule rsorted_eqI)
  have c: "concat ?cs = filter (\<lambda>r. rkey r \<noteq> rkey out) (concat cs)" by (simp add: filter_concat)
  have "rkey out < rkey r" if "r \<in> set (merged ?cs)" for r
    using merged_mem [OF that] assms(2) unfolding c by (auto simp: order.strict_iff_order)
  then show "rsorted (out # merged ?cs)" by simp
  fix k
  show "rlookup (merged cs) k = rlookup (out # merged ?cs) k"
    using assms(1) rlookup_filter [of "\<lambda>k. k \<noteq> rkey out" "concat cs" k] by (auto simp: c)
qed simp

lemma merged_Nil: "concat cs = [] \<Longrightarrow> merged cs = []"
  unfolding merged_def by (erule ssubst) simp

lemma merge_next_merged:
  assumes "merge_inv m" and "\<forall>c\<in>set (contents m). rsorted c"
  shows "merged (contents m) = [] \<and> (\<exists>m'. merge_next m = Inr (None, m'))
    \<or> (\<exists>out m'. merge_next m = Inr (Some out, m') \<and> merge_inv m'
        \<and> (\<forall>c\<in>set (contents m'). rsorted c) \<and> merged (contents m) = out # merged (contents m')
        \<and> length (concat (contents m')) < length (concat (contents m)))"
  using merge_next_spec [OF assms]
proof (elim disjE exE conjE)
  fix out m'
  assume *: "merge_next m = Inr (Some out, m')" "merge_inv m'"
    "rlookup (concat (contents m)) (rkey out) = Some out"
    "\<forall>r\<in>set (concat (contents m)). rkey out \<le> rkey r"
    "contents m' = map (filter (\<lambda>r. rkey r \<noteq> rkey out)) (contents m)"
  have "concat (contents m') = filter (\<lambda>r. rkey r \<noteq> rkey out) (concat (contents m))"
    by (simp add: *(5) filter_concat)
  moreover have "out \<in> set (concat (contents m))" using *(3) by (auto dest: rlookup_SomeD)
  ultimately have "length (concat (contents m')) < length (concat (contents m))"
    using length_filter_less [of out "concat (contents m)" "\<lambda>r. rkey r \<noteq> rkey out"] by simp
  moreover have "\<forall>c\<in>set (contents m'). rsorted c"
    using assms(2) by (auto simp: *(5))
  ultimately show ?thesis using merged_step [OF *(3,4)] * by simp
qed (simp add: merged_Nil)

lemma drop_next_merged:
  assumes "merge_inv m" and "\<forall>c\<in>set (contents m). rsorted c" and "length (concat (contents m)) < f"
  shows "case dropWhile rtomb (merged (contents m)) of
      [] \<Rightarrow> \<exists>m'. drop_next f m = Inr (None, m')
    | r # rs \<Rightarrow> \<exists>m'. drop_next f m = Inr (Some r, m') \<and> merge_inv m'
        \<and> (\<forall>c\<in>set (contents m'). rsorted c) \<and> merged (contents m') = rs
        \<and> length (concat (contents m')) < length (concat (contents m))"
  using assms
proof (induction f arbitrary: m)
  case (Suc f)
  show ?case
    using merge_next_merged [OF Suc.prems(1,2)]
  proof (elim disjE exE conjE)
    fix out m'
    assume *: "merge_next m = Inr (Some out, m')" "merge_inv m'"
      "\<forall>c\<in>set (contents m'). rsorted c" "merged (contents m) = out # merged (contents m')"
      "length (concat (contents m')) < length (concat (contents m))"
    show ?thesis
    proof (cases "rtomb out")
      case False
      with * show ?thesis by simp
    next
      case True
      from * Suc.prems(3) have "length (concat (contents m')) < f" by simp
      note IH = Suc.IH [OF *(2,3) this]
      show ?thesis
      proof (cases "dropWhile rtomb (merged (contents m'))")
        case Nil
        with IH True * show ?thesis by (simp del: dropWhile_eq_Nil_conv)
      next
        case (Cons r rs)
        with IH True * show ?thesis by (auto intro: less_trans)
      qed
    qed
  qed simp
qed simp

text \<open>The merge with the tombstone filter yields the live records of the merged view.\<close>

lemma drop_drain_merge:
  assumes "merge_inv m" and "\<forall>c\<in>set (contents m). rsorted c" and "length (concat (contents m)) < f"
  shows "drop_drain f m = Inr (filter (\<lambda>r. \<not> rtomb r) (merged (contents m)))"
  using assms
proof (induction f arbitrary: m)
  case (Suc f)
  note D = drop_next_merged [OF Suc.prems]
  show ?case
  proof (cases "dropWhile rtomb (merged (contents m))")
    case Nil
    then have "filter (\<lambda>r. \<not> rtomb r) (merged (contents m)) = []" by (auto simp: filter_empty_conv)
    with D Nil show ?thesis by auto
  next
    case (Cons r rs)
    then obtain m' where m': "drop_next (Suc f) m = Inr (Some r, m')" "merge_inv m'"
      "\<forall>c\<in>set (contents m'). rsorted c" "merged (contents m') = rs"
      "length (concat (contents m')) < length (concat (contents m))"
      using D by auto
    have "filter (\<lambda>r. \<not> rtomb r) (merged (contents m)) = filter (\<lambda>r. \<not> rtomb r) (r # rs)"
      unfolding Cons [symmetric] by (rule filter_not_dropWhile [symmetric])
    also have "\<dots> = r # filter (\<lambda>r. \<not> rtomb r) rs"
      using Cons by (metis filter.simps(2) hd_dropWhile list.distinct(1) list.sel(1))
    finally show ?thesis using m' Suc.IH [OF m'(2,3)] Suc.prems(3) by simp
  qed
qed simp

theorem merge_shadows:
  assumes "\<forall>s\<in>set ss. fault s = None \<and> rsorted (pend s)"
  shows "drop_drain (Suc (length (concat (map pend ss)))) (newMergeIter ss)
    = Inr (filter (\<lambda>r. \<not> rtomb r) (merged (map pend ss)))"
  using assms by (subst drop_drain_merge) (auto simp: merge_inv_new contents_new)

end
