(* ===== verification/Sstable.thy ===== *)
theory Sstable
  imports Bloom Merge Wal
begin

unbundle bit_operations_syntax

text \<open>
  The immutable tables (\<open>pkg/storage/sstable.go\<close>), byte for byte: records in key order, the sparse
  index (every 16th key with its offset), the Bloom filter and a 32-byte footer
  \<^verbatim>\<open>indexOff | bloomOff | count | magic\<close>. The builder returns the file it writes;
  \<open>openTable\<close> parses a file; \<open>get\<close> asks the filter, searches the index and scans one slice; iterators
  start at the slice of their first key. The buffered writer and reader are the bytes they carry;
  \<open>int64\<close> conversions of the offsets are \<open>sint\<close>.
\<close>

definition indexInterval :: u64 where "indexInterval = 16"
definition tableMagic :: u64 where "tableMagic = 0x5348415244420001"
definition footerLen :: nat where "footerLen = 32"

definition le64 :: "u64 \<Rightarrow> bytes" where
  "le64 w = le32 (ucast w) @ le32 (ucast (drop_bit 32 w))"

definition of_le64 :: "bytes \<Rightarrow> u64" where
  "of_le64 bs = ucast (of_le32 (take 4 bs)) OR push_bit 32 (ucast (of_le32 (take 4 (drop 4 bs))))"

record indexEntry =
  ikey :: bytes
  ioff :: u64

section \<open>Writing\<close>

text \<open>
  \<open>lastKey\<close> is \<open>None\<close> while it is Go's nil slice: appending an empty key to a nil slice leaves it nil.
\<close>

record tableBuilder =
  bwritten :: bytes
  boff :: u64
  bindex :: "indexEntry list"
  bhashes :: "u64 list"
  bn :: u64
  blast :: "bytes option"

definition newBuilder :: tableBuilder where
  "newBuilder = \<lparr>bwritten = [], boff = 0, bindex = [], bhashes = [], bn = 0, blast = None\<rparr>"

definition builder_add :: "tableBuilder \<Rightarrow> rec \<Rightarrow> rd_err + tableBuilder" where
  "builder_add b r =
     (if (case blast b of Some l \<Rightarrow> rkey r \<le> l | None \<Rightarrow> False) then Inl ErrCorrupt
      else let buf = encodeRec r in
        Inr \<lparr>bwritten = bwritten b @ buf,
             boff = boff b + of_nat (length buf),
             bindex = (if bn b mod indexInterval = 0
                       then bindex b @ [\<lparr>ikey = rkey r, ioff = boff b\<rparr>] else bindex b),
             bhashes = bhashes b @ [bloomHash (rkey r)],
             bn = bn b + 1,
             blast = (if blast b = None \<and> rkey r = [] then None else Some (rkey r))\<rparr>)"

definition index_bytes :: "indexEntry list \<Rightarrow> bytes" where
  "index_bytes ix =
     concat (map (\<lambda>e. put_uvarint (of_nat (length (ikey e))) @ ikey e @ put_uvarint (ioff e)) ix)"

definition builder_finish :: "tableBuilder \<Rightarrow> nat \<Rightarrow> rd_err + bytes" where
  "builder_finish b bitsPerKey =
     (let indexOff = boff b;
          out = put_uvarint (of_nat (length (bindex b))) @ index_bytes (bindex b);
          bloomOff = indexOff + of_nat (length out)
      in case newBloom (bhashes b) bitsPerKey of
           None \<Rightarrow> Inl Panic
         | Some f \<Rightarrow> Inr (bwritten b @ out @ bloom_marshal f
                       @ le64 indexOff @ le64 bloomOff @ le64 (bn b) @ le64 tableMagic))"

fun builder_adds :: "tableBuilder \<Rightarrow> rec list \<Rightarrow> rd_err + tableBuilder" where
  "builder_adds b [] = Inr b"
| "builder_adds b (r # rs) =
     (case builder_add b r of Inl e \<Rightarrow> Inl e | Inr b' \<Rightarrow> builder_adds b' rs)"

text \<open>\<open>it\<close> is what the iterator yields: its records, or the error it ends with.\<close>

definition writeTable :: "rd_err + rec list \<Rightarrow> nat \<Rightarrow> rd_err + bytes" where
  "writeTable it bitsPerKey =
     (case it of Inl e \<Rightarrow> Inl e
      | Inr rs \<Rightarrow> (case builder_adds newBuilder rs of
            Inl e \<Rightarrow> Inl e
          | Inr b \<Rightarrow> builder_finish b bitsPerKey))"

section \<open>Reading\<close>

record sstable =
  tfile :: bytes
  tindexOff :: int
  tcount :: int
  tindex :: "indexEntry list"
  tfilter :: bloom

text \<open>
  \<open>make\<close> panics when the capacity asked for exceeds the address space: 32 bytes per entry, \<open>2\<^sup>48\<close> bytes.
\<close>

fun load_entries :: "nat \<Rightarrow> bytes \<Rightarrow> rd_err + indexEntry list" where
  "load_entries 0 buf = Inr []"
| "load_entries (Suc c) buf =
     (case uvarint buf of (klen, n) \<Rightarrow>
        if n \<le> 0 \<or> length (drop (nat n) buf) < unat klen then Inl ErrCorrupt
        else let key = take (unat klen) (drop (nat n) buf);
                 buf2 = drop (nat n + unat klen) buf
          in case uvarint buf2 of (off, n2) \<Rightarrow>
            if n2 \<le> 0 then Inl ErrCorrupt
            else case load_entries c (drop (nat n2) buf2) of
                Inl e \<Rightarrow> Inl e
              | Inr es \<Rightarrow> Inr (\<lparr>ikey = key, ioff = off\<rparr> # es))"

definition loadIndex :: "bytes \<Rightarrow> rd_err + indexEntry list" where
  "loadIndex buf =
     (case uvarint buf of (cnt, n) \<Rightarrow>
        if n \<le> 0 then Inl ErrCorrupt
        else if unat cnt * 32 > 2 ^ 48 then Inl Panic
        else load_entries (unat cnt) (drop (nat n) buf))"

definition section_bytes :: "bytes \<Rightarrow> int \<Rightarrow> int \<Rightarrow> bytes" where
  "section_bytes f from to = take (nat (to - from)) (drop (nat from) f)"

definition openTable :: "bytes \<Rightarrow> rd_err + sstable" where
  "openTable f =
     (let size = int (length f); footer = drop (length f - footerLen) f in
      if size < int footerLen then Inl ErrCorrupt
      else if of_le64 (drop 24 footer) \<noteq> tableMagic then Inl ErrCorrupt
      else let indexOff = sint (of_le64 (take 8 footer));
               bloomOff = sint (of_le64 (take 8 (drop 8 footer)));
               count = sint (of_le64 (take 8 (drop 16 footer)))
        in if indexOff < 0 \<or> bloomOff < indexOff \<or> bloomOff > size - int footerLen then Inl ErrCorrupt
        else case loadIndex (section_bytes f indexOff bloomOff) of
            Inl e \<Rightarrow> Inl e
          | Inr ix \<Rightarrow> (case unmarshalBloom (section_bytes f bloomOff (size - int footerLen)) of
                Inl e \<Rightarrow> Inl e
              | Inr b \<Rightarrow> Inr \<lparr>tfile = f, tindexOff = indexOff, tcount = count, tindex = ix, tfilter = b\<rparr>))"

text \<open>\<open>sort.Search\<close> of the standard library: binary search for the first index that satisfies \<open>p\<close>.\<close>

function sort_search :: "(nat \<Rightarrow> bool) \<Rightarrow> nat \<Rightarrow> nat \<Rightarrow> nat" where
  "sort_search p i j =
     (if i < j then let h = (i + j) div 2 in
        if \<not> p h then sort_search p (Suc h) j else sort_search p i h
      else i)"
  by pat_completeness auto
termination
  by (relation "measure (\<lambda>(_, i, j). j - i)") auto

declare sort_search.simps [simp del]

definition index_search :: "indexEntry list \<Rightarrow> bytes \<Rightarrow> nat" where
  "index_search ix k = sort_search (\<lambda>i. ikey (ix ! i) > k) 0 (length ix)"

text \<open>A reader of the section from \<open>off\<close> to the index; a negative offset is a failing read call.\<close>

definition section_from :: "sstable \<Rightarrow> int \<Rightarrow> rd_err + bytes" where
  "section_from t off = (if off < 0 then Inl ErrRead else Inr (section_bytes (tfile t) off (tindexOff t)))"

function get_scan :: "bytes \<Rightarrow> bytes \<Rightarrow> rd_err + rec option" where
  "get_scan k br =
     (case decodeRec br of
        Inl EOF \<Rightarrow> Inr None
      | Inl e \<Rightarrow> Inl e
      | Inr (r, br') \<Rightarrow>
          if rkey r = k then Inr (Some r)
          else if rkey r > k then Inr None
          else get_scan k br')"
  by pat_completeness auto
termination
  by (relation "measure (\<lambda>(_, br). length br)") (auto dest: decodeRec_shorter)

declare get_scan.simps [simp del]

definition table_get :: "sstable \<Rightarrow> bytes \<Rightarrow> rd_err + rec option" where
  "table_get t k =
     (case mayContain (tfilter t) (bloomHash k) of
        Inl e \<Rightarrow> Inl e
      | Inr False \<Rightarrow> Inr None
      | Inr True \<Rightarrow>
          let i = index_search (tindex t) k in
          if i = 0 then Inr None
          else case section_from t (sint (ioff (tindex t ! (i - 1)))) of
              Inl e \<Rightarrow> Inl e
            | Inr br \<Rightarrow> get_scan k br)"

text \<open>An iterator: the bytes left and the key to skip to (\<open>[]\<close> when there is none).\<close>

record tableIter =
  itbr :: "rd_err + bytes"
  itfrom :: bytes

definition table_iterFrom :: "sstable \<Rightarrow> bytes \<Rightarrow> tableIter" where
  "table_iterFrom t from =
     (let off = (if from \<noteq> [] then
                   let i = index_search (tindex t) from in
                   if i > 0 then sint (ioff (tindex t ! (i - 1))) else 0
                 else 0)
      in \<lparr>itbr = section_from t off, itfrom = from\<rparr>)"

function table_skip :: "bytes \<Rightarrow> bytes \<Rightarrow> rd_err + (rec option \<times> bytes)" where
  "table_skip from br =
     (case decodeRec br of
        Inl EOF \<Rightarrow> Inr (None, br)
      | Inl e \<Rightarrow> Inl e
      | Inr (r, br') \<Rightarrow>
          if rkey r < from then table_skip from br' else Inr (Some r, br'))"
  by pat_completeness auto
termination
  by (relation "measure (\<lambda>(_, br). length br)") (auto dest: decodeRec_shorter)

declare table_skip.simps [simp del]

definition tableIter_next :: "tableIter \<Rightarrow> rd_err + (rec option \<times> tableIter)" where
  "tableIter_next it =
     (case itbr it of
        Inl e \<Rightarrow> Inl e
      | Inr br \<Rightarrow> (case table_skip (itfrom it) br of
            Inl e \<Rightarrow> Inl e
          | Inr (None, br') \<Rightarrow> Inr (None, it\<lparr>itbr := Inr br'\<rparr>)
          | Inr (Some r, br') \<Rightarrow> Inr (Some r, \<lparr>itbr = Inr br', itfrom = []\<rparr>)))"

text \<open>The source an iterator is to its consumers; fuel is the number of calls of \<open>next\<close>.\<close>

fun table_source :: "nat \<Rightarrow> tableIter \<Rightarrow> source" where
  "table_source 0 it = \<lparr>pend = [], fault = None\<rparr>"
| "table_source (Suc f) it =
     (case tableIter_next it of
        Inl e \<Rightarrow> \<lparr>pend = [], fault = Some e\<rparr>
      | Inr (None, _) \<Rightarrow> \<lparr>pend = [], fault = None\<rparr>
      | Inr (Some r, it') \<Rightarrow> (let s = table_source f it' in s\<lparr>pend := r # pend s\<rparr>))"

definition table_iter :: "sstable \<Rightarrow> bytes \<Rightarrow> source" where
  "table_iter t from = table_source (Suc (length (tfile t))) (table_iterFrom t from)"

section \<open>64-bit little-endian words\<close>

lemma length_le64 [simp]: "length (le64 w) = 8"
  by (simp add: le64_def)

lemma of_le64_le64 [codec_simps]: "of_le64 (le64 w @ rest) = w"
proof -
  have "of_le64 (le64 w @ rest) = ucast (ucast w :: u32) OR push_bit 32 (ucast (ucast (drop_bit 32 w) :: u32))"
    by (simp add: of_le64_def le64_def codec_simps)
  also have "\<dots> = w"
    by (rule bit_word_eqI) (auto simp: bit_simps)
  finally show ?thesis .
qed

lemma of_le64_le64' [codec_simps]: "of_le64 (le64 w) = w"
  using of_le64_le64 [of w "[]"] by simp

section \<open>The index round-trips\<close>

lemma load_index_bytes [codec_simps]:
  "\<forall>e\<in>set ix. length (ikey e) < 2 ^ 64 \<Longrightarrow> load_entries (length ix) (index_bytes ix @ rest) = Inr ix"
proof (induction ix)
  case (Cons e ix)
  have "index_bytes (e # ix) @ rest = put_uvarint (of_nat (length (ikey e))) @ ikey e @ put_uvarint (ioff e) @ index_bytes ix @ rest"
    by (simp add: index_bytes_def)
  moreover have "\<not> length (ikey e @ put_uvarint (ioff e) @ index_bytes ix @ rest) < length (ikey e)" by simp
  ultimately show ?case using Cons
    by (simp add: codec_simps Let_def)
qed simp

section \<open>Binary search\<close>

lemma sort_search_spec:
  assumes "i \<le> j" and "\<forall>a b. a \<le> b \<and> b < n \<and> p a \<longrightarrow> p b" and "j \<le> n"
    and "\<forall>a < i. \<not> p a" and "\<forall>a. j \<le> a \<and> a < n \<longrightarrow> p a"
  shows "sort_search p i j \<le> n \<and> (\<forall>a < sort_search p i j. \<not> p a)
    \<and> (\<forall>a. sort_search p i j \<le> a \<and> a < n \<longrightarrow> p a)"
  using assms
proof (induction p i j rule: sort_search.induct)
  case (1 p i j)
  let ?h = "(i + j) div 2"
  note mono = "1.prems"(2)
  consider "\<not> i < j" | "i < j" "p ?h" | "i < j" "\<not> p ?h" by blast
  then show ?case
  proof cases
    case 1
    then have "i = j" "sort_search p i j = i"
      using "1.prems"(1) by (simp, subst sort_search.simps, simp)
    then show ?thesis using "1.prems" by simp
  next
    case 2
    have eq: "sort_search p i j = sort_search p i ?h"
      using 2 by (simp add: sort_search.simps [of p i j] Let_def)
    have "\<forall>a. ?h \<le> a \<and> a < n \<longrightarrow> p a" using 2(2) mono by blast
    with 2 "1.prems" show ?thesis
      unfolding eq by (intro "1.IH"(2) [OF _ refl]) auto
  next
    case 3
    have eq: "sort_search p i j = sort_search p (Suc ?h) j"
      using 3 by (simp add: sort_search.simps [of p i j] Let_def)
    have "\<forall>a < Suc ?h. \<not> p a"
    proof (intro allI impI notI)
      fix a assume "a < Suc ?h" "p a"
      moreover from this have "a \<le> ?h" by simp
      moreover have "?h < n" using 3(1) "1.prems"(3) by arith
      ultimately have "p ?h" using mono by blast
      with 3 show False by blast
    qed
    with 3 "1.prems" show ?thesis
      unfolding eq by (intro "1.IH"(1) [OF _ refl]) auto
  qed
qed

section \<open>What the builder has written\<close>

definition sparse :: "rec list \<Rightarrow> indexEntry list" where
  "sparse rs = map (\<lambda>i. \<lparr>ikey = rkey (rs ! i), ioff = of_nat (length (wal_bytes (take i rs)))\<rparr>)
     (filter (\<lambda>i. i mod 16 = 0) [0..<length rs])"

lemma sparse_Nil [simp]: "sparse [] = []"
  by (simp add: sparse_def)

lemma sparse_snoc:
  "sparse (rs @ [r]) = sparse rs @ (if length rs mod 16 = 0
     then [\<lparr>ikey = rkey r, ioff = of_nat (length (wal_bytes rs))\<rparr>] else [])"
  by (simp add: sparse_def nth_append)

definition built :: "rec list \<Rightarrow> tableBuilder \<Rightarrow> bool" where
  "built rs b \<longleftrightarrow> bwritten b = wal_bytes rs \<and> boff b = of_nat (length (wal_bytes rs))
     \<and> bindex b = sparse rs \<and> bhashes b = map (\<lambda>r. bloomHash (rkey r)) rs \<and> bn b = of_nat (length rs)
     \<and> (\<forall>l. blast b = Some l \<longrightarrow> rs \<noteq> [] \<and> l = rkey (last rs))"

lemma mod_interval: "(of_nat n :: u64) mod indexInterval = 0 \<longleftrightarrow> n mod 16 = 0"
proof -
  have "unat ((of_nat n :: u64) mod 16) = (n mod 2 ^ 64) mod 16" by (simp add: unat_mod unat_of_nat)
  also have "\<dots> = n mod 16" by (rule mod_mod_cancel) simp
  finally show ?thesis by (metis indexInterval_def unat_0 unat_eq_zero)
qed

lemma built_add:
  assumes "built rs b" and "rsorted (rs @ [r])"
  shows "\<exists>b'. builder_add b r = Inr b' \<and> built (rs @ [r]) b'"
proof -
  have "\<not> (case blast b of Some l \<Rightarrow> rkey r \<le> l | None \<Rightarrow> False)"
  proof (cases "blast b")
    case (Some l)
    then have "l \<in> rkey ` set rs" using assms(1) by (auto simp: built_def)
    then have "l < rkey r" using assms(2) by (auto simp: rsorted_append)
    with Some show ?thesis by (simp add: not_le)
  qed simp
  then show ?thesis
    using assms(1) by (auto simp: builder_add_def built_def Let_def sparse_snoc mod_interval)
qed

lemma built_adds:
  "built rs b \<Longrightarrow> rsorted (rs @ ss) \<Longrightarrow> \<exists>b'. builder_adds b ss = Inr b' \<and> built (rs @ ss) b'"
proof (induction ss arbitrary: rs b)
  case (Cons s ss)
  then have "rsorted (rs @ [s])" by (auto simp: rsorted_append)
  from built_add [OF Cons.prems(1) this] obtain b1 where "builder_add b s = Inr b1" "built (rs @ [s]) b1"
    by blast
  with Cons.IH [of "rs @ [s]" b1] Cons.prems(2) show ?case by auto
qed simp

lemma built_new: "built [] newBuilder"
  by (simp add: built_def newBuilder_def)

text \<open>An out-of-order record is refused.\<close>

lemma builder_add_order: "blast b = Some l \<Longrightarrow> rkey r \<le> l \<Longrightarrow> builder_add b r = Inl ErrCorrupt"
  by (simp add: builder_add_def)

section \<open>A table that was written can be opened\<close>

definition table_file :: "rec list \<Rightarrow> bloom \<Rightarrow> bytes" where
  "table_file rs f =
     (let D = wal_bytes rs; I = put_uvarint (of_nat (length (sparse rs))) @ index_bytes (sparse rs)
      in D @ I @ bloom_marshal f @ le64 (of_nat (length D)) @ le64 (of_nat (length D + length I))
         @ le64 (of_nat (length rs)) @ le64 tableMagic)"

text \<open>
  The sizes a table must have: every record is within the codec's bound, the file within
  \<open>int64\<close>, the index within the address space and the filter's bit count within \<open>uint32\<close>.
\<close>

definition table_fits :: "rec list \<Rightarrow> nat \<Rightarrow> bool" where
  "table_fits rs bpk \<longleftrightarrow> (\<forall>r\<in>set rs. rec_fits r) \<and> bloom_nbits (length rs) bpk < 2 ^ 32
     \<and> length (sparse rs) * 32 \<le> 2 ^ 48
     \<and> length (wal_bytes rs) + length (index_bytes (sparse rs)) + 10 < 2 ^ 63"

lemma table_fits_mem: "table_fits rs bpk \<Longrightarrow> \<forall>r\<in>set rs. rec_fits r"
  by (simp add: table_fits_def)

lemma sint_of_nat: "n < 2 ^ 63 \<Longrightarrow> sint (of_nat n :: u64) = int n"
  by (simp add: signed_of_nat signed_take_bit_int_eq_self)

lemma footer_reads:
  fixes a b c m :: u64 and P :: bytes
  defines "F \<equiv> le64 a @ le64 b @ le64 c @ le64 m"
  shows "drop (length (P @ F) - footerLen) (P @ F) = F" "length F = 32" "of_le64 (take 8 F) = a"
    "of_le64 (take 8 (drop 8 F)) = b" "of_le64 (take 8 (drop 16 F)) = c" "of_le64 (drop 24 F) = m"
  by (simp_all add: F_def footerLen_def codec_simps)

lemma index_keys_bound:
  assumes "\<forall>r\<in>set rs. rec_fits r"
  shows "\<forall>e\<in>set (sparse rs). length (ikey e) < 2 ^ 64"
proof
  fix e assume "e \<in> set (sparse rs)"
  then obtain i where "i < length rs" "ikey e = rkey (rs ! i)" by (auto simp: sparse_def)
  then show "length (ikey e) < 2 ^ 64" using assms rec_fits_key [of "rs ! i"] by simp
qed

lemma loadIndex_sparse:
  assumes "\<forall>r\<in>set rs. rec_fits r" and "length (sparse rs) * 32 \<le> 2 ^ 48"
  shows "loadIndex (put_uvarint (of_nat (length (sparse rs))) @ index_bytes (sparse rs)) = Inr (sparse rs)"
proof -
  have "unat (of_nat (length (sparse rs)) :: u64) = length (sparse rs)"
    using assms(2) by (intro unat_of_nat_u64) simp
  then show ?thesis
    using assms(2) load_index_bytes [OF index_keys_bound [OF assms(1)], of "[]"]
    by (simp add: loadIndex_def codec_simps)
qed

lemma openTable_file:
  assumes fits: "table_fits rs bpk" and f: "newBloom (map (\<lambda>r. bloomHash (rkey r)) rs) bpk = Some f"
  shows "\<exists>c. openTable (table_file rs f) = Inr \<lparr>tfile = table_file rs f,
    tindexOff = int (length (wal_bytes rs)), tcount = c, tindex = sparse rs, tfilter = f\<rparr>"
proof -
  let ?D = "wal_bytes rs" and ?I = "put_uvarint (of_nat (length (sparse rs))) @ index_bytes (sparse rs)"
  let ?F = "le64 (of_nat (length ?D)) @ le64 (of_nat (length ?D + length ?I))
    @ le64 (of_nat (length rs)) @ le64 tableMagic"
  let ?P = "?D @ ?I @ bloom_marshal f"
  have lay: "table_file rs f = ?P @ ?F" by (simp add: table_file_def Let_def)
  note F1 = footer_reads(1) [where P = ?P and a = "of_nat (length ?D)" and b = "of_nat (length ?D + length ?I)"
      and c = "of_nat (length rs)" and m = tableMagic]
  note F = footer_reads(2-6) [where a = "of_nat (length ?D)" and b = "of_nat (length ?D + length ?I)"
      and c = "of_nat (length rs)" and m = tableMagic]
  have big: "length ?D + length ?I < 2 ^ 63"
    using fits length_put_uvarint_bound [of "of_nat (length (sparse rs))"] by (auto simp: table_fits_def)
  then have s1: "sint (of_nat (length ?D) :: u64) = int (length ?D)"
    and s2: "sint (of_nat (length ?D + length ?I) :: u64) = int (length ?D + length ?I)"
    by (auto intro!: sint_of_nat simp del: of_nat_add)
  have idx: "section_bytes (?P @ ?F) (int (length ?D)) (int (length ?D + length ?I)) = ?I"
    by (simp add: section_bytes_def)
  have blm: "section_bytes (?P @ ?F) (int (length ?D + length ?I)) (int (length (?P @ ?F)) - int footerLen)
      = bloom_marshal f"
  proof -
    have "nat (int (length (?P @ ?F)) - int footerLen - int (length ?D + length ?I)) = length (bloom_marshal f)"
      using F(1) by (simp add: footerLen_def)
    then show ?thesis unfolding section_bytes_def by simp
  qed
  have "length (bbits f) < 2 ^ 64"
    unfolding newBloom_length [OF f]
    by (rule le_less_trans [OF div_le_dividend]) (use fits in \<open>simp add: table_fits_def\<close>)
  then have un: "unmarshalBloom (bloom_marshal f) = Inr f" by (rule unmarshal_marshal)
  have size: "\<not> int (length (?P @ ?F)) < int footerLen"
    and off: "\<not> (int (length ?D) < 0 \<or> int (length ?D + length ?I) < int (length ?D)
      \<or> int (length (?P @ ?F)) - int footerLen < int (length ?D + length ?I))"
    using F(1) by (simp_all add: footerLen_def)
  show ?thesis
    unfolding lay openTable_def Let_def F1 F(2-5) s1 s2 idx blm un
      loadIndex_sparse [OF table_fits_mem [OF fits] fits [unfolded table_fits_def, THEN conjunct2, THEN conjunct2, THEN conjunct1]]
    using size off by simp
qed

lemma writeTable_file:
  assumes sorted: "rsorted rs" and fits: "table_fits rs bpk"
  shows "\<exists>f. newBloom (map (\<lambda>r. bloomHash (rkey r)) rs) bpk = Some f
    \<and> writeTable (Inr rs) bpk = Inr (table_file rs f)"
proof -
  obtain b where b: "builder_adds newBuilder rs = Inr b" "built rs b"
    using built_adds [OF built_new, of rs] sorted by auto
  obtain f where "newBloom (map (\<lambda>r. bloomHash (rkey r)) rs) bpk = Some f"
    using newBloom_defined [of "map (\<lambda>r. bloomHash (rkey r)) rs" bpk] fits by (auto simp: table_fits_def)
  with b show ?thesis
    by (auto simp: writeTable_def builder_finish_def built_def table_file_def Let_def)
qed

section \<open>Searching the sparse index\<close>

definition slice_pos :: "rec list \<Rightarrow> nat \<Rightarrow> nat" where
  "slice_pos rs i = filter (\<lambda>i. i mod 16 = 0) [0..<length rs] ! i"

lemma sparse_nth:
  "i < length (sparse rs) \<Longrightarrow> slice_pos rs i < length rs
    \<and> sparse rs ! i = \<lparr>ikey = rkey (rs ! slice_pos rs i), ioff = of_nat (length (wal_bytes (take (slice_pos rs i) rs)))\<rparr>"
proof -
  assume i: "i < length (sparse rs)"
  then have "slice_pos rs i \<in> set (filter (\<lambda>i. i mod 16 = 0) [0..<length rs])"
    unfolding slice_pos_def by (intro nth_mem) (simp add: sparse_def)
  with i show ?thesis by (simp add: sparse_def slice_pos_def)
qed

lemma rsorted_nth_less: "rsorted rs \<Longrightarrow> i < j \<Longrightarrow> j < length rs \<Longrightarrow> rkey (rs ! i) < rkey (rs ! j)"
  unfolding rsorted_def by (rule sorted_wrt_nth_less)

lemma sparse_sorted:
  assumes "rsorted rs" and "i < j" and "j < length (sparse rs)"
  shows "ikey (sparse rs ! i) < ikey (sparse rs ! j)"
proof -
  have "sorted_wrt (<) (filter (\<lambda>i. i mod 16 = 0) [0..<length rs])" by (auto simp: sorted_wrt_upt)
  moreover have "j < length (filter (\<lambda>i. i mod 16 = 0) [0..<length rs])"
    using assms(3) by (simp add: sparse_def)
  ultimately have "slice_pos rs i < slice_pos rs j"
    unfolding slice_pos_def by (rule sorted_wrt_nth_less [OF _ assms(2)])
  with assms sparse_nth [of i rs] sparse_nth [of j rs] show ?thesis
    by (simp add: rsorted_nth_less)
qed

lemma index_search_spec:
  fixes k :: bytes
  assumes "rsorted rs"
  defines "i \<equiv> index_search (sparse rs) k"
  shows "i \<le> length (sparse rs)" "\<And>j. j < i \<Longrightarrow> ikey (sparse rs ! j) \<le> k"
    "\<And>j. i \<le> j \<Longrightarrow> j < length (sparse rs) \<Longrightarrow> k < ikey (sparse rs ! j)"
proof -
  let ?p = "\<lambda>j. ikey (sparse rs ! j) > k"
  have mono: "?p b" if "a \<le> b" "b < length (sparse rs)" "?p a" for a b
    using that sparse_sorted [OF assms(1), of a b] by (cases "a = b") (auto intro: less_trans)
  have "i \<le> length (sparse rs) \<and> (\<forall>j < i. \<not> ?p j) \<and> (\<forall>j. i \<le> j \<and> j < length (sparse rs) \<longrightarrow> ?p j)"
    unfolding i_def index_search_def
  proof (rule sort_search_spec)
    show "\<forall>a b. a \<le> b \<and> b < length (sparse rs) \<and> ?p a \<longrightarrow> ?p b"
    proof (intro allI impI)
      fix a b assume "a \<le> b \<and> b < length (sparse rs) \<and> ?p a"
      then show "?p b" using mono [of a b] by simp
    qed
  qed auto
  then show "i \<le> length (sparse rs)" "\<And>j. j < i \<Longrightarrow> ikey (sparse rs ! j) \<le> k"
    "\<And>j. i \<le> j \<Longrightarrow> j < length (sparse rs) \<Longrightarrow> k < ikey (sparse rs ! j)"
    by (auto simp: not_less)
qed

lemma sparse_first: "rs \<noteq> [] \<Longrightarrow> sparse rs \<noteq> [] \<and> ikey (sparse rs ! 0) = rkey (rs ! 0)"
proof -
  assume "rs \<noteq> []"
  then have "[0..<length rs] = 0 # [1..<length rs]" by (simp add: upt_conv_Cons)
  then show ?thesis by (simp add: sparse_def)
qed

text \<open>No slice: every key of the table is larger.\<close>

lemma search_none:
  assumes "rsorted rs" and "index_search (sparse rs) k = 0" and "r \<in> set rs"
  shows "k < rkey r"
proof -
  have ne: "rs \<noteq> []" using assms(3) by auto
  then have "k < rkey (rs ! 0)"
    using index_search_spec(3) [OF assms(1), of k 0] assms(2) sparse_first [OF ne] by auto
  also have "\<dots> \<le> rkey r"
  proof -
    obtain j where "j < length rs" "r = rs ! j" using assms(3) by (auto simp: in_set_conv_nth)
    then show ?thesis using rsorted_nth_less [OF assms(1), of 0 j] by (cases j) (auto intro: less_imp_le)
  qed
  finally show ?thesis .
qed

text \<open>A slice: the records before it are all smaller than the key.\<close>

lemma search_some:
  assumes "rsorted rs" and "index_search (sparse rs) k = Suc i"
  shows "sparse rs ! i = \<lparr>ikey = rkey (rs ! slice_pos rs i), ioff = of_nat (length (wal_bytes (take (slice_pos rs i) rs)))\<rparr>"
    and "\<forall>r\<in>set (take (slice_pos rs i) rs). rkey r < k"
proof -
  have i: "i < length (sparse rs)" using index_search_spec(1) [OF assms(1), of k] assms(2) by simp
  note n = sparse_nth [OF i]
  then show "sparse rs ! i = \<lparr>ikey = rkey (rs ! slice_pos rs i), ioff = of_nat (length (wal_bytes (take (slice_pos rs i) rs)))\<rparr>"
    by simp
  have "rkey (rs ! slice_pos rs i) \<le> k"
    using index_search_spec(2) [OF assms(1), of i k] assms(2) n by simp
  moreover have "rkey r < rkey (rs ! slice_pos rs i)" if "r \<in> set (take (slice_pos rs i) rs)" for r
    using that n rsorted_nth_less [OF assms(1)] by (auto simp: in_set_conv_nth)
  ultimately show "\<forall>r\<in>set (take (slice_pos rs i) rs). rkey r < k" by (meson less_le_trans)
qed

lemma rlookup_below: "\<forall>r\<in>set rs. rkey r < k \<Longrightarrow> rlookup (rs @ ss) k = rlookup ss k"
  by (induction rs) auto

lemma rfrom_below: "\<forall>r\<in>set rs. rkey r < k \<Longrightarrow> rfrom k (rs @ ss) = rfrom k ss"
  by (auto simp: rfrom_def filter_empty_conv not_le)

section \<open>Scanning records\<close>

lemma decodeRec_Nil [simp]: "decodeRec [] = Inl EOF"
  by (simp add: decodeRec_def read_uvarint_def)

lemma decode_wal_bytes:
  "\<forall>r\<in>set rs. rec_fits r \<Longrightarrow>
   decodeRec (wal_bytes rs) = (case rs of [] \<Rightarrow> Inl EOF | r # rs' \<Rightarrow> Inr (r, wal_bytes rs'))"
  by (cases rs) (simp_all add: codec_simps)

lemma get_scan_wal_bytes:
  "\<forall>r\<in>set rs. rec_fits r \<Longrightarrow> rsorted rs \<Longrightarrow> get_scan k (wal_bytes rs) = Inr (rlookup rs k)"
proof (induction rs)
  case Nil
  then show ?case by (subst get_scan.simps) (simp add: decode_wal_bytes)
next
  case (Cons r rs)
  have "rlookup rs k = None" if "k < rkey r"
    using that Cons.prems(2) by (force simp: rlookup_None)
  with Cons show ?case
    by (subst get_scan.simps) (auto simp: decode_wal_bytes simp del: wal_bytes_simps)
qed

lemma table_skip_wal_bytes:
  "\<forall>r\<in>set rs. rec_fits r \<Longrightarrow> table_skip k (wal_bytes rs) =
    (case dropWhile (\<lambda>r. rkey r < k) rs of [] \<Rightarrow> Inr (None, []) | r # rs' \<Rightarrow> Inr (Some r, wal_bytes rs'))"
proof (induction rs)
  case Nil
  then show ?case by (subst table_skip.simps) (simp add: decode_wal_bytes)
next
  case (Cons r rs)
  then show ?case
    by (subst table_skip.simps) (simp add: decode_wal_bytes del: wal_bytes_simps)
qed

lemma table_source_wal_bytes:
  "\<forall>r\<in>set rs. rec_fits r \<Longrightarrow> rsorted rs \<Longrightarrow> length rs < f \<Longrightarrow>
   table_source f \<lparr>itbr = Inr (wal_bytes rs), itfrom = k\<rparr> = \<lparr>pend = rfrom k rs, fault = None\<rparr>"
proof (induction f arbitrary: rs k)
  case (Suc f)
  show ?case
  proof (cases "dropWhile (\<lambda>r. rkey r < k) rs")
    case Nil
    with Suc.prems(1) rfrom_dropWhile [OF Suc.prems(2), of k] show ?thesis
      by (simp add: tableIter_next_def table_skip_wal_bytes del: dropWhile_eq_Nil_conv)
  next
    case (Cons r rs')
    have sub: "set (r # rs') \<subseteq> set rs" unfolding Cons [symmetric] by (auto dest: set_dropWhileD)
    have len: "length (r # rs') \<le> length rs" unfolding Cons [symmetric] by (rule length_dropWhile_le)
    have "rsorted (r # rs')"
      unfolding Cons [symmetric] rfrom_dropWhile [OF Suc.prems(2)] using Suc.prems(2) by auto
    then have "table_source f \<lparr>itbr = Inr (wal_bytes rs'), itfrom = []\<rparr> = \<lparr>pend = rs', fault = None\<rparr>"
      using Suc.IH [of rs' "[]"] sub len Suc.prems by auto
    with Cons Suc.prems(1) rfrom_dropWhile [OF Suc.prems(2), of k] show ?thesis
      by (simp add: tableIter_next_def table_skip_wal_bytes Let_def)
  qed
qed simp

section \<open>A table is a sorted source\<close>

text \<open>A table that holds exactly the records \<open>rs\<close>.\<close>

definition holds :: "sstable \<Rightarrow> rec list \<Rightarrow> bool" where
  "holds t rs \<longleftrightarrow> rsorted rs \<and> (\<forall>r\<in>set rs. rec_fits r) \<and> length (wal_bytes rs) < 2 ^ 63
     \<and> (\<exists>rest. tfile t = wal_bytes rs @ rest) \<and> tindexOff t = int (length (wal_bytes rs))
     \<and> tindex t = sparse rs
     \<and> (\<forall>k. \<exists>b. mayContain (tfilter t) (bloomHash k) = Inr b)
     \<and> (\<forall>r\<in>set rs. mayContain (tfilter t) (bloomHash (rkey r)) = Inr True)"

lemma holds_section:
  assumes "holds t rs"
  shows "section_from t (sint (of_nat (length (wal_bytes (take p rs))) :: u64)) = Inr (wal_bytes (drop p rs))"
proof -
  have cat: "wal_bytes rs = wal_bytes (take p rs) @ wal_bytes (drop p rs)"
    by (simp flip: wal_bytes_simps(3))
  then have len: "length (wal_bytes rs) = length (wal_bytes (take p rs)) + length (wal_bytes (drop p rs))"
    by (metis length_append)
  then have "sint (of_nat (length (wal_bytes (take p rs))) :: u64) = int (length (wal_bytes (take p rs)))"
    using assms by (intro sint_of_nat) (simp add: holds_def)
  moreover obtain rest where "tfile t = wal_bytes (take p rs) @ wal_bytes (drop p rs) @ rest"
    using assms cat by (auto simp: holds_def)
  ultimately show ?thesis
    using assms len by (simp add: section_from_def section_bytes_def holds_def)
qed

lemma table_get_holds:
  assumes "holds t rs"
  shows "table_get t k = Inr (rlookup rs k)"
proof -
  have srt: "rsorted rs" and fit: "\<forall>r\<in>set rs. rec_fits r" and ix: "tindex t = sparse rs"
    using assms by (auto simp: holds_def)
  obtain b where b: "mayContain (tfilter t) (bloomHash k) = Inr b"
    using assms unfolding holds_def by blast
  show ?thesis
  proof (cases b)
    case False
    then have "rlookup rs k = None"
      using assms b by (auto simp: holds_def rlookup_None)
    with b False show ?thesis by (simp add: table_get_def)
  next
    case True
    show ?thesis
    proof (cases "index_search (sparse rs) k")
      case 0
      then have "rlookup rs k = None"
        using search_none [OF srt 0] by (force simp: rlookup_None)
      with b True 0 ix show ?thesis by (simp add: table_get_def)
    next
      case (Suc i)
      note S = search_some [OF srt Suc]
      let ?p = "slice_pos rs i"
      have "rlookup rs k = rlookup (drop ?p rs) k"
        using rlookup_below [OF S(2), of "drop ?p rs"] by simp
      moreover have "get_scan k (wal_bytes (drop ?p rs)) = Inr (rlookup (drop ?p rs) k)"
        using srt fit by (intro get_scan_wal_bytes) (auto simp: rsorted_def sorted_wrt_drop dest: in_set_dropD)
      ultimately show ?thesis
        using b True Suc ix S(1) holds_section [OF assms, of ?p] by (simp add: table_get_def)
    qed
  qed
qed

lemma length_wal_bytes: "length rs \<le> length (wal_bytes rs)"
proof (induction rs)
  case (Cons r rs)
  have "0 < length (encodeRec r)" by simp
  with Cons show ?case by (simp del: length_greater_0_conv)
qed simp

lemma table_iter_holds:
  assumes "holds t rs"
  shows "table_iter t k = \<lparr>pend = rfrom k rs, fault = None\<rparr>"
proof -
  have srt: "rsorted rs" and fit: "\<forall>r\<in>set rs. rec_fits r" and ix: "tindex t = sparse rs"
    using assms by (auto simp: holds_def)
  have drp: "rsorted (drop p rs)" "\<forall>r\<in>set (drop p rs). rec_fits r" for p
    using srt fit by (auto simp: rsorted_def sorted_wrt_drop dest: in_set_dropD)
  have len: "length (drop p rs) < Suc (length (tfile t))" for p
    using assms length_wal_bytes [of rs] by (auto simp: holds_def)
  have start: "section_from t 0 = Inr (wal_bytes rs)"
    using holds_section [OF assms, of 0] by simp
  obtain p where p: "table_iterFrom t k = \<lparr>itbr = Inr (wal_bytes (drop p rs)), itfrom = k\<rparr>"
    "\<forall>r\<in>set (take p rs). rkey r < k"
  proof (cases "k = [] \<or> index_search (sparse rs) k = 0")
    case True
    then show ?thesis using start ix by (intro that [of 0]) (auto simp: table_iterFrom_def)
  next
    case False
    then obtain i where i: "index_search (sparse rs) k = Suc i" by (auto simp: gr0_conv_Suc)
    show ?thesis
      using False ix search_some [OF srt i] holds_section [OF assms, of "slice_pos rs i"] i
      by (intro that [of "slice_pos rs i"]) (auto simp: table_iterFrom_def)
  qed
  have "rfrom k rs = rfrom k (drop p rs)"
    using rfrom_below [OF p(2), of "drop p rs"] by simp
  then show ?thesis
    using table_source_wal_bytes [OF drp(2,1) len] by (simp add: table_iter_def p(1))
qed

lemma open_written:
  assumes "rsorted rs" and "table_fits rs bpk"
  shows "\<exists>f t. writeTable (Inr rs) bpk = Inr f \<and> openTable f = Inr t \<and> holds t rs"
proof -
  obtain b where b: "newBloom (map (\<lambda>r. bloomHash (rkey r)) rs) bpk = Some b"
    "writeTable (Inr rs) bpk = Inr (table_file rs b)"
    using writeTable_file [OF assms(1,2)] by blast
  obtain c where o: "openTable (table_file rs b) = Inr \<lparr>tfile = table_file rs b,
    tindexOff = int (length (wal_bytes rs)), tcount = c, tindex = sparse rs, tfilter = b\<rparr>" (is "_ = Inr ?t")
    using openTable_file [OF assms(2) b(1)] by blast
  have "(of_nat (length (bbits b) * 8) :: u32) \<noteq> 0"
  proof -
    have "length (bbits b) * 8 = bloom_nbits (length rs) bpk"
      using newBloom_length [OF b(1)] bloom_nbits_dvd [of "length rs" bpk] by simp
    moreover have "bloom_nbits (length rs) bpk < 2 ^ 32" using assms(2) by (simp add: table_fits_def)
    ultimately show ?thesis
      using bloom_nbits_ge [of "length rs" bpk] by (intro of_nat_u32_nonzero) simp_all
  qed
  then have may: "\<exists>x. mayContain b (bloomHash k) = Inr x" for k
    by (simp add: mayContain_def Let_def)
  have "holds ?t rs"
    using assms may newBloom_mayContain [OF b(1)]
    by (auto simp: holds_def table_fits_def table_file_def Let_def)
  with b o show ?thesis by blast
qed

text \<open>\<^bold>\<open>C11\<close> A table is faithful: writing strictly ascending records, opening the file and asking it
  gives back exactly those records: every lookup through the filter, the sparse index and the slice
  scan, and every iteration from a key, with no error on any path.\<close>

theorem table_write_read:
  assumes "rsorted rs" and "table_fits rs bpk"
  shows "\<exists>f t. writeTable (Inr rs) bpk = Inr f \<and> openTable f = Inr t
    \<and> (\<forall>k. table_get t k = Inr (rlookup rs k))
    \<and> (\<forall>k. table_iter t k = \<lparr>pend = rfrom k rs, fault = None\<rparr>)"
  using open_written [OF assms] table_get_holds table_iter_holds by blast

theorem table_write_read_witness:
  "\<exists>f t. writeTable (Inr [\<lparr>rkey = [1], rval = [7], rtomb = False\<rparr>, \<lparr>rkey = [2], rval = [], rtomb = True\<rparr>]) 10 = Inr f
    \<and> openTable f = Inr t
    \<and> table_get t [2] = Inr (Some \<lparr>rkey = [2], rval = [], rtomb = True\<rparr>)
    \<and> table_iter t [2] = \<lparr>pend = [\<lparr>rkey = [2], rval = [], rtomb = True\<rparr>], fault = None\<rparr>"
proof -
  let ?rs = "[\<lparr>rkey = [1], rval = [7], rtomb = False\<rparr>, \<lparr>rkey = [2], rval = [], rtomb = True\<rparr>]"
  have "rsorted ?rs" by simp
  moreover have "table_fits ?rs 10"
    by (simp add: table_fits_def rec_fits_def bloom_nbits_def sparse_def index_bytes_def wal_bytes_def
        encodeRec_def payload_of_def put_uvarint.simps Let_def)
  ultimately obtain f t where "writeTable (Inr ?rs) 10 = Inr f" "openTable f = Inr t"
    "\<And>k. table_get t k = Inr (rlookup ?rs k)"
    "\<And>k. table_iter t k = \<lparr>pend = rfrom k ?rs, fault = None\<rparr>"
    using table_write_read [of ?rs 10] by auto
  then show ?thesis by (auto simp: rfrom_def)
qed

definition table_ok :: "sstable \<Rightarrow> bool" where
  "table_ok t \<longleftrightarrow> (\<exists>rs. holds t rs)"

definition table_entries :: "sstable \<Rightarrow> rec list" where
  "table_entries t = pend (table_iter t [])"

definition table_scan :: "sstable \<Rightarrow> bytes \<Rightarrow> rec list option" where
  "table_scan t k = (let s = table_iter t k in if fault s = None then Some (pend s) else None)"

lemma holds_entries: "holds t rs \<Longrightarrow> table_entries t = rs"
  by (simp add: table_entries_def table_iter_holds)

lemma table_okE: "table_ok t \<Longrightarrow> holds t (table_entries t)"
  by (auto simp: table_ok_def holds_entries)

interpretation tab: sorted_source table_ok table_entries "\<lambda>t k. (case table_get t k of Inl e \<Rightarrow> None | Inr r \<Rightarrow> Some r)" table_scan
proof unfold_locales
  fix t k assume "table_ok t"
  then have h: "holds t (table_entries t)" by (rule table_okE)
  then show "rsorted (table_entries t)" by (simp add: holds_def)
  show "(case table_get t k of Inl e \<Rightarrow> None | Inr r \<Rightarrow> Some r) = Some (rlookup (table_entries t) k)"
    by (simp add: table_get_holds [OF h])
  show "table_scan t k = Some (rfrom k (table_entries t))"
    by (simp add: table_scan_def table_iter_holds [OF h])
qed

end
