(* ===== verification/Db.thy ===== *)
theory Db
  imports Memtable Sstable Text "HOL-Library.AList"
begin

text \<open>
  The database (\<open>pkg/storage/db.go\<close>): write path, read path, flush, compaction, close and open over
  a directory. The directory is an association list from file names to bytes; every operation also
  returns the log of file operations it performed, in order, so that a crash is a prefix of the log
  whose last write may be partial. The readers-writer lock makes each operation one step.
  System calls succeed; data errors (corrupt bytes, panics of the table code) are values.
\<close>

datatype db_err = ErrClosed | ErrNotFound | ErrEmptyKey | ErrData rd_err

section \<open>The directory\<close>

datatype fs_op =
    FCreate string           \<comment> \<open>create or truncate\<close>
  | FAppend string bytes
  | FRename string string
  | FRemove string

type_synonym disk = "(string \<times> bytes) list"

fun apply_op :: "fs_op \<Rightarrow> disk \<Rightarrow> disk" where
  "apply_op (FCreate n) d = AList.update n [] d"
| "apply_op (FAppend n b) d = AList.update n (case map_of d n of None \<Rightarrow> b | Some a \<Rightarrow> a @ b) d"
| "apply_op (FRename a b) d =
     (case map_of d a of None \<Rightarrow> d | Some x \<Rightarrow> AList.update b x (AList.delete a d))"
| "apply_op (FRemove n) d = AList.delete n d"

definition apply_ops :: "fs_op list \<Rightarrow> disk \<Rightarrow> disk" where
  "apply_ops ops d = fold apply_op ops d"

section \<open>Names and the manifest\<close>

definition manifestName :: string where "manifestName = ''MANIFEST''"
definition manifestTmp :: string where "manifestTmp = ''MANIFEST.tmp''"
definition walName :: string where "walName = ''wal.log''"

definition sst_name :: "u64 \<Rightarrow> string" where
  "sst_name i = zpad 6 (dec (unat i)) @ ''.sst''"

definition tableID :: "string \<Rightarrow> u64" where
  "tableID name = of_nat (parse_uint (trim_suffix name ''.sst''))"

definition readManifest :: "bytes option \<Rightarrow> string list" where
  "readManifest f =
     (case f of None \<Rightarrow> []
      | Some bs \<Rightarrow> filter (\<lambda>l. l \<noteq> []) (map trim_space (split_on (CHR 0x0A) (bytes_string bs))))"

definition writeManifest :: "string list \<Rightarrow> fs_op list" where
  "writeManifest names =
     FCreate manifestTmp # map (\<lambda>n. FAppend manifestTmp (string_bytes (n @ [CHR 0x0A]))) names
       @ [FRename manifestTmp manifestName]"

section \<open>The database\<close>

record opts =
  MemtableBytes :: int
  CompactAt :: int
  SyncWrites :: bool
  BloomBitsPerKey :: int

definition withDefaults :: "opts \<Rightarrow> opts" where
  "withDefaults o' = o'\<lparr>
     MemtableBytes := (if MemtableBytes o' \<le> 0 then 4194304 else MemtableBytes o'),
     CompactAt := (if CompactAt o' \<le> 0 then 4 else CompactAt o'),
     BloomBitsPerKey := (if BloomBitsPerKey o' \<le> 0 then 10 else BloomBitsPerKey o')\<rparr>"

record db =
  dopts :: opts
  dmem :: memtable
  dtables :: "(string \<times> sstable) list"
  dnext :: u64
  dclosed :: bool

abbreviation bits_per_key :: "db \<Rightarrow> nat" where
  "bits_per_key db \<equiv> nat (BloomBitsPerKey (dopts db))"

text \<open>An operation: its error, the new state, the file operations in order.\<close>

type_synonym db_res = "db_err option \<times> db \<times> fs_op list"

definition mem_records :: "memtable \<Rightarrow> rd_err + rec list" where
  "mem_records m = (case mem_scan m [] of None \<Rightarrow> Inl Panic | Some rs \<Rightarrow> Inr rs)"

definition flushLocked :: "db \<Rightarrow> db_res" where
  "flushLocked db =
     (if mn (dmem db) = 0 then (None, db, [])
      else let name = sst_name (dnext db) in
        case writeTable (mem_records (dmem db)) (bits_per_key db) of
          Inl e \<Rightarrow> (Some (ErrData e), db, [FCreate name])
        | Inr f \<Rightarrow>
            (case openTable f of
               Inl e \<Rightarrow> (Some (ErrData e), db, [FCreate name, FAppend name f])
             | Inr t \<Rightarrow>
                 let tables = (name, t) # dtables db in
                 (None, db\<lparr>dnext := dnext db + 1, dtables := tables, dmem := newMemtable\<rparr>,
                  [FCreate name, FAppend name f] @ writeManifest (map fst tables) @ [FCreate walName])))"

definition table_records :: "sstable list \<Rightarrow> rd_err + rec list" where
  "table_records ts =
     (let ss = map (\<lambda>t. table_iter t []) ts
      in drop_drain (Suc (length (concat (map pend ss)))) (newMergeIter ss))"

definition compactLocked :: "db \<Rightarrow> db_res" where
  "compactLocked db =
     (if length (dtables db) < 2 then (None, db, [])
      else let name = sst_name (dnext db) in
        case writeTable (table_records (map snd (dtables db))) (bits_per_key db) of
          Inl e \<Rightarrow> (Some (ErrData e), db, [FCreate name])
        | Inr f \<Rightarrow>
            (case openTable f of
               Inl e \<Rightarrow> (Some (ErrData e), db, [FCreate name, FAppend name f])
             | Inr t \<Rightarrow>
                 (None, db\<lparr>dnext := dnext db + 1, dtables := [(name, t)]\<rparr>,
                  [FCreate name, FAppend name f] @ writeManifest [name]
                    @ map (\<lambda>(n, _). FRemove n) (dtables db))))"

definition db_write :: "(nat \<Rightarrow> nat) \<Rightarrow> db \<Rightarrow> rec \<Rightarrow> db_res" where
  "db_write rnd db r =
     (if dclosed db then (Some ErrClosed, db, [])
      else if rkey r = [] then (Some ErrEmptyKey, db, [])
      else let log = [FAppend walName (encodeRec r)] in
        case mem_put rnd (dmem db) r of
          None \<Rightarrow> (Some (ErrData Panic), db, log)
        | Some m \<Rightarrow>
            let db1 = db\<lparr>dmem := m\<rparr> in
            if msize m \<ge> MemtableBytes (dopts db) then
              case flushLocked db1 of
                (Some e, db2, l2) \<Rightarrow> (Some e, db2, log @ l2)
              | (None, db2, l2) \<Rightarrow>
                  if int (length (dtables db2)) \<ge> CompactAt (dopts db)
                  then (case compactLocked db2 of (e, db3, l3) \<Rightarrow> (e, db3, log @ l2 @ l3))
                  else (None, db2, log @ l2)
            else (None, db1, log))"

definition db_put :: "(nat \<Rightarrow> nat) \<Rightarrow> db \<Rightarrow> bytes \<Rightarrow> bytes \<Rightarrow> db_res" where
  "db_put rnd db k v = db_write rnd db \<lparr>rkey = k, rval = v, rtomb = False\<rparr>"

definition db_delete :: "(nat \<Rightarrow> nat) \<Rightarrow> db \<Rightarrow> bytes \<Rightarrow> db_res" where
  "db_delete rnd db k = db_write rnd db \<lparr>rkey = k, rval = [], rtomb = True\<rparr>"

fun get_tables :: "(string \<times> sstable) list \<Rightarrow> bytes \<Rightarrow> db_err + bytes" where
  "get_tables [] k = Inl ErrNotFound"
| "get_tables ((_, t) # ts) k =
     (case table_get t k of
        Inl e \<Rightarrow> Inl (ErrData e)
      | Inr (Some r) \<Rightarrow> if rtomb r then Inl ErrNotFound else Inr (rval r)
      | Inr None \<Rightarrow> get_tables ts k)"

definition db_get :: "db \<Rightarrow> bytes \<Rightarrow> db_err + bytes" where
  "db_get db k =
     (if dclosed db then Inl ErrClosed
      else case mem_get (dmem db) k of
          None \<Rightarrow> Inl (ErrData Panic)
        | Some (Some r) \<Rightarrow> if rtomb r then Inl ErrNotFound else Inr (rval r)
        | Some None \<Rightarrow> get_tables (dtables db) k)"

text \<open>
  \<open>ScanFrom\<close> hands the records to the callback \<open>fn\<close> until it answers \<open>False\<close>; the result is the list
  of pairs the callback was given.
\<close>

fun visit :: "(bytes \<Rightarrow> bytes \<Rightarrow> bool) \<Rightarrow> rec list \<Rightarrow> (bytes \<times> bytes) list" where
  "visit fn [] = []"
| "visit fn (r # rs) = (rkey r, rval r) # (if fn (rkey r) (rval r) then visit fn rs else [])"

definition db_scanFrom :: "db \<Rightarrow> bytes \<Rightarrow> (bytes \<Rightarrow> bytes \<Rightarrow> bool) \<Rightarrow> db_err + (bytes \<times> bytes) list" where
  "db_scanFrom db from fn =
     (if dclosed db then Inl ErrClosed
      else case mem_scan (dmem db) from of
          None \<Rightarrow> Inl (ErrData Panic)
        | Some ms \<Rightarrow>
            let ss = \<lparr>pend = ms, fault = None\<rparr> # map (\<lambda>(_, t). table_iter t from) (dtables db) in
            case drop_drain (Suc (length (concat (map pend ss)))) (newMergeIter ss) of
              Inl e \<Rightarrow> Inl (ErrData e)
            | Inr rs \<Rightarrow> Inr (visit fn rs))"

definition db_flush :: "db \<Rightarrow> db_res" where
  "db_flush db = (if dclosed db then (Some ErrClosed, db, []) else flushLocked db)"

definition db_compact :: "db \<Rightarrow> db_res" where
  "db_compact db = (if dclosed db then (Some ErrClosed, db, []) else compactLocked db)"

definition db_close :: "db \<Rightarrow> db_res" where
  "db_close db = (if dclosed db then (None, db, []) else flushLocked (db\<lparr>dclosed := True\<rparr>))"

section \<open>Opening a directory\<close>

fun open_tables :: "disk \<Rightarrow> string list \<Rightarrow> u64 \<Rightarrow> rd_err + ((string \<times> sstable) list \<times> u64)" where
  "open_tables d [] next = Inr ([], next)"
| "open_tables d (n # ns) next =
     (case map_of d n of
        None \<Rightarrow> Inl ErrRead
      | Some f \<Rightarrow> (case openTable f of
            Inl e \<Rightarrow> Inl e
          | Inr t \<Rightarrow> let id = tableID n; next' = (if id \<ge> next then id + 1 else next) in
              (case open_tables d ns next' of
                 Inl e \<Rightarrow> Inl e
               | Inr (ts, next'') \<Rightarrow> Inr ((n, t) # ts, next''))))"

text \<open>The loop over the directory: tables the manifest does not list are removed, their ids burnt.\<close>

fun drop_orphans :: "string list \<Rightarrow> string list \<Rightarrow> u64 \<Rightarrow> fs_op list \<times> u64" where
  "drop_orphans live [] next = ([], next)"
| "drop_orphans live (n # ns) next =
     (if has_suffix n ''.sst'' \<and> n \<notin> set live
      then case drop_orphans live ns (let id = tableID n in if id \<ge> next then id + 1 else next) of
          (ops, next') \<Rightarrow> (FRemove n # ops, next')
      else drop_orphans live ns next)"

definition db_open :: "(nat \<Rightarrow> nat) \<Rightarrow> disk \<Rightarrow> opts \<Rightarrow> rd_err + (db \<times> fs_op list)" where
  "db_open rnd d o' =
     (let names = readManifest (map_of d manifestName) in
      case open_tables d names 1 of
        Inl e \<Rightarrow> Inl e
      | Inr (ts, next) \<Rightarrow>
          (case drop_orphans names (sort (map fst d)) next of (ops, next') \<Rightarrow>
            (case replayWAL (map_of d walName) of
               (rs, e) \<Rightarrow>
                 (case mem_puts rnd rs (Some newMemtable) of
                    None \<Rightarrow> Inl Panic
                  | Some m \<Rightarrow>
                      (case e of Some e \<Rightarrow> Inl e
                       | None \<Rightarrow> Inr (\<lparr>dopts = withDefaults o', dmem = m, dtables = ts, dnext = next', dclosed = False\<rparr>,
                           ops @ (if map_of d walName = None then [FCreate walName] else [])))))))"

section \<open>The abstract map\<close>

definition live_val :: "rec option \<Rightarrow> bytes option" where
  "live_val o' = (case o' of Some r \<Rightarrow> if rtomb r then None else Some (rval r) | None \<Rightarrow> None)"

definition layers :: "db \<Rightarrow> rec list list" where
  "layers db = mem_entries (dmem db) # map (\<lambda>(_, t). table_entries t) (dtables db)"

definition db_abs :: "db \<Rightarrow> bytes \<Rightarrow> bytes option" where
  "db_abs db k = live_val (rlookup (concat (layers db)) k)"

definition db_ok :: "db \<Rightarrow> bool" where
  "db_ok db \<longleftrightarrow> mem_ok (dmem db) \<and> (\<forall>(n, t)\<in>set (dtables db). table_ok t)"

lemma get_tables_lookup:
  "\<forall>(n, t)\<in>set ts. table_ok t \<Longrightarrow>
   get_tables ts k = (case live_val (rlookup (concat (map (\<lambda>(_, t). table_entries t) ts)) k) of
      None \<Rightarrow> Inl ErrNotFound | Some v \<Rightarrow> Inr v)"
proof (induction ts)
  case (Cons nt ts)
  obtain n t where nt: "nt = (n, t)" by fastforce
  with Cons.prems have "table_get t k = Inr (rlookup (table_entries t) k)"
    by (intro table_get_holds table_okE) auto
  with Cons nt show ?case by (auto simp: rlookup_append live_val_def split: option.splits)
qed (simp add: live_val_def)

lemma db_get_abs:
  assumes "db_ok db" and "\<not> dclosed db"
  shows "db_get db k = (case db_abs db k of None \<Rightarrow> Inl ErrNotFound | Some v \<Rightarrow> Inr v)"
  using assms mem.get_lookup [of "dmem db" k] get_tables_lookup [of "dtables db" k]
  by (auto simp: db_get_def db_abs_def layers_def db_ok_def rlookup_append live_val_def split: option.splits)

section \<open>Scans\<close>

lemma concat_rfrom: "concat (map (\<lambda>c. rfrom k (h c)) cs) = rfrom k (concat (map h cs))"
  by (induction cs) (simp_all add: rfrom_def)

definition live_records :: "rec list list \<Rightarrow> rec list" where
  "live_records cs = filter (\<lambda>r. \<not> rtomb r) (merged cs)"

lemma live_records_sorted [simp]: "rsorted (live_records cs)"
  by (simp add: live_records_def rsorted_filter)

lemma rlookup_live: "rlookup (live_records cs) k =
    (case rlookup (concat cs) k of Some r \<Rightarrow> if rtomb r then None else Some r | None \<Rightarrow> None)"
proof (cases "rlookup (concat cs) k")
  case None
  then have "r \<notin> set (merged cs)" if "rkey r = k" for r
    using rlookup_Some [OF rsorted_merged, of cs k r] that by simp
  then have "rlookup (live_records cs) k = None" by (auto simp: live_records_def rlookup_None)
  then show ?thesis unfolding None by simp
next
  case (Some r)
  then have r: "r \<in> set (merged cs)" "rkey r = k"
    using rlookup_Some [OF rsorted_merged, of cs k r] by simp_all
  show ?thesis
  proof (cases "rtomb r")
    case True
    then have "x \<notin> set (live_records cs)" if "rkey x = k" for x
      using rsorted_inj [OF rsorted_merged r(1), of x] that r(2) by (auto simp: live_records_def)
    with True Some show ?thesis by (auto simp: rlookup_None)
  next
    case False
    then have "rlookup (live_records cs) k = Some r"
      unfolding rlookup_Some [OF live_records_sorted] using r by (simp add: live_records_def)
    with False Some show ?thesis by simp
  qed
qed

lemma live_records_fit:
  "\<forall>c\<in>set cs. \<forall>r\<in>set c. P r \<Longrightarrow> \<forall>r\<in>set (live_records cs). P r"
  by (auto simp: live_records_def dest!: merged_mem)

lemma db_scan_live:
  assumes "db_ok db" and "\<not> dclosed db"
  shows "db_scanFrom db from fn = Inr (visit fn (live_records (map (rfrom from) (layers db))))"
proof -
  let ?ss = "\<lparr>pend = rfrom from (mem_entries (dmem db)), fault = None\<rparr>
    # map (\<lambda>(_, t). table_iter t from) (dtables db)"
  have it: "table_iter t from = \<lparr>pend = rfrom from (table_entries t), fault = None\<rparr>"
    if "(n, t) \<in> set (dtables db)" for n t
    using assms(1) that by (intro table_iter_holds table_okE) (auto simp: db_ok_def)
  then have pend: "map pend ?ss = map (rfrom from) (layers db)"
    by (auto simp: layers_def)
  have srt: "rsorted (table_entries t)" if "(n, t) \<in> set (dtables db)" for n t
    using assms(1) that tab.entries_sorted by (auto simp: db_ok_def)
  have "rsorted (mem_entries (dmem db))"
    using assms(1) mem.entries_sorted by (simp add: db_ok_def)
  then have "\<forall>s\<in>set ?ss. fault s = None \<and> rsorted (pend s)"
    by (auto simp: it intro!: rsorted_rfrom intro: srt)
  note M = merge_shadows [OF this, unfolded pend, folded live_records_def]
  have S: "mem_scan (dmem db) from = Some (rfrom from (mem_entries (dmem db)))"
    using assms(1) mem.scan_from by (simp add: db_ok_def)
  show ?thesis
    using assms(2) by (simp only: db_scanFrom_def S Let_def option.case pend M sum.case if_False)
qed

lemma rlookup_scan:
  "rlookup (live_records (map (rfrom from) (layers db))) k
   = (if from \<le> k then map_option (\<lambda>v. \<lparr>rkey = k, rval = v, rtomb = False\<rparr>) (db_abs db k) else None)"
proof -
  have "concat (map (rfrom from) (layers db)) = rfrom from (concat (layers db))"
    using concat_rfrom [of "from" id "layers db"] by simp
  then show ?thesis
    by (auto simp: rlookup_live rlookup_rfrom db_abs_def live_val_def split: option.splits
        dest!: rlookup_SomeD)
qed

section \<open>Flush and compaction keep the map\<close>

definition room :: "rec list \<Rightarrow> db \<Rightarrow> bool" where
  "room rs db \<longleftrightarrow> table_fits rs (bits_per_key db)"

lemma mem_records_ok: "mem_ok m \<Longrightarrow> mem_records m = Inr (mem_entries m)"
  using mem.scan_from [of m "[]"] by (simp add: mem_records_def)

lemma table_records_ok:
  assumes "\<forall>t\<in>set ts. table_ok t"
  shows "table_records ts = Inr (live_records (map table_entries ts))"
proof -
  let ?ss = "map (\<lambda>t. table_iter t []) ts"
  have it: "table_iter t [] = \<lparr>pend = table_entries t, fault = None\<rparr>" if "t \<in> set ts" for t
    using assms that table_iter_holds [OF table_okE, of t "[]"] by simp
  then have pend: "map pend ?ss = map table_entries ts" by auto
  have "\<forall>s\<in>set ?ss. fault s = None \<and> rsorted (pend s)"
    using assms it tab.entries_sorted by auto
  from merge_shadows [OF this] show ?thesis
    unfolding table_records_def Let_def pend live_records_def .
qed

lemma flush_cases:
  assumes "db_ok db" and "mn (dmem db) \<noteq> 0" and "room (mem_entries (dmem db)) db"
  obtains f t where "openTable f = Inr t" "table_ok t" "table_entries t = mem_entries (dmem db)"
    "flushLocked db = (None,
       db\<lparr>dnext := dnext db + 1, dtables := (sst_name (dnext db), t) # dtables db, dmem := newMemtable\<rparr>,
       [FCreate (sst_name (dnext db)), FAppend (sst_name (dnext db)) f]
         @ writeManifest (sst_name (dnext db) # map fst (dtables db)) @ [FCreate walName])"
proof -
  have m: "mem_ok (dmem db)" using assms(1) by (simp add: db_ok_def)
  obtain f t where ft: "writeTable (Inr (mem_entries (dmem db))) (bits_per_key db) = Inr f"
    "openTable f = Inr t" "holds t (mem_entries (dmem db))"
    using open_written [OF mem.entries_sorted [OF m] assms(3) [unfolded room_def]] by blast
  then have "table_ok t" "table_entries t = mem_entries (dmem db)"
    by (auto simp: table_ok_def holds_entries)
  with ft that assms(2) show ?thesis
    by (auto simp: flushLocked_def Let_def mem_records_ok [OF m])
qed

lemma compact_cases:
  assumes "db_ok db" and "2 \<le> length (dtables db)"
    and "room (live_records (map (\<lambda>(_, t). table_entries t) (dtables db))) db"
  obtains f t where "openTable f = Inr t" "table_ok t"
    "table_entries t = live_records (map (\<lambda>(_, t). table_entries t) (dtables db))"
    "compactLocked db = (None, db\<lparr>dnext := dnext db + 1, dtables := [(sst_name (dnext db), t)]\<rparr>,
       [FCreate (sst_name (dnext db)), FAppend (sst_name (dnext db)) f]
         @ writeManifest [sst_name (dnext db)] @ map (\<lambda>(n, _). FRemove n) (dtables db))"
proof -
  have e: "map table_entries (map snd (dtables db)) = map (\<lambda>(_, t). table_entries t) (dtables db)"
    by (induction "dtables db") (auto simp: case_prod_beta)
  have "\<forall>t\<in>set (map snd (dtables db)). table_ok t" using assms(1) by (auto simp: db_ok_def)
  note R = table_records_ok [OF this, unfolded e]
  obtain f t where ft: "writeTable (Inr (live_records (map (\<lambda>(_, t). table_entries t) (dtables db)))) (bits_per_key db) = Inr f"
    "openTable f = Inr t" "holds t (live_records (map (\<lambda>(_, t). table_entries t) (dtables db)))"
    using open_written [OF live_records_sorted assms(3) [unfolded room_def]] by blast
  then have "table_ok t" "table_entries t = live_records (map (\<lambda>(_, t). table_entries t) (dtables db))"
    by (auto simp: table_ok_def holds_entries)
  with ft that assms(2) show ?thesis
    by (auto simp: compactLocked_def Let_def R)
qed

lemma flush_abs:
  assumes "db_ok db" and "room (mem_entries (dmem db)) db" and "flushLocked db = (e, db', l)"
  shows "e = None \<and> db_ok db' \<and> db_abs db' = db_abs db \<and> dclosed db' = dclosed db \<and> dopts db' = dopts db"
proof (cases "mn (dmem db) = 0")
  case True
  with assms show ?thesis by (simp add: flushLocked_def)
next
  case False
  from flush_cases [OF assms(1) False assms(2)] obtain f t where
    *: "table_ok t" "table_entries t = mem_entries (dmem db)" "flushLocked db = (None,
       db\<lparr>dnext := dnext db + 1, dtables := (sst_name (dnext db), t) # dtables db, dmem := newMemtable\<rparr>,
       [FCreate (sst_name (dnext db)), FAppend (sst_name (dnext db)) f]
         @ writeManifest (sst_name (dnext db) # map fst (dtables db)) @ [FCreate walName])" by metis
  with assms(1,3) show ?thesis
    by (auto simp: db_ok_def db_abs_def [abs_def] layers_def newMemtable_ok)
qed

lemma compact_abs:
  assumes "db_ok db" and "room (live_records (map (\<lambda>(_, t). table_entries t) (dtables db))) db"
    and "compactLocked db = (e, db', l)"
  shows "e = None \<and> db_ok db' \<and> db_abs db' = db_abs db \<and> dclosed db' = dclosed db \<and> dopts db' = dopts db"
proof (cases "length (dtables db) < 2")
  case True
  with assms show ?thesis by (simp add: compactLocked_def)
next
  case False
  then have "2 \<le> length (dtables db)" by simp
  from compact_cases [OF assms(1) this assms(2)] obtain f t where
    *: "table_ok t" "table_entries t = live_records (map (\<lambda>(_, t). table_entries t) (dtables db))"
    "compactLocked db = (None, db\<lparr>dnext := dnext db + 1, dtables := [(sst_name (dnext db), t)]\<rparr>,
       [FCreate (sst_name (dnext db)), FAppend (sst_name (dnext db)) f]
         @ writeManifest [sst_name (dnext db)] @ map (\<lambda>(n, _). FRemove n) (dtables db))" by metis
  with assms(1,3) show ?thesis
    by (auto simp: db_ok_def db_abs_def [abs_def] layers_def rlookup_append rlookup_live live_val_def
        split: option.splits)
qed

section \<open>Every operation on the abstract map\<close>

text \<open>
  \<open>write_room\<close>: the tables a write may have to produce (by flushing the memtable with the new record,
  and by compacting) stay within the format's sizes.
\<close>

definition write_room :: "db \<Rightarrow> rec \<Rightarrow> bool" where
  "write_room db r \<longleftrightarrow> room (rupsert r (mem_entries (dmem db))) db
     \<and> room (live_records (rupsert r (mem_entries (dmem db)) # map (\<lambda>(_, t). table_entries t) (dtables db))) db"

lemma db_abs_put:
  assumes "mem_ok (dmem db)" and "mem_entries m = rupsert r (mem_entries (dmem db))"
  shows "db_abs (db\<lparr>dmem := m\<rparr>) = (db_abs db)(rkey r := live_val (Some r))"
  using assms mem.entries_sorted [OF assms(1)]
  by (auto simp: db_abs_def layers_def rlookup_append rlookup_rupsert split: option.splits)

lemma flush_tables:
  assumes "db_ok db" and "room (mem_entries (dmem db)) db" and "flushLocked db = (e, db', l)"
  shows "map (\<lambda>(_, t). table_entries t) (dtables db') =
    (if mn (dmem db) = 0 then [] else [mem_entries (dmem db)]) @ map (\<lambda>(_, t). table_entries t) (dtables db)"
proof (cases "mn (dmem db) = 0")
  case True
  with assms show ?thesis by (simp add: flushLocked_def)
next
  case False
  from flush_cases [OF assms(1) False assms(2)] obtain f t where
    "table_entries t = mem_entries (dmem db)" "flushLocked db = (None,
       db\<lparr>dnext := dnext db + 1, dtables := (sst_name (dnext db), t) # dtables db, dmem := newMemtable\<rparr>,
       [FCreate (sst_name (dnext db)), FAppend (sst_name (dnext db)) f]
         @ writeManifest (sst_name (dnext db) # map fst (dtables db)) @ [FCreate walName])" by metis
  with assms(3) False show ?thesis by auto
qed

lemma rupsert_not_Nil [simp]: "rupsert r rs \<noteq> []"
  by (simp add: rupsert_def)

theorem db_write_refines:
  assumes ok: "db_ok db" "\<not> dclosed db" and key: "rkey r \<noteq> []" and fits: "write_room db r"
  shows "\<exists>db' l. db_write rnd db r = (None, db', l) \<and> db_ok db' \<and> \<not> dclosed db'
    \<and> db_abs db' = (db_abs db)(rkey r := live_val (Some r))"
proof -
  have m0: "mem_ok (dmem db)" using ok(1) by (simp add: db_ok_def)
  obtain m where m: "mem_put rnd (dmem db) r = Some m" "mem_ok m"
    "mem_entries m = rupsert r (mem_entries (dmem db))"
    using mem_put_refines [OF m0] by blast
  let ?db1 = "db\<lparr>dmem := m\<rparr>"
  have ok1: "db_ok ?db1" "\<not> dclosed ?db1" using ok m(2) by (simp_all add: db_ok_def)
  have abs1: "db_abs ?db1 = (db_abs db)(rkey r := live_val (Some r))"
    by (rule db_abs_put [OF m0 m(3)])
  show ?thesis
  proof (cases "msize m \<ge> MemtableBytes (dopts db)")
    case False
    with ok key m ok1 abs1 show ?thesis by (simp add: db_write_def)
  next
    case True
    obtain e db2 l2 where f: "flushLocked ?db1 = (e, db2, l2)" by (cases "flushLocked ?db1") auto
    have room1: "room (mem_entries (dmem ?db1)) ?db1" using fits m(3) by (simp add: write_room_def room_def)
    note F = flush_abs [OF ok1(1) room1 f]
    show ?thesis
    proof (cases "int (length (dtables db2)) \<ge> CompactAt (dopts db)")
      case False
      with F True ok ok1 key m abs1 f show ?thesis by (simp add: db_write_def)
    next
      case big: True
      have "mn m \<noteq> 0" using m(2,3) by (simp add: mem_ok_def)
      then have "map (\<lambda>(_, t). table_entries t) (dtables db2)
          = rupsert r (mem_entries (dmem db)) # map (\<lambda>(_, t). table_entries t) (dtables db)"
        using flush_tables [OF ok1(1) room1 f] m(3) by simp
      then have room2: "room (live_records (map (\<lambda>(_, t). table_entries t) (dtables db2))) db2"
        using fits F by (simp add: write_room_def room_def)
      obtain e3 db3 l3 where c: "compactLocked db2 = (e3, db3, l3)" by (cases "compactLocked db2") auto
      note C = compact_abs [OF _ room2 c]
      from C F big True ok ok1 key m abs1 f c show ?thesis by (simp add: db_write_def)
    qed
  qed
qed

text \<open>A store that is new, after any sequence of puts and deletes within the sizes.\<close>

fun db_writes :: "(nat \<Rightarrow> nat) \<Rightarrow> db \<Rightarrow> rec list \<Rightarrow> db_err option \<times> db" where
  "db_writes rnd db [] = (None, db)"
| "db_writes rnd db (r # rs) =
     (case db_write rnd db r of
        (Some e, db', _) \<Rightarrow> (Some e, db')
      | (None, db', _) \<Rightarrow> db_writes rnd db' rs)"

fun writes_fit :: "(nat \<Rightarrow> nat) \<Rightarrow> db \<Rightarrow> rec list \<Rightarrow> bool" where
  "writes_fit rnd db [] \<longleftrightarrow> True"
| "writes_fit rnd db (r # rs) \<longleftrightarrow> rkey r \<noteq> [] \<and> write_room db r
     \<and> (case db_write rnd db r of (_, db', _) \<Rightarrow> writes_fit rnd db' rs)"

lemma db_writes_refines:
  "db_ok db \<Longrightarrow> \<not> dclosed db \<Longrightarrow> writes_fit rnd db rs \<Longrightarrow>
   \<exists>db'. db_writes rnd db rs = (None, db') \<and> db_ok db' \<and> \<not> dclosed db'
     \<and> db_abs db' = fold (\<lambda>r f. f(rkey r := live_val (Some r))) rs (db_abs db)"
proof (induction rs arbitrary: db)
  case (Cons r rs)
  then obtain db' l where w: "db_write rnd db r = (None, db', l)" "db_ok db'" "\<not> dclosed db'"
    "db_abs db' = (db_abs db)(rkey r := live_val (Some r))"
    using db_write_refines [of db r rnd] by auto
  with Cons.prems(3) have "writes_fit rnd db' rs" by simp
  from Cons.IH [OF w(2,3) this] w(1,4) show ?case by simp
qed simp

text \<open>\<^bold>\<open>C7\<close> The engine refines a map: after any sequence of puts and deletes (through flushes and
  compactions whenever the thresholds say so) every Get returns the last value written, or not found
  after a delete, and every Scan visits exactly the live keys from its start in strictly ascending
  order, with no error on any path.\<close>

theorem db_refines_map:
  assumes "db_ok db" and "\<not> dclosed db" and "writes_fit rnd db rs"
  shows "\<exists>db'. db_writes rnd db rs = (None, db')
    \<and> (let spec = fold (\<lambda>r f. f(rkey r := live_val (Some r))) rs (db_abs db) in
        (\<forall>k. db_get db' k = (case spec k of None \<Rightarrow> Inl ErrNotFound | Some v \<Rightarrow> Inr v))
        \<and> (\<forall>start fn. \<exists>ss. db_scanFrom db' start fn = Inr (visit fn ss) \<and> rsorted ss
             \<and> (\<forall>k. map_option rval (rlookup ss k) = (if start \<le> k then spec k else None))))"
proof -
  obtain db' where db': "db_writes rnd db rs = (None, db')" "db_ok db'" "\<not> dclosed db'"
    "db_abs db' = fold (\<lambda>r f. f(rkey r := live_val (Some r))) rs (db_abs db)"
    using db_writes_refines [OF assms] by blast
  have "\<exists>ss. db_scanFrom db' start fn = Inr (visit fn ss) \<and> rsorted ss
      \<and> (\<forall>k. map_option rval (rlookup ss k) = (if start \<le> k then db_abs db' k else None))" for start fn
    using db_scan_live [OF db'(2,3)] rlookup_scan [of start db']
    by (intro exI [of _ "live_records (map (rfrom start) (layers db'))"]) (auto simp: option.map_comp comp_def option.map_ident)
  with db' db_get_abs [OF db'(2,3)] show ?thesis unfolding Let_def db'(4) [symmetric] by blast
qed

definition zero_opts :: opts where
  "zero_opts = \<lparr>MemtableBytes = 0, CompactAt = 0, SyncWrites = False, BloomBitsPerKey = 0\<rparr>"

definition fresh_db :: db where
  "fresh_db = \<lparr>dopts = withDefaults zero_opts, dmem = newMemtable, dtables = [], dnext = 1, dclosed = False\<rparr>"

theorem db_refines_map_witness:
  "\<exists>db'. db_writes (\<lambda>_. 1) fresh_db [\<lparr>rkey = [97], rval = [1], rtomb = False\<rparr>] = (None, db')
    \<and> db_get db' [97] = Inr [1] \<and> db_get db' [98] = Inl ErrNotFound"
proof -
  let ?r = "\<lparr>rkey = [97], rval = [1], rtomb = False\<rparr>"
  have "table_fits [?r] 10"
    by (simp add: table_fits_def rec_fits_def bloom_nbits_def sparse_def index_bytes_def wal_bytes_def
        encodeRec_def payload_of_def put_uvarint.simps Let_def)
  then have "write_room fresh_db ?r"
    by (simp add: write_room_def room_def fresh_db_def newMemtable_ok live_records_def merged_def rupsert_def
        withDefaults_def zero_opts_def)
  then have "writes_fit (\<lambda>_. 1) fresh_db [?r]" by (auto split: prod.splits)
  moreover have "db_ok fresh_db" "\<not> dclosed fresh_db"
    by (simp_all add: db_ok_def fresh_db_def newMemtable_ok)
  moreover have "db_abs fresh_db k = None" for k
    by (simp add: db_abs_def layers_def fresh_db_def newMemtable_ok live_val_def)
  ultimately show ?thesis
    using db_refines_map [of fresh_db "\<lambda>_. 1" "[?r]"] by (auto simp: Let_def live_val_def)
qed

end
