(* ===== verification/Crash.thy ===== *)
theory Crash
  imports Db
begin

text \<open>
  Crash safety of the storage engine. A crash in the middle of an operation leaves the directory in
  one of the states between its file operations, the last write possibly partial (\<open>crashes\<close>).
  \<open>on_disk\<close> is the invariant that relates a running database to its directory; opening any crash
  state of an operation gives the map before or after it.
\<close>

section \<open>Crash states\<close>

fun partials :: "fs_op \<Rightarrow> disk \<Rightarrow> disk set" where
  "partials (FAppend n b) d = (\<lambda>k. apply_op (FAppend n (take k b)) d) ` {..length b}"
| "partials op d = {d}"

fun crashes :: "fs_op list \<Rightarrow> disk \<Rightarrow> disk set" where
  "crashes [] d = {d}"
| "crashes (op # ops) d = insert d (partials op d \<union> crashes ops (apply_op op d))"

lemma apply_ops_simps [simp]:
  "apply_ops [] d = d" "apply_ops (op # ops) d = apply_ops ops (apply_op op d)"
  "apply_ops (l1 @ l2) d = apply_ops l2 (apply_ops l1 d)"
  by (simp_all add: apply_ops_def)

lemma crashes_start [simp]: "d \<in> crashes l d"
  by (cases l) auto

lemma crashes_end: "apply_ops l d \<in> crashes l d"
  by (induction l arbitrary: d) auto

lemma crashes_append: "crashes (l1 @ l2) d = crashes l1 d \<union> crashes l2 (apply_ops l1 d)"
  by (induction l1 arbitrary: d) auto

fun touched :: "fs_op \<Rightarrow> string set" where
  "touched (FCreate n) = {n}"
| "touched (FAppend n b) = {n}"
| "touched (FRename a b) = {a, b}"
| "touched (FRemove n) = {n}"

lemma apply_op_other: "n \<notin> touched op \<Longrightarrow> map_of (apply_op op d) n = map_of d n"
  by (cases op) (auto simp: update_conv' delete_conv' split: option.splits)

lemma partials_other: "n \<notin> touched op \<Longrightarrow> d' \<in> partials op d \<Longrightarrow> map_of d' n = map_of d n"
  by (cases op) (auto simp: update_conv')

text \<open>A crash leaves every file the log does not touch as it was.\<close>

lemma crashes_other:
  "\<forall>op\<in>set l. n \<notin> touched op \<Longrightarrow> d' \<in> crashes l d \<Longrightarrow> map_of d' n = map_of d n"
proof (induction l arbitrary: d)
  case (Cons op l)
  then show ?case using partials_other [of n op d' d] apply_op_other [of n op d] by fastforce
qed simp

section \<open>Names\<close>

lemma sst_parse [codec_simps]: "tableID (sst_name i) = i"
  by (simp add: tableID_def sst_name_def parse_uint_zpad [OF unat_u64_less])

lemma sst_inj [simp]: "sst_name i = sst_name j \<longleftrightarrow> i = j"
  using sst_parse by metis

lemma sst_chars: "\<forall>c\<in>set (sst_name i). \<not> is_space c \<and> c \<noteq> CHR 0x0A"
  using zpad_digits [of 6 "unat i"] digit_not_space by (auto simp: sst_name_def is_space_def)

lemma sst_nonempty [simp]: "sst_name i \<noteq> []"
  by (simp add: sst_name_def)

lemma sst_hd: "is_digit (hd (sst_name i))"
proof -
  have "zpad 6 (dec (unat i)) \<noteq> []" by (simp add: zpad_def)
  then show ?thesis using zpad_digits [of 6 "unat i"] by (simp add: sst_name_def)
qed

lemma special_hd: "\<not> is_digit (hd manifestName)" "\<not> is_digit (hd manifestTmp)" "\<not> is_digit (hd walName)"
  by (simp_all add: manifestName_def manifestTmp_def walName_def is_digit_def)

lemma sst_other [simp]:
  "sst_name i \<noteq> manifestName" "sst_name i \<noteq> manifestTmp" "sst_name i \<noteq> walName"
  "manifestName \<noteq> sst_name i" "manifestTmp \<noteq> sst_name i" "walName \<noteq> sst_name i"
  using sst_hd [of i] special_hd by metis+

lemma names_distinct [simp]:
  "manifestName \<noteq> manifestTmp" "manifestTmp \<noteq> manifestName" "walName \<noteq> manifestName"
  "manifestName \<noteq> walName" "walName \<noteq> manifestTmp" "manifestTmp \<noteq> walName"
  by (simp_all add: manifestName_def manifestTmp_def walName_def)

section \<open>The manifest round-trips\<close>

definition manifest_bytes :: "string list \<Rightarrow> bytes" where
  "manifest_bytes ns = concat (map (\<lambda>n. string_bytes (n @ [CHR 0x0A])) ns)"

lemma readManifest_bytes [codec_simps]:
  assumes "\<forall>n\<in>set ns. \<exists>i. n = sst_name i"
  shows "readManifest (Some (manifest_bytes ns)) = ns"
proof -
  have b: "bytes_string (manifest_bytes ns) = concat (map (\<lambda>n. n @ [CHR 0x0A]) ns)" for ns
  proof (induction ns)
    case (Cons n ns)
    have "bytes_string (a @ b) = bytes_string a @ bytes_string b" for a b by (simp add: bytes_string_def)
    with Cons show ?case by (simp add: manifest_bytes_def del: string_bytes_append)
  qed (simp add: manifest_bytes_def bytes_string_def)
  show ?thesis
    unfolding readManifest_def option.case b using assms
  proof (induction ns)
    case (Cons n ns)
    then obtain i where i: "n = sst_name i" by auto
    have "split_on (CHR 0x0A) (n @ CHR 0x0A # t) = n # split_on (CHR 0x0A) t" for t
      unfolding i using sst_chars by (intro split_on_line) auto
    moreover have "trim_space n = n" unfolding i using sst_chars by (intro trim_space_id) auto
    ultimately show ?case using Cons i by simp
  qed (simp add: trim_space_def)
qed

lemma apply_tmp_lines:
  "map_of d manifestTmp = Some b \<Longrightarrow>
   map_of (apply_ops (map (\<lambda>n. FAppend manifestTmp (string_bytes (n @ [CHR 0x0A]))) ns) d) manifestTmp
     = Some (b @ manifest_bytes ns)"
  by (induction ns arbitrary: d b) (auto simp: manifest_bytes_def update_conv')

text \<open>The part of a manifest update before its rename touches only the temporary file.\<close>

definition manifest_prep :: "string list \<Rightarrow> fs_op list" where
  "manifest_prep ns = FCreate manifestTmp # map (\<lambda>n. FAppend manifestTmp (string_bytes (n @ [CHR 0x0A]))) ns"

lemma writeManifest_split: "writeManifest ns = manifest_prep ns @ [FRename manifestTmp manifestName]"
  by (simp add: writeManifest_def manifest_prep_def)

lemma manifest_prep_touched: "op \<in> set (manifest_prep ns) \<Longrightarrow> touched op = {manifestTmp}"
  by (auto simp: manifest_prep_def)

lemma manifest_prep_tmp: "map_of (apply_ops (manifest_prep ns) d) manifestTmp = Some (manifest_bytes ns)"
  using apply_tmp_lines [of "apply_op (FCreate manifestTmp) d" "[]"]
  by (simp add: manifest_prep_def update_conv')

lemma apply_ops_other: "\<forall>op\<in>set l. n \<notin> touched op \<Longrightarrow> map_of (apply_ops l d) n = map_of d n"
  using crashes_other crashes_end by blast

text \<open>The whole update, on a directory to which a new file has just been written.\<close>

lemma new_table_manifest:
  fixes name f ns d
  defines "d1 \<equiv> apply_ops ([FCreate name, FAppend name f] @ writeManifest ns) d"
  assumes "name \<noteq> manifestTmp" and "name \<noteq> manifestName"
  shows "map_of d1 manifestName = Some (manifest_bytes ns)" "map_of d1 name = Some f"
    "\<And>n. n \<notin> {name, manifestTmp, manifestName} \<Longrightarrow> map_of d1 n = map_of d n"
proof -
  let ?d = "apply_ops [FCreate name, FAppend name f] d"
  have d1: "d1 = apply_op (FRename manifestTmp manifestName) (apply_ops (manifest_prep ns) ?d)"
    by (simp add: d1_def writeManifest_split)
  have tmp: "map_of (apply_ops (manifest_prep ns) ?d) manifestTmp = Some (manifest_bytes ns)"
    by (rule manifest_prep_tmp)
  show "map_of d1 manifestName = Some (manifest_bytes ns)"
    using tmp by (simp add: d1 update_conv')
  have prep: "map_of (apply_ops (manifest_prep ns) ?d) n = map_of ?d n" if "n \<noteq> manifestTmp" for n
    using that manifest_prep_touched by (intro apply_ops_other) auto
  show "map_of d1 name = Some f"
    using tmp prep [of name] assms(2,3) by (simp add: d1 update_conv' delete_conv')
  show "\<And>n. n \<notin> {name, manifestTmp, manifestName} \<Longrightarrow> map_of d1 n = map_of d n"
    using tmp prep by (simp add: d1 update_conv' delete_conv')
qed

section \<open>What a directory recovers to\<close>

abbreviation entries_of :: "(string \<times> sstable) list \<Rightarrow> rec list" where
  "entries_of ts \<equiv> concat (map (\<lambda>(_, t). table_entries t) ts)"

definition tables_on :: "disk \<Rightarrow> (string \<times> sstable) list \<Rightarrow> bool" where
  "tables_on d ts \<longleftrightarrow> (\<forall>(n, t)\<in>set ts. table_ok t \<and> (\<exists>i. n = sst_name i \<and> i < - 1)
     \<and> (\<exists>f. map_of d n = Some f \<and> openTable f = Inr t))"

definition recovers :: "disk \<Rightarrow> (string \<times> sstable) list \<Rightarrow> rec list \<Rightarrow> bool" where
  "recovers d ts ws \<longleftrightarrow> readManifest (map_of d manifestName) = map fst ts \<and> tables_on d ts
     \<and> replayWAL (map_of d walName) = (ws, None)"

definition view :: "(string \<times> sstable) list \<Rightarrow> rec list \<Rightarrow> bytes \<Rightarrow> bytes option" where
  "view ts ws k = live_val (rlookup (rev ws @ entries_of ts) k)"

definition recoverable :: "disk \<Rightarrow> (bytes \<Rightarrow> bytes option) \<Rightarrow> bool" where
  "recoverable d V \<longleftrightarrow> (\<exists>ts ws. recovers d ts ws \<and> V = view ts ws)"

lemma recoverableI: "recovers d ts ws \<Longrightarrow> V = view ts ws \<Longrightarrow> recoverable d V"
  by (auto simp: recoverable_def)

text \<open>Recovery reads only the manifest, the files it lists and the log.\<close>

lemma recovers_cong:
  assumes "recovers d ts ws" and "map_of d' manifestName = map_of d manifestName"
    and "map_of d' walName = map_of d walName" and "\<And>n. n \<in> fst ` set ts \<Longrightarrow> map_of d' n = map_of d n"
  shows "recovers d' ts ws"
  using assms by (force simp: recovers_def tables_on_def)

text \<open>Only the log differs.\<close>

lemma recovers_log:
  assumes rec: "recovers d ts ws" and other: "\<And>n. n \<noteq> walName \<Longrightarrow> map_of d' n = map_of d n"
    and log: "replayWAL (map_of d' walName) = (ws', None)"
  shows "recovers d' ts ws'"
proof -
  have "tables_on d' ts"
    unfolding tables_on_def
  proof (rule ballI, clarify)
    fix n t assume "(n, t) \<in> set ts"
    with rec obtain i f where "table_ok t" "n = sst_name i" "i < - 1" "map_of d n = Some f" "openTable f = Inr t"
      by (auto simp: recovers_def tables_on_def)
    moreover from this have "map_of d' n = map_of d n" by (intro other) simp
    ultimately show "table_ok t \<and> (\<exists>i. n = sst_name i \<and> i < - 1) \<and> (\<exists>f. map_of d' n = Some f \<and> openTable f = Inr t)"
      by auto
  qed
  then show ?thesis using rec log other [of manifestName] by (simp add: recovers_def)
qed

lemma open_tables_ok:
  assumes "tables_on d ts"
  shows "\<exists>next'. open_tables d (map fst ts) next = Inr (ts, next') \<and> next \<le> next'
    \<and> (\<forall>(n, t)\<in>set ts. \<exists>i. n = sst_name i \<and> i < next')"
  using assms
proof (induction ts arbitrary: "next")
  case (Cons nt ts)
  obtain n t where nt: "nt = (n, t)" by fastforce
  with Cons.prems obtain i f where i: "n = sst_name i" "i < - 1" "map_of d n = Some f" "openTable f = Inr t"
    by (auto simp: tables_on_def)
  let ?next = "if i \<ge> next then i + 1 else next"
  have lt: "i < ?next" and le: "next \<le> ?next"
  proof -
    have "i < i + 1" using i(2) by (rule word_less_inc)
    then show "i < ?next" "next \<le> ?next" by (auto simp: not_le)
  qed
  from Cons obtain next' where IH: "open_tables d (map fst ts) ?next = Inr (ts, next')" "?next \<le> next'"
    "\<forall>(n, t)\<in>set ts. \<exists>i. n = sst_name i \<and> i < next'"
    by (force simp: tables_on_def)
  have "open_tables d (map fst (nt # ts)) next = Inr (nt # ts, next')"
    using i IH(1) by (simp add: nt sst_parse Let_def)
  moreover have "i < next'" using lt IH(2) by (rule less_le_trans)
  moreover have "next \<le> next'" using le IH(2) by (rule order_trans)
  ultimately show ?case using IH(3) i(1) by (auto simp: nt)
qed simp

text \<open>Opening such a directory succeeds and gives the map it recovers to.\<close>

lemma open_recovers:
  assumes "recovers d ts ws"
  shows "\<exists>db l. db_open rnd d o' = Inr (db, l) \<and> db_ok db \<and> \<not> dclosed db \<and> dtables db = ts
    \<and> mem_entries (dmem db) = fold rupsert ws [] \<and> db_abs db = view ts ws
    \<and> dopts db = withDefaults o' \<and> dnext db = snd (drop_orphans (map fst ts) (sort (map fst d)) (snd (projr (open_tables d (map fst ts) 1))))
    \<and> l = fst (drop_orphans (map fst ts) (sort (map fst d)) (snd (projr (open_tables d (map fst ts) 1))))
        @ (if map_of d walName = None then [FCreate walName] else [])"
proof -
  have R: "readManifest (map_of d manifestName) = map fst ts" "tables_on d ts"
    "replayWAL (map_of d walName) = (ws, None)"
    using assms by (simp_all add: recovers_def)
  obtain next' where o: "open_tables d (map fst ts) 1 = Inr (ts, next')"
    using open_tables_ok [OF R(2)] by blast
  obtain m where m: "mem_puts rnd ws (Some newMemtable) = Some m" "mem_ok m"
    "mem_entries m = fold rupsert ws []"
    using mem_puts_refines [OF newMemtable_ok(1), of rnd ws] newMemtable_ok(2) by auto
  obtain ops next2 where dr: "drop_orphans (map fst ts) (sort (map fst d)) next' = (ops, next2)"
    by fastforce
  let ?db = "\<lparr>dopts = withDefaults o', dmem = m, dtables = ts, dnext = next2, dclosed = False\<rparr>"
  have "db_open rnd d o' = Inr (?db, ops @ (if map_of d walName = None then [FCreate walName] else []))"
    by (simp add: db_open_def Let_def R o dr m)
  moreover have "db_ok ?db" using m(2) R(2) by (auto simp: db_ok_def tables_on_def)
  moreover have "db_abs ?db = view ts ws"
    using rlookup_fold_upsert [of "[]" ws]
    by (auto simp: db_abs_def layers_def view_def m(3) rlookup_append fun_eq_iff split: option.splits)
  ultimately show ?thesis using m o dr by auto
qed

section \<open>A running database and its directory\<close>

definition on_disk :: "db \<Rightarrow> disk \<Rightarrow> bool" where
  "on_disk db d \<longleftrightarrow> db_ok db \<and> readManifest (map_of d manifestName) = map fst (dtables db)
     \<and> tables_on d (dtables db) \<and> (\<forall>(n, t)\<in>set (dtables db). \<exists>i. n = sst_name i \<and> i < dnext db)
     \<and> (\<exists>ws. map_of d walName = Some (wal_bytes ws) \<and> (\<forall>r\<in>set ws. rec_fits r)
          \<and> mem_entries (dmem db) = fold rupsert ws [])"

lemma on_diskE:
  assumes "on_disk db d"
  obtains ws where "recovers d (dtables db) ws" "db_abs db = view (dtables db) ws"
    "map_of d walName = Some (wal_bytes ws)" "\<forall>r\<in>set ws. rec_fits r"
    "mem_entries (dmem db) = fold rupsert ws []"
proof -
  obtain ws where ws: "map_of d walName = Some (wal_bytes ws)" "\<forall>r\<in>set ws. rec_fits r"
    "mem_entries (dmem db) = fold rupsert ws []"
    using assms by (auto simp: on_disk_def)
  have "recovers d (dtables db) ws"
    using assms ws by (simp add: on_disk_def recovers_def replayWAL_def codec_simps)
  moreover have "db_abs db = view (dtables db) ws"
    using rlookup_fold_upsert [of "[]" ws]
    by (auto simp: db_abs_def layers_def view_def ws(3) rlookup_append fun_eq_iff split: option.splits)
  ultimately show ?thesis using that ws by blast
qed

lemma on_disk_ok: "on_disk db d \<Longrightarrow> db_ok db"
  by (simp add: on_disk_def)

lemma on_disk_recoverable: "on_disk db d \<Longrightarrow> recoverable d (db_abs db)"
  by (erule on_diskE) (rule recoverableI)

lemma on_disk_fresh:
  assumes "on_disk db d" shows "sst_name (dnext db) \<notin> fst ` set (dtables db)"
  using assms by (force simp: on_disk_def)

section \<open>A new table and its manifest\<close>

text \<open>
  The common part of flush and compaction: a table is written under a fresh name and the manifest
  replaced by one that lists it. Before the rename the directory recovers to what it did; after it,
  to the tables of the new manifest.
\<close>

definition install :: "string \<Rightarrow> bytes \<Rightarrow> string list \<Rightarrow> fs_op list" where
  "install name f ns = [FCreate name, FAppend name f] @ writeManifest ns"

lemma install_crashes:
  assumes "recovers d ts ws" and "name = sst_name i" and "name \<notin> fst ` set ts"
    and "d' \<in> crashes (install name f ns) d"
  shows "recovers d' ts ws \<or> d' = apply_ops (install name f ns) d"
proof -
  let ?A = "[FCreate name, FAppend name f] @ manifest_prep ns"
  have split: "install name f ns = ?A @ [FRename manifestTmp manifestName]"
    by (simp add: install_def writeManifest_split)
  have "recovers d1 ts ws" if "d1 \<in> crashes ?A d" for d1
  proof -
    have same: "map_of d1 n = map_of d n" if "n \<noteq> name" "n \<noteq> manifestTmp" for n
      using that \<open>d1 \<in> crashes ?A d\<close> manifest_prep_touched by (intro crashes_other [where l = ?A]) auto
    have ts: "n \<noteq> manifestTmp \<and> n \<noteq> name" if "n \<in> fst ` set ts" for n
      using assms(1,3) that by (force simp: recovers_def tables_on_def)
    show ?thesis using assms(1)
      by (rule recovers_cong) (use same ts assms(2) in auto)
  qed
  moreover have "d' \<in> crashes ?A d \<or> d' = apply_ops ?A d \<or> d' = apply_ops (install name f ns) d"
    using assms(4) unfolding split crashes_append by auto
  ultimately show ?thesis using crashes_end by blast
qed

lemma install_done:
  assumes rec: "recovers d ts ws" and name: "name = sst_name i" "i < - 1" and f: "openTable f = Inr t" "table_ok t"
    and sub: "set ts' \<subseteq> set ts" and fresh: "name \<notin> fst ` set ts"
  shows "recovers (apply_ops (install name f (name # map fst ts')) d) ((name, t) # ts') ws"
proof -
  let ?d = "apply_ops (install name f (name # map fst ts')) d"
  note N = new_table_manifest [where name = name and f = f and ns = "name # map fst ts'" and d = d, folded install_def]
  have ts: "\<exists>j. n = sst_name j" if "n \<in> fst ` set ts" for n
    using rec that by (force simp: recovers_def tables_on_def)
  have man: "map_of ?d manifestName = Some (manifest_bytes (name # map fst ts'))" "map_of ?d name = Some f"
    using N(1,2) name(1) by simp_all
  have other: "map_of ?d n = map_of d n" if "n \<in> fst ` set ts \<or> n = walName" for n
  proof (rule N(3))
    show "name \<noteq> manifestTmp" "name \<noteq> manifestName" using name(1) by simp_all
    show "n \<notin> {name, manifestTmp, manifestName}"
      using that
    proof
      assume "n \<in> fst ` set ts"
      moreover from ts [OF this] obtain j where "n = sst_name j" ..
      ultimately show ?thesis using fresh by auto
    next
      assume "n = walName"
      then show ?thesis by (simp add: name(1))
    qed
  qed
  have "readManifest (map_of ?d manifestName) = name # map fst ts'"
    unfolding man
  proof (rule readManifest_bytes, rule ballI)
    fix n assume "n \<in> set (name # map fst ts')"
    then have "n = name \<or> n \<in> fst ` set ts" using sub by auto
    then show "\<exists>i. n = sst_name i" using ts name(1) by blast
  qed
  moreover have "tables_on ?d ((name, t) # ts')"
    unfolding tables_on_def
  proof (rule ballI, clarify)
    fix n u assume u: "(n, u) \<in> set ((name, t) # ts')"
    show "table_ok u \<and> (\<exists>i. n = sst_name i \<and> i < - 1) \<and> (\<exists>f. map_of ?d n = Some f \<and> openTable f = Inr u)"
    proof (cases "(n, u) = (name, t)")
      case True
      then show ?thesis using man(2) name f by blast
    next
      case False
      with u sub have "(n, u) \<in> set ts" by auto
      moreover from this have "map_of ?d n = map_of d n" by (intro other) force
      ultimately show ?thesis using rec by (auto simp: recovers_def tables_on_def)
    qed
  qed
  ultimately show ?thesis
    using rec other by (simp add: recovers_def)
qed

lemma view_cong: "rev ws @ entries_of ts = rev ws' @ entries_of ts' \<Longrightarrow> view ts ws = view ts' ws'"
  by (simp add: view_def fun_eq_iff)

lemma view_entries: "view ts ws k = live_val (rlookup (fold rupsert ws [] @ entries_of ts) k)"
  using rlookup_fold_upsert [of "[]" ws] by (simp add: view_def rlookup_append)

section \<open>Flush\<close>

lemma flush_crash:
  assumes inv: "on_disk db d" and room: "room (mem_entries (dmem db)) db" and nxt: "dnext db < - 1"
    and run: "flushLocked db = (e, db', l)"
  shows "(\<forall>d'\<in>crashes l d. recoverable d' (db_abs db)) \<and> on_disk db' (apply_ops l d)
    \<and> unat (dnext db') \<le> unat (dnext db) + 1"
proof (cases "mn (dmem db) = 0")
  case True
  with run inv on_disk_recoverable [OF inv] show ?thesis
    by (auto simp: flushLocked_def)
next
  case False
  obtain ws where ws: "recovers d (dtables db) ws" "db_abs db = view (dtables db) ws"
    "mem_entries (dmem db) = fold rupsert ws []"
    using inv by (rule on_diskE) blast
  let ?name = "sst_name (dnext db)"
  obtain f t where ft: "openTable f = Inr t" "table_ok t" "table_entries t = mem_entries (dmem db)"
    and r: "flushLocked db = (None,
       db\<lparr>dnext := dnext db + 1, dtables := (?name, t) # dtables db, dmem := newMemtable\<rparr>,
       install ?name f (?name # map fst (dtables db)) @ [FCreate walName])"
    using flush_cases [OF on_disk_ok [OF inv] False room] by (auto simp: install_def)
  let ?L = "install ?name f (?name # map fst (dtables db))" and ?ts = "(?name, t) # dtables db"
  have l: "l = ?L @ [FCreate walName]"
    and db': "db' = db\<lparr>dnext := dnext db + 1, dtables := ?ts, dmem := newMemtable\<rparr>"
    using run r by simp_all
  have rec1: "recovers (apply_ops ?L d) ?ts ws"
    using install_done [OF ws(1) refl nxt ft(1,2) order.refl on_disk_fresh [OF inv]] .
  have v1: "view ?ts ws = db_abs db"
    by (auto simp: ws(2,3) view_entries ft(3) rlookup_append fun_eq_iff split: option.splits)
  have rec2: "recovers (apply_op (FCreate walName) (apply_ops ?L d)) ?ts []"
  proof -
    have "\<forall>n\<in>fst ` set ?ts. n \<noteq> walName"
      using rec1 by (force simp: recovers_def tables_on_def)
    then show ?thesis using rec1
      by (auto simp: recovers_def tables_on_def update_conv' replayWAL_def)
  qed
  have v2: "view ?ts [] = db_abs db"
    by (auto simp: ws(2,3) view_entries ft(3))
  have "recoverable d' (db_abs db)" if "d' \<in> crashes l d" for d'
  proof -
    have "d' \<in> crashes ?L d \<or> d' = apply_ops ?L d \<or> d' = apply_op (FCreate walName) (apply_ops ?L d)"
      using that unfolding l crashes_append by auto
    then show ?thesis
      using install_crashes [OF ws(1) refl on_disk_fresh [OF inv], of d' f] rec1 rec2 v1 v2 ws(2)
      by (metis recoverableI)
  qed
  moreover have "on_disk db' (apply_ops l d)"
  proof -
    have "db_ok db'" using flush_abs [OF on_disk_ok [OF inv] room run] by simp
    moreover have "\<forall>(n, t)\<in>set ?ts. \<exists>i. n = sst_name i \<and> i < dnext db + 1"
      using inv word_less_inc [OF nxt] by (force simp: on_disk_def intro: less_trans)
    moreover have "map_of (apply_ops l d) walName = Some (wal_bytes [])"
      by (simp add: l update_conv')
    ultimately show ?thesis
      using rec2 unfolding on_disk_def
      by (auto simp: db' l recovers_def newMemtable_ok intro!: exI [of _ "[]"])
  qed
  ultimately show ?thesis using unat_inc [OF nxt] by (simp add: db')
qed

section \<open>Compaction\<close>

lemma view_compacted:
  "table_entries t = live_records (map (\<lambda>(_, t). table_entries t) ts) \<Longrightarrow> view [(n, t)] ws = view ts ws"
  by (auto simp: view_def fun_eq_iff rlookup_append rlookup_live live_val_def split: option.splits)

lemma compact_crash:
  assumes inv: "on_disk db d" and nxt: "dnext db < - 1"
    and room: "room (live_records (map (\<lambda>(_, t). table_entries t) (dtables db))) db"
    and run: "compactLocked db = (e, db', l)"
  shows "(\<forall>d'\<in>crashes l d. recoverable d' (db_abs db)) \<and> on_disk db' (apply_ops l d)
    \<and> unat (dnext db') \<le> unat (dnext db) + 1"
proof (cases "length (dtables db) < 2")
  case True
  with run inv on_disk_recoverable [OF inv] show ?thesis
    by (auto simp: compactLocked_def)
next
  case False
  then have two: "2 \<le> length (dtables db)" by simp
  obtain ws where ws: "recovers d (dtables db) ws" "db_abs db = view (dtables db) ws"
    "map_of d walName = Some (wal_bytes ws)" "\<forall>r\<in>set ws. rec_fits r"
    "mem_entries (dmem db) = fold rupsert ws []"
    using inv by (rule on_diskE) blast
  let ?name = "sst_name (dnext db)" and ?rm = "map (\<lambda>(n, _). FRemove n) (dtables db)"
  obtain f t where ft: "openTable f = Inr t" "table_ok t"
      "table_entries t = live_records (map (\<lambda>(_, t). table_entries t) (dtables db))"
    and r: "compactLocked db = (None, db\<lparr>dnext := dnext db + 1, dtables := [(?name, t)]\<rparr>,
       install ?name f (?name # map fst ([] :: (string \<times> sstable) list)) @ ?rm)"
    using compact_cases [OF on_disk_ok [OF inv] two room] by (auto simp: install_def)
  let ?L = "install ?name f (?name # map fst ([] :: (string \<times> sstable) list))"
  have l: "l = ?L @ ?rm" and db': "db' = db\<lparr>dnext := dnext db + 1, dtables := [(?name, t)]\<rparr>"
    using run r by simp_all
  have rec1: "recovers (apply_ops ?L d) [(?name, t)] ws"
    using install_done [OF ws(1) refl nxt ft(1,2) _ on_disk_fresh [OF inv], of "[]"] by simp
  have v1: "view [(?name, t)] ws = db_abs db"
    by (simp add: ws(2) view_compacted [OF ft(3)])
  have keep: "map_of d' n = map_of (apply_ops ?L d) n"
    if "d' \<in> crashes ?rm (apply_ops ?L d)" "n \<notin> fst ` set (dtables db)" for d' n
    using that by (intro crashes_other [where l = ?rm]) force+
  have special: "manifestName \<notin> fst ` set (dtables db)" "walName \<notin> fst ` set (dtables db)"
    using ws(1) by (force simp: recovers_def tables_on_def)+
  have rec2: "recovers d' [(?name, t)] ws" if "d' \<in> crashes ?rm (apply_ops ?L d)" for d'
    using rec1 by (rule recovers_cong) (use keep [OF that] special on_disk_fresh [OF inv] in auto)
  have "recoverable d' (db_abs db)" if "d' \<in> crashes l d" for d'
    using that install_crashes [OF ws(1) refl on_disk_fresh [OF inv], of d' f] rec1 rec2 v1 ws(2)
    unfolding l crashes_append by (metis Un_iff recoverableI)
  moreover have "on_disk db' (apply_ops l d)"
  proof -
    have "db_ok db'" using compact_abs [OF on_disk_ok [OF inv] room run] by simp
    moreover have "recovers (apply_ops l d) [(?name, t)] ws"
      using rec2 [OF crashes_end] by (simp add: l)
    moreover have "map_of (apply_ops l d) walName = Some (wal_bytes ws)"
    proof -
      have "map_of (apply_ops l d) walName = map_of (apply_ops ?L d) walName"
        using keep [OF crashes_end special(2)] by (simp add: l)
      also have "\<dots> = map_of d walName"
        using manifest_prep_touched
        by (intro apply_ops_other) (auto simp: install_def writeManifest_split)
      finally show ?thesis using ws(3) by simp
    qed
    ultimately show ?thesis
      unfolding on_disk_def using word_less_inc [OF nxt] ws(4,5) by (auto simp: db' recovers_def)
  qed
  ultimately show ?thesis using unat_inc [OF nxt] by (simp add: db')
qed

section \<open>Writes\<close>

lemma wal_append_crash:
  assumes inv: "on_disk db d" and r: "rec_fits r"
    and d': "d' \<in> crashes [FAppend walName (encodeRec r)] d"
  shows "recoverable d' (db_abs db) \<or> recoverable d' ((db_abs db)(rkey r := live_val (Some r)))"
proof -
  obtain ws where ws: "recovers d (dtables db) ws" "db_abs db = view (dtables db) ws"
    "map_of d walName = Some (wal_bytes ws)" "\<forall>r\<in>set ws. rec_fits r"
    using inv by (rule on_diskE) blast
  have v: "view (dtables db) (ws @ [r]) = (view (dtables db) ws)(rkey r := live_val (Some r))"
    by (auto simp: view_def fun_eq_iff)
  have part: "recovers (apply_op (FAppend walName (take k (encodeRec r))) d) (dtables db)
      (if length (encodeRec r) \<le> k then ws @ [r] else ws)" for k
    using ws(1)
  proof (rule recovers_log)
    show "replayWAL (map_of (apply_op (FAppend walName (take k (encodeRec r))) d) walName)
        = (if length (encodeRec r) \<le> k then ws @ [r] else ws, None)"
      using replay_append_torn [OF ws(4) r, of k] by (simp add: ws(3) update_conv' replayWAL_def)
  qed (simp add: update_conv')
  have "d' = d \<or> (\<exists>k. d' = apply_op (FAppend walName (take k (encodeRec r))) d)
      \<or> d' = apply_op (FAppend walName (encodeRec r)) d"
    using d' by (auto simp del: apply_op.simps)
  then have "d' = d \<or> (\<exists>k. d' = apply_op (FAppend walName (take k (encodeRec r))) d)"
    by (metis order.refl take_all)
  then show ?thesis
    using part ws(1,2) v by (metis recoverableI)
qed

lemma wal_append_done:
  assumes inv: "on_disk db d" and r: "rec_fits r"
    and m: "mem_ok m" "mem_entries m = rupsert r (mem_entries (dmem db))"
  shows "on_disk (db\<lparr>dmem := m\<rparr>) (apply_op (FAppend walName (encodeRec r)) d)"
proof -
  obtain ws where ws: "recovers d (dtables db) ws"
    "map_of d walName = Some (wal_bytes ws)" "\<forall>r\<in>set ws. rec_fits r"
    "mem_entries (dmem db) = fold rupsert ws []"
    using inv by (rule on_diskE) blast
  let ?d = "apply_op (FAppend walName (encodeRec r)) d"
  have log: "map_of ?d walName = Some (wal_bytes (ws @ [r]))"
    by (simp add: ws(2) update_conv')
  have fits: "\<forall>x\<in>set (ws @ [r]). rec_fits x" using ws(3) r by simp
  have "recovers ?d (dtables db) (ws @ [r])"
    using ws(1)
  proof (rule recovers_log)
    show "replayWAL (map_of ?d walName) = (ws @ [r], None)"
      unfolding log replayWAL_def using replay_wal_bytes [OF fits] by simp
  qed (simp add: update_conv')
  moreover have "mem_entries m = fold rupsert (ws @ [r]) []" by (simp add: m(2) ws(4))
  moreover have "db_ok (db\<lparr>dmem := m\<rparr>)" using inv m(1) by (simp add: on_disk_def db_ok_def)
  moreover have "\<forall>(n, t)\<in>set (dtables db). \<exists>i. n = sst_name i \<and> i < dnext db"
    using inv by (simp add: on_disk_def)
  ultimately show ?thesis
    using log fits unfolding on_disk_def recovers_def
    by (intro conjI exI [of _ "ws @ [r]"]) (simp_all del: apply_op.simps)
qed

text \<open>
  The whole write: append to the log, insert, and, past the thresholds, flush and compact. Whatever
  file operation the crash interrupts, the directory recovers to the map before or after the write;
  when the write has returned, the invariant holds again.
\<close>

lemma write_crash:
  assumes inv: "on_disk db d" "\<not> dclosed db" and key: "rkey r \<noteq> []" and room: "write_room db r"
    and nxt: "unat (dnext db) < 2 ^ 64 - 3" and run: "db_write rnd db r = (e, db', l)"
  shows "(\<forall>d'\<in>crashes l d. recoverable d' (db_abs db) \<or> recoverable d' (db_abs db'))
    \<and> on_disk db' (apply_ops l d) \<and> unat (dnext db') \<le> unat (dnext db) + 2"
proof -
  have m0: "mem_ok (dmem db)" using on_disk_ok [OF inv(1)] by (simp add: db_ok_def)
  obtain m where m: "mem_put rnd (dmem db) r = Some m" "mem_ok m"
    "mem_entries m = rupsert r (mem_entries (dmem db))"
    using mem_put_refines [OF m0] by blast
  have "r \<in> set (rupsert r (mem_entries (dmem db)))" by (simp add: rupsert_def)
  then have fits: "rec_fits r"
    using room by (auto simp: write_room_def room_def dest: table_fits_mem)
  let ?db1 = "db\<lparr>dmem := m\<rparr>" and ?d1 = "apply_op (FAppend walName (encodeRec r)) d"
  let ?w = "FAppend walName (encodeRec r)"
  have inv1: "on_disk ?db1 ?d1" by (rule wal_append_done [OF inv(1) fits m(2,3)])
  have abs1: "db_abs ?db1 = (db_abs db)(rkey r := live_val (Some r))"
    by (rule db_abs_put [OF m0 m(3)])
  have w: "recoverable d' (db_abs db) \<or> recoverable d' (db_abs ?db1)" if "d' \<in> crashes [?w] d" for d'
    using wal_append_crash [OF inv(1) fits that] by (simp add: abs1)
  have small: "i < - 1" if "unat (i :: u64) < 2 ^ 64 - 1" for i
    using that by (simp add: word_less_nat_alt unsigned_minus_1_eq_mask mask_eq_exp_minus_1)
  have split: "d' \<in> crashes (?w # l2) d \<Longrightarrow> d' \<in> crashes [?w] d \<or> d' \<in> crashes l2 ?d1" for d' l2
    using crashes_append [of "[?w]" l2 d] by auto
  show ?thesis
  proof (cases "msize m \<ge> MemtableBytes (dopts db)")
    case False
    then have r1: "db' = ?db1" "l = [?w]" using run inv(2) key m by (simp_all add: db_write_def)
    with w inv1 show ?thesis by simp
  next
    case True
    obtain e2 db2 l2 where f: "flushLocked ?db1 = (e2, db2, l2)" by (cases "flushLocked ?db1") auto
    have room1: "room (mem_entries (dmem ?db1)) ?db1" using room m(3) by (simp add: write_room_def room_def)
    have n1: "dnext ?db1 < - 1" using nxt by (intro small) simp
    note F = flush_crash [OF inv1 room1 n1 f] and A = flush_abs [OF on_disk_ok [OF inv1] room1 f]
    show ?thesis
    proof (cases "int (length (dtables db2)) \<ge> CompactAt (dopts db)")
      case False
      then have r2: "db' = db2" "l = ?w # l2"
        using True run inv(2) key m f A by (simp_all add: db_write_def)
      have "recoverable d' (db_abs db) \<or> recoverable d' (db_abs db')" if "d' \<in> crashes l d" for d'
        using split [of d' l2] that F A w by (auto simp: r2 simp del: crashes.simps)
      with F show ?thesis by (simp add: r2)
    next
      case big: True
      obtain e3 db3 l3 where c: "compactLocked db2 = (e3, db3, l3)" by (cases "compactLocked db2") auto
      have "mn m \<noteq> 0" using m(2,3) by (simp add: mem_ok_def)
      then have "map (\<lambda>(_, t). table_entries t) (dtables db2)
          = rupsert r (mem_entries (dmem db)) # map (\<lambda>(_, t). table_entries t) (dtables db)"
        using flush_tables [OF on_disk_ok [OF inv1] room1 f] m(3) by simp
      then have room2: "room (live_records (map (\<lambda>(_, t). table_entries t) (dtables db2))) db2"
        using room A by (simp add: write_room_def room_def)
      have inv2: "on_disk db2 (apply_ops l2 ?d1)" using F by simp
      have n2: "dnext db2 < - 1" using nxt F by (intro small) simp
      note C = compact_crash [OF inv2 n2 room2 c] and B = compact_abs [OF on_disk_ok [OF inv2] room2 c]
      have r3: "db' = db3" "l = ?w # l2 @ l3"
        using True big run inv(2) key m f A c by (simp_all add: db_write_def)
      have "recoverable d' (db_abs db) \<or> recoverable d' (db_abs db')" if "d' \<in> crashes l d" for d'
        using split [of d' "l2 @ l3"] that F C A B w
        by (auto simp: r3 crashes_append simp del: crashes.simps)
      with C F show ?thesis by (simp add: r3)
    qed
  qed
qed

section \<open>Histories\<close>

lemma open_empty:
  "\<exists>db l. db_open rnd [] o' = Inr (db, l) \<and> on_disk db (apply_ops l []) \<and> \<not> dclosed db
     \<and> db_abs db = Map.empty \<and> dnext db = 1 \<and> dtables db = [] \<and> dopts db = withDefaults o'
     \<and> mem_entries (dmem db) = [] \<and> l = [FCreate walName]"
proof -
  have rec: "recovers [] [] []"
    by (simp add: recovers_def tables_on_def readManifest_def replayWAL_def)
  from open_recovers [OF rec, of rnd o'] obtain db l where db: "db_open rnd [] o' = Inr (db, l)" "db_ok db"
    "\<not> dclosed db" "dtables db = []" "mem_entries (dmem db) = []" "db_abs db = view [] []" "dnext db = 1"
    "l = [FCreate walName]" "dopts db = withDefaults o'"
    by auto
  have "view [] [] = Map.empty" by (simp add: view_def fun_eq_iff live_val_def)
  moreover have "on_disk db (apply_ops l [])"
    using db by (auto simp: on_disk_def tables_on_def readManifest_def intro!: exI [of _ "[]"])
  ultimately show ?thesis using db by auto
qed

fun run_writes :: "(nat \<Rightarrow> nat) \<Rightarrow> db \<Rightarrow> disk \<Rightarrow> rec list \<Rightarrow> db \<times> disk" where
  "run_writes rnd db d [] = (db, d)"
| "run_writes rnd db d (r # rs) =
     (case db_write rnd db r of (_, db', l) \<Rightarrow> run_writes rnd db' (apply_ops l d) rs)"

definition spec_map :: "rec list \<Rightarrow> bytes \<Rightarrow> bytes option" where
  "spec_map rs = fold (\<lambda>r f. f(rkey r := live_val (Some r))) rs Map.empty"

lemma writes_fit_snoc:
  "writes_fit rnd db (rs @ [r]) \<longleftrightarrow> writes_fit rnd db rs \<and> rkey r \<noteq> []
     \<and> write_room (fst (run_writes rnd db d rs)) r"
  by (induction rs arbitrary: db d) (auto split: prod.splits)

lemma run_writes_on_disk:
  assumes "on_disk db d" and "\<not> dclosed db" and "writes_fit rnd db rs"
    and "unat (dnext db) + 2 * length rs < 2 ^ 64 - 3" and "run_writes rnd db d rs = (db', d')"
  shows "on_disk db' d' \<and> \<not> dclosed db' \<and> unat (dnext db') \<le> unat (dnext db) + 2 * length rs
    \<and> db_abs db' = fold (\<lambda>r f. f(rkey r := live_val (Some r))) rs (db_abs db)"
  using assms
proof (induction rs arbitrary: db d)
  case (Cons r rs)
  have key: "rkey r \<noteq> []" and room: "write_room db r" using Cons.prems(3) by simp_all
  obtain db1 l where w: "db_write rnd db r = (None, db1, l)" "\<not> dclosed db1"
    "db_abs db1 = (db_abs db)(rkey r := live_val (Some r))"
    using db_write_refines [OF on_disk_ok [OF Cons.prems(1)] Cons.prems(2) key room] by blast
  have nxt: "unat (dnext db) < 2 ^ 64 - 3" using Cons.prems(4) by simp
  note W = write_crash [OF Cons.prems(1,2) key room nxt w(1)]
  have "run_writes rnd db1 (apply_ops l d) rs = (db', d')" using Cons.prems(5) w(1) by simp
  moreover have "writes_fit rnd db1 rs" using Cons.prems(3) w(1) by simp
  moreover have "unat (dnext db1) + 2 * length rs < 2 ^ 64 - 3" using Cons.prems(4) W by simp
  ultimately have "on_disk db' d' \<and> \<not> dclosed db' \<and> unat (dnext db') \<le> unat (dnext db1) + 2 * length rs
    \<and> db_abs db' = fold (\<lambda>r f. f(rkey r := live_val (Some r))) rs (db_abs db1)"
    using Cons.IH [of db1 "apply_ops l d"] W w(2) by blast
  then show ?case using W by (simp add: w(3) del: fun_upd_apply)
qed simp

text \<open>\<^bold>\<open>C1\<close> Crash safety: take a store created in an empty directory, any history of completed
  puts and deletes, and a crash at any point of the next one: between or inside any of its file
  operations, through the log append, the flush, the manifest swap, the log reset, the compaction and
  the removal of old tables. Reopening succeeds, and every Get answers by the completed history, or by
  it and the interrupted write: no acknowledged write is lost and none is torn.\<close>

theorem crash_durability:
  assumes "db_open rnd [] o' = Inr (db0, l0)" and "writes_fit rnd db0 (rs @ [r])"
    and "length rs < 2 ^ 62" and "run_writes rnd db0 (apply_ops l0 []) rs = (db, d)"
    and "db_write rnd db r = (e, db', l)" and "d' \<in> crashes l d"
  shows "\<exists>db2 l2 hist. db_open rnd' d' o2 = Inr (db2, l2) \<and> hist \<in> {rs, rs @ [r]}
    \<and> (\<forall>k. db_get db2 k = (case spec_map hist k of None \<Rightarrow> Inl ErrNotFound | Some v \<Rightarrow> Inr v))"
proof -
  have o: "on_disk db0 (apply_ops l0 [])" "\<not> dclosed db0" "db_abs db0 = Map.empty" "dnext db0 = 1"
    using open_empty [of rnd o'] assms(1) by auto
  have fit: "writes_fit rnd db0 rs" "rkey r \<noteq> []" "write_room db r"
    using assms(2) writes_fit_snoc [of rnd db0 rs r "apply_ops l0 []"] assms(4) by simp_all
  have "unat (dnext db0) + 2 * length rs < 2 ^ 64 - 3" using assms(3) o(4) by simp
  note R = run_writes_on_disk [OF o(1,2) fit(1) this assms(4)]
  have abs: "db_abs db = spec_map rs" using R o(3) by (simp add: spec_map_def)
  have nxt: "unat (dnext db) < 2 ^ 64 - 3" using R assms(3) o(4) by auto
  have "db_abs db' = (db_abs db)(rkey r := live_val (Some r))"
    using db_write_refines [of db r rnd] on_disk_ok R fit(2,3) assms(5) by fastforce
  then have abs': "db_abs db' = spec_map (rs @ [r])" using abs by (simp add: spec_map_def)
  have "recoverable d' (db_abs db) \<or> recoverable d' (db_abs db')"
    using write_crash [OF _ _ fit(2,3) nxt assms(5)] R assms(6) by blast
  then obtain ts ws hist where h: "recovers d' ts ws" "hist \<in> {rs, rs @ [r]}" "view ts ws = spec_map hist"
    unfolding recoverable_def abs abs' by fastforce
  from open_recovers [OF h(1), of rnd' o2] obtain db2 l2 where
    "db_open rnd' d' o2 = Inr (db2, l2)" "db_ok db2" "\<not> dclosed db2" "db_abs db2 = view ts ws"
    by blast
  with h db_get_abs [of db2] show ?thesis by auto
qed

theorem crash_durability_witness:
  "\<exists>db0 l0 e db' l. db_open (\<lambda>_. 1) [] zero_opts = Inr (db0, l0)
    \<and> db_write (\<lambda>_. 1) db0 \<lparr>rkey = [97], rval = [1], rtomb = False\<rparr> = (e, db', l)
    \<and> (\<forall>d'\<in>crashes l (apply_ops l0 []). \<exists>db2 l2 hist. db_open (\<lambda>_. 1) d' zero_opts = Inr (db2, l2)
        \<and> hist \<in> {[], [\<lparr>rkey = [97], rval = [1], rtomb = False\<rparr>]}
        \<and> (\<forall>k. db_get db2 k = (case spec_map hist k of None \<Rightarrow> Inl ErrNotFound | Some v \<Rightarrow> Inr v)))"
proof -
  let ?r = "\<lparr>rkey = [97], rval = [1], rtomb = False\<rparr>"
  obtain db0 l0 where o: "db_open (\<lambda>_. 1) [] zero_opts = Inr (db0, l0)" "mem_entries (dmem db0) = []"
    "dtables db0 = []" "dopts db0 = withDefaults zero_opts"
    using open_empty [of "\<lambda>_. 1" zero_opts] by blast
  have "table_fits [?r] 10"
    by (simp add: table_fits_def rec_fits_def bloom_nbits_def sparse_def index_bytes_def wal_bytes_def
        encodeRec_def payload_of_def put_uvarint.simps Let_def)
  then have "write_room db0 ?r"
    by (simp add: write_room_def room_def o live_records_def merged_def rupsert_def withDefaults_def zero_opts_def)
  then have fit: "writes_fit (\<lambda>_. 1) db0 ([] @ [?r])" by (auto split: prod.splits)
  obtain e db' l where w: "db_write (\<lambda>_. 1) db0 ?r = (e, db', l)" by (cases "db_write (\<lambda>_. 1) db0 ?r") auto
  have "\<forall>d'\<in>crashes l (apply_ops l0 []). \<exists>db2 l2 hist. db_open (\<lambda>_. 1) d' zero_opts = Inr (db2, l2)
        \<and> hist \<in> {[], [] @ [?r]}
        \<and> (\<forall>k. db_get db2 k = (case spec_map hist k of None \<Rightarrow> Inl ErrNotFound | Some v \<Rightarrow> Inr v))"
    using crash_durability [OF o(1) fit _ _ w] by simp
  with o(1) w show ?thesis by auto
qed

section \<open>What a torn tail does to later writes\<close>

text \<open>
  Replay skips a torn tail but \<open>openWAL\<close> appends after it: the torn bytes stay in the log, and the
  records written behind them are unreadable until the next flush.
\<close>

definition torn_a :: rec where "torn_a = \<lparr>rkey = [97], rval = [1], rtomb = False\<rparr>"
definition later_b :: rec where "later_b = \<lparr>rkey = [98], rval = [2], rtomb = False\<rparr>"

lemma torn_then_later: "replay_loop (take 6 (encodeRec torn_a) @ encodeRec later_b) = ([], None)"
proof -
  have "decodeRec (take 6 (encodeRec torn_a) @ encodeRec later_b) = Inl ErrCorrupt" by code_simp
  then show ?thesis by (subst replay_loop.simps) simp
qed

lemma torn_alone: "replay_loop (take 6 (encodeRec torn_a)) = ([], None)"
proof -
  have "rec_fits torn_a" by (simp add: torn_a_def rec_fits_def payload_of_def put_uvarint.simps)
  moreover have "length (encodeRec torn_a) = 9"
    by (simp add: torn_a_def encodeRec_def payload_of_def put_uvarint.simps Let_def)
  ultimately show ?thesis using replay_torn [of "[torn_a]" 6] by simp
qed

text \<open>\<^bold>\<open>C31\<close> A crash tears a write; the store is reopened, a second write is acknowledged and readable;
  the store is reopened once more without a flush in between: the acknowledged write is gone.\<close>

theorem torn_tail_swallows_write:
  "\<exists>db l db1 l1 db2 l2.
     db_open rnd [(walName, take 6 (encodeRec torn_a))] zero_opts = Inr (db, l)
     \<and> db_write rnd db later_b = (None, db1, l1)
     \<and> db_get db1 (rkey later_b) = Inr (rval later_b)
     \<and> db_open rnd (apply_ops (l @ l1) [(walName, take 6 (encodeRec torn_a))]) zero_opts = Inr (db2, l2)
     \<and> db_get db2 (rkey later_b) = Inl ErrNotFound"
proof -
  let ?d = "[(walName, take 6 (encodeRec torn_a))]"
  have "map_of ?d manifestName = None" by simp
  then have rec: "recovers ?d [] []"
    by (simp add: recovers_def tables_on_def readManifest_def replayWAL_def torn_alone)
  have nosst: "\<not> has_suffix walName ''.sst''"
    by (simp add: has_suffix_def walName_def)
  from open_recovers [OF rec, of rnd zero_opts] obtain db l where
    db: "db_open rnd ?d zero_opts = Inr (db, l)" "db_ok db" "\<not> dclosed db" "dtables db = []"
    "mem_entries (dmem db) = []" "dopts db = withDefaults zero_opts" "l = []" "db_abs db = view [] []"
    by (auto simp: nosst)
  obtain m where m: "mem_put rnd (dmem db) later_b = Some m" "mem_ok m" "mem_entries m = [later_b]"
    using mem_put_refines [of "dmem db" rnd later_b] db by (auto simp: db_ok_def rupsert_def)
  have "msize m = 18" using m(2,3) by (simp add: mem_ok_def rec_bytes_def later_b_def)
  then have w: "db_write rnd db later_b = (None, db\<lparr>dmem := m\<rparr>, [FAppend walName (encodeRec later_b)])"
    using db m by (simp add: db_write_def later_b_def withDefaults_def zero_opts_def)
  have g: "db_get (db\<lparr>dmem := m\<rparr>) (rkey later_b) = Inr (rval later_b)"
    using db m(2,3) mem.get_lookup [OF m(2), of "rkey later_b"]
    by (simp add: db_get_def later_b_def)
  let ?d2 = "apply_ops (l @ [FAppend walName (encodeRec later_b)]) ?d"
  have d2: "?d2 = [(walName, take 6 (encodeRec torn_a) @ encodeRec later_b)]" by (simp add: db(7))
  have "recovers ?d2 [] []"
    unfolding d2 by (simp add: recovers_def tables_on_def readManifest_def replayWAL_def torn_then_later)
  from open_recovers [OF this, of rnd zero_opts] obtain db2 l2 where
    db2: "db_open rnd ?d2 zero_opts = Inr (db2, l2)" "db_ok db2" "\<not> dclosed db2" "db_abs db2 = view [] []"
    by blast
  then have "db_get db2 (rkey later_b) = Inl ErrNotFound"
    by (simp add: db_get_abs view_def live_val_def)
  with db(1) w g db2(1) show ?thesis by blast
qed

end
