(* ===== verification/Raft.thy ===== *)
theory Raft
  imports Prelude
begin

text \<open>
  One Raft node (\<open>pkg/raft/raft.go\<close>, \<open>node.go\<close>, \<open>storage.go\<close>): its state and its handlers, one
  definition per function of the code. The mutex makes each critical section one function from a
  node to a node and its outputs; an RPC is split where the code releases the lock, into the request
  it builds and the handling of the reply. Terms and indices are naturals (a \<open>uint64\<close> term that
  overflows needs 2^64 elections). Wall-clock readings and draws of the random generator are the
  arguments \<open>now\<close> and \<open>draw\<close>. The empty string is "no vote", as in the code.
\<close>

datatype rstate = Follower | Candidate | Leader

fun rstate_string :: "rstate \<Rightarrow> string" where
  "rstate_string Leader = ''leader''"
| "rstate_string Candidate = ''candidate''"
| "rstate_string Follower = ''follower''"

record 'c entry =
  eterm :: nat
  ecmd :: 'c

record RequestVoteReq =
  rvTerm :: nat
  rvCandidate :: string
  rvLastIndex :: nat
  rvLastTerm :: nat

record RequestVoteResp =
  rvrTerm :: nat
  rvrGranted :: bool

record 'c AppendEntriesReq =
  aeTerm :: nat
  aeLeader :: string
  aePrevIndex :: nat
  aePrevTerm :: nat
  aeEntries :: "'c entry list"
  aeCommit :: nat

record AppendEntriesResp =
  aerTerm :: nat
  aerSuccess :: bool

text \<open>\<open>HardState\<close>: what the storage keeps across a crash.\<close>

record 'c HardState =
  hsTerm :: nat
  hsVotedFor :: string
  hsLog :: "'c entry list"

record 'c raft_node =
  nid :: string
  npeers :: "string list"
  nElectMin :: int
  nElectMax :: int
  nHeartbeat :: int
  nstate :: rstate
  nterm :: nat
  nvoted :: string
  nlog :: "'c entry list"
  ncommit :: nat
  napplied :: nat
  nnext :: "string \<Rightarrow> nat"
  nmatch :: "string \<Rightarrow> nat"
  nack :: "string \<Rightarrow> int option"
  nreset :: int
  ntimeout :: int
  nlastHb :: int
  nstopped :: bool
  nstore :: "'c HardState"

section \<open>Helpers\<close>

definition lastLogIndex :: "'c raft_node \<Rightarrow> nat" where
  "lastLogIndex n = length (nlog n)"

definition term_at :: "'c entry list \<Rightarrow> nat \<Rightarrow> nat" where
  "term_at l idx = (if idx = 0 \<or> length l < idx then 0 else eterm (l ! (idx - 1)))"

definition termAt :: "'c raft_node \<Rightarrow> nat \<Rightarrow> nat" where
  "termAt n idx = term_at (nlog n) idx"

definition persist :: "'c raft_node \<Rightarrow> 'c raft_node" where
  "persist n = n\<lparr>nstore := \<lparr>hsTerm = nterm n, hsVotedFor = nvoted n, hsLog = nlog n\<rparr>\<rparr>"

definition resetElectionTimer :: "int \<Rightarrow> int \<Rightarrow> 'c raft_node \<Rightarrow> 'c raft_node" where
  "resetElectionTimer now draw n = n\<lparr>nreset := now, ntimeout := nElectMin n + draw\<rparr>"

definition stepDown :: "int \<Rightarrow> int \<Rightarrow> nat \<Rightarrow> 'c raft_node \<Rightarrow> 'c raft_node" where
  "stepDown now draw t n =
     (let n1 = (if t > nterm n then n\<lparr>nterm := t, nvoted := []\<rparr> else n)
      in resetElectionTimer now draw (n1\<lparr>nstate := Follower\<rparr>))"

definition quorum :: "'c raft_node \<Rightarrow> nat \<Rightarrow> bool" where
  "quorum n votes \<longleftrightarrow> votes * 2 > length (npeers n) + 1"

section \<open>Creation and restart\<close>

record raft_times =
  ElectionTimeoutMin :: int
  ElectionTimeoutMax :: int
  HeartbeatInterval :: int
  TickInterval :: int

definition raft_withDefaults :: "raft_times \<Rightarrow> raft_times" where
  "raft_withDefaults c =
     (let ms = 1000000;
          c1 = (if ElectionTimeoutMin c \<le> 0 then c\<lparr>ElectionTimeoutMin := 150 * ms\<rparr> else c);
          c2 = (if ElectionTimeoutMax c1 \<le> ElectionTimeoutMin c1
                then c1\<lparr>ElectionTimeoutMax := 2 * ElectionTimeoutMin c1\<rparr> else c1);
          c3 = (if HeartbeatInterval c2 \<le> 0 then c2\<lparr>HeartbeatInterval := 50 * ms\<rparr> else c2)
      in if TickInterval c3 \<le> 0 then c3\<lparr>TickInterval := 10 * ms\<rparr> else c3)"

definition NewNode :: "int \<Rightarrow> int \<Rightarrow> string \<Rightarrow> string list \<Rightarrow> raft_times \<Rightarrow> 'c HardState \<Rightarrow> 'c raft_node option" where
  "NewNode now draw i peers cfg hs =
     (if i = [] then None
      else let c = raft_withDefaults cfg in Some (resetElectionTimer now draw
        \<lparr>nid = i, npeers = peers, nElectMin = ElectionTimeoutMin c, nElectMax = ElectionTimeoutMax c,
         nHeartbeat = HeartbeatInterval c,
         nstate = Follower, nterm = hsTerm hs, nvoted = hsVotedFor hs, nlog = hsLog hs,
         ncommit = 0, napplied = 0, nnext = (\<lambda>_. 0), nmatch = (\<lambda>_. 0), nack = Map.empty,
         nreset = 0, ntimeout = 0, nlastHb = 0, nstopped = False, nstore = hs\<rparr>))"

definition raft_stop :: "'c raft_node \<Rightarrow> 'c raft_node" where
  "raft_stop n = n\<lparr>nstopped := True\<rparr>"

section \<open>Elections\<close>

text \<open>The no-op entry of a new leader is \<open>noop\<close>, the code's empty command.\<close>

definition becomeLeader :: "int \<Rightarrow> 'c \<Rightarrow> 'c raft_node \<Rightarrow> 'c raft_node" where
  "becomeLeader now noop n =
     (let n1 = persist (n\<lparr>nstate := Leader, nlog := nlog n @ [\<lparr>eterm = nterm n, ecmd = noop\<rparr>]\<rparr>);
          last = lastLogIndex n1
      in n1\<lparr>nnext := (\<lambda>p. if p \<in> set (npeers n1) then last + 1 else nnext n1 p),
            nmatch := (\<lambda>p. if p \<in> set (npeers n1) then 0 else nmatch n1 p),
            nlastHb := now\<rparr>)"

text \<open>
  The result: the node and, when the election is under way, the vote request sent to every peer;
  the vote counter of the requests' goroutines starts at 1.
\<close>

definition startElection :: "int \<Rightarrow> int \<Rightarrow> 'c \<Rightarrow> 'c raft_node \<Rightarrow> 'c raft_node \<times> RequestVoteReq option" where
  "startElection now draw noop n =
     (if nstopped n \<or> nstate n = Leader then (n, None)
      else let n1 = resetElectionTimer now draw
                 (persist (n\<lparr>nstate := Candidate, nterm := nterm n + 1, nvoted := nid n\<rparr>))
        in if quorum n1 1 then (becomeLeader now noop n1, None)
           else (n1, Some \<lparr>rvTerm = nterm n1, rvCandidate = nid n1,
                           rvLastIndex = lastLogIndex n1, rvLastTerm = termAt n1 (lastLogIndex n1)\<rparr>))"

text \<open>The reply to a vote request; \<open>votes\<close> is the counter shared by the election's goroutines.\<close>

definition voteReply :: "int \<Rightarrow> int \<Rightarrow> 'c \<Rightarrow> RequestVoteReq \<Rightarrow> RequestVoteResp \<Rightarrow> 'c raft_node \<times> nat \<Rightarrow> 'c raft_node \<times> nat" where
  "voteReply now draw noop req resp nv =
     (case nv of (n, votes) \<Rightarrow>
        if rvrTerm resp > nterm n then (persist (stepDown now draw (rvrTerm resp) n), votes)
        else if nstate n \<noteq> Candidate \<or> nterm n \<noteq> rvTerm req \<or> \<not> rvrGranted resp then (n, votes)
        else if quorum n (votes + 1) then (becomeLeader now noop n, votes + 1)
        else (n, votes + 1))"

definition HandleRequestVote :: "int \<Rightarrow> int \<Rightarrow> RequestVoteReq \<Rightarrow> 'c raft_node \<Rightarrow> ('c raft_node \<times> RequestVoteResp) option" where
  "HandleRequestVote now draw req n =
     (if nstopped n then None
      else let changed = rvTerm req > nterm n;
               n1 = (if changed then stepDown now draw (rvTerm req) n else n);
               resp = \<lparr>rvrTerm = nterm n1, rvrGranted = False\<rparr>
        in if rvTerm req < nterm n1 then Some (if changed then persist n1 else n1, resp)
           else let lastIdx = lastLogIndex n1; lastTerm = termAt n1 lastIdx;
                    upToDate = (rvLastTerm req > lastTerm
                      \<or> rvLastTerm req = lastTerm \<and> rvLastIndex req \<ge> lastIdx)
             in if (nvoted n1 = [] \<or> nvoted n1 = rvCandidate req) \<and> upToDate
                then Some (persist (resetElectionTimer now draw (n1\<lparr>nvoted := rvCandidate req\<rparr>)),
                           resp\<lparr>rvrGranted := True\<rparr>)
                else Some (if changed then persist n1 else n1, resp))"

section \<open>Replication\<close>

text \<open>\<open>None\<close>: not a leader, nothing is sent. The slice expression is in range when \<open>next\<close> is 1..len+1.\<close>

definition replicateTo :: "'c raft_node \<Rightarrow> string \<Rightarrow> 'c AppendEntriesReq option" where
  "replicateTo n peer =
     (if nstopped n \<or> nstate n \<noteq> Leader then None
      else let next = nnext n peer; prev = next - 1
        in Some \<lparr>aeTerm = nterm n, aeLeader = nid n, aePrevIndex = prev, aePrevTerm = termAt n prev,
                 aeEntries = drop (next - 1) (nlog n), aeCommit = ncommit n\<rparr>)"

fun advance_loop :: "'c raft_node \<Rightarrow> nat \<Rightarrow> 'c raft_node" where
  "advance_loop n 0 = n"
| "advance_loop n (Suc k) =
     (let N = Suc k in
      if N \<le> ncommit n then n
      else if termAt n N \<noteq> nterm n then n
      else let count = 1 + length (filter (\<lambda>p. nmatch n p \<ge> N) (npeers n))
        in if quorum n count then n\<lparr>ncommit := N\<rparr> else advance_loop n k)"

definition advanceCommit :: "'c raft_node \<Rightarrow> 'c raft_node" where
  "advanceCommit n = advance_loop n (lastLogIndex n)"

text \<open>The reply to an append; the flag says that \<open>replicateTo\<close> is called again.\<close>

definition appendReply :: "int \<Rightarrow> int \<Rightarrow> string \<Rightarrow> 'c AppendEntriesReq \<Rightarrow> AppendEntriesResp \<Rightarrow> 'c raft_node \<Rightarrow> 'c raft_node \<times> bool" where
  "appendReply now draw peer req resp n =
     (if aerTerm resp > nterm n then (persist (stepDown now draw (aerTerm resp) n), False)
      else if nstate n \<noteq> Leader \<or> nterm n \<noteq> aeTerm req then (n, False)
      else let n1 = n\<lparr>nack := (nack n)(peer \<mapsto> now)\<rparr>
        in if aerSuccess resp
           then let m = aePrevIndex req + length (aeEntries req);
                    n2 = (if m > nmatch n1 peer then n1\<lparr>nmatch := (nmatch n1)(peer := m)\<rparr> else n1);
                    n3 = n2\<lparr>nnext := (nnext n2)(peer := nmatch n2 peer + 1)\<rparr>
             in (advanceCommit n3, False)
           else (if nnext n1 peer > 1 then n1\<lparr>nnext := (nnext n1)(peer := nnext n1 peer - 1)\<rparr> else n1, True))"

text \<open>The loop over the entries of a request: where the log is extended or cut.\<close>

fun merge_entries :: "'c entry list \<Rightarrow> nat \<Rightarrow> 'c entry list \<Rightarrow> 'c entry list \<times> bool" where
  "merge_entries l prev [] = (l, False)"
| "merge_entries l prev (e # es) =
     (let at = prev + 1 in
      if at > length l then (l @ e # es, True)
      else if term_at l at \<noteq> eterm e then (take (at - 1) l @ e # es, True)
      else merge_entries l at es)"

definition HandleAppendEntries :: "int \<Rightarrow> int \<Rightarrow> 'c AppendEntriesReq \<Rightarrow> 'c raft_node \<Rightarrow> ('c raft_node \<times> AppendEntriesResp) option" where
  "HandleAppendEntries now draw req n =
     (if nstopped n then None
      else let changed = aeTerm req > nterm n;
               n1 = (if changed then stepDown now draw (aeTerm req) n else n);
               resp = \<lparr>aerTerm = nterm n1, aerSuccess = False\<rparr>
        in if aeTerm req < nterm n1 then Some (if changed then persist n1 else n1, resp)
           else let n2 = resetElectionTimer now draw (n1\<lparr>nstate := Follower\<rparr>)
             in if aePrevIndex req > lastLogIndex n2 \<or> termAt n2 (aePrevIndex req) \<noteq> aePrevTerm req
                then Some (if changed then persist n2 else n2, resp)
                else case merge_entries (nlog n2) (aePrevIndex req) (aeEntries req) of (l, ch) \<Rightarrow>
                  let n3 = n2\<lparr>nlog := l\<rparr>;
                      n4 = (if aeCommit req > ncommit n3
                            then n3\<lparr>ncommit := min (aeCommit req) (aePrevIndex req + length (aeEntries req))\<rparr>
                            else n3)
                  in Some (if changed \<or> ch then persist n4 else n4, resp\<lparr>aerSuccess := True\<rparr>))"

section \<open>Clients, the applier, the ticker\<close>

definition raft_propose :: "int \<Rightarrow> 'c \<Rightarrow> 'c raft_node \<Rightarrow> 'c raft_node \<times> (nat \<times> nat) option" where
  "raft_propose now cmd n =
     (if nstopped n \<or> nstate n \<noteq> Leader then (n, None)
      else let n1 = persist (n\<lparr>nlog := nlog n @ [\<lparr>eterm = nterm n, ecmd = cmd\<rparr>]\<rparr>)
        in (n1\<lparr>nlastHb := now\<rparr>, Some (lastLogIndex n1, nterm n1)))"

text \<open>One round of the applier: the committed entries not yet applied, with index and term.\<close>

definition applier :: "'c raft_node \<Rightarrow> 'c raft_node \<times> (nat \<times> nat \<times> 'c) list" where
  "applier n =
     (if nstopped n \<or> napplied n \<ge> ncommit n then (n, [])
      else (n\<lparr>napplied := ncommit n\<rparr>,
            map (\<lambda>i. (i, eterm (nlog n ! (i - 1)), ecmd (nlog n ! (i - 1)))) [napplied n + 1..<ncommit n + 1]))"

datatype tick = TickNothing | TickHeartbeat | TickElection | TickStop

definition ticker :: "int \<Rightarrow> 'c raft_node \<Rightarrow> 'c raft_node \<times> tick" where
  "ticker now n =
     (if nstopped n then (n, TickStop)
      else if nstate n = Leader
      then if now - nlastHb n \<ge> nHeartbeat n then (n\<lparr>nlastHb := now\<rparr>, TickHeartbeat) else (n, TickNothing)
      else if now - nreset n \<ge> ntimeout n then (n, TickElection) else (n, TickNothing))"

definition raft_status :: "'c raft_node \<Rightarrow> nat \<times> bool" where
  "raft_status n = (nterm n, nstate n = Leader)"

definition QuorumActive :: "int \<Rightarrow> int \<Rightarrow> 'c raft_node \<Rightarrow> bool" where
  "QuorumActive now window n \<longleftrightarrow>
     \<not> nstopped n \<and> nstate n = Leader
     \<and> quorum n (1 + length (filter (\<lambda>p. case nack n p of Some t \<Rightarrow> now - t \<le> window | None \<Rightarrow> False) (npeers n)))"

section \<open>Persist, then respond\<close>

definition synced :: "'c raft_node \<Rightarrow> bool" where
  "synced n \<longleftrightarrow> nstore n = \<lparr>hsTerm = nterm n, hsVotedFor = nvoted n, hsLog = nlog n\<rparr>"

lemmas node_defs = persist_def resetElectionTimer_def stepDown_def becomeLeader_def Let_def

lemma synced_persist [simp]: "synced (persist n)"
  by (simp add: synced_def persist_def)

lemma advance_loop_frame:
  "nlog (advance_loop n k) = nlog n \<and> nterm (advance_loop n k) = nterm n \<and> nvoted (advance_loop n k) = nvoted n
   \<and> nstate (advance_loop n k) = nstate n \<and> nstore (advance_loop n k) = nstore n
   \<and> nmatch (advance_loop n k) = nmatch n \<and> nid (advance_loop n k) = nid n \<and> npeers (advance_loop n k) = npeers n
   \<and> nnext (advance_loop n k) = nnext n \<and> nstopped (advance_loop n k) = nstopped n \<and> napplied (advance_loop n k) = napplied n"
  by (induction k) (auto simp: Let_def)

lemma merge_unchanged: "merge_entries l prev es = (l', False) \<Longrightarrow> l' = l"
  by (induction l prev es rule: merge_entries.induct) (auto simp: Let_def split: if_splits)

lemma startElection_synced: "synced n \<Longrightarrow> synced (fst (startElection now draw noop n))"
  by (auto simp: startElection_def node_defs synced_def)

lemma voteReply_synced: "synced n \<Longrightarrow> synced (fst (voteReply now draw noop r p (n, v)))"
  by (auto simp: voteReply_def node_defs synced_def)

lemma appendReply_synced: "synced n \<Longrightarrow> synced (fst (appendReply now draw q r p n))"
  by (auto simp: appendReply_def advanceCommit_def node_defs synced_def advance_loop_frame)

lemma propose_synced: "synced n \<Longrightarrow> synced (fst (raft_propose now cmd n))"
  by (auto simp: raft_propose_def persist_def Let_def synced_def)

lemma applier_synced: "synced n \<Longrightarrow> synced (fst (applier n))"
  by (auto simp: applier_def synced_def)

lemma HandleRequestVote_synced: "synced n \<Longrightarrow> HandleRequestVote now draw r n = Some (n', p) \<Longrightarrow> synced n'"
  by (auto simp: HandleRequestVote_def node_defs synced_def split: if_splits)

lemma HandleAppendEntries_synced: "synced n \<Longrightarrow> HandleAppendEntries now draw r n = Some (n', p) \<Longrightarrow> synced n'"
  by (auto simp: HandleAppendEntries_def node_defs synced_def split: if_splits prod.splits dest: merge_unchanged)

lemmas handlers_synced = startElection_synced voteReply_synced appendReply_synced propose_synced
  applier_synced HandleRequestVote_synced HandleAppendEntries_synced

text \<open>\<^bold>\<open>C24\<close> Persist, then respond: whatever a node in sync with its storage does (start an election,
  answer a vote or an append request, digest a reply, accept a command), the storage again holds its
  term, its vote and its log when the critical section ends, so a restart can forget none of them.\<close>

theorem persist_then_respond:
  fixes n :: "'c raft_node"
  shows "synced n \<Longrightarrow> synced (fst (startElection now draw noop n))
    \<and> synced (fst (voteReply now draw noop vreq vresp (n, votes)))
    \<and> (\<forall>n' resp. HandleRequestVote now draw vreq n = Some (n', resp) \<longrightarrow> synced n')
    \<and> (\<forall>n' resp. HandleAppendEntries now draw areq n = Some (n', resp) \<longrightarrow> synced n')
    \<and> synced (fst (appendReply now draw peer areq aresp n))
    \<and> synced (fst (raft_propose now cmd n)) \<and> synced (fst (applier n))"
  by (intro conjI allI impI; (erule handlers_synced | erule (1) handlers_synced))

definition sample_node :: "nat raft_node" where
  "sample_node = the (NewNode 0 0 ''a'' [''b'', ''c'']
     \<lparr>ElectionTimeoutMin = 0, ElectionTimeoutMax = 0, HeartbeatInterval = 0, TickInterval = 0\<rparr>
     \<lparr>hsTerm = 3, hsVotedFor = [], hsLog = [\<lparr>eterm = 2, ecmd = 7\<rparr>]\<rparr>)"

theorem persist_then_respond_witness:
  "synced sample_node \<and> synced (fst (startElection 1 1 0 sample_node))"
proof -
  have "synced sample_node"
    by (simp add: sample_node_def NewNode_def Let_def synced_def resetElectionTimer_def)
  with persist_then_respond [OF this, of 1 1 0] show ?thesis by blast
qed

section \<open>The in-memory network\<close>

text \<open>Which nodes are registered, and the group of each; an unknown id has Go's zero value as group.\<close>

record network =
  nwNodes :: "string set"
  nwGroup :: "string \<Rightarrow> nat option"

definition NewNetwork :: network where
  "NewNetwork = \<lparr>nwNodes = {}, nwGroup = Map.empty\<rparr>"

definition nw_register :: "string \<Rightarrow> network \<Rightarrow> network" where
  "nw_register i nw = nw\<lparr>nwNodes := insert i (nwNodes nw),
     nwGroup := (if nwGroup nw i = None then (nwGroup nw)(i \<mapsto> 0) else nwGroup nw)\<rparr>"

definition nw_deregister :: "string \<Rightarrow> network \<Rightarrow> network" where
  "nw_deregister i nw = nw\<lparr>nwNodes := nwNodes nw - {i}\<rparr>"

fun assign_groups :: "nat \<Rightarrow> string list list \<Rightarrow> (string \<Rightarrow> nat option) \<Rightarrow> (string \<Rightarrow> nat option)" where
  "assign_groups k [] grp = grp"
| "assign_groups k (ids # gs) grp = assign_groups (Suc k) gs (fold (\<lambda>i grp. grp(i \<mapsto> k)) ids grp)"

definition nw_partition :: "string list list \<Rightarrow> network \<Rightarrow> network" where
  "nw_partition gs nw = nw\<lparr>nwGroup := assign_groups 1 gs (\<lambda>i. if nwGroup nw i = None then None else Some 0)\<rparr>"

definition nw_isolate :: "string list \<Rightarrow> network \<Rightarrow> network" where
  "nw_isolate ids nw = nw_partition [ids] nw"

definition nw_heal :: "network \<Rightarrow> network" where
  "nw_heal nw = nw_partition [] nw"

definition nw_group :: "network \<Rightarrow> string \<Rightarrow> nat" where
  "nw_group nw i = (case nwGroup nw i of None \<Rightarrow> 0 | Some k \<Rightarrow> k)"

text \<open>\<open>route\<close>: \<open>False\<close> is \<open>ErrUnreachable\<close>.\<close>

definition nw_route :: "network \<Rightarrow> string \<Rightarrow> string \<Rightarrow> bool" where
  "nw_route nw f t \<longleftrightarrow> t \<in> nwNodes nw \<and> nw_group nw f = nw_group nw t"

lemma fold_group: "fold (\<lambda>i grp. grp(i \<mapsto> k)) ids grp j = (if j \<in> set ids then Some k else grp j)"
  by (induction ids arbitrary: grp) auto

text \<open>Partitions are what they say: after \<open>Isolate\<close> no message passes between an isolated and
  another known node in either direction, messages pass inside both sides, and \<open>Heal\<close> restores every
  route between registered nodes.\<close>

lemma isolate_then_heal:
  "a \<in> nwNodes nw \<Longrightarrow> b \<in> nwNodes nw \<Longrightarrow>
   nw_route (nw_isolate ids nw) a b = ((a \<in> set ids) = (b \<in> set ids)) \<and> nw_route (nw_heal (nw_isolate ids nw)) a b"
  by (auto simp: nw_route_def nw_isolate_def nw_heal_def nw_partition_def nw_group_def fold_group split: option.splits)

lemma isolate_then_heal_witness:
  "\<not> nw_route (nw_isolate [''a''] (nw_register ''b'' (nw_register ''a'' NewNetwork))) ''a'' ''b''"
  using isolate_then_heal [of "''a''" "nw_register ''b'' (nw_register ''a'' NewNetwork)" "''b''" "[''a'']"]
  by (simp add: nw_register_def NewNetwork_def)

end
