(* ===== verification/RaftCluster.thy ===== *)
theory RaftCluster
  imports Raft
begin

text \<open>
  A Raft cluster: the nodes of \<open>Raft\<close>, the RPCs in flight and the vote counters of the running
  elections. Every action is one critical section of the code: the ticker's election, a request
  served by its target, a reply digested by its sender, a request built by \<open>replicateTo\<close>, a client's
  proposal, one round of the applier, a crash with restart from the storage. Messages are delayed,
  reordered and lost at will; a crash kills the goroutines of the node's calls, but a request that
  is on its way may still be served. Timers only choose when actions happen, so any schedule of
  actions is allowed.

  Beside the state runs a history (\<open>hist\<close>) that no action reads: who voted for whom and with which
  logs, the log of each term's leader, what each node acknowledged in each term. It exists to state
  invariants.
\<close>

datatype 'c call =
    VReq string string RequestVoteReq                        \<comment> \<open>sender, target\<close>
  | VResp string string RequestVoteReq RequestVoteResp
  | AReq string string "'c AppendEntriesReq"
  | AResp string string "'c AppendEntriesReq" AppendEntriesResp
  | VOrphan string string RequestVoteReq                     \<comment> \<open>the sender has crashed\<close>
  | AOrphan string string "'c AppendEntriesReq"
  | Finished

record 'c cluster =
  cnode :: "string \<Rightarrow> 'c raft_node"
  ccalls :: "'c call list"
  cvotes :: "string \<Rightarrow> nat \<Rightarrow> nat"

datatype 'c action =
    Elect string int int
  | Serve nat int int
  | Lose nat
  | Reply nat int int
  | Send string string
  | Submit string int 'c
  | Apply string
  | Crash string int int raft_times

definition set_node :: "string \<Rightarrow> 'c raft_node \<Rightarrow> 'c cluster \<Rightarrow> 'c cluster" where
  "set_node i n c = c\<lparr>cnode := (cnode c)(i := n)\<rparr>"

definition set_call :: "nat \<Rightarrow> 'c call \<Rightarrow> 'c cluster \<Rightarrow> 'c cluster" where
  "set_call k m c = c\<lparr>ccalls := (ccalls c)[k := m]\<rparr>"

fun orphan :: "string \<Rightarrow> 'c call \<Rightarrow> 'c call" where
  "orphan i (VReq f t r) = (if f = i then VOrphan f t r else VReq f t r)"
| "orphan i (AReq f t r) = (if f = i then AOrphan f t r else AReq f t r)"
| "orphan i (VResp f t r p) = (if f = i then Finished else VResp f t r p)"
| "orphan i (AResp f t r p) = (if f = i then Finished else AResp f t r p)"
| "orphan i m = m"

fun serve :: "nat \<Rightarrow> int \<Rightarrow> int \<Rightarrow> 'c call \<Rightarrow> 'c cluster \<Rightarrow> 'c cluster option" where
  "serve k now draw (VReq f t r) c =
     (case HandleRequestVote now draw r (cnode c t) of
        None \<Rightarrow> Some (set_call k Finished c)
      | Some (n, p) \<Rightarrow> Some (set_call k (VResp f t r p) (set_node t n c)))"
| "serve k now draw (VOrphan f t r) c =
     (case HandleRequestVote now draw r (cnode c t) of
        None \<Rightarrow> Some (set_call k Finished c)
      | Some (n, p) \<Rightarrow> Some (set_call k Finished (set_node t n c)))"
| "serve k now draw (AReq f t r) c =
     (case HandleAppendEntries now draw r (cnode c t) of
        None \<Rightarrow> Some (set_call k Finished c)
      | Some (n, p) \<Rightarrow> Some (set_call k (AResp f t r p) (set_node t n c)))"
| "serve k now draw (AOrphan f t r) c =
     (case HandleAppendEntries now draw r (cnode c t) of
        None \<Rightarrow> Some (set_call k Finished c)
      | Some (n, p) \<Rightarrow> Some (set_call k Finished (set_node t n c)))"
| "serve k now draw m c = None"

fun reply :: "'c \<Rightarrow> nat \<Rightarrow> int \<Rightarrow> int \<Rightarrow> 'c call \<Rightarrow> 'c cluster \<Rightarrow> 'c cluster option" where
  "reply noop k now draw (VResp f t r p) c =
     (case voteReply now draw noop r p (cnode c f, cvotes c f (rvTerm r)) of (n, v) \<Rightarrow>
        Some (set_call k Finished (set_node f n
          (c\<lparr>cvotes := (cvotes c)(f := (cvotes c f)(rvTerm r := v))\<rparr>))))"
| "reply noop k now draw (AResp f t r p) c =
     (case appendReply now draw t r p (cnode c f) of (n, retry) \<Rightarrow>
        Some (set_call k Finished (set_node f n c)))"
| "reply noop k now draw m c = None"

fun exec :: "'c \<Rightarrow> string set \<Rightarrow> 'c action \<Rightarrow> 'c cluster \<Rightarrow> 'c cluster option" where
  "exec noop M (Elect i now draw) c =
     (if i \<in> M then
        case startElection now draw noop (cnode c i) of
          (n, None) \<Rightarrow> Some (set_node i n c)
        | (n, Some r) \<Rightarrow> Some ((set_node i n c)
            \<lparr>ccalls := ccalls c @ map (\<lambda>p. VReq i p r) (npeers n),
             cvotes := (cvotes c)(i := (cvotes c i)(nterm n := 1))\<rparr>)
      else None)"
| "exec noop M (Serve k now draw) c =
     (if k < length (ccalls c) then serve k now draw (ccalls c ! k) c else None)"
| "exec noop M (Lose k) c = (if k < length (ccalls c) then Some (set_call k Finished c) else None)"
| "exec noop M (Reply k now draw) c =
     (if k < length (ccalls c) then reply noop k now draw (ccalls c ! k) c else None)"
| "exec noop M (Send i p) c =
     (if i \<in> M \<and> p \<in> set (npeers (cnode c i)) then
        case replicateTo (cnode c i) p of
          None \<Rightarrow> None
        | Some r \<Rightarrow> Some (c\<lparr>ccalls := ccalls c @ [AReq i p r]\<rparr>)
      else None)"
| "exec noop M (Submit i now cmd) c =
     (if i \<in> M then Some (set_node i (fst (raft_propose now cmd (cnode c i))) c) else None)"
| "exec noop M (Apply i) c = (if i \<in> M then Some (set_node i (fst (applier (cnode c i))) c) else None)"
| "exec noop M (Crash i now draw cfg) c =
     (if i \<in> M then
        case NewNode now draw i (npeers (cnode c i)) cfg (nstore (cnode c i)) of
          None \<Rightarrow> None
        | Some n \<Rightarrow> Some ((set_node i n c)\<lparr>ccalls := map (orphan i) (ccalls c)\<rparr>)
      else None)"

section \<open>The history\<close>

record 'c hist =
  gvote :: "(string \<times> nat \<times> string) set"            \<comment> \<open>voter, term, candidate\<close>
  gcount :: "string \<Rightarrow> nat \<Rightarrow> string set"            \<comment> \<open>the votes a candidate has counted\<close>
  gclog :: "string \<Rightarrow> nat \<Rightarrow> 'c entry list"          \<comment> \<open>a candidate's log\<close>
  gvlog :: "string \<Rightarrow> nat \<Rightarrow> 'c entry list"          \<comment> \<open>a voter's log when it voted\<close>
  gllog :: "nat \<Rightarrow> 'c entry list option"            \<comment> \<open>the log of the term's leader\<close>
  gack :: "string \<Rightarrow> nat \<Rightarrow> nat"                     \<comment> \<open>how far a node followed the term's leader\<close>

definition hist_lead :: "string \<Rightarrow> 'c raft_node \<Rightarrow> 'c hist \<Rightarrow> 'c hist" where
  "hist_lead i n g = (if nstate n = Leader
     then g\<lparr>gllog := (gllog g)(nterm n \<mapsto> nlog n),
            gack := (gack g)(i := (gack g i)(nterm n := length (nlog n)))\<rparr>
     else g)"

definition hist_vote :: "string \<Rightarrow> nat \<Rightarrow> string \<Rightarrow> 'c entry list \<Rightarrow> 'c hist \<Rightarrow> 'c hist" where
  "hist_vote v t x l g = (if (v, t, x) \<in> gvote g then g
     else g\<lparr>gvote := insert (v, t, x) (gvote g), gvlog := (gvlog g)(v := (gvlog g v)(t := l))\<rparr>)"

definition hist_vserve :: "string \<Rightarrow> RequestVoteReq \<Rightarrow> 'c cluster \<Rightarrow> 'c hist \<Rightarrow> 'c hist" where
  "hist_vserve t r c g =
     (case HandleRequestVote 0 0 r (cnode c t) of
        Some (n, p) \<Rightarrow> if rvrGranted p then hist_vote t (rvTerm r) (rvCandidate r) (nlog (cnode c t)) g else g
      | None \<Rightarrow> g)"

definition hist_aserve :: "string \<Rightarrow> 'c AppendEntriesReq \<Rightarrow> 'c cluster \<Rightarrow> 'c hist \<Rightarrow> 'c hist" where
  "hist_aserve t r c g =
     (case HandleAppendEntries 0 0 r (cnode c t) of
        Some (n, p) \<Rightarrow>
          if aerSuccess p
          then g\<lparr>gack := (gack g)(t := (gack g t)(aeTerm r :=
                  max (gack g t (aeTerm r)) (aePrevIndex r + length (aeEntries r))))\<rparr>
          else g
      | None \<Rightarrow> g)"

fun hist_serve :: "'c call \<Rightarrow> 'c cluster \<Rightarrow> 'c hist \<Rightarrow> 'c hist" where
  "hist_serve (VReq f t r) c g = hist_vserve t r c g"
| "hist_serve (VOrphan f t r) c g = hist_vserve t r c g"
| "hist_serve (AReq f t r) c g = hist_aserve t r c g"
| "hist_serve (AOrphan f t r) c g = hist_aserve t r c g"
| "hist_serve m c g = g"

definition counts :: "RequestVoteReq \<Rightarrow> RequestVoteResp \<Rightarrow> 'c raft_node \<Rightarrow> bool" where
  "counts r p n \<longleftrightarrow> \<not> rvrTerm p > nterm n \<and> nstate n = Candidate \<and> nterm n = rvTerm r \<and> rvrGranted p"

fun hist_reply :: "'c call \<Rightarrow> 'c cluster \<Rightarrow> 'c hist \<Rightarrow> 'c hist" where
  "hist_reply (VResp f t r p) c g =
     (if counts r p (cnode c f)
      then g\<lparr>gcount := (gcount g)(f := (gcount g f)(rvTerm r := insert t (gcount g f (rvTerm r))))\<rparr> else g)"
| "hist_reply m c g = g"

text \<open>\<open>c'\<close> is the state after the action.\<close>

fun track :: "'c action \<Rightarrow> 'c cluster \<Rightarrow> 'c cluster \<Rightarrow> 'c hist \<Rightarrow> 'c hist" where
  "track (Elect i now draw) c c' g =
     (if nterm (cnode c' i) = nterm (cnode c i) then g
      else let t = nterm (cnode c' i); l = nlog (cnode c i) in
        hist_lead i (cnode c' i) ((hist_vote i t i l g)
          \<lparr>gcount := (gcount g)(i := (gcount g i)(t := {i})), gclog := (gclog g)(i := (gclog g i)(t := l))\<rparr>))"
| "track (Serve k now draw) c c' g = hist_serve (ccalls c ! k) c g"
| "track (Reply k now draw) c c' g =
     (let g1 = hist_reply (ccalls c ! k) c g in
      case ccalls c ! k of
        VResp f t r p \<Rightarrow> if nstate (cnode c f) \<noteq> Leader then hist_lead f (cnode c' f) g1 else g1
      | _ \<Rightarrow> g1)"
| "track (Submit i now cmd) c c' g = hist_lead i (cnode c' i) g"
| "track _ c c' g = g"

section \<open>Reachable states\<close>

definition init_node :: "string \<Rightarrow> string list \<Rightarrow> raft_times \<Rightarrow> 'c raft_node" where
  "init_node i peers cfg = the (NewNode 0 0 i peers cfg \<lparr>hsTerm = 0, hsVotedFor = [], hsLog = []\<rparr>)"

definition initial :: "string set \<Rightarrow> 'c cluster \<Rightarrow> bool" where
  "initial M c \<longleftrightarrow> finite M \<and> [] \<notin> M \<and> ccalls c = []
     \<and> (\<forall>i\<in>M. \<exists>ps cfg. distinct ps \<and> set ps = M - {i} \<and> cnode c i = init_node i ps cfg)"

definition init_hist :: "'c hist" where
  "init_hist = \<lparr>gvote = {}, gcount = (\<lambda>_ _. {}), gclog = (\<lambda>_ _. []), gvlog = (\<lambda>_ _. []),
     gllog = Map.empty, gack = (\<lambda>_ _. 0)\<rparr>"

inductive step :: "'c \<Rightarrow> string set \<Rightarrow> 'c cluster \<Rightarrow> 'c cluster \<Rightarrow> bool" for noop M where
  act: "exec noop M a c = Some c' \<Longrightarrow> step noop M c c'"

inductive reachable :: "'c \<Rightarrow> string set \<Rightarrow> 'c cluster \<Rightarrow> bool" for noop M where
  start: "initial M c \<Longrightarrow> reachable noop M c"
| more: "reachable noop M c \<Longrightarrow> step noop M c c' \<Longrightarrow> reachable noop M c'"

inductive tracked :: "'c \<Rightarrow> string set \<Rightarrow> 'c cluster \<Rightarrow> 'c hist \<Rightarrow> bool" for noop M where
  init: "initial M c \<Longrightarrow> tracked noop M c init_hist"
| next_act: "tracked noop M c g \<Longrightarrow> exec noop M a c = Some c' \<Longrightarrow> tracked noop M c' (track a c c' g)"

inductive_cases stepE: "step noop M c c'"

text \<open>Every reachable state has a history.\<close>

lemma reachable_tracked: "reachable noop M c \<Longrightarrow> \<exists>g. tracked noop M c g"
  by (induction rule: reachable.induct) (auto intro: tracked.intros elim!: stepE)

section \<open>What the handlers do\<close>

lemma stepDown_simps [simp]:
  "nlog (stepDown now draw t n) = nlog n" "ncommit (stepDown now draw t n) = ncommit n"
  "nterm (stepDown now draw t n) = max (nterm n) t"
  "nvoted (stepDown now draw t n) = (if t > nterm n then [] else nvoted n)"
  "nstate (stepDown now draw t n) = Follower" "nid (stepDown now draw t n) = nid n"
  "npeers (stepDown now draw t n) = npeers n" "nstopped (stepDown now draw t n) = nstopped n"
  "nnext (stepDown now draw t n) = nnext n" "nmatch (stepDown now draw t n) = nmatch n"
  "napplied (stepDown now draw t n) = napplied n"
  by (auto simp: stepDown_def resetElectionTimer_def Let_def)

lemma resetElectionTimer_simps [simp]:
  "nlog (resetElectionTimer now draw n) = nlog n" "ncommit (resetElectionTimer now draw n) = ncommit n"
  "nterm (resetElectionTimer now draw n) = nterm n" "nvoted (resetElectionTimer now draw n) = nvoted n"
  "nstate (resetElectionTimer now draw n) = nstate n" "nid (resetElectionTimer now draw n) = nid n"
  "npeers (resetElectionTimer now draw n) = npeers n" "nstopped (resetElectionTimer now draw n) = nstopped n"
  "nnext (resetElectionTimer now draw n) = nnext n" "nmatch (resetElectionTimer now draw n) = nmatch n"
  "nstore (resetElectionTimer now draw n) = nstore n" "napplied (resetElectionTimer now draw n) = napplied n"
  by (auto simp: resetElectionTimer_def)

lemma persist_simps [simp]:
  "nlog (persist n) = nlog n" "ncommit (persist n) = ncommit n"
  "nterm (persist n) = nterm n" "nvoted (persist n) = nvoted n"
  "nstate (persist n) = nstate n" "nid (persist n) = nid n"
  "npeers (persist n) = npeers n" "nstopped (persist n) = nstopped n"
  "nnext (persist n) = nnext n" "nmatch (persist n) = nmatch n" "napplied (persist n) = napplied n"
  by (auto simp: persist_def)

lemma becomeLeader_simps [simp]:
  "nlog (becomeLeader now noop n) = nlog n @ [\<lparr>eterm = nterm n, ecmd = noop\<rparr>]"
  "ncommit (becomeLeader now noop n) = ncommit n" "nterm (becomeLeader now noop n) = nterm n"
  "nvoted (becomeLeader now noop n) = nvoted n" "nstate (becomeLeader now noop n) = Leader"
  "nid (becomeLeader now noop n) = nid n" "npeers (becomeLeader now noop n) = npeers n"
  "nstopped (becomeLeader now noop n) = nstopped n" "napplied (becomeLeader now noop n) = napplied n"
  by (auto simp: becomeLeader_def Let_def)

lemma becomeLeader_next:
  "p \<in> set (npeers n) \<Longrightarrow> nnext (becomeLeader now noop n) p = length (nlog n) + 2"
  "p \<in> set (npeers n) \<Longrightarrow> nmatch (becomeLeader now noop n) p = 0"
  by (auto simp: becomeLeader_def Let_def lastLogIndex_def)

text \<open>A log is at least as up to date as another: the last term decides, then the length.\<close>

definition uptodate :: "'c entry list \<Rightarrow> 'c entry list \<Rightarrow> bool" where
  "uptodate a b \<longleftrightarrow> term_at a (length a) > term_at b (length b)
     \<or> term_at a (length a) = term_at b (length b) \<and> length a \<ge> length b"

lemma HandleRequestVote_cases:
  assumes "HandleRequestVote now draw r n = Some (n', p)"
  shows "nlog n' = nlog n \<and> ncommit n' = ncommit n \<and> nid n' = nid n \<and> npeers n' = npeers n
    \<and> nstopped n' = nstopped n \<and> nnext n' = nnext n \<and> nmatch n' = nmatch n \<and> napplied n' = napplied n
    \<and> nterm n' = max (nterm n) (rvTerm r) \<and> rvrTerm p = nterm n'
    \<and> nstate n' = (if rvTerm r > nterm n then Follower else nstate n)
    \<and> (rvrGranted p \<longrightarrow> nterm n' = rvTerm r \<and> nvoted n' = rvCandidate r
         \<and> (nterm n = rvTerm r \<longrightarrow> nvoted n = [] \<or> nvoted n = rvCandidate r)
         \<and> (rvLastTerm r > term_at (nlog n) (length (nlog n))
            \<or> rvLastTerm r = term_at (nlog n) (length (nlog n)) \<and> rvLastIndex r \<ge> length (nlog n)))
    \<and> (\<not> rvrGranted p \<longrightarrow> nvoted n' = (if rvTerm r > nterm n then [] else nvoted n))"
  using assms
  by (auto simp: HandleRequestVote_def Let_def termAt_def lastLogIndex_def max_def split: if_splits)

lemma HandleRequestVote_granted:
  "map_option (rvrGranted \<circ> snd) (HandleRequestVote now draw r n) = map_option (rvrGranted \<circ> snd) (HandleRequestVote now' draw' r n)"
  by (auto simp: HandleRequestVote_def Let_def termAt_def lastLogIndex_def)

lemma voteReply_cases:
  assumes "voteReply now draw noop r p (n, v) = (n', v')"
  shows "rvrTerm p > nterm n \<and> \<not> counts r p n \<and> n' = persist (stepDown now draw (rvrTerm p) n) \<and> v' = v
    \<or> \<not> counts r p n \<and> n' = n \<and> v' = v
    \<or> counts r p n \<and> quorum n (v + 1) \<and> n' = becomeLeader now noop n \<and> v' = v + 1
    \<or> counts r p n \<and> \<not> quorum n (v + 1) \<and> n' = n \<and> v' = v + 1"
  using assms by (auto simp: voteReply_def counts_def split: if_splits)

lemma startElection_cases:
  assumes "startElection now draw noop n = (n', out)"
  shows "(nstopped n \<or> nstate n = Leader) \<and> n' = n \<and> out = None
    \<or> \<not> nstopped n \<and> nstate n \<noteq> Leader \<and> nterm n' = nterm n + 1 \<and> nvoted n' = nid n \<and> nid n' = nid n \<and> npeers n' = npeers n
       \<and> nstopped n' = nstopped n \<and> ncommit n' = ncommit n \<and> napplied n' = napplied n
       \<and> (quorum n 1 \<and> out = None \<and> nstate n' = Leader
            \<and> nlog n' = nlog n @ [\<lparr>eterm = nterm n + 1, ecmd = noop\<rparr>]
            \<and> (\<forall>q\<in>set (npeers n). nnext n' q = length (nlog n) + 2 \<and> nmatch n' q = 0)
          \<or> \<not> quorum n 1 \<and> nstate n' = Candidate \<and> nlog n' = nlog n
            \<and> out = Some \<lparr>rvTerm = nterm n + 1, rvCandidate = nid n, rvLastIndex = length (nlog n),
                          rvLastTerm = term_at (nlog n) (length (nlog n))\<rparr>)"
  using assms
  by (auto simp: startElection_def Let_def quorum_def lastLogIndex_def termAt_def becomeLeader_next split: if_splits)


section \<open>Appending entries\<close>

text \<open>
  The log after an append request: the old one when it already agrees with all the entries, else the
  leader's log up to its last entry, the entries put behind the first \<open>prev\<close> ones.
\<close>

lemma merge_entries_cases:
  assumes "prev \<le> length l"
  shows "(merge_entries l prev es = (l, False) \<and> prev + length es \<le> length l
      \<and> (\<forall>k<length es. term_at l (prev + k + 1) = eterm (es ! k)))
    \<or> (\<exists>k<length es. merge_entries l prev es = (take (prev + k) l @ drop k es, True)
      \<and> (\<forall>j<k. term_at l (prev + j + 1) = eterm (es ! j)) \<and> prev + k \<le> length l
      \<and> (prev + k < length l \<longrightarrow> term_at l (prev + k + 1) \<noteq> eterm (es ! k)))"
  using assms
proof (induction l prev es rule: merge_entries.induct)
  case (2 l prev e es)
  show ?case
  proof (cases "prev + 1 > length l \<or> term_at l (prev + 1) \<noteq> eterm e")
    case True
    with "2.prems" show ?thesis by (intro disjI2 exI [of _ 0]) (auto simp: Let_def)
  next
    case False
    then have IH: "(merge_entries l (prev + 1) es = (l, False) \<and> prev + 1 + length es \<le> length l
        \<and> (\<forall>k<length es. term_at l (prev + 1 + k + 1) = eterm (es ! k)))
      \<or> (\<exists>k<length es. merge_entries l (prev + 1) es = (take (prev + 1 + k) l @ drop k es, True)
        \<and> (\<forall>j<k. term_at l (prev + 1 + j + 1) = eterm (es ! j)) \<and> prev + 1 + k \<le> length l
        \<and> (prev + 1 + k < length l \<longrightarrow> term_at l (prev + 1 + k + 1) \<noteq> eterm (es ! k)))"
      using "2.IH" by (simp add: Let_def)
    have m: "merge_entries l prev (e # es) = merge_entries l (prev + 1) es" using False by (simp add: Let_def)
    have t: "term_at l (prev + 1) = eterm e" using False by simp
    from IH show ?thesis
    proof
      assume "merge_entries l (prev + 1) es = (l, False) \<and> prev + 1 + length es \<le> length l
        \<and> (\<forall>k<length es. term_at l (prev + 1 + k + 1) = eterm (es ! k))"
      then show ?thesis using t unfolding m by (intro disjI1) (auto simp: less_Suc_eq_0_disj)
    next
      assume "\<exists>k<length es. merge_entries l (prev + 1) es = (take (prev + 1 + k) l @ drop k es, True)
        \<and> (\<forall>j<k. term_at l (prev + 1 + j + 1) = eterm (es ! j)) \<and> prev + 1 + k \<le> length l
        \<and> (prev + 1 + k < length l \<longrightarrow> term_at l (prev + 1 + k + 1) \<noteq> eterm (es ! k))"
      then obtain k where k: "k < length es" "merge_entries l (prev + 1) es = (take (prev + 1 + k) l @ drop k es, True)"
        "\<forall>j<k. term_at l (prev + 1 + j + 1) = eterm (es ! j)" "prev + 1 + k \<le> length l"
        "prev + 1 + k < length l \<longrightarrow> term_at l (prev + 1 + k + 1) \<noteq> eterm (es ! k)" by blast
      then show ?thesis
        using t unfolding m by (intro disjI2 exI [of _ "Suc k"]) (auto simp: less_Suc_eq_0_disj)
    qed
  qed
qed simp

lemma HandleAppendEntries_cases:
  assumes "HandleAppendEntries now draw r n = Some (n', p)"
  shows "nid n' = nid n \<and> npeers n' = npeers n \<and> nstopped n' = nstopped n \<and> nnext n' = nnext n \<and> nmatch n' = nmatch n
    \<and> napplied n' = napplied n
    \<and> nterm n' = max (nterm n) (aeTerm r) \<and> nvoted n' = (if aeTerm r > nterm n then [] else nvoted n)
    \<and> aerTerm p = nterm n'
    \<and> (if aeTerm r < nterm n then n' = n \<and> \<not> aerSuccess p else nstate n' = Follower)
    \<and> (aerSuccess p \<longrightarrow> \<not> aeTerm r < nterm n \<and> aePrevIndex r \<le> length (nlog n)
         \<and> term_at (nlog n) (aePrevIndex r) = aePrevTerm r
         \<and> nlog n' = fst (merge_entries (nlog n) (aePrevIndex r) (aeEntries r))
         \<and> ncommit n' = (if aeCommit r > ncommit n
              then min (aeCommit r) (aePrevIndex r + length (aeEntries r)) else ncommit n))
    \<and> (\<not> aerSuccess p \<longrightarrow> nlog n' = nlog n \<and> ncommit n' = ncommit n)"
  using assms
  by (auto simp: HandleAppendEntries_def Let_def termAt_def lastLogIndex_def max_def
      split: if_splits prod.splits)

lemma appendReply_cases:
  assumes "appendReply now draw q r p n = (n', retry)"
  shows "(aerTerm p > nterm n \<and> n' = persist (stepDown now draw (aerTerm p) n))
    \<or> (\<not> aerTerm p > nterm n \<and> (nstate n \<noteq> Leader \<or> nterm n \<noteq> aeTerm r) \<and> n' = n)
    \<or> (nstate n = Leader \<and> nterm n = aeTerm r \<and> nlog n' = nlog n \<and> nterm n' = nterm n \<and> nvoted n' = nvoted n
       \<and> nstate n' = nstate n \<and> nid n' = nid n \<and> npeers n' = npeers n \<and> nstopped n' = nstopped n \<and> nstore n' = nstore n
       \<and> napplied n' = napplied n
       \<and> (if aerSuccess p
          then let m = max (nmatch n q) (aePrevIndex r + length (aeEntries r)) in
            nmatch n' = (nmatch n)(q := m) \<and> nnext n' = (nnext n)(q := m + 1)
            \<and> (\<exists>n0. n' = advanceCommit n0 \<and> ncommit n0 = ncommit n \<and> nlog n0 = nlog n \<and> nterm n0 = nterm n
                 \<and> npeers n0 = npeers n \<and> nmatch n0 = (nmatch n)(q := m))
          else nmatch n' = nmatch n \<and> ncommit n' = ncommit n
            \<and> nnext n' = (nnext n)(q := if nnext n q > 1 then nnext n q - 1 else nnext n q)))"
proof -
  consider "aerTerm p > nterm n" | "\<not> aerTerm p > nterm n" "nstate n \<noteq> Leader \<or> nterm n \<noteq> aeTerm r"
    | "\<not> aerTerm p > nterm n" "nstate n = Leader" "nterm n = aeTerm r" "aerSuccess p"
    | "\<not> aerTerm p > nterm n" "nstate n = Leader" "nterm n = aeTerm r" "\<not> aerSuccess p" by blast
  then show ?thesis
  proof cases
    case 3
    let ?m = "max (nmatch n q) (aePrevIndex r + length (aeEntries r))"
    let ?n0 = "n\<lparr>nack := (nack n)(q \<mapsto> now), nmatch := (nmatch n)(q := ?m), nnext := (nnext n)(q := ?m + 1)\<rparr>"
    have "n' = advanceCommit ?n0"
    proof (cases "aePrevIndex r + length (aeEntries r) > nmatch n q")
      case True
      with assms 3 show ?thesis by (auto simp: appendReply_def Let_def max_def)
    next
      case False
      then have "?m = nmatch n q" by simp
      with assms 3 False show ?thesis by (auto simp: appendReply_def Let_def)
    qed
    then show ?thesis
      using 3 by (intro disjI2) (auto simp: Let_def advanceCommit_def advance_loop_frame intro!: exI [of _ ?n0])
  qed (use assms in \<open>auto simp: appendReply_def Let_def\<close>)
qed

end
