(* ===== verification/RaftVotes.thy ===== *)
theory RaftVotes
  imports RaftCluster
begin

text \<open>
  Election safety. A node votes for one candidate per term, a candidate counts each voter once, two
  majorities meet: so no term has two leaders, whatever messages are lost, delayed or reordered and
  whoever crashes and restarts.
\<close>

section \<open>What never changes\<close>

definition static :: "string set \<Rightarrow> 'c cluster \<Rightarrow> bool" where
  "static M c \<longleftrightarrow> finite M \<and> [] \<notin> M
     \<and> (\<forall>i\<in>M. nid (cnode c i) = i \<and> distinct (npeers (cnode c i)) \<and> set (npeers (cnode c i)) = M - {i}
          \<and> \<not> nstopped (cnode c i) \<and> synced (cnode c i))
     \<and> (\<forall>m\<in>set (ccalls c). case m of
          VReq f t r \<Rightarrow> f \<in> M \<and> t \<in> M \<and> t \<noteq> f | VResp f t r p \<Rightarrow> f \<in> M \<and> t \<in> M \<and> t \<noteq> f
        | AReq f t r \<Rightarrow> f \<in> M \<and> t \<in> M \<and> t \<noteq> f | AResp f t r p \<Rightarrow> f \<in> M \<and> t \<in> M \<and> t \<noteq> f
        | VOrphan f t r \<Rightarrow> f \<in> M \<and> t \<in> M \<and> t \<noteq> f | AOrphan f t r \<Rightarrow> f \<in> M \<and> t \<in> M \<and> t \<noteq> f
        | Finished \<Rightarrow> True)"

lemma staticD:
  assumes "static M c"
  shows "finite M" "[] \<notin> M"
    "\<And>i. i \<in> M \<Longrightarrow> nid (cnode c i) = i \<and> distinct (npeers (cnode c i)) \<and> set (npeers (cnode c i)) = M - {i}
       \<and> \<not> nstopped (cnode c i) \<and> synced (cnode c i)"
  using assms by (auto simp: static_def)

lemma static_quorum:
  assumes "static M c" and "i \<in> M"
  shows "quorum (cnode c i) v \<longleftrightarrow> card M < 2 * v"
proof -
  have "length (npeers (cnode c i)) = card (M - {i})"
    using staticD(3) [OF assms] distinct_card by metis
  also have "\<dots> = card M - 1" using staticD(1) [OF assms(1)] assms(2) by simp
  finally show ?thesis
    using staticD(1) [OF assms(1)] assms(2) card_gt_0_iff [of M] by (auto simp: quorum_def)
qed

lemma set_node_simps [simp]:
  "cnode (set_node i n c) = (cnode c)(i := n)" "ccalls (set_node i n c) = ccalls c" "cvotes (set_node i n c) = cvotes c"
  by (simp_all add: set_node_def)

lemma set_call_simps [simp]:
  "cnode (set_call k m c) = cnode c" "ccalls (set_call k m c) = (ccalls c)[k := m]" "cvotes (set_call k m c) = cvotes c"
  by (simp_all add: set_call_def)

lemma NewNode_simps:
  "NewNode now draw i ps cfg hs = Some n \<Longrightarrow>
   nid n = i \<and> i \<noteq> [] \<and> npeers n = ps \<and> nstate n = Follower \<and> nterm n = hsTerm hs \<and> nvoted n = hsVotedFor hs
   \<and> nlog n = hsLog hs \<and> ncommit n = 0 \<and> napplied n = 0 \<and> \<not> nstopped n \<and> synced n"
  by (auto simp: NewNode_def Let_def synced_def split: if_splits)

lemma NewNode_synced:
  "synced n0 \<Longrightarrow> NewNode now draw i ps cfg (nstore n0) = Some n \<Longrightarrow>
   nterm n = nterm n0 \<and> nvoted n = nvoted n0 \<and> nlog n = nlog n0"
  by (auto dest: NewNode_simps simp: synced_def)

text \<open>
  The shapes an action can take. Every action either is one of the three that concern votes (an
  election, a granted vote, a counted vote), or is quiet for the votes.
\<close>

definition node_calm :: "'c raft_node \<Rightarrow> 'c raft_node \<Rightarrow> bool" where
  "node_calm n n' \<longleftrightarrow> nid n' = nid n \<and> npeers n' = npeers n \<and> nterm n \<le> nterm n'
     \<and> (nstate n' = Follower \<or> nstate n' = nstate n \<and> nterm n' = nterm n)"

definition node_quiet :: "'c raft_node \<Rightarrow> 'c raft_node \<Rightarrow> bool" where
  "node_quiet n n' \<longleftrightarrow> node_calm n n' \<and> (nterm n' = nterm n \<longrightarrow> nvoted n' = nvoted n)"

definition calm :: "'c cluster \<Rightarrow> 'c cluster \<Rightarrow> bool" where
  "calm c c' \<longleftrightarrow> cvotes c' = cvotes c \<and> (\<forall>i. node_calm (cnode c i) (cnode c' i))"

definition quiet :: "'c cluster \<Rightarrow> 'c cluster \<Rightarrow> bool" where
  "quiet c c' \<longleftrightarrow> cvotes c' = cvotes c \<and> (\<forall>i. node_quiet (cnode c i) (cnode c' i))"

lemma node_quiet_refl [simp]: "node_quiet n n" and node_calm_refl [simp]: "node_calm n n"
  by (simp_all add: node_quiet_def node_calm_def)

lemma quietI: "cvotes c' = cvotes c \<Longrightarrow> cnode c' = (cnode c)(i := n) \<Longrightarrow> node_quiet (cnode c i) n \<Longrightarrow> quiet c c'"
  by (simp add: quiet_def)

lemma quiet_same: "cvotes c' = cvotes c \<Longrightarrow> cnode c' = cnode c \<Longrightarrow> quiet c c'"
  by (simp add: quiet_def)

lemma calmI: "cvotes c' = cvotes c \<Longrightarrow> cnode c' = (cnode c)(i := n) \<Longrightarrow> node_calm (cnode c i) n \<Longrightarrow> calm c c'"
  by (simp add: calm_def)

lemma quiet_calm: "quiet c c' \<Longrightarrow> calm c c'"
  by (simp add: quiet_def calm_def node_quiet_def)

section \<open>The vote invariant\<close>

fun vkey :: "'c call \<Rightarrow> (string \<times> string \<times> nat) option" where
  "vkey (VReq f t r) = Some (f, t, rvTerm r)"
| "vkey (VResp f t r p) = Some (f, t, rvTerm r)"
| "vkey _ = None"

definition vkeys :: "'c call list \<Rightarrow> (string \<times> string \<times> nat) list" where
  "vkeys ms = List.map_filter vkey ms"

definition vreq_ok :: "'c cluster \<Rightarrow> 'c hist \<Rightarrow> string \<Rightarrow> RequestVoteReq \<Rightarrow> bool" where
  "vreq_ok c g f r \<longleftrightarrow> rvCandidate r = f \<and> rvTerm r \<le> nterm (cnode c f)
     \<and> rvLastIndex r = length (gclog g f (rvTerm r))
     \<and> rvLastTerm r = term_at (gclog g f (rvTerm r)) (length (gclog g f (rvTerm r)))"

fun vcall_ok :: "'c cluster \<Rightarrow> 'c hist \<Rightarrow> 'c call \<Rightarrow> bool" where
  "vcall_ok c g (VReq f t r) \<longleftrightarrow> vreq_ok c g f r \<and> t \<notin> gcount g f (rvTerm r)"
| "vcall_ok c g (VResp f t r p) \<longleftrightarrow> vreq_ok c g f r \<and> t \<notin> gcount g f (rvTerm r)
     \<and> (rvrGranted p \<longrightarrow> (t, rvTerm r, f) \<in> gvote g)"
| "vcall_ok c g (VOrphan f t r) \<longleftrightarrow> vreq_ok c g f r"
| "vcall_ok c g m \<longleftrightarrow> True"

definition elected :: "string set \<Rightarrow> 'c hist \<Rightarrow> string \<Rightarrow> nat \<Rightarrow> bool" where
  "elected M g x t \<longleftrightarrow> (\<exists>Q\<subseteq>M. card M < 2 * card Q \<and> (\<forall>v\<in>Q. (v, t, x) \<in> gvote g))"

definition vote_once :: "'c hist \<Rightarrow> bool" where
  "vote_once g \<longleftrightarrow> (\<forall>v t x y. (v, t, x) \<in> gvote g \<longrightarrow> (v, t, y) \<in> gvote g \<longrightarrow> x = y)"

definition vote_cur :: "string set \<Rightarrow> 'c cluster \<Rightarrow> 'c hist \<Rightarrow> bool" where
  "vote_cur M c g \<longleftrightarrow> (\<forall>v t x. (v, t, x) \<in> gvote g \<longrightarrow> v \<in> M \<and> x \<in> M \<and> t \<le> nterm (cnode c v)
     \<and> (t = nterm (cnode c v) \<longrightarrow> nvoted (cnode c v) = x))"

definition vote_calls :: "'c cluster \<Rightarrow> 'c hist \<Rightarrow> bool" where
  "vote_calls c g \<longleftrightarrow> distinct (vkeys (ccalls c)) \<and> (\<forall>m\<in>set (ccalls c). vcall_ok c g m)"

definition vote_count :: "string set \<Rightarrow> 'c cluster \<Rightarrow> 'c hist \<Rightarrow> bool" where
  "vote_count M c g \<longleftrightarrow> (\<forall>i\<in>M. (\<forall>t. \<forall>v\<in>gcount g i t. (v, t, i) \<in> gvote g)
     \<and> (nstate (cnode c i) = Candidate \<longrightarrow> cvotes c i (nterm (cnode c i)) = card (gcount g i (nterm (cnode c i)))))"

definition vote_lead :: "string set \<Rightarrow> 'c cluster \<Rightarrow> 'c hist \<Rightarrow> bool" where
  "vote_lead M c g \<longleftrightarrow>
     (\<forall>i\<in>M. nstate (cnode c i) = Leader \<longrightarrow> elected M g i (nterm (cnode c i)) \<and> gllog g (nterm (cnode c i)) \<noteq> None)
     \<and> (\<forall>t. gllog g t \<noteq> None \<longrightarrow> (\<exists>x\<in>M. elected M g x t))
     \<and> (\<forall>t. \<forall>x\<in>M. gllog g t \<noteq> None \<and> elected M g x t \<longrightarrow>
          t < nterm (cnode c x) \<or> t = nterm (cnode c x) \<and> nstate (cnode c x) \<noteq> Candidate)"

definition vote_inv :: "string set \<Rightarrow> 'c cluster \<Rightarrow> 'c hist \<Rightarrow> bool" where
  "vote_inv M c g \<longleftrightarrow> vote_once g \<and> vote_cur M c g \<and> vote_calls c g \<and> vote_count M c g \<and> vote_lead M c g"

lemma vote_invI [intro?]:
  "vote_once g \<Longrightarrow> vote_cur M c g \<Longrightarrow> vote_calls c g \<Longrightarrow> vote_count M c g \<Longrightarrow> vote_lead M c g \<Longrightarrow> vote_inv M c g"
  by (simp add: vote_inv_def)

lemma majorities_meet:
  assumes "finite M" "Q \<subseteq> M" "Q' \<subseteq> M" "card M < 2 * card Q" "card M < 2 * card Q'"
  shows "\<exists>v. v \<in> Q \<and> v \<in> Q'"
proof (rule ccontr)
  assume "\<not> ?thesis"
  then have "Q \<inter> Q' = {}" by blast
  then have "card (Q \<union> Q') = card Q + card Q'"
    using assms(1-3) by (intro card_Un_disjoint) (auto intro: finite_subset)
  moreover have "card (Q \<union> Q') \<le> card M" using assms(1-3) by (intro card_mono) auto
  ultimately show False using assms(4,5) by linarith
qed

lemma elected_unique:
  "finite M \<Longrightarrow> vote_once g \<Longrightarrow> elected M g x t \<Longrightarrow> elected M g y t \<Longrightarrow> x = y"
  unfolding elected_def vote_once_def by (metis majorities_meet)

lemma elected_mono: "elected M g x t \<Longrightarrow> gvote g \<subseteq> gvote g' \<Longrightarrow> elected M g' x t"
  by (auto simp: elected_def)

lemma elected_old:
  "finite M \<Longrightarrow> vote_once g' \<Longrightarrow> gvote g \<subseteq> gvote g' \<Longrightarrow> elected M g y t \<Longrightarrow> elected M g' x t \<Longrightarrow> x = y"
  using elected_unique elected_mono by metis

lemma vcall_calm:
  assumes "vcall_ok c g m" and "calm c c'" and "gvote g \<subseteq> gvote g'" "gcount g' = gcount g" "gclog g' = gclog g"
  shows "vcall_ok c' g' m"
proof -
  have "nterm (cnode c i) \<le> nterm (cnode c' i)" for i using assms(2) by (simp add: calm_def node_calm_def)
  then show ?thesis
    using assms(1,3-5) by (cases m) (auto simp: vreq_ok_def intro: order.trans)
qed

text \<open>Calm actions keep it, whatever they do to logs and commit indices.\<close>

lemma vote_inv_calm:
  assumes inv: "vote_inv M c g" and q: "calm c c'" and "finite M"
    and g: "gvote g \<subseteq> gvote g'" "gcount g' = gcount g" "gclog g' = gclog g" "dom (gllog g') = dom (gllog g)"
    and once: "vote_once g'" and cur: "vote_cur M c' g'"
    and calls: "distinct (vkeys (ccalls c'))" "\<forall>m\<in>set (ccalls c'). vcall_ok c' g' m"
  shows "vote_inv M c' g'"
proof
  have ll: "gllog g' t \<noteq> None \<longleftrightarrow> gllog g t \<noteq> None" for t
    using g(4) by (auto simp: dom_def)
  have mono: "nterm (cnode c i) \<le> nterm (cnode c' i)"
    and st: "nstate (cnode c' i) = Follower
      \<or> nstate (cnode c' i) = nstate (cnode c i) \<and> nterm (cnode c' i) = nterm (cnode c i)"
    and cv: "cvotes c' = cvotes c" for i
    using q by (auto simp: calm_def node_calm_def)
  show "vote_once g'" "vote_cur M c' g'" using once cur .
  show "vote_calls c' g'" using calls by (simp add: vote_calls_def)
  show "vote_count M c' g'"
    unfolding vote_count_def
  proof (intro ballI conjI allI impI)
    fix i t v assume "i \<in> M" "v \<in> gcount g' i t"
    then show "(v, t, i) \<in> gvote g'" using inv g(1,2) by (auto simp: vote_inv_def vote_count_def)
  next
    fix i assume "i \<in> M" "nstate (cnode c' i) = Candidate"
    then show "cvotes c' i (nterm (cnode c' i)) = card (gcount g' i (nterm (cnode c' i)))"
      using inv st [of i] g(2) cv by (auto simp: vote_inv_def vote_count_def)
  qed
  have lead: "\<exists>x\<in>M. elected M g x t" if "gllog g t \<noteq> None" for t
    using inv that by (simp add: vote_inv_def vote_lead_def)
  show "vote_lead M c' g'"
    unfolding vote_lead_def ll
  proof (intro conjI ballI allI impI)
    fix i assume "i \<in> M" "nstate (cnode c' i) = Leader"
    then have "nstate (cnode c i) = Leader" "nterm (cnode c' i) = nterm (cnode c i)" using st [of i] by auto
    with inv \<open>i \<in> M\<close> have "elected M g i (nterm (cnode c' i))" "gllog g (nterm (cnode c' i)) \<noteq> None"
      by (simp_all add: vote_inv_def vote_lead_def)
    with g(1) show "elected M g' i (nterm (cnode c' i))" "gllog g (nterm (cnode c' i)) \<noteq> None"
      by (auto intro: elected_mono)
  next
    fix t assume "gllog g t \<noteq> None"
    with lead g(1) show "\<exists>x\<in>M. elected M g' x t" by (blast intro: elected_mono)
  next
    fix t x assume x: "x \<in> M" and e: "gllog g t \<noteq> None \<and> elected M g' x t"
    obtain y where y: "y \<in> M" "elected M g y t" using lead e by blast
    then have "x = y" using elected_old [OF \<open>finite M\<close> once g(1)] e by blast
    with y e inv have "t < nterm (cnode c x) \<or> t = nterm (cnode c x) \<and> nstate (cnode c x) \<noteq> Candidate"
      by (simp add: vote_inv_def vote_lead_def)
    with mono [of x] st [of x]
    show "t < nterm (cnode c' x) \<or> t = nterm (cnode c' x) \<and> nstate (cnode c' x) \<noteq> Candidate"
      by (cases "nterm (cnode c' x) = nterm (cnode c x)") auto
  qed
qed

lemma vote_inv_quiet:
  assumes inv: "vote_inv M c g" and q: "quiet c c'" and fin: "finite M"
    and g: "gvote g' = gvote g" "gcount g' = gcount g" "gclog g' = gclog g" "dom (gllog g') = dom (gllog g)"
    and calls: "distinct (vkeys (ccalls c'))" "\<forall>m\<in>set (ccalls c'). vcall_ok c g m"
  shows "vote_inv M c' g'"
proof (rule vote_inv_calm [OF inv quiet_calm [OF q] fin _ g(2-4)])
  show "gvote g \<subseteq> gvote g'" using g by simp
  show "vote_once g'" using inv by (simp add: vote_inv_def vote_once_def g)
  show "vote_cur M c' g'"
    using inv q unfolding vote_inv_def vote_cur_def quiet_def node_quiet_def node_calm_def g
    by (metis le_antisym order.trans)
  show "\<forall>m\<in>set (ccalls c'). vcall_ok c' g' m"
    using calls(2) vcall_calm [OF _ quiet_calm [OF q]] g by blast
qed (rule calls)

section \<open>The static facts\<close>

lemma startElection_static:
  "startElection now draw noop n = (n', out) \<Longrightarrow> nid n' = nid n \<and> npeers n' = npeers n \<and> nstopped n' = nstopped n"
  by (auto dest: startElection_cases)

lemma voteReply_static:
  "voteReply now draw noop r p (n, v) = (n', v') \<Longrightarrow> nid n' = nid n \<and> npeers n' = npeers n \<and> nstopped n' = nstopped n"
  by (auto dest!: voteReply_cases)

lemma appendReply_static:
  "appendReply now draw q r p n = (n', b) \<Longrightarrow> nid n' = nid n \<and> npeers n' = npeers n \<and> nstopped n' = nstopped n"
  by (auto dest!: appendReply_cases)

lemma propose_static:
  "nid (fst (raft_propose now cmd n)) = nid n \<and> npeers (fst (raft_propose now cmd n)) = npeers n
   \<and> nstopped (fst (raft_propose now cmd n)) = nstopped n \<and> nterm (fst (raft_propose now cmd n)) = nterm n
   \<and> nvoted (fst (raft_propose now cmd n)) = nvoted n \<and> nstate (fst (raft_propose now cmd n)) = nstate n"
  by (auto simp: raft_propose_def Let_def)

lemma applier_static:
  "nid (fst (applier n)) = nid n \<and> npeers (fst (applier n)) = npeers n
   \<and> nstopped (fst (applier n)) = nstopped n \<and> nterm (fst (applier n)) = nterm n
   \<and> nvoted (fst (applier n)) = nvoted n \<and> nstate (fst (applier n)) = nstate n \<and> nlog (fst (applier n)) = nlog n
   \<and> ncommit (fst (applier n)) = ncommit n \<and> nnext (fst (applier n)) = nnext n \<and> nmatch (fst (applier n)) = nmatch n"
  by (auto simp: applier_def)

definition call_ends :: "string set \<Rightarrow> 'c call \<Rightarrow> bool" where
  "call_ends M m \<longleftrightarrow> (case m of
          VReq f t r \<Rightarrow> f \<in> M \<and> t \<in> M \<and> t \<noteq> f | VResp f t r p \<Rightarrow> f \<in> M \<and> t \<in> M \<and> t \<noteq> f
        | AReq f t r \<Rightarrow> f \<in> M \<and> t \<in> M \<and> t \<noteq> f | AResp f t r p \<Rightarrow> f \<in> M \<and> t \<in> M \<and> t \<noteq> f
        | VOrphan f t r \<Rightarrow> f \<in> M \<and> t \<in> M \<and> t \<noteq> f | AOrphan f t r \<Rightarrow> f \<in> M \<and> t \<in> M \<and> t \<noteq> f
        | Finished \<Rightarrow> True)"

lemma call_ends_simps [simp]:
  "call_ends M (VReq f t r) \<longleftrightarrow> f \<in> M \<and> t \<in> M \<and> t \<noteq> f" "call_ends M (VResp f t r p) \<longleftrightarrow> f \<in> M \<and> t \<in> M \<and> t \<noteq> f"
  "call_ends M (AReq f t a) \<longleftrightarrow> f \<in> M \<and> t \<in> M \<and> t \<noteq> f" "call_ends M (AResp f t a b) \<longleftrightarrow> f \<in> M \<and> t \<in> M \<and> t \<noteq> f"
  "call_ends M (VOrphan f t r) \<longleftrightarrow> f \<in> M \<and> t \<in> M \<and> t \<noteq> f" "call_ends M (AOrphan f t a) \<longleftrightarrow> f \<in> M \<and> t \<in> M \<and> t \<noteq> f"
  "call_ends M Finished"
  by (simp_all add: call_ends_def)

definition node_static :: "string set \<Rightarrow> string \<Rightarrow> 'c raft_node \<Rightarrow> bool" where
  "node_static M i n \<longleftrightarrow> nid n = i \<and> distinct (npeers n) \<and> set (npeers n) = M - {i} \<and> \<not> nstopped n \<and> synced n"

lemma static_alt: "static M c \<longleftrightarrow> finite M \<and> [] \<notin> M \<and> (\<forall>i\<in>M. node_static M i (cnode c i))
    \<and> (\<forall>m\<in>set (ccalls c). call_ends M m)"
  by (simp add: static_def call_ends_def node_static_def)

lemma static_upd:
  assumes "static M c" and "\<forall>i\<in>M. node_static M i (cnode c' i)" and "\<forall>m\<in>set (ccalls c'). call_ends M m"
  shows "static M c'"
  using assms by (simp add: static_alt)

lemma static_node: "static M c \<Longrightarrow> i \<in> M \<Longrightarrow> node_static M i (cnode c i)"
  by (simp add: static_alt)

lemma static_call: "static M c \<Longrightarrow> k < length (ccalls c) \<Longrightarrow> call_ends M (ccalls c ! k)"
  by (simp add: static_alt)

lemma static_set:
  assumes "static M c"
  shows static_set_both: "i \<in> M \<Longrightarrow> node_static M i n \<Longrightarrow> call_ends M m \<Longrightarrow> static M (set_call k m (set_node i n c))"
    and static_set_call: "call_ends M m \<Longrightarrow> static M (set_call k m c)"
    and static_set_node: "i \<in> M \<Longrightarrow> node_static M i n \<Longrightarrow> static M (set_node i n c)"
  using assms by (auto simp: static_alt dest!: set_update_subset_insert [THEN subsetD])

lemma orphan_ends: "call_ends M m \<Longrightarrow> call_ends M (orphan i m)"
  by (cases m) auto

lemma static_exec:
  assumes "static M c" and "exec noop M a c = Some c'"
  shows "static M c'"
proof (cases a)
  case (Elect i now draw)
  obtain n out where e: "startElection now draw noop (cnode c i) = (n, out)" by fastforce
  have "i \<in> M" using assms(2) Elect by (auto split: if_splits)
  then have n: "node_static M i n"
    using static_node [OF assms(1)] startElection_static [OF e] startElection_synced [of "cnode c i" now draw noop] e
    by (auto simp: node_static_def)
  show ?thesis
  proof (cases out)
    case None
    then have "c' = set_node i n c" using assms(2) Elect e \<open>i \<in> M\<close> by simp
    then show ?thesis using static_set_node [OF assms(1) \<open>i \<in> M\<close> n] by simp
  next
    case (Some r)
    then have c': "c' = (set_node i n c)\<lparr>ccalls := ccalls c @ map (\<lambda>p. VReq i p r) (npeers n),
        cvotes := (cvotes c)(i := (cvotes c i)(nterm n := 1))\<rparr>"
      using assms(2) Elect e \<open>i \<in> M\<close> by simp
    show ?thesis
      using assms(1)
    proof (rule static_upd)
      show "\<forall>j\<in>M. node_static M j (cnode c' j)"
        using n static_node [OF assms(1)] by (simp add: c')
      show "\<forall>m\<in>set (ccalls c'). call_ends M m"
        using assms(1) n \<open>i \<in> M\<close> by (auto simp: c' static_alt node_static_def)
    qed
  qed
next
  case (Serve k now draw)
  then have k: "k < length (ccalls c)" and s: "serve k now draw (ccalls c ! k) c = Some c'"
    using assms(2) by (auto split: if_splits)
  have ends: "call_ends M (ccalls c ! k)" by (rule static_call [OF assms(1) k])
  have v: "node_static M t n" if "HandleRequestVote now draw r (cnode c t) = Some (n, p)" "t \<in> M" for t n r p
    using static_node [OF assms(1) that(2)] HandleRequestVote_cases [OF that(1)] HandleRequestVote_synced [OF _ that(1)]
    by (auto simp: node_static_def)
  have e: "node_static M t n" if "HandleAppendEntries now draw r (cnode c t) = Some (n, p)" "t \<in> M" for t n r p
    using static_node [OF assms(1) that(2)] HandleAppendEntries_cases [OF that(1)] HandleAppendEntries_synced [OF _ that(1)]
    by (auto simp: node_static_def)
  note set = static_set_both [OF assms(1)] static_set_call [OF assms(1)]
  show ?thesis
    using s ends by (cases "ccalls c ! k") (auto split: option.splits intro: set v e)
next
  case (Reply k now draw)
  then have k: "k < length (ccalls c)" and s: "reply noop k now draw (ccalls c ! k) c = Some c'"
    using assms(2) by (auto split: if_splits)
  have ends: "call_ends M (ccalls c ! k)" by (rule static_call [OF assms(1) k])
  have v: "node_static M f n" if "voteReply now draw noop r p (cnode c f, x) = (n, y)" "f \<in> M" for f r p x n y
    using static_node [OF assms(1) that(2)] voteReply_static [OF that(1)] voteReply_synced [of "cnode c f" now draw noop r p x] that(1)
    by (auto simp: node_static_def)
  have e: "node_static M f n" if "appendReply now draw t r p (cnode c f) = (n, y)" "f \<in> M" for f t r p n y
    using static_node [OF assms(1) that(2)] appendReply_static [OF that(1)] appendReply_synced [of "cnode c f" now draw t r p] that(1)
    by (auto simp: node_static_def)
  have cv: "static M (c\<lparr>cvotes := w\<rparr>)" for w using assms(1) by (simp add: static_alt)
  show ?thesis
    using s ends by (cases "ccalls c ! k")
      (auto split: prod.splits intro: static_set_both [OF assms(1)] static_set_both [OF cv] v e)
next
  case (Send i p)
  then have "p \<in> set (npeers (cnode c i))" "i \<in> M" using assms(2) by (auto split: if_splits)
  moreover from this have "p \<in> M" "p \<noteq> i" using staticD(3) [OF assms(1)] by auto
  ultimately show ?thesis using assms Send by (auto simp: static_alt split: option.splits)
next
  case (Submit i now cmd)
  then show ?thesis
    using assms static_node [OF assms(1)] propose_static [of now cmd "cnode c i"] propose_synced [of "cnode c i" now cmd]
    by (auto split: if_splits simp: node_static_def intro!: static_set_node [OF assms(1)])
next
  case (Apply i)
  then show ?thesis
    using assms static_node [OF assms(1)] applier_static [of "cnode c i"] applier_synced [of "cnode c i"]
    by (auto split: if_splits simp: node_static_def intro!: static_set_node [OF assms(1)])
next
  case (Crash i now draw cfg)
  then show ?thesis
    using assms static_node [OF assms(1)]
    by (auto split: if_splits option.splits simp: static_alt node_static_def dest!: NewNode_simps intro!: orphan_ends)
qed (use assms in \<open>auto split: if_splits intro!: static_set_call [OF assms(1)]\<close>)

lemma init_static: "initial M c \<Longrightarrow> static M c"
proof -
  assume init: "initial M c"
  have "node_static M i (cnode c i)" if i: "i \<in> M" for i
  proof -
    obtain ps cfg where n: "distinct ps" "set ps = M - {i}" "cnode c i = init_node i ps cfg"
      using init i by (auto simp: initial_def)
    have "i \<noteq> []" using init i by (auto simp: initial_def)
    then obtain n0 :: "'a raft_node" where "NewNode 0 0 i ps cfg \<lparr>hsTerm = 0, hsVotedFor = [], hsLog = []\<rparr> = Some n0"
      by (auto simp: NewNode_def Let_def)
    with n show ?thesis by (auto simp: init_node_def node_static_def dest: NewNode_simps)
  qed
  with init show ?thesis by (simp add: static_alt initial_def)
qed

lemma tracked_static: "tracked noop M c g \<Longrightarrow> static M c"
  by (induction rule: tracked.induct) (auto intro: init_static static_exec)

section \<open>The keys of the vote requests\<close>

lemma vkeys_simps [simp]: "vkeys [] = []"
  "vkeys (m # ms) = (case vkey m of None \<Rightarrow> vkeys ms | Some x \<Rightarrow> x # vkeys ms)"
  "vkeys (ms @ ms') = vkeys ms @ vkeys ms'"
  by (simp_all add: vkeys_def List.map_filter_def split: option.splits)

lemma set_vkeys: "set (vkeys ms) = {x. \<exists>m\<in>set ms. vkey m = Some x}"
  by (induction ms) (auto split: option.splits)

lemma vkeys_same: "k < length ms \<Longrightarrow> vkey m = vkey (ms ! k) \<Longrightarrow> vkeys (ms[k := m]) = vkeys ms"
proof (induction ms arbitrary: k)
  case (Cons a ms)
  then show ?case by (cases k) (auto split: option.splits)
qed simp

lemma vkeys_drop:
  assumes "vkey m = None" and "distinct (vkeys ms)"
  shows "distinct (vkeys (ms[k := m]))" and "set (vkeys (ms[k := m])) \<subseteq> set (vkeys ms)"
    and "k < length ms \<Longrightarrow> vkey (ms ! k) = Some x \<Longrightarrow> x \<notin> set (vkeys (ms[k := m]))"
proof -
  have sub: "set (vkeys (ms[k := m])) \<subseteq> set (vkeys ms)" for ms k
    using assms(1) by (auto simp: set_vkeys dest!: set_update_subset_insert [THEN subsetD])
  then show "set (vkeys (ms[k := m])) \<subseteq> set (vkeys ms)" .
  have "distinct (vkeys (ms[k := m])) \<and> (k < length ms \<longrightarrow> vkey (ms ! k) = Some x \<longrightarrow> x \<notin> set (vkeys (ms[k := m])))"
    using assms(2)
  proof (induction ms arbitrary: k)
    case (Cons a ms)
    show ?case
    proof (cases k)
      case 0
      with Cons.prems assms(1) show ?thesis by (auto split: option.splits)
    next
      case (Suc j)
      have d: "distinct (vkeys ms)" using Cons.prems by (auto split: option.splits)
      have "y \<notin> set (vkeys (ms[j := m]))" if "vkey a = Some y" for y
        using Cons.prems that sub by fastforce
      moreover have "x \<in> set (vkeys ms)" if "vkey (ms ! j) = Some x" "j < length ms"
        using that by (force simp: set_vkeys)
      ultimately show ?thesis
        using Cons.IH [OF d, of j] Cons.prems Suc by (auto split: option.splits)
    qed
  qed simp
  then show "distinct (vkeys (ms[k := m]))"
    "k < length ms \<Longrightarrow> vkey (ms ! k) = Some x \<Longrightarrow> x \<notin> set (vkeys (ms[k := m]))" by auto
qed

lemma vkeys_finish:
  assumes "distinct (vkeys ms)" and "k < length ms" and "vkey (ms ! k) = Some x" and "vkey m = None"
    and "m' \<in> set (ms[k := m])"
  shows "vkey m' \<noteq> Some x"
  using vkeys_drop(3) [OF assms(4,1,2,3)] assms(5) by (auto simp: set_vkeys)

lemma vkeys_orphan: "vkeys (map (orphan i) ms) = filter (\<lambda>x. fst x \<noteq> i) (vkeys ms)"
proof (induction ms)
  case (Cons m ms)
  then show ?case by (cases m) auto
qed simp

lemma vkeys_requests: "vkeys (map (\<lambda>p. VReq i p r) ps) = map (\<lambda>p. (i, p, rvTerm r)) ps"
  by (induction ps) auto

lemma vote_callsD:
  assumes "vote_inv M c g" and "k < length (ccalls c)"
  shows "distinct (vkeys (ccalls c))" "vcall_ok c g (ccalls c ! k)" "\<forall>m\<in>set (ccalls c). vcall_ok c g m"
  using assms by (auto simp: vote_inv_def vote_calls_def)

lemma vcalls_set:
  "\<forall>m\<in>set ms. P m \<Longrightarrow> P m' \<Longrightarrow> \<forall>m\<in>set (ms[k := m']). P m"
  by (auto dest!: set_update_subset_insert [THEN subsetD])

section \<open>The quiet actions\<close>

lemma hist_simps [simp]:
  "gvote (hist_lead i n g) = gvote g" "gcount (hist_lead i n g) = gcount g" "gclog (hist_lead i n g) = gclog g"
  "gvlog (hist_lead i n g) = gvlog g"
  "gvote (hist_aserve t r c g) = gvote g" "gcount (hist_aserve t r c g) = gcount g"
  "gclog (hist_aserve t r c g) = gclog g" "gllog (hist_aserve t r c g) = gllog g" "gvlog (hist_aserve t r c g) = gvlog g"
  "gcount (hist_vote v T x l g) = gcount g" "gclog (hist_vote v T x l g) = gclog g" "gllog (hist_vote v T x l g) = gllog g"
  "gvote (hist_vote v T x l g) = insert (v, T, x) (gvote g)" "gack (hist_vote v T x l g) = gack g"
  by (auto simp: hist_lead_def hist_aserve_def hist_vote_def split: option.splits)

lemma lead_dom:
  assumes "vote_inv M c g" and "i \<in> M" and "nstate n = Leader \<Longrightarrow> nstate (cnode c i) = Leader \<and> nterm n = nterm (cnode c i)"
  shows "dom (gllog (hist_lead i n g)) = dom (gllog g)"
  using assms by (auto simp: hist_lead_def vote_inv_def vote_lead_def)

lemma vote_finish:
  assumes inv: "vote_inv M c g" and q: "quiet c c'" and fin: "finite M"
    and g: "gvote g' = gvote g" "gcount g' = gcount g" "gclog g' = gclog g" "dom (gllog g') = dom (gllog g)"
    and c': "ccalls c' = (ccalls c)[k := m]" and m: "vkey m = None" "vcall_ok c g m"
  shows "vote_inv M c' g'"
proof (rule vote_inv_quiet [OF inv q fin g])
  show "distinct (vkeys (ccalls c'))"
    unfolding c' using m(1) inv by (intro vkeys_drop) (simp_all add: vote_inv_def vote_calls_def)
  show "\<forall>m\<in>set (ccalls c'). vcall_ok c g m"
    unfolding c' using m(2) inv by (intro vcalls_set) (simp_all add: vote_inv_def vote_calls_def)
qed

lemma vote_keep:
  assumes inv: "vote_inv M c g" and q: "quiet c c'" and fin: "finite M"
    and g: "gvote g' = gvote g" "gcount g' = gcount g" "gclog g' = gclog g" "dom (gllog g') = dom (gllog g)"
    and c': "ccalls c' = ccalls c"
  shows "vote_inv M c' g'"
  using vote_inv_quiet [OF inv q fin g] inv by (simp add: c' vote_inv_def vote_calls_def)

lemma quiet_append:
  assumes "HandleAppendEntries now draw r n = Some (n', p)"
  shows "node_quiet n n'"
proof (cases "aeTerm r < nterm n")
  case True
  then show ?thesis using HandleAppendEntries_cases [OF assms] by simp
next
  case False
  then show ?thesis
    using HandleAppendEntries_cases [OF assms] by (simp add: node_quiet_def node_calm_def)
qed

lemma quiet_appendReply: "appendReply now draw q r p n = (n', b) \<Longrightarrow> node_quiet n n'"
  by (auto simp: node_quiet_def node_calm_def dest!: appendReply_cases)

lemma vote_append:
  assumes inv: "vote_inv M c g" and st: "static M c" and m: "ccalls c ! k = AReq f t r \<or> ccalls c ! k = AOrphan f t r"
    and "serve k now draw (ccalls c ! k) c = Some c'"
  shows "vote_inv M c' (hist_serve (ccalls c ! k) c g)"
proof (cases "HandleAppendEntries now draw r (cnode c t)")
  case None
  with assms(3,4) have "c' = set_call k Finished c" by auto
  then show ?thesis
    using m by (intro vote_finish [OF inv quiet_same [of c' c]] staticD [OF st]) auto
next
  case (Some x)
  then obtain n p where x: "HandleAppendEntries now draw r (cnode c t) = Some (n, p)" by (cases x) auto
  with assms(3,4) obtain m' where c': "c' = set_call k m' (set_node t n c)" "vkey m' = None" "vcall_ok c g m'" by auto
  show ?thesis
    using m by (intro vote_finish [OF inv quietI [of c' c t n]] staticD [OF st] quiet_append [OF x])
      (auto simp: c')
qed

lemma vote_lose:
  "vote_inv M c g \<Longrightarrow> static M c \<Longrightarrow> vote_inv M (set_call k Finished c) g"
  by (rule vote_finish [of M c g, OF _ quiet_same]) (auto simp: staticD)

lemma vote_send:
  assumes "vote_inv M c g" and "static M c"
  shows "vote_inv M (c\<lparr>ccalls := ccalls c @ [AReq i p r]\<rparr>) g"
  using assms vote_inv_quiet [of M c g, OF _ quiet_same] by (auto simp: vote_inv_def vote_calls_def staticD)

lemma vote_submit:
  assumes inv: "vote_inv M c g" and st: "static M c" and i: "i \<in> M"
  shows "vote_inv M (set_node i (fst (raft_propose now cmd (cnode c i))) c)
    (hist_lead i (fst (raft_propose now cmd (cnode c i))) g)"
  using propose_static [of now cmd "cnode c i"]
  by (intro vote_keep [OF inv quietI [of _ c i]] staticD [OF st])
    (auto simp: node_quiet_def node_calm_def intro!: lead_dom [OF inv i])

lemma vote_apply:
  assumes inv: "vote_inv M c g" and st: "static M c"
  shows "vote_inv M (set_node i (fst (applier (cnode c i))) c) g"
  using applier_static [of "cnode c i"]
  by (intro vote_keep [OF inv quietI [of _ c i]] staticD [OF st]) (auto simp: node_quiet_def node_calm_def)

lemma vcall_orphan: "vcall_ok c g m \<Longrightarrow> vcall_ok c g (orphan i m)"
  by (cases m) auto

lemma vote_crash:
  assumes inv: "vote_inv M c g" and st: "static M c" and i: "i \<in> M"
    and n: "NewNode now draw i (npeers (cnode c i)) cfg (nstore (cnode c i)) = Some n"
  shows "vote_inv M ((set_node i n c)\<lparr>ccalls := map (orphan i) (ccalls c)\<rparr>) g"
proof (rule vote_inv_quiet [OF inv quietI [of _ c i n] staticD(1) [OF st]])
  show "node_quiet (cnode c i) n"
    using NewNode_simps [OF n] NewNode_synced [OF _ n] staticD(3) [OF st i] by (auto simp: node_quiet_def node_calm_def)
  show "\<forall>m\<in>set (ccalls ((set_node i n c)\<lparr>ccalls := map (orphan i) (ccalls c)\<rparr>)). vcall_ok c g m"
    using inv by (auto simp: vote_inv_def vote_calls_def intro: vcall_orphan)
qed (use inv in \<open>auto simp: vkeys_orphan vote_inv_def vote_calls_def\<close>)

lemma vote_areply:
  assumes inv: "vote_inv M c g" and st: "static M c"
    and n: "appendReply now draw t r p (cnode c f) = (n, b)"
  shows "vote_inv M (set_call k Finished (set_node f n c)) g"
  by (rule vote_finish [OF inv quietI [of _ c f n] staticD(1) [OF st]])
    (auto intro: quiet_appendReply [OF n])

section \<open>Granting a vote\<close>

lemma hist_vserve_alt:
  assumes "HandleRequestVote now draw r (cnode c t) = Some (n, p)"
  shows "hist_vserve t r c g = (if rvrGranted p then hist_vote t (rvTerm r) (rvCandidate r) (nlog (cnode c t)) g else g)"
  using assms HandleRequestVote_granted [of now draw r "cnode c t" 0 0]
  by (auto simp: hist_vserve_def split: option.splits)

lemma vote_grant:
  assumes inv: "vote_inv M c g" and st: "static M c" and t: "t \<in> M" and f: "rvCandidate r \<in> M"
    and h: "HandleRequestVote now draw r (cnode c t) = Some (n, p)"
    and c': "cnode c' = (cnode c)(t := n)" "cvotes c' = cvotes c" "ccalls c' = (ccalls c)[k := m]" "k < length (ccalls c)"
    and m: "vkey m = None \<or> vkey m = vkey (ccalls c ! k)"
    and ok: "vcall_ok c (hist_vserve t r c g) m"
  shows "vote_inv M c' (hist_vserve t r c g)"
proof -
  let ?g = "hist_vserve t r c g"
  note cases = HandleRequestVote_cases [OF h]
  have calm: "calm c c'"
    using cases by (intro calmI [of c' c t n]) (auto simp: c' node_calm_def max_def)
  have same: "gcount ?g = gcount g" "gclog ?g = gclog g" "gllog ?g = gllog g"
    by (simp_all add: hist_vserve_alt [OF h])
  have sub: "gvote g \<subseteq> gvote ?g" by (auto simp: hist_vserve_alt [OF h])
  have cur: "vote_cur M c g" and once: "vote_once g" using inv by (simp_all add: vote_inv_def)
  have old: "y = rvCandidate r" if "(t, rvTerm r, y) \<in> gvote g" "rvrGranted p" for y
  proof -
    have "y \<in> M" "rvTerm r \<le> nterm (cnode c t)" and y: "rvTerm r = nterm (cnode c t) \<Longrightarrow> nvoted (cnode c t) = y"
      using cur that(1) by (auto simp: vote_cur_def)
    then have "rvTerm r = nterm (cnode c t)" using cases that(2) by auto
    moreover have "y \<noteq> []" using \<open>y \<in> M\<close> staticD(2) [OF st] by auto
    ultimately show ?thesis using y cases that(2) by auto
  qed
  show ?thesis
  proof (rule vote_inv_calm [OF inv calm staticD(1) [OF st] sub same(1,2)])
    show "dom (gllog ?g) = dom (gllog g)" by (simp add: same)
    show "vote_once ?g"
      using once old unfolding vote_once_def by (auto simp: hist_vserve_alt [OF h])
    show "vote_cur M c' ?g"
      unfolding vote_cur_def
    proof (intro allI impI)
      fix v T x assume v: "(v, T, x) \<in> gvote ?g"
      show "v \<in> M \<and> x \<in> M \<and> T \<le> nterm (cnode c' v) \<and> (T = nterm (cnode c' v) \<longrightarrow> nvoted (cnode c' v) = x)"
      proof (cases "rvrGranted p \<and> v = t \<and> T = rvTerm r \<and> x = rvCandidate r")
        case True
        with t f cases show ?thesis by (simp add: c')
      next
        case False
        then have v': "(v, T, x) \<in> gvote g" using v by (auto simp: hist_vserve_alt [OF h] split: if_splits)
        then have b: "v \<in> M \<and> x \<in> M \<and> T \<le> nterm (cnode c v) \<and> (T = nterm (cnode c v) \<longrightarrow> nvoted (cnode c v) = x)"
          using cur by (simp add: vote_cur_def)
        show ?thesis
        proof (cases "v = t")
          case True
          then show ?thesis using b cases False v' old by (auto simp: c' max_def split: if_splits)
        qed (use b c' in simp)
      qed
    qed
    show "distinct (vkeys (ccalls c'))"
      using m inv vkeys_drop(1) [of m "ccalls c" k] vkeys_same [of k "ccalls c" m]
      by (auto simp: c' vote_inv_def vote_calls_def)
    show "\<forall>m\<in>set (ccalls c'). vcall_ok c' ?g m"
      unfolding c'(3)
    proof (rule vcalls_set)
      show "\<forall>m\<in>set (ccalls c). vcall_ok c' ?g m"
        using inv vcall_calm [OF _ calm sub same(1,2)] by (simp add: vote_inv_def vote_calls_def)
      show "vcall_ok c' ?g m"
        by (rule vcall_calm [OF ok calm]) auto
    qed
  qed
qed

lemma vote_serve:
  assumes inv: "vote_inv M c g" and st: "static M c" and k: "k < length (ccalls c)"
    and s: "serve k now draw (ccalls c ! k) c = Some c'"
  shows "vote_inv M c' (hist_serve (ccalls c ! k) c g)"
proof -
  note ok = vote_callsD(2) [OF inv k] and ends = static_call [OF st k]
  consider (req) f t r where "ccalls c ! k = VReq f t r" | (orph) f t r where "ccalls c ! k = VOrphan f t r"
    | (app) f t r where "ccalls c ! k = AReq f t r \<or> ccalls c ! k = AOrphan f t r"
    using s by (cases "ccalls c ! k") auto
  then show ?thesis
  proof cases
    case req
    then have f: "rvCandidate r = f" "f \<in> M" "t \<in> M" using ok ends by (auto simp: vreq_ok_def)
    show ?thesis
    proof (cases "HandleRequestVote now draw r (cnode c t)")
      case None
      then have "nstopped (cnode c t)" by (auto simp: HandleRequestVote_def Let_def split: if_splits)
      with staticD(3) [OF st f(3)] show ?thesis by simp
    next
      case (Some x)
      then obtain n p where x: "HandleRequestVote now draw r (cnode c t) = Some (n, p)" by (cases x) auto
      have ok': "vcall_ok c (hist_vserve t r c g) (VResp f t r p)"
        using ok f by (auto simp: hist_vserve_alt [OF x] req vreq_ok_def)
      have c': "c' = set_call k (VResp f t r p) (set_node t n c)" using s x req by simp
      have "vote_inv M c' (hist_vserve t r c g)"
        by (rule vote_grant [OF inv st f(3) _ x _ _ _ k _ ok']) (use f in \<open>simp_all add: c' req\<close>)
      with req show ?thesis by simp
    qed
  next
    case orph
    then have f: "rvCandidate r = f" "f \<in> M" "t \<in> M" using ok ends by (auto simp: vreq_ok_def)
    show ?thesis
    proof (cases "HandleRequestVote now draw r (cnode c t)")
      case None
      then have "nstopped (cnode c t)" by (auto simp: HandleRequestVote_def Let_def split: if_splits)
      with staticD(3) [OF st f(3)] show ?thesis by simp
    next
      case (Some x)
      then obtain n p where x: "HandleRequestVote now draw r (cnode c t) = Some (n, p)" by (cases x) auto
      have c': "c' = set_call k Finished (set_node t n c)" using s x orph by simp
      have "vote_inv M c' (hist_vserve t r c g)"
        by (rule vote_grant [OF inv st f(3) _ x _ _ _ k, where m = Finished]) (use f in \<open>simp_all add: c' orph\<close>)
      with orph show ?thesis by simp
    qed
  next
    case app
    show ?thesis by (rule vote_append [OF inv st app s])
  qed
qed

section \<open>Counting a vote\<close>

lemma vote_counted:
  assumes inv: "vote_inv M c g" and st: "static M c" and k: "k < length (ccalls c)"
    and m: "ccalls c ! k = VResp f t r p" and cnt: "counts r p (cnode c f)"
    and c': "ccalls c' = (ccalls c)[k := Finished]" "cvotes c' = (cvotes c)(f := (cvotes c f)(rvTerm r := cvotes c f (rvTerm r) + 1))"
      "cnode c' = (cnode c)(f := n)"
    and n: "n = (if quorum (cnode c f) (cvotes c f (rvTerm r) + 1) then becomeLeader now noop (cnode c f) else cnode c f)"
  shows "vote_inv M c' (hist_lead f n (hist_reply (VResp f t r p) c g))"
proof -
  let ?T = "rvTerm r"
  let ?g = "hist_lead f n (hist_reply (VResp f t r p) c g)"
  have ends: "f \<in> M" "t \<in> M" using static_call [OF st k] by (simp_all add: m)
  have ok: "t \<notin> gcount g f ?T" "(t, ?T, f) \<in> gvote g"
    using vote_callsD(2) [OF inv k] cnt by (simp_all add: m counts_def)
  have cand: "nstate (cnode c f) = Candidate" and T: "nterm (cnode c f) = ?T" using cnt by (simp_all add: counts_def)
  have cvg: "cvotes c f ?T = card (gcount g f ?T)" and vs: "\<And>t v. v \<in> gcount g f t \<Longrightarrow> (v, t, f) \<in> gvote g"
    using inv ends cand T by (auto simp: vote_inv_def vote_count_def)
  have cur: "vote_cur M c g" and once: "vote_once g" and lead: "vote_lead M c g" using inv by (simp_all add: vote_inv_def)
  have sub: "gcount g f ?T \<subseteq> M" using vs cur by (force simp: vote_cur_def)
  then have fin: "finite (gcount g f ?T)" using staticD(1) [OF st] by (rule finite_subset)
  have nodes [simp]: "nterm n = ?T" "nvoted n = nvoted (cnode c f)" "nstate n = Candidate \<or> nstate n = Leader"
    "nid n = nid (cnode c f)"
    using T cand by (simp_all add: n)
  have gv: "gvote ?g = gvote g" and gcl: "gclog ?g = gclog g"
    and gc: "gcount ?g = (gcount g)(f := (gcount g f)(?T := insert t (gcount g f ?T)))"
    using cnt by simp_all
  have gl: "gllog ?g = (if nstate n = Leader then (gllog g)(?T \<mapsto> nlog n) else gllog g)"
    using cnt by (simp add: hist_lead_def)
  have el: "elected M ?g = elected M g" by (intro ext) (simp add: elected_def gv)
  have win: "elected M g f ?T" if "nstate n = Leader"
  proof -
    have "quorum (cnode c f) (cvotes c f ?T + 1)" using that cand by (simp add: n split: if_splits)
    then have "card M < 2 * card (insert t (gcount g f ?T))"
      using static_quorum [OF st ends(1)] cvg ok(1) fin by simp
    moreover have "insert t (gcount g f ?T) \<subseteq> M" "\<forall>v\<in>insert t (gcount g f ?T). (v, ?T, f) \<in> gvote g"
      using sub ends(2) vs ok(2) by auto
    ultimately show ?thesis unfolding elected_def by blast
  qed
  show ?thesis
  proof
    show "vote_once ?g" using once by (simp add: vote_once_def gv)
    show "vote_cur M c' ?g" using cur T [symmetric] by (auto simp: vote_cur_def gv c')
    show "vote_calls c' ?g"
      unfolding vote_calls_def
    proof (intro conjI ballI)
      show "distinct (vkeys (ccalls c'))"
        unfolding c' using vote_callsD(1) [OF inv k] by (intro vkeys_drop) simp_all
      fix m' assume m': "m' \<in> set (ccalls c')"
      then have "m' \<in> set (ccalls c) \<or> m' = Finished"
        unfolding c' by (auto dest!: set_update_subset_insert [THEN subsetD])
      then have ok': "vcall_ok c g m'" using vote_callsD(3) [OF inv k] by auto
      have "vkey m' \<noteq> Some (f, t, ?T)"
        using vkeys_finish [OF vote_callsD(1) [OF inv k] k _ _ m' [unfolded c']] by (simp add: m)
      then show "vcall_ok c' ?g m'"
        using ok' T by (cases m') (auto simp: vreq_ok_def gv gcl gc c')
    qed
    show "vote_count M c' ?g"
      unfolding vote_count_def
    proof (intro ballI conjI allI impI)
      fix i T v assume "i \<in> M" "v \<in> gcount ?g i T"
      then show "(v, T, i) \<in> gvote ?g"
        using inv ok(2) unfolding gv gc by (auto simp: vote_inv_def vote_count_def split: if_splits)
    next
      fix i assume "i \<in> M" "nstate (cnode c' i) = Candidate"
      then show "cvotes c' i (nterm (cnode c' i)) = card (gcount ?g i (nterm (cnode c' i)))"
        using inv ok(1) fin cvg unfolding gc c' by (auto simp: vote_inv_def vote_count_def)
    qed
    show "vote_lead M c' ?g"
      unfolding vote_lead_def el
    proof (intro conjI ballI allI impI)
      fix i assume "i \<in> M" "nstate (cnode c' i) = Leader"
      then show "elected M g i (nterm (cnode c' i))" "gllog ?g (nterm (cnode c' i)) \<noteq> None"
        using lead win unfolding gl c' by (auto simp: vote_lead_def split: if_splits)
    next
      fix T assume "gllog ?g T \<noteq> None"
      then show "\<exists>x\<in>M. elected M g x T"
        using lead win ends unfolding gl by (auto simp: vote_lead_def split: if_splits)
    next
      fix T x assume x: "x \<in> M" and e: "gllog ?g T \<noteq> None \<and> elected M g x T"
      show "T < nterm (cnode c' x) \<or> T = nterm (cnode c' x) \<and> nstate (cnode c' x) \<noteq> Candidate"
      proof (cases "T = ?T \<and> nstate n = Leader")
        case True
        then have "x = f" using elected_unique [OF staticD(1) [OF st] once] win e by blast
        with True show ?thesis by (simp add: c')
      next
        case False
        then have "gllog g T \<noteq> None" using e unfolding gl by (auto split: if_splits)
        then have "T < nterm (cnode c x) \<or> T = nterm (cnode c x) \<and> nstate (cnode c x) \<noteq> Candidate"
          using lead x e by (simp add: vote_lead_def)
        then show ?thesis using cand T by (auto simp: c')
      qed
    qed
  qed
qed

lemma vote_reply:
  assumes inv: "vote_inv M c g" and st: "static M c" and k: "k < length (ccalls c)"
    and s: "reply noop k now draw (ccalls c ! k) c = Some c'"
  shows "vote_inv M c' (track (Reply k now draw) c c' g)"
proof -
  note ends = static_call [OF st k]
  consider (vote) f t r p where "ccalls c ! k = VResp f t r p" | (app) f t r p where "ccalls c ! k = AResp f t r p"
    using s by (cases "ccalls c ! k") auto
  then show ?thesis
  proof cases
    case app
    obtain n b where "appendReply now draw t r p (cnode c f) = (n, b)" by fastforce
    with s app show ?thesis using vote_areply [OF inv st] by auto
  next
    case vote
    then have f: "f \<in> M" using ends by simp
    obtain n v where x: "voteReply now draw noop r p (cnode c f, cvotes c f (rvTerm r)) = (n, v)" by fastforce
    have c': "c' = set_call k Finished (set_node f n (c\<lparr>cvotes := (cvotes c)(f := (cvotes c f)(rvTerm r := v))\<rparr>))"
      using s vote x by simp
    show ?thesis
    proof (cases "counts r p (cnode c f)")
      case True
      then have nv: "v = cvotes c f (rvTerm r) + 1"
        "n = (if quorum (cnode c f) (cvotes c f (rvTerm r) + 1) then becomeLeader now noop (cnode c f) else cnode c f)"
        using voteReply_cases [OF x] by (auto simp: counts_def)
      have "vote_inv M c' (hist_lead f n (hist_reply (VResp f t r p) c g))"
        by (rule vote_counted [OF inv st k vote True _ _ _ nv(2)]) (simp_all add: c' nv(1))
      moreover have "nstate (cnode c f) \<noteq> Leader" using True by (simp add: counts_def)
      ultimately show ?thesis by (simp add: vote c')
    next
      case False
      then have nv: "v = cvotes c f (rvTerm r)" "n = cnode c f \<or> rvrTerm p > nterm (cnode c f) \<and> n = persist (stepDown now draw (rvrTerm p) (cnode c f))"
        using voteReply_cases [OF x] by auto
      have quiet: "node_quiet (cnode c f) n" using nv(2) by (auto simp: node_quiet_def node_calm_def)
      have dom: "dom (gllog (hist_lead f n g)) = dom (gllog g)" if "nstate (cnode c f) \<noteq> Leader"
        using that nv(2) by (intro lead_dom [OF inv f]) auto
      have "vote_inv M c' (if nstate (cnode c f) \<noteq> Leader then hist_lead f n g else g)"
        by (rule vote_finish [OF inv quietI [of c' c f n] staticD(1) [OF st], where k = k and m = Finished])
          (use quiet dom in \<open>auto simp: c' nv(1)\<close>)
      with False show ?thesis by (auto simp: vote c' split: if_splits)
    qed
  qed
qed

section \<open>Starting an election\<close>

lemma vote_elect:
  assumes inv: "vote_inv M c g" and st: "static M c" and i: "i \<in> M"
    and e: "startElection now draw noop (cnode c i) = (n, out)" and T: "nterm n = nterm (cnode c i) + 1"
    and c': "cnode c' = (cnode c)(i := n)"
      "ccalls c' = ccalls c @ (case out of None \<Rightarrow> [] | Some r \<Rightarrow> map (\<lambda>p. VReq i p r) (npeers n))"
      "cvotes c' = (case out of None \<Rightarrow> cvotes c | Some r \<Rightarrow> (cvotes c)(i := (cvotes c i)(nterm n := 1)))"
    and g': "g' = hist_lead i n ((hist_vote i (nterm n) i l g)
      \<lparr>gcount := (gcount g)(i := (gcount g i)(nterm n := {i})), gclog := (gclog g)(i := (gclog g i)(nterm n := l))\<rparr>)"
      "l = nlog (cnode c i)"
  shows "vote_inv M c' g'"
proof -
  let ?T = "nterm n"
  have id: "nid (cnode c i) = i" and ps: "distinct (npeers (cnode c i))" "set (npeers (cnode c i)) = M - {i}"
    using staticD(3) [OF st i] by auto
  have n: "nvoted n = i" "nid n = i" "npeers n = npeers (cnode c i)"
    and w: "quorum (cnode c i) 1 \<and> out = None \<and> nstate n = Leader
      \<or> \<not> quorum (cnode c i) 1 \<and> nstate n = Candidate
        \<and> out = Some \<lparr>rvTerm = ?T, rvCandidate = i, rvLastIndex = length l, rvLastTerm = term_at l (length l)\<rparr>"
    using startElection_cases [OF e] T id g'(2) by auto
  have cur: "vote_cur M c g" and once: "vote_once g" and lead: "vote_lead M c g" using inv by (simp_all add: vote_inv_def)
  have new: "(i, ?T, x) \<notin> gvote g" for x
  proof
    assume "(i, ?T, x) \<in> gvote g"
    with cur have "?T \<le> nterm (cnode c i)" by (simp add: vote_cur_def)
    with T show False by simp
  qed
  have gv: "gvote g' = insert (i, ?T, i) (gvote g)" and gc: "gcount g' = (gcount g)(i := (gcount g i)(?T := {i}))"
    and gcl: "gclog g' = (gclog g)(i := (gclog g i)(?T := l))" by (simp_all add: g'(1))
  have gl: "gllog g' = (if nstate n = Leader then (gllog g)(?T \<mapsto> nlog n) else gllog g)"
    by (simp add: g'(1) hist_lead_def)
  have once': "vote_once g'" using once new by (auto simp: vote_once_def gv)
  have sub: "gvote g \<subseteq> gvote g'" by (auto simp: gv)
  have fin: "finite M" by (rule staticD(1) [OF st])
  have win: "elected M g' i ?T" if "nstate n = Leader"
    using that w static_quorum [OF st i, of 1] i unfolding elected_def by (intro exI [of _ "{i}"]) (auto simp: gv)
  have req: "vreq_ok c' g' f r" if "vreq_ok c g f r" for f r
    using that T by (auto simp: vreq_ok_def gcl c')
  have reqs: "vreq_ok c' g' i r \<and> rvTerm r = ?T" if "out = Some r" for r
    using that w by (auto simp: vreq_ok_def c' gcl)
  show ?thesis
  proof
    show "vote_once g'" by (rule once')
    show "vote_cur M c' g'"
      unfolding vote_cur_def
    proof (intro allI impI)
      fix v t x assume "(v, t, x) \<in> gvote g'"
      then consider "v = i" "t = ?T" "x = i" | "(v, t, x) \<in> gvote g" by (auto simp: gv)
      then show "v \<in> M \<and> x \<in> M \<and> t \<le> nterm (cnode c' v) \<and> (t = nterm (cnode c' v) \<longrightarrow> nvoted (cnode c' v) = x)"
      proof cases
        case 2
        then have "v \<in> M \<and> x \<in> M \<and> t \<le> nterm (cnode c v) \<and> (t = nterm (cnode c v) \<longrightarrow> nvoted (cnode c v) = x)"
          using cur by (simp add: vote_cur_def)
        then show ?thesis using T by (auto simp: c')
      qed (use i n in \<open>simp add: c'\<close>)
    qed
    show "vote_calls c' g'"
      unfolding vote_calls_def
    proof (intro conjI ballI)
      have old: "rvTerm r < ?T" if "m \<in> set (ccalls c)" "vkey m = Some (i, t, rvTerm r)" for m t r
      proof -
        have "vcall_ok c g m" using that(1) inv by (simp add: vote_inv_def vote_calls_def)
        then show ?thesis using that(2) T by (cases m) (auto simp: vreq_ok_def)
      qed
      show "distinct (vkeys (ccalls c'))"
      proof (cases out)
        case (Some r)
        then have T': "rvTerm r = ?T" using reqs by simp
        have "(i, t, ?T) \<notin> set (vkeys (ccalls c))" for t
        proof
          assume "(i, t, ?T) \<in> set (vkeys (ccalls c))"
          then obtain m where m: "m \<in> set (ccalls c)" "vkey m = Some (i, t, ?T)" by (auto simp: set_vkeys)
          then show False using old [of m t r] T' by simp
        qed
        then show ?thesis
          using inv ps n(3) T' by (auto simp: c' Some vkeys_requests vote_inv_def vote_calls_def distinct_map inj_on_def)
      qed (use inv in \<open>simp add: c' vote_inv_def vote_calls_def\<close>)
      fix m assume "m \<in> set (ccalls c')"
      then consider "m \<in> set (ccalls c)" | p r where "out = Some r" "m = VReq i p r" "p \<in> set (npeers n)"
        by (auto simp: c' split: option.splits)
      then show "vcall_ok c' g' m"
      proof cases
        case 1
        then have "vcall_ok c g m" using inv by (simp add: vote_inv_def vote_calls_def)
        moreover have "\<not> rvTerm r = ?T" if "vkey m = Some (i, t, rvTerm r)" for t r using old [OF 1 that] by simp
        ultimately show ?thesis using req by (cases m) (auto simp: gc gv)
      next
        case 2
        then show ?thesis using reqs [OF 2(1)] ps(2) n(3) by (auto simp: gc)
      qed
    qed
    show "vote_count M c' g'"
      unfolding vote_count_def
    proof (intro ballI conjI allI impI)
      fix j t v assume "j \<in> M" "v \<in> gcount g' j t"
      then show "(v, t, j) \<in> gvote g'"
        using inv unfolding gc gv by (auto simp: vote_inv_def vote_count_def split: if_splits)
    next
      fix j assume j: "j \<in> M" "nstate (cnode c' j) = Candidate"
      show "cvotes c' j (nterm (cnode c' j)) = card (gcount g' j (nterm (cnode c' j)))"
      proof (cases "j = i")
        case True
        then show ?thesis using j w by (auto simp: c' gc)
      next
        case False
        then have "cvotes c' j = cvotes c j" by (auto simp: c' split: option.splits)
        then show ?thesis using False j inv by (simp add: c' gc vote_inv_def vote_count_def)
      qed
    qed
    show "vote_lead M c' g'"
      unfolding vote_lead_def
    proof (intro conjI ballI allI impI)
      fix j assume "j \<in> M" "nstate (cnode c' j) = Leader"
      then have "elected M g' j (nterm (cnode c' j)) \<and> gllog g' (nterm (cnode c' j)) \<noteq> None"
        using lead win elected_mono [OF _ sub] unfolding gl c' by (cases "j = i") (auto simp: vote_lead_def)
      then show "elected M g' j (nterm (cnode c' j))" "gllog g' (nterm (cnode c' j)) \<noteq> None" by blast+
    next
      fix t assume t: "gllog g' t \<noteq> None"
      show "\<exists>x\<in>M. elected M g' x t"
      proof (cases "t = ?T \<and> nstate n = Leader")
        case True
        with win i show ?thesis by blast
      next
        case False
        then have "gllog g t \<noteq> None" using t unfolding gl by (auto split: if_splits)
        with lead obtain x where "x \<in> M" "elected M g x t" unfolding vote_lead_def by blast
        with elected_mono [OF _ sub] show ?thesis by blast
      qed
    next
      fix t x assume x: "x \<in> M" and el: "gllog g' t \<noteq> None \<and> elected M g' x t"
      show "t < nterm (cnode c' x) \<or> t = nterm (cnode c' x) \<and> nstate (cnode c' x) \<noteq> Candidate"
      proof (cases "t = ?T \<and> nstate n = Leader")
        case True
        then have "x = i" using elected_unique [OF fin once'] win el by blast
        with True show ?thesis by (simp add: c')
      next
        case False
        then have ll: "gllog g t \<noteq> None" using el unfolding gl by (auto split: if_splits)
        then obtain y where y: "elected M g y t" using lead by (auto simp: vote_lead_def)
        then have "x = y" using elected_old [OF fin once' sub y] el by blast
        with y have "elected M g x t" by simp
        then have "t < nterm (cnode c x) \<or> t = nterm (cnode c x) \<and> nstate (cnode c x) \<noteq> Candidate"
          using lead x ll by (simp add: vote_lead_def)
        then show ?thesis using T by (auto simp: c')
      qed
    qed
  qed
qed

section \<open>Election safety\<close>

lemma vote_exec:
  assumes inv: "vote_inv M c g" and st: "static M c" and x: "exec noop M a c = Some c'"
  shows "vote_inv M c' (track a c c' g)"
proof (cases a)
  case (Elect i now draw)
  obtain n out where e: "startElection now draw noop (cnode c i) = (n, out)" by fastforce
  have i: "i \<in> M" using x Elect by (auto split: if_splits)
  have c': "cnode c' = (cnode c)(i := n)"
    "ccalls c' = ccalls c @ (case out of None \<Rightarrow> [] | Some r \<Rightarrow> map (\<lambda>p. VReq i p r) (npeers n))"
    "cvotes c' = (case out of None \<Rightarrow> cvotes c | Some r \<Rightarrow> (cvotes c)(i := (cvotes c i)(nterm n := 1)))"
    using x Elect e i by (auto split: option.splits)
  show ?thesis
  proof (cases "nterm n = nterm (cnode c i)")
    case True
    then have "n = cnode c i" "out = None" using startElection_cases [OF e] by auto
    with c' True show ?thesis
      using vote_keep [OF inv quiet_same [of c' c] staticD(1) [OF st]] by (simp add: Elect)
  next
    case False
    then have T: "nterm n = nterm (cnode c i) + 1" using startElection_cases [OF e] by auto
    show ?thesis using vote_elect [OF inv st i e T c' refl refl] False by (simp add: Elect c'(1) Let_def)
  qed
next
  case (Serve k now draw)
  then show ?thesis using x vote_serve [OF inv st] by (auto split: if_splits)
next
  case (Lose k)
  then show ?thesis using x vote_lose [OF inv st] by (auto split: if_splits)
next
  case (Reply k now draw)
  then show ?thesis using x vote_reply [OF inv st, of k noop now draw c'] by (auto split: if_splits)
next
  case (Send i p)
  then show ?thesis using x vote_send [OF inv st] by (auto split: if_splits option.splits)
next
  case (Submit i now cmd)
  then show ?thesis using x vote_submit [OF inv st] by (auto split: if_splits)
next
  case (Apply i)
  then show ?thesis using x vote_apply [OF inv st] by (auto split: if_splits)
next
  case (Crash i now draw cfg)
  then show ?thesis using x vote_crash [OF inv st] by (auto split: if_splits option.splits)
qed

lemma init_node_simps:
  "i \<noteq> [] \<Longrightarrow> nstate (init_node i ps cfg) = Follower \<and> nterm (init_node i ps cfg) = 0 \<and> nlog (init_node i ps cfg) = []
   \<and> ncommit (init_node i ps cfg) = 0 \<and> napplied (init_node i ps cfg) = 0"
  by (simp add: init_node_def NewNode_def Let_def)

lemma init_node_fresh:
  assumes "initial M c" and "i \<in> M"
  shows "nstate (cnode c i) = Follower \<and> nterm (cnode c i) = 0 \<and> nlog (cnode c i) = [] \<and> ncommit (cnode c i) = 0
    \<and> napplied (cnode c i) = 0"
proof -
  have "i \<noteq> []" using assms by (auto simp: initial_def)
  moreover obtain ps cfg where "cnode c i = init_node i ps cfg" using assms unfolding initial_def by blast
  ultimately show ?thesis by (simp add: init_node_simps)
qed

lemma vote_init: "initial M c \<Longrightarrow> vote_inv M c init_hist"
  using init_node_fresh [of M c]
  by (auto simp: vote_inv_def vote_once_def vote_cur_def vote_calls_def vote_count_def vote_lead_def init_hist_def initial_def)

lemma tracked_votes: "tracked noop M c g \<Longrightarrow> vote_inv M c g"
  by (induction rule: tracked.induct) (auto intro: vote_init vote_exec tracked_static)

lemma one_leader:
  assumes "tracked noop M c g" and "i \<in> M" "j \<in> M" and "nstate (cnode c i) = Leader" "nstate (cnode c j) = Leader"
    and "nterm (cnode c i) = nterm (cnode c j)"
  shows "i = j"
proof -
  have "vote_inv M c g" by (rule tracked_votes [OF assms(1)])
  then have "vote_once g" "elected M g i (nterm (cnode c i))" "elected M g j (nterm (cnode c j))"
    using assms(2-5) by (simp_all add: vote_inv_def vote_lead_def)
  then show ?thesis using elected_unique [OF staticD(1) [OF tracked_static [OF assms(1)]]] assms(6) by metis
qed

text \<open>\<^bold>\<open>C3\<close> Election safety: in every reachable state of a cluster, whatever was delayed,
  reordered, lost or restarted, two leaders of the same term are the same node.\<close>

theorem election_safety:
  "reachable noop M c \<Longrightarrow> i \<in> M \<Longrightarrow> j \<in> M \<Longrightarrow> nstate (cnode c i) = Leader \<Longrightarrow> nstate (cnode c j) = Leader \<Longrightarrow>
   nterm (cnode c i) = nterm (cnode c j) \<Longrightarrow> i = j"
  using reachable_tracked one_leader by metis

text \<open>A run of a cluster of three, in which the first node is elected.\<close>

fun run_actions :: "'c \<Rightarrow> string set \<Rightarrow> 'c action list \<Rightarrow> 'c cluster \<Rightarrow> 'c cluster option" where
  "run_actions noop M [] c = Some c"
| "run_actions noop M (a # as) c = (case exec noop M a c of None \<Rightarrow> None | Some c' \<Rightarrow> run_actions noop M as c')"

lemma run_reachable: "reachable noop M c \<Longrightarrow> run_actions noop M as c = Some c' \<Longrightarrow> reachable noop M c'"
proof (induction "as" arbitrary: c)
  case (Cons a "as")
  then show ?case by (auto split: option.splits intro: reachable.more [OF _ step.act [of noop M a]])
qed simp

definition trio :: "string list" where
  "trio = [''a'', ''b'', ''c'']"

definition trio_start :: "nat cluster" where
  "trio_start = \<lparr>cnode = (\<lambda>i. init_node i (filter (\<lambda>j. j \<noteq> i) trio)
       \<lparr>ElectionTimeoutMin = 0, ElectionTimeoutMax = 0, HeartbeatInterval = 0, TickInterval = 0\<rparr>),
     ccalls = [], cvotes = (\<lambda>_ _. 0)\<rparr>"

lemma trio_initial: "initial (set trio) trio_start"
  unfolding initial_def
proof (intro conjI ballI)
  fix i assume "i \<in> set trio"
  show "\<exists>ps cfg. distinct ps \<and> set ps = set trio - {i} \<and> cnode trio_start i = init_node i ps cfg"
    by (intro exI [of _ "filter (\<lambda>j. j \<noteq> i) trio"] exI [of _ "\<lparr>ElectionTimeoutMin = 0, ElectionTimeoutMax = 0,
      HeartbeatInterval = 0, TickInterval = 0\<rparr>"]) (auto simp: trio_def trio_start_def)
qed (auto simp: trio_def trio_start_def)

lemma trio_elected:
  "map_option (\<lambda>c. (nstate (cnode c ''a''), nterm (cnode c ''a'')))
     (run_actions 0 (set trio) [Elect ''a'' 5 0, Serve 0 6 0, Reply 0 7 0] trio_start) = Some (Leader, 1)"
  by code_simp

theorem election_safety_witness:
  "\<exists>c. reachable (0 :: nat) (set trio) c \<and> nstate (cnode c ''a'') = Leader
     \<and> (\<forall>j\<in>set trio. nstate (cnode c j) = Leader \<longrightarrow> nterm (cnode c j) = 1 \<longrightarrow> j = ''a'')"
proof -
  obtain c where c: "run_actions 0 (set trio) [Elect ''a'' 5 0, Serve 0 6 0, Reply 0 7 0] trio_start = Some c"
    "nstate (cnode c ''a'') = Leader" "nterm (cnode c ''a'') = 1" using trio_elected by auto
  have r: "reachable 0 (set trio) c" by (rule run_reachable [OF reachable.start [OF trio_initial] c(1)])
  have a: "''a'' \<in> set trio" by (simp add: trio_def)
  have "j = ''a''" if "j \<in> set trio" "nstate (cnode c j) = Leader" "nterm (cnode c j) = 1" for j
    by (rule election_safety [OF r that(1) a that(2) c(2)]) (simp add: that(3) c(3))
  with c(2) r show ?thesis by (intro exI [of _ c] conjI ballI impI)
qed

end
