(* ===== verification/RaftLogs.thy ===== *)
theory RaftLogs
  imports RaftVotes
begin

text \<open>
  Log matching. Every log of the cluster agrees, up to each of its entries, with the log of the leader
  of that entry's term, so two logs with the same term at an index agree up to it. Shown for the
  nodes' logs, the logs votes were cast with and the entries in flight.
\<close>

section \<open>Terms in logs\<close>

lemma term_at_take [simp]: "k \<le> m \<Longrightarrow> term_at (take m l) k = term_at l k"
  by (auto simp: term_at_def)

lemma term_at_append [simp]: "k \<le> length l \<Longrightarrow> term_at (l @ m) k = term_at l k"
  by (auto simp: term_at_def nth_append)

lemma term_at_snoc [simp]: "term_at (l @ [e]) (Suc (length l)) = eterm e"
  by (simp add: term_at_def)

lemma term_at_0 [simp]: "term_at l 0 = 0"
  by (simp add: term_at_def)

lemma term_at_in: "0 < k \<Longrightarrow> k \<le> length l \<Longrightarrow> \<exists>e\<in>set l. term_at l k = eterm e"
  by (auto simp: term_at_def intro!: bexI [of _ "l ! (k - 1)"])

lemma take_term:
  assumes "take k a = take k b" and "j \<le> k"
  shows "term_at a j = term_at b j"
  using term_at_take [OF assms(2), of a] term_at_take [OF assms(2), of b] assms(1) by simp

lemma take_shorter:
  assumes "take k a = take k b" and "j \<le> k"
  shows "take j a = take j b"
  using arg_cong [OF assms(1), of "take j"] assms(2) by (simp add: min_def)

lemma take_long: "take k a = take k b \<Longrightarrow> k \<le> length b \<Longrightarrow> k \<le> length a"
  by (drule arg_cong [of _ _ length]) (simp add: min_def split: if_splits)

definition llog :: "'c hist \<Rightarrow> nat \<Rightarrow> 'c entry list" where
  "llog g t = the (gllog g t)"

definition consistent :: "'c hist \<Rightarrow> 'c entry list \<Rightarrow> bool" where
  "consistent g l \<longleftrightarrow> (\<forall>k. 0 < k \<longrightarrow> k \<le> length l \<longrightarrow>
     gllog g (term_at l k) \<noteq> None \<and> take k l = take k (llog g (term_at l k)))"

lemma consistentD:
  "consistent g l \<Longrightarrow> 0 < k \<Longrightarrow> k \<le> length l \<Longrightarrow>
   gllog g (term_at l k) \<noteq> None \<and> take k l = take k (llog g (term_at l k))"
  by (simp add: consistent_def)

lemma log_matching:
  assumes "consistent g a" "consistent g b" and "k \<le> length a" "k \<le> length b" and "term_at a k = term_at b k"
  shows "take k a = take k b"
  using consistentD [OF assms(1), of k] consistentD [OF assms(2), of k] assms(3-5) by (cases "k = 0") auto

definition gext :: "'c hist \<Rightarrow> 'c hist \<Rightarrow> bool" where
  "gext g g' \<longleftrightarrow> (\<forall>t. gllog g t \<noteq> None \<longrightarrow> gllog g' t \<noteq> None \<and> (\<exists>es. llog g' t = llog g t @ es))"

lemma gext_same: "gllog g' = gllog g \<Longrightarrow> gext g g'"
  by (simp add: gext_def llog_def)

lemma gext_take: "gext g g' \<Longrightarrow> gllog g t \<noteq> None \<Longrightarrow> k \<le> length (llog g t) \<Longrightarrow> take k (llog g' t) = take k (llog g t)"
  by (auto simp: gext_def)

lemma consistent_ext:
  assumes "consistent g l" and "gext g g'"
  shows "consistent g' l"
  unfolding consistent_def
proof (intro allI impI)
  fix k assume k: "0 < k" "k \<le> length l"
  note c = consistentD [OF assms(1) k]
  have "k \<le> length (llog g (term_at l k))" using take_long [of k "llog g (term_at l k)" l] c k(2) by simp
  then show "gllog g' (term_at l k) \<noteq> None \<and> take k l = take k (llog g' (term_at l k))"
    using c assms(2) gext_take [of g g' "term_at l k" k] by (simp add: gext_def)
qed

lemma consistent_Nil [simp]: "consistent g []"
  by (simp add: consistent_def)

lemma consistent_take:
  assumes "consistent g l"
  shows "consistent g (take n l)"
  unfolding consistent_def
proof (intro allI impI)
  fix k assume "0 < k" "k \<le> length (take n l)"
  then show "gllog g (term_at (take n l) k) \<noteq> None \<and> take k (take n l) = take k (llog g (term_at (take n l) k))"
    using consistentD [OF assms, of k] by (simp add: min_absorb1)
qed

lemma consistent_snoc:
  assumes "consistent g l" and "gllog g t = Some (l @ [e])" and "eterm e = t"
  shows "consistent g (l @ [e])"
  unfolding consistent_def
proof (intro allI impI)
  fix k assume k: "0 < k" "k \<le> length (l @ [e])"
  show "gllog g (term_at (l @ [e]) k) \<noteq> None \<and> take k (l @ [e]) = take k (llog g (term_at (l @ [e]) k))"
  proof (cases "k \<le> length l")
    case True
    then show ?thesis using consistentD [OF assms(1) k(1)] by simp
  next
    case False
    then have "k = Suc (length l)" using k by simp
    then show ?thesis using assms(2,3) by (simp add: llog_def)
  qed
qed

section \<open>The invariant\<close>

definition hist_ok :: "'c hist \<Rightarrow> bool" where
  "hist_ok g \<longleftrightarrow>
     (\<forall>t. gllog g t \<noteq> None \<longrightarrow> consistent g (llog g t) \<and> (\<forall>e\<in>set (llog g t). eterm e \<le> t))
   \<and> (\<forall>x t. consistent g (gclog g x t) \<and> (\<forall>e\<in>set (gclog g x t). eterm e < t))
   \<and> (\<forall>v t. consistent g (gvlog g v t))
   \<and> (\<forall>v t. gack g v t > 0 \<longrightarrow> gllog g t \<noteq> None \<and> gack g v t \<le> length (llog g t))"

definition lead_ok :: "'c hist \<Rightarrow> string \<Rightarrow> 'c raft_node \<Rightarrow> bool" where
  "lead_ok g i n \<longleftrightarrow> gllog g (nterm n) = Some (nlog n) \<and> gack g i (nterm n) = length (nlog n)
     \<and> (\<forall>p\<in>set (npeers n). 1 \<le> nnext n p \<and> nnext n p \<le> length (nlog n) + 1 \<and> nmatch n p \<le> gack g p (nterm n))"

definition node_ok :: "'c hist \<Rightarrow> string \<Rightarrow> 'c raft_node \<Rightarrow> bool" where
  "node_ok g i n \<longleftrightarrow> consistent g (nlog n) \<and> (\<forall>e\<in>set (nlog n). eterm e \<le> nterm n)
     \<and> (nstate n = Candidate \<longrightarrow> nlog n = gclog g i (nterm n))
     \<and> (nstate n = Leader \<longrightarrow> lead_ok g i n)
     \<and> (\<forall>t. gack g i t > 0 \<longrightarrow> t \<le> nterm n)
     \<and> take (gack g i (nterm n)) (nlog n) = take (gack g i (nterm n)) (llog g (nterm n))"

definition areq_ok :: "string set \<Rightarrow> 'c hist \<Rightarrow> string \<Rightarrow> 'c AppendEntriesReq \<Rightarrow> bool" where
  "areq_ok M g f r \<longleftrightarrow> elected M g f (aeTerm r) \<and> gllog g (aeTerm r) \<noteq> None
     \<and> aePrevIndex r + length (aeEntries r) \<le> length (llog g (aeTerm r))
     \<and> aeEntries r = take (length (aeEntries r)) (drop (aePrevIndex r) (llog g (aeTerm r)))
     \<and> aePrevTerm r = term_at (llog g (aeTerm r)) (aePrevIndex r)"

fun lcall_ok :: "string set \<Rightarrow> 'c hist \<Rightarrow> 'c call \<Rightarrow> bool" where
  "lcall_ok M g (AReq f t r) \<longleftrightarrow> areq_ok M g f r"
| "lcall_ok M g (AOrphan f t r) \<longleftrightarrow> areq_ok M g f r"
| "lcall_ok M g (AResp f t r p) \<longleftrightarrow> areq_ok M g f r
     \<and> (aerSuccess p \<longrightarrow> aePrevIndex r + length (aeEntries r) \<le> gack g t (aeTerm r))"
| "lcall_ok M g m \<longleftrightarrow> True"

definition log_inv :: "string set \<Rightarrow> 'c cluster \<Rightarrow> 'c hist \<Rightarrow> bool" where
  "log_inv M c g \<longleftrightarrow> hist_ok g \<and> (\<forall>i\<in>M. node_ok g i (cnode c i)) \<and> (\<forall>m\<in>set (ccalls c). lcall_ok M g m)"

lemma log_invD:
  assumes "log_inv M c g"
  shows "hist_ok g" "i \<in> M \<Longrightarrow> node_ok g i (cnode c i)" "m \<in> set (ccalls c) \<Longrightarrow> lcall_ok M g m"
  using assms by (auto simp: log_inv_def)

lemma hist_okD:
  assumes "hist_ok g"
  shows "gllog g t \<noteq> None \<Longrightarrow> consistent g (llog g t)" "gllog g t \<noteq> None \<Longrightarrow> e \<in> set (llog g t) \<Longrightarrow> eterm e \<le> t"
    "consistent g (gclog g x t)" "e \<in> set (gclog g x t) \<Longrightarrow> eterm e < t" "consistent g (gvlog g v t)"
    "gack g v t > 0 \<Longrightarrow> gllog g t \<noteq> None"
  using assms by (auto simp: hist_ok_def)

lemma ack_bound: "hist_ok g \<Longrightarrow> gack g v t \<le> length (llog g t)"
  by (cases "gack g v t = 0") (simp_all add: hist_ok_def)

lemma areq_ext:
  assumes "areq_ok M g f r" and e: "gext g g'" and "gvote g \<subseteq> gvote g'"
  shows "areq_ok M g' f r"
proof -
  let ?m = "aePrevIndex r + length (aeEntries r)"
  obtain es where ll: "gllog g' (aeTerm r) \<noteq> None" "llog g' (aeTerm r) = llog g (aeTerm r) @ es"
    using assms(1) e by (auto simp: areq_ok_def gext_def)
  then show ?thesis
    using assms(1) elected_mono [OF _ assms(3)] by (auto simp: areq_ok_def)
qed

lemma lcall_ext:
  assumes "lcall_ok M g m" and "gext g g'" and "gvote g \<subseteq> gvote g'" and "\<And>v t. gack g v t \<le> gack g' v t"
  shows "lcall_ok M g' m"
  using assms(1,4) areq_ext [OF _ assms(2,3)] by (cases m) (auto intro: order.trans)

lemma node_ok_ext:
  assumes ok: "node_ok g i n" and h: "hist_ok g" and e: "gext g g'"
    and c: "nstate n = Candidate \<Longrightarrow> gclog g' i (nterm n) = gclog g i (nterm n)"
    and l: "nstate n = Leader \<Longrightarrow> gllog g' (nterm n) = gllog g (nterm n)"
    and a: "gack g' i = gack g i" "\<And>v t. gack g v t \<le> gack g' v t"
  shows "node_ok g' i n"
proof -
  have "take (gack g i (nterm n)) (llog g' (nterm n)) = take (gack g i (nterm n)) (llog g (nterm n))"
    using gext_take [OF e] hist_okD(6) [OF h, of i "nterm n"] ack_bound [OF h, of i "nterm n"] by (cases "gack g i (nterm n)") auto
  moreover have "lead_ok g' i n" if "nstate n = Leader"
    using ok l [OF that] a that by (auto simp: node_ok_def lead_ok_def intro: order.trans)
  ultimately show ?thesis
    using ok c a consistent_ext [OF _ e] by (simp add: node_ok_def)
qed

text \<open>Nothing but the log matters as long as the term only grows and no leader is made.\<close>

lemma node_ok_calm:
  assumes ok: "node_ok g i n" and n: "nlog n' = nlog n" "nterm n \<le> nterm n'"
    and s: "nstate n' = Follower \<or> nstate n' = nstate n \<and> nterm n' = nterm n \<and> nnext n' = nnext n
      \<and> nmatch n' = nmatch n \<and> npeers n' = npeers n"
  shows "node_ok g i n'"
proof -
  have "nterm n' = nterm n \<or> gack g i (nterm n') = 0"
  proof (cases "gack g i (nterm n') > 0")
    case True
    then have "nterm n' \<le> nterm n" using ok by (simp add: node_ok_def)
    with n(2) show ?thesis by simp
  qed simp
  then have "take (gack g i (nterm n')) (nlog n) = take (gack g i (nterm n')) (llog g (nterm n'))"
    using ok by (auto simp: node_ok_def)
  then show ?thesis
    using ok n s unfolding node_ok_def lead_ok_def by (auto intro: order.trans)
qed

section \<open>Appending entries\<close>

lemma areq_entry:
  assumes "areq_ok M g f r" and "j < length (aeEntries r)"
  shows "eterm (aeEntries r ! j) = term_at (llog g (aeTerm r)) (aePrevIndex r + j + 1)"
proof -
  have len: "aePrevIndex r + length (aeEntries r) \<le> length (llog g (aeTerm r))" using assms(1) by (simp add: areq_ok_def)
  have "aeEntries r ! j = take (length (aeEntries r)) (drop (aePrevIndex r) (llog g (aeTerm r))) ! j"
    using assms by (simp add: areq_ok_def)
  also have "\<dots> = llog g (aeTerm r) ! (aePrevIndex r + j)" using len assms(2) by simp
  finally show ?thesis using len assms(2) by (simp add: term_at_def)
qed

lemma merge_ok:
  assumes l: "consistent g l" and h: "hist_ok g" and r: "areq_ok M g f r"
    and p: "aePrevIndex r \<le> length l" "term_at l (aePrevIndex r) = aePrevTerm r"
  defines "ll \<equiv> llog g (aeTerm r)" and "m \<equiv> aePrevIndex r + length (aeEntries r)"
  shows "fst (merge_entries l (aePrevIndex r) (aeEntries r)) = l \<and> take m l = take m ll
    \<or> fst (merge_entries l (aePrevIndex r) (aeEntries r)) = take m ll
      \<and> (\<forall>k \<le> length l. take k l = take k ll \<longrightarrow> k \<le> m)"
proof -
  let ?p = "aePrevIndex r" and ?es = "aeEntries r"
  have ll: "consistent g ll" "m \<le> length ll" "?es = take (length ?es) (drop ?p ll)" "aePrevTerm r = term_at ll ?p"
    using r hist_okD(1) [OF h] by (simp_all add: areq_ok_def ll_def m_def)
  have es: "eterm (?es ! j) = term_at ll (?p + j + 1)" if "j < length ?es" for j
    using areq_entry [OF r that] by (simp add: ll_def)
  have agree: "take (?p + k) l = take (?p + k) ll"
    if "k \<le> length ?es" "?p + k \<le> length l" "\<forall>j<k. term_at l (?p + j + 1) = eterm (?es ! j)" for k
  proof (rule log_matching [OF l ll(1) that(2)])
    show "?p + k \<le> length ll" using that(1) ll(2) by (simp add: m_def)
    show "term_at l (?p + k) = term_at ll (?p + k)"
      using that es p(2) ll(4) by (cases k) auto
  qed
  from merge_entries_cases [OF p(1), of ?es] show ?thesis
  proof
    assume "merge_entries l ?p ?es = (l, False) \<and> ?p + length ?es \<le> length l
      \<and> (\<forall>k<length ?es. term_at l (?p + k + 1) = eterm (?es ! k))"
    then show ?thesis using agree [of "length ?es"] by (simp add: m_def)
  next
    assume "\<exists>k<length ?es. merge_entries l ?p ?es = (take (?p + k) l @ drop k ?es, True)
      \<and> (\<forall>j<k. term_at l (?p + j + 1) = eterm (?es ! j)) \<and> ?p + k \<le> length l
      \<and> (?p + k < length l \<longrightarrow> term_at l (?p + k + 1) \<noteq> eterm (?es ! k))"
    then obtain k where k: "k < length ?es" "merge_entries l ?p ?es = (take (?p + k) l @ drop k ?es, True)"
      "\<forall>j<k. term_at l (?p + j + 1) = eterm (?es ! j)" "?p + k \<le> length l"
      "?p + k < length l \<longrightarrow> term_at l (?p + k + 1) \<noteq> eterm (?es ! k)" by blast
    have "drop k ?es = take (length ?es - k) (drop (?p + k) ll)"
      using ll(3) by (metis add.commute drop_drop drop_take)
    then have "take (?p + k) l @ drop k ?es = take m ll"
      using agree [of k] k by (simp add: m_def take_add [symmetric])
    moreover have "n \<le> m" if "n \<le> length l" "take n l = take n ll" for n
    proof (rule ccontr)
      assume "\<not> n \<le> m"
      then have "?p + k < n" using k(1) by (simp add: m_def)
      then have "term_at l (?p + k + 1) = term_at ll (?p + k + 1)" using take_term [OF that(2)] by simp
      then show False using k(1,5) es [of k] \<open>?p + k < n\<close> that(1) by simp
    qed
    ultimately show ?thesis using k(2) by simp
  qed
qed

text \<open>What a log has in common with the leader's, it keeps.\<close>

lemma merge_keeps:
  assumes "consistent g l" "hist_ok g" "areq_ok M g f r"
    and "aePrevIndex r \<le> length l" "term_at l (aePrevIndex r) = aePrevTerm r"
    and k: "take k l = take k (llog g (aeTerm r))" "k \<le> length l"
  shows "take k (fst (merge_entries l (aePrevIndex r) (aeEntries r))) = take k (llog g (aeTerm r))"
  using merge_ok [OF assms(1-5)] k by auto

lemma merge_new:
  assumes "consistent g l" "hist_ok g" "areq_ok M g f r"
    and "aePrevIndex r \<le> length l" "term_at l (aePrevIndex r) = aePrevTerm r"
  defines "l' \<equiv> fst (merge_entries l (aePrevIndex r) (aeEntries r))"
    and "m \<equiv> aePrevIndex r + length (aeEntries r)"
  shows "consistent g l'" "take m l' = take m (llog g (aeTerm r))" "set l' \<subseteq> set l \<union> set (llog g (aeTerm r))"
proof -
  have c: "consistent g (llog g (aeTerm r))" using assms(2,3) hist_okD(1) by (auto simp: areq_ok_def)
  from merge_ok [OF assms(1-5)] consider "l' = l" "take m l = take m (llog g (aeTerm r))" | "l' = take m (llog g (aeTerm r))"
    by (auto simp: l'_def m_def)
  then show "consistent g l'" "take m l' = take m (llog g (aeTerm r))" "set l' \<subseteq> set l \<union> set (llog g (aeTerm r))"
    using assms(1) c by (cases; auto simp: consistent_take dest: in_set_takeD)+
qed

section \<open>One node changes\<close>

lemma log_step:
  assumes inv: "log_inv M c g" and c': "cnode c' = (cnode c)(i := n)"
    and g: "gext g g'" "gvote g \<subseteq> gvote g'" "\<And>v t. gack g v t \<le> gack g' v t" and h: "hist_ok g'"
    and n: "node_ok g' i n"
    and others: "\<And>j. j \<noteq> i \<Longrightarrow> gclog g' j = gclog g j \<and> gack g' j = gack g j"
      "\<And>j. j \<in> M \<Longrightarrow> j \<noteq> i \<Longrightarrow> nstate (cnode c j) = Leader \<Longrightarrow> gllog g' (nterm (cnode c j)) = gllog g (nterm (cnode c j))"
    and calls: "\<And>m. m \<in> set (ccalls c') \<Longrightarrow> m \<in> set (ccalls c) \<or> lcall_ok M g' m"
  shows "log_inv M c' g'"
  unfolding log_inv_def
proof (intro conjI ballI)
  fix j assume j: "j \<in> M"
  show "node_ok g' j (cnode c' j)"
  proof (cases "j = i")
    case False
    then show ?thesis
      using node_ok_ext [OF log_invD(2) [OF inv j] log_invD(1) [OF inv] g(1) _ others(2) [OF j]] others(1) [of j] g(3)
      by (simp add: c')
  qed (use n in \<open>simp add: c'\<close>)
next
  fix m assume "m \<in> set (ccalls c')"
  then show "lcall_ok M g' m"
    using calls [of m] lcall_ext [OF log_invD(3) [OF inv] g] by blast
qed (rule h)

definition log_same :: "'c hist \<Rightarrow> 'c hist \<Rightarrow> bool" where
  "log_same g g' \<longleftrightarrow> gllog g' = gllog g \<and> gack g' = gack g \<and> gclog g' = gclog g"

lemma consistent_same: "log_same g g' \<Longrightarrow> consistent g' l = consistent g l"
  by (simp add: log_same_def consistent_def llog_def)

lemma node_ok_same: "log_same g g' \<Longrightarrow> node_ok g' i n = node_ok g i n"
  by (simp add: node_ok_def lead_ok_def consistent_same) (simp add: log_same_def llog_def)

lemma hist_ok_same:
  assumes "log_same g g'" and "hist_ok g" and "\<And>v t. consistent g (gvlog g' v t)"
  shows "hist_ok g'"
  using assms(2,3) unfolding hist_ok_def consistent_same [OF assms(1)] using assms(1) by (simp add: log_same_def llog_def)

lemma log_quiet:
  assumes inv: "log_inv M c g" and c': "cnode c' = (cnode c)(i := n)" and n: "i \<in> M \<Longrightarrow> node_ok g i n"
    and g: "log_same g g'" "gvote g \<subseteq> gvote g'" "\<And>v t. consistent g (gvlog g' v t)"
    and calls: "\<And>m. m \<in> set (ccalls c') \<Longrightarrow> m \<in> set (ccalls c) \<or> lcall_ok M g' m"
  shows "log_inv M c' g'"
proof -
  have e: "gext g g'" "\<And>v t. gack g v t \<le> gack g' v t" using g(1) by (auto simp: log_same_def intro: gext_same)
  show ?thesis
    unfolding log_inv_def
  proof (intro conjI ballI)
    show "hist_ok g'" by (rule hist_ok_same [OF g(1) log_invD(1) [OF inv] g(3)])
    fix j assume "j \<in> M"
    then show "node_ok g' j (cnode c' j)" using log_invD(2) [OF inv, of j] n by (auto simp: c' node_ok_same [OF g(1)])
  next
    fix m assume "m \<in> set (ccalls c')"
    then show "lcall_ok M g' m"
      using calls [of m] lcall_ext [OF log_invD(3) [OF inv] e(1) g(2) e(2)] by blast
  qed
qed

lemma log_same_refl [simp]: "log_same g g"
  by (simp add: log_same_def)

lemma log_calls:
  assumes "log_inv M c g" and "cnode c' = cnode c" and "\<And>m. m \<in> set (ccalls c') \<Longrightarrow> m \<in> set (ccalls c) \<or> lcall_ok M g m"
  shows "log_inv M c' g"
  using assms by (auto simp: log_inv_def)

lemma set_update_cases: "m \<in> set (ms[k := m']) \<Longrightarrow> m \<in> set ms \<or> m = m'"
  by (auto dest!: set_update_subset_insert [THEN subsetD])

lemma vote_node_ok:
  assumes "node_ok g t n" and "HandleRequestVote now draw r n = Some (n', p)"
  shows "node_ok g t n'"
  using HandleRequestVote_cases [OF assms(2)] by (intro node_ok_calm [OF assms(1)]) auto

lemma log_vserve:
  assumes inv: "log_inv M c g" and t: "t \<in> M" and h: "HandleRequestVote now draw r (cnode c t) = Some (n, p)"
    and c': "cnode c' = (cnode c)(t := n)" "ccalls c' = (ccalls c)[k := m]" and m: "lcall_ok M (hist_vserve t r c g) m"
  shows "log_inv M c' (hist_vserve t r c g)"
proof (rule log_quiet [OF inv c'(1) vote_node_ok [OF log_invD(2) [OF inv] h]])
  show "log_same g (hist_vserve t r c g)" "gvote g \<subseteq> gvote (hist_vserve t r c g)"
    by (auto simp: hist_vserve_alt [OF h] log_same_def)
  show "consistent g (gvlog (hist_vserve t r c g) v T)" for v T
    using hist_okD(5) [OF log_invD(1) [OF inv]] log_invD(2) [OF inv t]
    by (auto simp: hist_vserve_alt [OF h] hist_vote_def node_ok_def)
qed (use c' m in \<open>auto dest!: set_update_cases\<close>)

lemma hist_aserve_alt:
  assumes "HandleAppendEntries now draw r (cnode c t) = Some (n, p)"
  shows "hist_aserve t r c g = (if aerSuccess p
    then g\<lparr>gack := (gack g)(t := (gack g t)(aeTerm r :=
            max (gack g t (aeTerm r)) (aePrevIndex r + length (aeEntries r))))\<rparr> else g)"
proof -
  obtain n' p' where "HandleAppendEntries 0 0 r (cnode c t) = Some (n', p') \<and> aerSuccess p' = aerSuccess p"
    using assms by (auto simp: HandleAppendEntries_def Let_def termAt_def lastLogIndex_def split: if_splits prod.splits)
  then show ?thesis by (simp add: hist_aserve_def)
qed

lemma log_aserve:
  assumes inv: "log_inv M c g" and t: "t \<in> M" and h: "HandleAppendEntries now draw r (cnode c t) = Some (n, p)"
    and r: "areq_ok M g f r"
    and c': "cnode c' = (cnode c)(t := n)" "ccalls c' = (ccalls c)[k := m]"
    and m: "m = AResp f t r p \<or> m = Finished"
  shows "log_inv M c' (hist_aserve t r c g)"
proof (cases "aerSuccess p")
  case False
  have "node_ok g t n"
    using HandleAppendEntries_cases [OF h] False
    by (intro node_ok_calm [OF log_invD(2) [OF inv t]]) (auto split: if_splits)
  then show ?thesis
    using False m r c' hist_okD(5) [OF log_invD(1) [OF inv]]
    by (intro log_quiet [OF inv c'(1)]) (auto simp: hist_aserve_alt [OF h] dest!: set_update_cases)
next
  case True
  let ?n0 = "cnode c t" and ?T = "aeTerm r" and ?m = "aePrevIndex r + length (aeEntries r)"
  let ?g = "hist_aserve t r c g"
  have n: "nterm n = ?T" "nterm ?n0 \<le> ?T" "nstate n = Follower"
    "nlog n = fst (merge_entries (nlog ?n0) (aePrevIndex r) (aeEntries r))"
    and pre: "aePrevIndex r \<le> length (nlog ?n0)" "term_at (nlog ?n0) (aePrevIndex r) = aePrevTerm r"
    using HandleAppendEntries_cases [OF h] True by (auto split: if_splits)
  have hok: "hist_ok g" and nok: "node_ok g t ?n0" by (rule log_invD [OF inv] t)+
  have cons: "consistent g (nlog ?n0)" using nok by (simp add: node_ok_def)
  have g': "gack ?g = (gack g)(t := (gack g t)(?T := max (gack g t ?T) ?m))" "gllog ?g = gllog g" "gclog ?g = gclog g"
    "gvlog ?g = gvlog g" "gvote ?g = gvote g"
    using True by (simp_all add: hist_aserve_alt [OF h])
  have lg: "llog ?g = llog g" by (intro ext) (simp add: llog_def g')
  have cg: "consistent ?g = consistent g" by (intro ext) (simp add: consistent_def lg g')
  have ll: "gllog g ?T \<noteq> None" "?m \<le> length (llog g ?T)" using r by (auto simp: areq_ok_def)
  note new = merge_new [OF cons hok r pre, folded n(4)]
  have "take (gack g t ?T) (nlog n) = take (gack g t ?T) (llog g ?T)"
  proof (cases "nterm ?n0 = ?T")
    case True
    then have e: "take (gack g t ?T) (nlog ?n0) = take (gack g t ?T) (llog g ?T)" using nok by (simp add: node_ok_def)
    then have "gack g t ?T \<le> length (nlog ?n0)" using ack_bound [OF hok] take_long by metis
    then show ?thesis using merge_keeps [OF cons hok r pre e] n(4) by simp
  next
    case False
    then have "gack g t ?T = 0" using nok n(2) by (auto simp: node_ok_def)
    then show ?thesis by simp
  qed
  then have "take (max (gack g t ?T) ?m) (nlog n) = take (max (gack g t ?T) ?m) (llog g ?T)"
    using new(2) by (simp add: max_def)
  moreover have "eterm e \<le> ?T" if "e \<in> set (nlog n)" for e
    using that new(3) nok n(2) hist_okD(2) [OF hok ll(1), of e] by (fastforce simp: node_ok_def)
  moreover have "T \<le> ?T" if "gack ?g t T > 0" for T
  proof (cases "T = ?T")
    case False
    with that have "gack g t T > 0" by (simp add: g')
    with nok have "T \<le> nterm ?n0" by (simp add: node_ok_def)
    with n(2) show ?thesis by simp
  qed simp
  ultimately have "node_ok ?g t n"
    using new(1) n by (simp add: node_ok_def cg lg g')
  moreover have "hist_ok ?g"
    using hok ll by (auto simp: hist_ok_def cg lg g' max_def)
  moreover have "lcall_ok M ?g m"
    using m r True elected_mono [of M g _ _ ?g] by (auto simp: areq_ok_def g' lg)
  ultimately show ?thesis
    by (intro log_step [OF inv c'(1)]) (auto simp: g' c' intro: gext_same dest!: set_update_cases)
qed

section \<open>A leader's log grows\<close>

text \<open>
  \<open>l\<close> is the log before: a leader's own one, or the log of the candidate that just won; \<open>g\<close> is the
  history before \<open>hist_lead\<close> records the leader's log.
\<close>

definition lead_step :: "string \<Rightarrow> 'c raft_node \<Rightarrow> 'c entry list \<Rightarrow> 'c entry \<Rightarrow> 'c hist \<Rightarrow> bool" where
  "lead_step i n l e g \<longleftrightarrow> nstate n = Leader \<and> nlog n = l @ [e] \<and> eterm e = nterm n
     \<and> hist_ok g \<and> consistent g l \<and> (\<forall>e\<in>set l. eterm e \<le> nterm n)
     \<and> (gllog g (nterm n) = Some l \<or> gllog g (nterm n) = None)
     \<and> (\<forall>t. gack g i t > 0 \<longrightarrow> t \<le> nterm n)
     \<and> (\<forall>p\<in>set (npeers n). 1 \<le> nnext n p \<and> nnext n p \<le> length (nlog n) + 1 \<and> nmatch n p \<le> gack g p (nterm n))"

lemma lead_stepD:
  assumes "lead_step i n l e g"
  shows "nstate n = Leader" "nlog n = l @ [e]" "eterm e = nterm n" "hist_ok g" "consistent g l"
    "\<And>x. x \<in> set l \<Longrightarrow> eterm x \<le> nterm n" "gllog g (nterm n) = Some l \<or> gllog g (nterm n) = None"
  using assms by (auto simp: lead_step_def)

lemma lead_alt:
  assumes "lead_step i n l e g"
  shows "gllog (hist_lead i n g) = (gllog g)(nterm n \<mapsto> nlog n)"
    "gack (hist_lead i n g) = (gack g)(i := (gack g i)(nterm n := length (nlog n)))"
    "llog (hist_lead i n g) t = (if t = nterm n then nlog n else llog g t)"
  using lead_stepD(1) [OF assms] by (simp_all add: hist_lead_def llog_def)

lemma lead_ext: "lead_step i n l e g \<Longrightarrow> gext g (hist_lead i n g)"
  using lead_stepD(2,7) [of i n l e g] by (auto simp: gext_def lead_alt) (auto simp: llog_def)

lemma lead_old_ack:
  assumes "lead_step i n l e g"
  shows "gack g v (nterm n) \<le> length l"
  using ack_bound [OF lead_stepD(4) [OF assms], of v "nterm n"] hist_okD(6) [OF lead_stepD(4) [OF assms], of v "nterm n"]
    lead_stepD(7) [OF assms]
  by (cases "gack g v (nterm n) = 0") (auto simp: llog_def)

lemma lead_ack: "lead_step i n l e g \<Longrightarrow> gack g v t \<le> gack (hist_lead i n g) v t"
  using lead_old_ack [of i n l e g i] lead_stepD(2) [of i n l e g] by (auto simp: lead_alt)

lemma lead_consistent: "lead_step i n l e g \<Longrightarrow> consistent (hist_lead i n g) (nlog n)"
  using consistent_snoc [OF consistent_ext [OF lead_stepD(5) lead_ext], of i n l e g i n l e "nterm n" e]
    lead_stepD(2,3) [of i n l e g] by (simp add: lead_alt)

lemma lead_hist_ok:
  assumes s: "lead_step i n l e g"
  shows "hist_ok (hist_lead i n g)"
proof -
  let ?g = "hist_lead i n g"
  note ext = consistent_ext [OF _ lead_ext [OF s]] and hok = lead_stepD(4) [OF s]
  have "consistent ?g (llog ?g t) \<and> (\<forall>e\<in>set (llog ?g t). eterm e \<le> t)" if "gllog ?g t \<noteq> None" for t
    using that lead_consistent [OF s] lead_stepD(1-3,6) [OF s] hist_okD(1,2) [OF hok, of t] ext
    by (auto simp: lead_alt [OF s] split: if_splits)
  moreover have "gack ?g v t > 0 \<longrightarrow> gllog ?g t \<noteq> None \<and> gack ?g v t \<le> length (llog ?g t)" for v t
    using lead_old_ack [OF s, of v] lead_stepD(2) [OF s] ack_bound [OF hok, of v t] hist_okD(6) [OF hok, of v t]
    by (auto simp: lead_alt [OF s])
  ultimately show ?thesis
    using hok ext unfolding hist_ok_def by simp
qed

lemma lead_node_ok:
  assumes s: "lead_step i n l e g"
  shows "node_ok (hist_lead i n g) i n"
proof -
  have "\<forall>p\<in>set (npeers n). 1 \<le> nnext n p \<and> nnext n p \<le> length (nlog n) + 1 \<and> nmatch n p \<le> gack g p (nterm n)"
    using s unfolding lead_step_def by blast
  then have "lead_ok (hist_lead i n g) i n"
    using order.trans [OF _ lead_ack [OF s]] by (simp add: lead_ok_def lead_alt(1,2) [OF s])
  then show ?thesis
    using s lead_consistent [OF s] by (auto simp: node_ok_def lead_alt [OF s] lead_step_def)
qed

text \<open>The state with the new leader log, other nodes unchanged.\<close>

lemma log_lead:
  assumes inv: "log_inv M c g" and c': "cnode c' = (cnode c)(i := n)" and s: "lead_step i n l e g1"
    and g1: "gllog g1 = gllog g" "gack g1 = gack g" "gvote g \<subseteq> gvote g1" "\<And>j. j \<noteq> i \<Longrightarrow> gclog g1 j = gclog g j"
    and one: "\<And>j. j \<in> M \<Longrightarrow> nstate (cnode c j) = Leader \<Longrightarrow> nterm (cnode c j) = nterm n \<Longrightarrow> j = i"
    and calls: "\<And>m. m \<in> set (ccalls c') \<Longrightarrow> m \<in> set (ccalls c) \<or> lcall_ok M (hist_lead i n g1) m"
  shows "log_inv M c' (hist_lead i n g1)"
proof (rule log_step [OF inv c' _ _ _ lead_hist_ok [OF s] lead_node_ok [OF s]])
  have "llog g1 = llog g" by (intro ext) (simp add: llog_def g1)
  then show "gext g (hist_lead i n g1)" using lead_ext [OF s] by (simp add: gext_def g1)
  show "gack g v t \<le> gack (hist_lead i n g1) v t" for v t using lead_ack [OF s, of v t] by (simp add: g1)
qed (use g1 one calls in \<open>auto simp: lead_alt [OF s]\<close>)

section \<open>Every action keeps it\<close>

lemma log_lose: "log_inv M c g \<Longrightarrow> log_inv M (set_call k Finished c) g"
  by (rule log_calls) (auto dest!: set_update_cases)

lemma replicate_ok:
  assumes inv: "log_inv M c g" and v: "vote_inv M c g" and i: "i \<in> M" and p: "p \<in> set (npeers (cnode c i))"
    and r: "replicateTo (cnode c i) p = Some r"
  shows "areq_ok M g i r"
proof -
  let ?n = "cnode c i"
  have lead: "nstate ?n = Leader" using r by (auto simp: replicateTo_def split: if_splits)
  have r': "aeTerm r = nterm ?n" "aePrevIndex r = nnext ?n p - 1" "aePrevTerm r = termAt ?n (nnext ?n p - 1)"
    "aeEntries r = drop (nnext ?n p - 1) (nlog ?n)"
    using r by (auto simp: replicateTo_def Let_def split: if_splits)
  have "lead_ok g i ?n" using log_invD(2) [OF inv i] lead by (simp add: node_ok_def)
  then have l: "gllog g (nterm ?n) = Some (nlog ?n)" "1 \<le> nnext ?n p" "nnext ?n p \<le> length (nlog ?n) + 1"
    using p by (auto simp: lead_ok_def)
  have "elected M g i (nterm ?n)" using v lead i by (simp add: vote_inv_def vote_lead_def)
  then show ?thesis using l by (simp add: areq_ok_def r' termAt_def llog_def)
qed

lemma log_send:
  assumes inv: "log_inv M c g" and v: "vote_inv M c g" and i: "i \<in> M" and p: "p \<in> set (npeers (cnode c i))"
    and r: "replicateTo (cnode c i) p = Some r"
  shows "log_inv M (c\<lparr>ccalls := ccalls c @ [AReq i p r]\<rparr>) g"
  using replicate_ok [OF assms] by (intro log_calls [OF inv]) auto

lemma gvlog_ok: "log_inv M c g \<Longrightarrow> consistent g (gvlog g v t)"
  by (auto dest: log_invD intro: hist_okD)

lemma log_apply:
  assumes inv: "log_inv M c g"
  shows "log_inv M (set_node i (fst (applier (cnode c i))) c) g"
  using applier_static [of "cnode c i"]
  by (intro log_quiet [OF inv, of _ i] gvlog_ok [OF inv]) (auto intro!: node_ok_calm [OF log_invD(2) [OF inv]])

lemma lcall_orphan: "lcall_ok M g m \<Longrightarrow> lcall_ok M g (orphan i m)"
  by (cases m) auto

lemma log_crash:
  assumes inv: "log_inv M c g" and st: "static M c" and i: "i \<in> M"
    and n: "NewNode now draw i (npeers (cnode c i)) cfg (nstore (cnode c i)) = Some n"
  shows "log_inv M ((set_node i n c)\<lparr>ccalls := map (orphan i) (ccalls c)\<rparr>) g"
proof (rule log_quiet [OF inv _ _ _ _ gvlog_ok [OF inv]])
  show "node_ok g i n"
    using NewNode_simps [OF n] NewNode_synced [OF _ n] staticD(3) [OF st i]
    by (intro node_ok_calm [OF log_invD(2) [OF inv i]]) auto
  fix m assume "m \<in> set (ccalls ((set_node i n c)\<lparr>ccalls := map (orphan i) (ccalls c)\<rparr>))"
  then obtain m' where "m' \<in> set (ccalls c)" "m = orphan i m'" by auto
  then show "m \<in> set (ccalls c) \<or> lcall_ok M g m"
    using lcall_orphan [OF log_invD(3) [OF inv]] by blast
qed simp_all

lemma log_serve:
  assumes inv: "log_inv M c g" and st: "static M c" and k: "k < length (ccalls c)"
    and s: "serve k now draw (ccalls c ! k) c = Some c'"
  shows "log_inv M c' (hist_serve (ccalls c ! k) c g)"
proof -
  have ends: "call_ends M (ccalls c ! k)" by (rule static_call [OF st k])
  have ok: "lcall_ok M g (ccalls c ! k)" using log_invD(3) [OF inv] k by simp
  consider (vote) f t r where "ccalls c ! k = VReq f t r \<or> ccalls c ! k = VOrphan f t r"
    | (app) f t r where "ccalls c ! k = AReq f t r \<or> ccalls c ! k = AOrphan f t r"
    using s by (cases "ccalls c ! k") auto
  then show ?thesis
  proof cases
    case vote
    then have t: "t \<in> M" using ends by auto
    then have "HandleRequestVote now draw r (cnode c t) \<noteq> None"
      using staticD(3) [OF st t] by (auto simp: HandleRequestVote_def Let_def)
    then obtain n p where h: "HandleRequestVote now draw r (cnode c t) = Some (n, p)" by auto
    then obtain m where m: "c' = set_call k m (set_node t n c)" "lcall_ok M (hist_vserve t r c g) m"
      using s vote by auto
    have "log_inv M c' (hist_vserve t r c g)" by (rule log_vserve [OF inv t h _ _ m(2), of _ k]) (simp_all add: m(1))
    with vote show ?thesis by auto
  next
    case app
    then have t: "t \<in> M" using ends by auto
    have r: "areq_ok M g f r" using ok app by auto
    have "HandleAppendEntries now draw r (cnode c t) \<noteq> None"
      using staticD(3) [OF st t] by (auto simp: HandleAppendEntries_def Let_def split: prod.splits)
    then obtain n p where h: "HandleAppendEntries now draw r (cnode c t) = Some (n, p)" by auto
    then obtain m where m: "c' = set_call k m (set_node t n c)" "m = AResp f t r p \<or> m = Finished"
      using s app by auto
    have "log_inv M c' (hist_aserve t r c g)" by (rule log_aserve [OF inv t h r _ _ m(2), of _ k]) (simp_all add: m(1))
    with app show ?thesis by auto
  qed
qed

lemma areply_node_ok:
  assumes nok: "node_ok g f n" and h: "hist_ok g" and r: "areq_ok M g f r"
    and ack: "aerSuccess p \<Longrightarrow> aePrevIndex r + length (aeEntries r) \<le> gack g t (aeTerm r)"
    and x: "appendReply now draw t r p n = (n', b)"
  shows "node_ok g f n'"
  using appendReply_cases [OF x]
proof (elim disjE)
  assume a: "nstate n = Leader \<and> nterm n = aeTerm r \<and> nlog n' = nlog n \<and> nterm n' = nterm n \<and> nvoted n' = nvoted n
       \<and> nstate n' = nstate n \<and> nid n' = nid n \<and> npeers n' = npeers n \<and> nstopped n' = nstopped n \<and> nstore n' = nstore n
       \<and> napplied n' = napplied n
       \<and> (if aerSuccess p
          then let m = max (nmatch n t) (aePrevIndex r + length (aeEntries r)) in
            nmatch n' = (nmatch n)(t := m) \<and> nnext n' = (nnext n)(t := m + 1)
            \<and> (\<exists>n0. n' = advanceCommit n0 \<and> ncommit n0 = ncommit n \<and> nlog n0 = nlog n \<and> nterm n0 = nterm n
                 \<and> npeers n0 = npeers n \<and> nmatch n0 = (nmatch n)(t := m))
          else nmatch n' = nmatch n \<and> ncommit n' = ncommit n
            \<and> nnext n' = (nnext n)(t := if nnext n t > 1 then nnext n t - 1 else nnext n t))"
  have lead: "lead_ok g f n" using nok a by (simp add: node_ok_def)
  have bound: "gack g t (nterm n) \<le> length (nlog n)"
    using ack_bound [OF h, of t "nterm n"] lead by (simp add: lead_ok_def llog_def)
  have "1 \<le> nnext n' p' \<and> nnext n' p' \<le> length (nlog n) + 1 \<and> nmatch n' p' \<le> gack g p' (nterm n)"
    if p': "p' \<in> set (npeers n)" for p'
  proof -
    have o: "1 \<le> nnext n p'" "nnext n p' \<le> length (nlog n) + 1" "nmatch n p' \<le> gack g p' (nterm n)"
      using lead p' by (auto simp: lead_ok_def)
    show ?thesis
    proof (cases "p' = t")
      case False
      with a o show ?thesis by (auto simp: Let_def split: if_splits)
    next
      case True
      show ?thesis
      proof (cases "aerSuccess p")
        case succ: True
        then have "max (nmatch n t) (aePrevIndex r + length (aeEntries r)) \<le> gack g t (nterm n)"
          using ack o(3) True a by simp
        then show ?thesis using a succ True bound by (auto simp: Let_def)
      next
        case False
        with a o True show ?thesis by auto
      qed
    qed
  qed
  then have "lead_ok g f n'" using lead a by (simp add: lead_ok_def)
  then show ?thesis using nok a by (simp add: node_ok_def)
qed (auto intro!: node_ok_calm [OF nok])

lemma log_areply:
  assumes inv: "log_inv M c g" and k: "k < length (ccalls c)" and m: "ccalls c ! k = AResp f t r p" and f: "f \<in> M"
    and x: "appendReply now draw t r p (cnode c f) = (n, b)"
  shows "log_inv M (set_call k Finished (set_node f n c)) g"
proof (rule log_quiet [OF inv _ _ _ _ gvlog_ok [OF inv]])
  have "lcall_ok M g (AResp f t r p)" using log_invD(3) [OF inv] k m by (metis nth_mem)
  then show "node_ok g f n"
    by (intro areply_node_ok [OF log_invD(2) [OF inv f] log_invD(1) [OF inv] _ _ x, where M = M]) simp_all
qed (auto dest!: set_update_cases)

lemma fresh_term:
  assumes fin: "finite M" and v: "vote_inv M c g" and v': "vote_inv M c' g'" and sub: "gvote g \<subseteq> gvote g'"
    and i: "i \<in> M" "nstate (cnode c' i) = Leader"
    and old: "nterm (cnode c' i) > nterm (cnode c i)
      \<or> nterm (cnode c' i) = nterm (cnode c i) \<and> nstate (cnode c i) = Candidate"
  shows "gllog g (nterm (cnode c' i)) = None"
proof (rule ccontr)
  let ?T = "nterm (cnode c' i)"
  assume ll: "gllog g ?T \<noteq> None"
  then obtain x where x: "elected M g x ?T" using v by (auto simp: vote_inv_def vote_lead_def)
  have "elected M g' i ?T" "vote_once g'" using v' i by (auto simp: vote_inv_def vote_lead_def)
  then have "i = x" using elected_old [OF fin _ sub x] by blast
  with x ll v i(1) have "?T < nterm (cnode c i) \<or> ?T = nterm (cnode c i) \<and> nstate (cnode c i) \<noteq> Candidate"
    by (simp add: vote_inv_def vote_lead_def)
  with old show False by auto
qed

text \<open>No other node leads the term of a leader of the new state.\<close>

lemma only_leader:
  assumes fin: "finite M" and v: "vote_inv M c g" and v': "vote_inv M c' g'" and sub: "gvote g \<subseteq> gvote g'"
    and i: "i \<in> M" "nstate (cnode c' i) = Leader" and j: "j \<in> M" "nstate (cnode c j) = Leader" "nterm (cnode c j) = nterm (cnode c' i)"
  shows "j = i"
proof -
  have "elected M g j (nterm (cnode c' i))" using v j by (auto simp: vote_inv_def vote_lead_def)
  moreover have "elected M g' i (nterm (cnode c' i))" "vote_once g'" using v' i by (auto simp: vote_inv_def vote_lead_def)
  ultimately show ?thesis using elected_old [OF fin _ sub] by blast
qed

lemma log_submit:
  assumes inv: "log_inv M c g" and st: "static M c" and v: "vote_inv M c g" and i: "i \<in> M"
  shows "log_inv M (set_node i (fst (raft_propose now cmd (cnode c i))) c)
    (hist_lead i (fst (raft_propose now cmd (cnode c i))) g)"
proof (cases "nstate (cnode c i) = Leader")
  case False
  then have "fst (raft_propose now cmd (cnode c i)) = cnode c i" by (simp add: raft_propose_def)
  then show ?thesis using False log_calls [OF inv] by (simp add: hist_lead_def set_node_def)
next
  case True
  let ?o = "cnode c i" and ?n = "fst (raft_propose now cmd (cnode c i))"
  have n: "?n = (persist (?o\<lparr>nlog := nlog ?o @ [\<lparr>eterm = nterm ?o, ecmd = cmd\<rparr>]\<rparr>))\<lparr>nlastHb := now\<rparr>"
    using True staticD(3) [OF st i] by (simp add: raft_propose_def Let_def)
  have nok: "node_ok g i ?o" by (rule log_invD(2) [OF inv i])
  then have lead: "lead_ok g i ?o" using True by (simp add: node_ok_def)
  have s: "lead_step i ?n (nlog ?o) \<lparr>eterm = nterm ?o, ecmd = cmd\<rparr> g"
    unfolding lead_step_def n using nok lead True log_invD(1) [OF inv]
    by (auto simp: node_ok_def lead_ok_def intro: order.trans)
  have one: "j = i" if "j \<in> M" "nstate (cnode c j) = Leader" "nterm (cnode c j) = nterm ?n" for j
    by (rule only_leader [OF staticD(1) [OF st] v v _ i True that(1,2)]) (use that(3) in \<open>simp_all add: n\<close>)
  show ?thesis by (rule log_lead [OF inv _ s]) (use one in auto)
qed

lemma log_vreply:
  assumes inv: "log_inv M c g" and st: "static M c" and v: "vote_inv M c g"
    and k: "k < length (ccalls c)" and m: "ccalls c ! k = VResp f t r p"
    and x: "voteReply now draw noop r p (cnode c f, cvotes c f (rvTerm r)) = (n, w)"
    and c': "cnode c' = (cnode c)(f := n)" "ccalls c' = (ccalls c)[k := Finished]"
    and g1: "g1 = hist_reply (VResp f t r p) c g"
    and g': "g' = (if nstate (cnode c f) \<noteq> Leader then hist_lead f n g1 else g1)"
    and v': "vote_inv M c' g'"
  shows "log_inv M c' g'"
proof -
  let ?n0 = "cnode c f"
  have f: "f \<in> M" using static_call [OF st k] m by simp
  have nok: "node_ok g f ?n0" by (rule log_invD(2) [OF inv f])
  have same: "log_same g g1" "gvote g1 = gvote g" "gvlog g1 = gvlog g" by (simp_all add: g1 log_same_def)
  have sub: "gvote g \<subseteq> gvote g'" by (simp add: g' same)
  have quiet: "log_inv M c' g1" if "node_ok g f n"
    using that same gvlog_ok [OF inv] by (intro log_quiet [OF inv c'(1)]) (auto simp: c' dest!: set_update_cases)
  from voteReply_cases [OF x] consider (step) "n = persist (stepDown now draw (rvrTerm p) ?n0)" | (same) "n = ?n0"
    | (win) "counts r p ?n0" "n = becomeLeader now noop ?n0" by blast
  then show ?thesis
  proof cases
    case step
    then have "node_ok g f n" by (auto intro: node_ok_calm [OF nok])
    then show ?thesis using quiet step by (simp add: g' hist_lead_def)
  next
    case same
    then show ?thesis using quiet nok by (auto simp: g' hist_lead_def)
  next
    case win
    have cand: "nstate ?n0 = Candidate" using win(1) by (simp add: counts_def)
    have fresh: "gllog g (nterm ?n0) = None"
      using fresh_term [OF staticD(1) [OF st] v v' sub f] win(2) cand by (simp add: c')
    have nx: "\<forall>q\<in>set (npeers ?n0). nnext (becomeLeader now noop ?n0) q = length (nlog ?n0) + 2
      \<and> nmatch (becomeLeader now noop ?n0) q = 0"
      by (simp add: becomeLeader_next)
    have gl: "gllog g1 = gllog g" "gack g1 = gack g" using same(1) by (simp_all add: log_same_def)
    have s: "lead_step f n (nlog ?n0) \<lparr>eterm = nterm ?n0, ecmd = noop\<rparr> g1"
      unfolding lead_step_def consistent_same [OF same(1)]
      using nok fresh gl nx hist_ok_same [OF same(1) log_invD(1) [OF inv]] gvlog_ok [OF inv] same(3)
      by (simp add: win(2) node_ok_def)
    have one: "j = f" if "j \<in> M" "nstate (cnode c j) = Leader" "nterm (cnode c j) = nterm n" for j
      by (rule only_leader [OF staticD(1) [OF st] v v' sub f _ that(1,2)]) (use that(3) win(2) in \<open>simp_all add: c'\<close>)
    have g'': "g' = hist_lead f n g1" using cand by (simp add: g')
    show ?thesis
      unfolding g'' by (rule log_lead [OF inv c'(1) s]) (use one same in \<open>auto simp: c' log_same_def dest!: set_update_cases\<close>)
  qed
qed

lemma log_elect:
  assumes inv: "log_inv M c g" and st: "static M c" and v: "vote_inv M c g" and i: "i \<in> M"
    and e: "startElection now draw noop (cnode c i) = (n, out)" and T: "nterm n = nterm (cnode c i) + 1"
    and c': "cnode c' = (cnode c)(i := n)"
      "\<And>m. m \<in> set (ccalls c') \<Longrightarrow> m \<in> set (ccalls c) \<or> (\<exists>q r. m = VReq i q r)"
    and g1: "g1 = (hist_vote i (nterm n) i (nlog (cnode c i)) g)
      \<lparr>gcount := (gcount g)(i := (gcount g i)(nterm n := {i})),
       gclog := (gclog g)(i := (gclog g i)(nterm n := nlog (cnode c i)))\<rparr>"
    and v': "vote_inv M c' (hist_lead i n g1)"
  shows "log_inv M c' (hist_lead i n g1)"
proof -
  let ?o = "cnode c i"
  have hok: "hist_ok g" and nok: "node_ok g i ?o" by (rule log_invD [OF inv] i)+
  have gl: "gllog g1 = gllog g" "gack g1 = gack g" "gvote g \<subseteq> gvote g1"
    "gclog g1 = (gclog g)(i := (gclog g i)(nterm n := nlog ?o))" by (auto simp: g1)
  have gv: "gvlog g1 w t = gvlog g w t \<or> gvlog g1 w t = nlog ?o" for w t by (simp add: g1 hist_vote_def)
  have cons: "consistent g1 = consistent g" by (intro ext) (simp add: consistent_def llog_def gl)
  have lg: "llog g1 = llog g" by (intro ext) (simp add: llog_def gl)
  have ex: "gext g g1" by (rule gext_same [OF gl(1)])
  have bound: "consistent g (nlog ?o)" "\<And>x. x \<in> set (nlog ?o) \<Longrightarrow> eterm x \<le> nterm ?o"
    and ack: "\<And>t. gack g i t > 0 \<Longrightarrow> t \<le> nterm ?o"
    using nok by (auto simp: node_ok_def)
  have cv: "consistent g (gvlog g1 w t)" for w t using gv [of w t] bound(1) hist_okD(5) [OF hok] by auto
  have h1: "hist_ok g1"
    using hok cv bound T unfolding hist_ok_def cons lg by (auto simp: gl less_Suc_eq_le)
  have a0: "gack g i (nterm n) = 0" using ack [of "nterm n"] T by (cases "gack g i (nterm n)") auto
  have others: "\<And>m. m \<in> set (ccalls c') \<Longrightarrow> m \<in> set (ccalls c) \<or> lcall_ok M g' m" for g' using c'(2) by fastforce
  from startElection_cases [OF e] T consider
    (lead) "nstate n = Leader" "nlog n = nlog ?o @ [\<lparr>eterm = nterm ?o + 1, ecmd = noop\<rparr>]"
      "\<forall>q\<in>set (npeers n). nnext n q = length (nlog ?o) + 2 \<and> nmatch n q = 0"
    | (cand) "nstate n = Candidate" "nlog n = nlog ?o" by auto
  then show ?thesis
  proof cases
    case cand
    have "node_ok g1 i n"
      using bound ack a0 cand T by (auto simp: node_ok_def cons lg gl intro: le_SucI)
    then have "log_inv M c' g1"
      by (intro log_step [OF inv c'(1) ex gl(3) _ h1]) (use others in \<open>auto simp: gl\<close>)
    then show ?thesis using cand by (simp add: hist_lead_def)
  next
    case lead
    have fresh: "gllog g (nterm n) = None"
      using fresh_term [OF staticD(1) [OF st] v v' _ i] lead(1) T gl(3) by (simp add: c'(1))
    have "lead_step i n (nlog ?o) \<lparr>eterm = nterm ?o + 1, ecmd = noop\<rparr> g1"
      using bound ack h1 lead T fresh unfolding lead_step_def cons by (auto simp: gl intro: le_SucI)
    moreover have "j = i" if "j \<in> M" "nstate (cnode c j) = Leader" "nterm (cnode c j) = nterm n" for j
      by (rule only_leader [OF staticD(1) [OF st] v v' _ i _ that(1,2)]) (use that(3) lead gl in \<open>simp_all add: c'(1)\<close>)
    ultimately show ?thesis
      by (intro log_lead [OF inv c'(1)]) (use others in \<open>auto simp: gl\<close>)
  qed
qed

lemma log_exec:
  assumes inv: "log_inv M c g" and st: "static M c" and v: "vote_inv M c g" and x: "exec noop M a c = Some c'"
    and v': "vote_inv M c' (track a c c' g)"
  shows "log_inv M c' (track a c c' g)"
proof (cases a)
  case (Elect i now draw)
  obtain n out where e: "startElection now draw noop (cnode c i) = (n, out)" by fastforce
  have i: "i \<in> M" using x Elect by (auto split: if_splits)
  have c': "cnode c' = (cnode c)(i := n)"
    "\<And>m. m \<in> set (ccalls c') \<Longrightarrow> m \<in> set (ccalls c) \<or> (\<exists>q r. m = VReq i q r)"
    using x Elect e i by (auto split: option.splits)
  show ?thesis
  proof (cases "nterm n = nterm (cnode c i)")
    case True
    then have "n = cnode c i" "out = None" using startElection_cases [OF e] by auto
    then have "cnode c' = cnode c" "ccalls c' = ccalls c" using x Elect e i by auto
    then show ?thesis using log_calls [OF inv, of c'] by (simp add: Elect)
  next
    case False
    then have T: "nterm n = nterm (cnode c i) + 1" using startElection_cases [OF e] by auto
    show ?thesis
      using log_elect [OF inv st v i e T c' refl] v' False by (simp add: Elect c'(1) Let_def)
  qed
next
  case (Serve k now draw)
  then show ?thesis using x log_serve [OF inv st] by (auto split: if_splits)
next
  case (Lose k)
  then show ?thesis using x log_lose [OF inv] by (auto split: if_splits)
next
  case (Reply k now draw)
  then have k: "k < length (ccalls c)" and s: "reply noop k now draw (ccalls c ! k) c = Some c'"
    using x by (auto split: if_splits)
  consider (vote) f t r p where "ccalls c ! k = VResp f t r p" | (app) f t r p where "ccalls c ! k = AResp f t r p"
    using s by (cases "ccalls c ! k") auto
  then show ?thesis
  proof cases
    case app
    then have "f \<in> M" using static_call [OF st k] by simp
    moreover obtain n b where "appendReply now draw t r p (cnode c f) = (n, b)" by fastforce
    ultimately show ?thesis using log_areply [OF inv k app] s app Reply by auto
  next
    case vote
    obtain n w where y: "voteReply now draw noop r p (cnode c f, cvotes c f (rvTerm r)) = (n, w)" by fastforce
    have c': "cnode c' = (cnode c)(f := n)" "ccalls c' = (ccalls c)[k := Finished]" using s vote y by auto
    have g': "track a c c' g = (if nstate (cnode c f) \<noteq> Leader then hist_lead f n (hist_reply (VResp f t r p) c g)
        else hist_reply (VResp f t r p) c g)"
      by (simp add: Reply vote c' del: hist_reply.simps)
    show ?thesis by (rule log_vreply [OF inv st v k vote y c' refl g' v'])
  qed
next
  case (Send i p)
  then show ?thesis using x log_send [OF inv v] by (auto split: if_splits option.splits)
next
  case (Submit i now cmd)
  then show ?thesis using x log_submit [OF inv st v] by (auto split: if_splits)
next
  case (Apply i)
  then show ?thesis using x log_apply [OF inv] by (auto split: if_splits)
next
  case (Crash i now draw cfg)
  then show ?thesis using x log_crash [OF inv st] by (auto split: if_splits option.splits)
qed

lemma log_init:
  assumes "initial M c"
  shows "log_inv M c init_hist"
proof -
  have "node_ok init_hist i (cnode c i)" if "i \<in> M" for i
    using init_node_fresh [OF assms that] by (simp add: node_ok_def init_hist_def)
  with assms show ?thesis by (simp add: log_inv_def hist_ok_def initial_def) (simp add: init_hist_def)
qed

lemma tracked_logs: "tracked noop M c g \<Longrightarrow> log_inv M c g"
proof (induction rule: tracked.induct)
  case (next_act c g a c')
  then have "vote_inv M c' (track a c c' g)" by (blast intro: tracked_votes tracked.next_act)
  with next_act show ?case by (blast intro: log_exec tracked_votes tracked_static)
qed (rule log_init)

text \<open>\<^bold>\<open>C26\<close> Log matching: if the logs of two nodes hold an entry of the same term at the same index,
  they are equal up to it.\<close>

theorem raft_log_matching:
  assumes "reachable noop M c" and "i \<in> M" "j \<in> M" and "k \<le> length (nlog (cnode c i))" "k \<le> length (nlog (cnode c j))"
    and "termAt (cnode c i) k = termAt (cnode c j) k"
  shows "take k (nlog (cnode c i)) = take k (nlog (cnode c j))"
proof -
  obtain g where "tracked noop M c g" using reachable_tracked [OF assms(1)] by blast
  then have "log_inv M c g" by (rule tracked_logs)
  then have "consistent g (nlog (cnode c i))" "consistent g (nlog (cnode c j))"
    using log_invD(2) assms(2,3) by (auto simp: node_ok_def)
  then show ?thesis using log_matching assms(4-6) unfolding termAt_def by blast
qed

text \<open>The first node is elected with the second's vote and replicates its first entry to it.\<close>

definition trio_run :: "nat action list" where
  "trio_run = [Elect ''a'' 5 0, Serve 0 6 0, Reply 0 7 0, Submit ''a'' 8 42, Send ''a'' ''b'', Serve 2 9 0, Reply 2 10 0,
     Send ''a'' ''b'', Serve 3 11 0, Reply 3 12 0, Send ''a'' ''b'', Serve 4 13 0, Reply 4 14 0]"

lemma trio_logs:
  "map_option (\<lambda>c. (nlog (cnode c ''a''), nlog (cnode c ''b''), ncommit (cnode c ''a''), ncommit (cnode c ''b''),
       napplied (cnode c ''a''), napplied (cnode c ''b''), nstate (cnode c ''a''), nterm (cnode c ''a''), nterm (cnode c ''b'')))
     (run_actions 0 (set trio) trio_run trio_start)
   = Some ([\<lparr>eterm = 1, ecmd = 0\<rparr>, \<lparr>eterm = 1, ecmd = 42\<rparr>], [\<lparr>eterm = 1, ecmd = 0\<rparr>, \<lparr>eterm = 1, ecmd = 42\<rparr>], 2, 2,
       0, 0, Leader, 1, 1)"
  by code_simp

lemma trio_reached:
  obtains c where "reachable (0 :: nat) (set trio) c"
    "nlog (cnode c ''a'') = [\<lparr>eterm = 1, ecmd = 0\<rparr>, \<lparr>eterm = 1, ecmd = 42\<rparr>]"
    "nlog (cnode c ''b'') = [\<lparr>eterm = 1, ecmd = 0\<rparr>, \<lparr>eterm = 1, ecmd = 42\<rparr>]"
    "ncommit (cnode c ''a'') = 2" "ncommit (cnode c ''b'') = 2" "napplied (cnode c ''a'') = 0" "napplied (cnode c ''b'') = 0"
    "nstate (cnode c ''a'') = Leader" "nterm (cnode c ''a'') = 1" "nterm (cnode c ''b'') = 1"
  using trio_logs run_reachable [OF reachable.start [OF trio_initial], of 0 trio_run] by auto

theorem raft_log_matching_witness:
  "\<exists>c. reachable (0 :: nat) (set trio) c \<and> termAt (cnode c ''a'') 2 = 1
     \<and> take 2 (nlog (cnode c ''a'')) = take 2 (nlog (cnode c ''b''))"
proof -
  obtain c where c: "reachable (0 :: nat) (set trio) c"
    "nlog (cnode c ''a'') = [\<lparr>eterm = 1, ecmd = 0\<rparr>, \<lparr>eterm = 1, ecmd = 42\<rparr>]"
    "nlog (cnode c ''b'') = [\<lparr>eterm = 1, ecmd = 0\<rparr>, \<lparr>eterm = 1, ecmd = 42\<rparr>]" by (rule trio_reached)
  have "take 2 (nlog (cnode c ''a'')) = take 2 (nlog (cnode c ''b''))"
    by (rule raft_log_matching [OF c(1)]) (simp_all add: trio_def c termAt_def term_at_def)
  with c show ?thesis by (intro exI [of _ c]) (simp add: termAt_def term_at_def)
qed

end
