(* ===== verification/RaftCommit.thy ===== *)
theory RaftCommit
  imports RaftLogs
begin

text \<open>
  State machine safety. An index of a term's log is settled when a majority has acknowledged it in
  that term or can still do so; a later leader's log holds every settled entry, because its voters'
  logs did when they voted and it was at least as up to date as they were. Committed entries are
  settled, so no two nodes ever apply different commands at an index.
\<close>

definition settled :: "string set \<Rightarrow> 'c cluster \<Rightarrow> 'c hist \<Rightarrow> nat \<Rightarrow> nat \<Rightarrow> bool" where
  "settled M c g k t \<longleftrightarrow> 0 < k \<and> gllog g t \<noteq> None \<and> k \<le> length (llog g t) \<and> term_at (llog g t) k = t
     \<and> (\<exists>Q\<subseteq>M. card M < 2 * card Q \<and> (\<forall>v\<in>Q. k \<le> gack g v t \<or> nterm (cnode c v) \<le> t))"

definition committed :: "string set \<Rightarrow> 'c hist \<Rightarrow> nat \<Rightarrow> nat \<Rightarrow> bool" where
  "committed M g k t \<longleftrightarrow> 0 < k \<and> gllog g t \<noteq> None \<and> k \<le> length (llog g t) \<and> term_at (llog g t) k = t
     \<and> (\<exists>Q\<subseteq>M. card M < 2 * card Q \<and> (\<forall>v\<in>Q. k \<le> gack g v t))"

text \<open>The first \<open>k\<close> entries of \<open>l\<close> are committed ones, by term \<open>T\<close> at the latest.\<close>

definition evidence :: "string set \<Rightarrow> 'c hist \<Rightarrow> nat \<Rightarrow> nat \<Rightarrow> 'c entry list \<Rightarrow> bool" where
  "evidence M g T k l \<longleftrightarrow> k = 0 \<or> (\<exists>k' t. k \<le> k' \<and> t \<le> T \<and> committed M g k' t \<and> take k l = take k (llog g t))"

definition complete_leaders :: "string set \<Rightarrow> 'c cluster \<Rightarrow> 'c hist \<Rightarrow> bool" where
  "complete_leaders M c g \<longleftrightarrow> (\<forall>k t t'. settled M c g k t \<longrightarrow> t < t' \<longrightarrow> gllog g t' \<noteq> None \<longrightarrow>
     take k (llog g t') = take k (llog g t))"

definition kept :: "string set \<Rightarrow> 'c cluster \<Rightarrow> 'c hist \<Rightarrow> string \<Rightarrow> 'c entry list \<Rightarrow> bool" where
  "kept M c g x l \<longleftrightarrow> (\<forall>k t. settled M c g k t \<longrightarrow> k \<le> gack g x t \<longrightarrow> take k l = take k (llog g t))"

definition vote_kept :: "string set \<Rightarrow> 'c cluster \<Rightarrow> 'c hist \<Rightarrow> string \<times> nat \<times> string \<Rightarrow> bool" where
  "vote_kept M c g z \<longleftrightarrow> (case z of (v, T, x) \<Rightarrow> uptodate (gclog g x T) (gvlog g v T)
     \<and> (\<forall>k t. settled M c g k t \<longrightarrow> t < T \<longrightarrow> k \<le> gack g v t \<longrightarrow> take k (gvlog g v T) = take k (llog g t)))"

fun scall_ok :: "string set \<Rightarrow> 'c hist \<Rightarrow> 'c call \<Rightarrow> bool" where
  "scall_ok M g (AReq f t r) \<longleftrightarrow> evidence M g (aeTerm r) (aeCommit r) (llog g (aeTerm r))
     \<and> aeCommit r \<le> aePrevIndex r + length (aeEntries r)"
| "scall_ok M g (AOrphan f t r) \<longleftrightarrow> evidence M g (aeTerm r) (aeCommit r) (llog g (aeTerm r))
     \<and> aeCommit r \<le> aePrevIndex r + length (aeEntries r)"
| "scall_ok M g m \<longleftrightarrow> True"

definition safe_inv :: "string set \<Rightarrow> 'c cluster \<Rightarrow> 'c hist \<Rightarrow> bool" where
  "safe_inv M c g \<longleftrightarrow> complete_leaders M c g
     \<and> (\<forall>x\<in>M. kept M c g x (nlog (cnode c x)) \<and> evidence M g (nterm (cnode c x)) (ncommit (cnode c x)) (nlog (cnode c x)))
     \<and> (\<forall>z\<in>gvote g. vote_kept M c g z) \<and> (\<forall>m\<in>set (ccalls c). scall_ok M g m)"

lemma safe_invD:
  assumes "safe_inv M c g"
  shows "complete_leaders M c g" "x \<in> M \<Longrightarrow> kept M c g x (nlog (cnode c x))"
    "x \<in> M \<Longrightarrow> evidence M g (nterm (cnode c x)) (ncommit (cnode c x)) (nlog (cnode c x))"
    "z \<in> gvote g \<Longrightarrow> vote_kept M c g z" "m \<in> set (ccalls c) \<Longrightarrow> scall_ok M g m"
  using assms by (auto simp: safe_inv_def)

lemma committed_settled: "committed M g k t \<Longrightarrow> settled M c g k t"
  by (auto simp: committed_def settled_def)

lemma complete_leadersD:
  "complete_leaders M c g \<Longrightarrow> settled M c g k t \<Longrightarrow> t < t' \<Longrightarrow> gllog g t' \<noteq> None \<Longrightarrow>
   take k (llog g t') = take k (llog g t)"
  by (simp add: complete_leaders_def)

section \<open>Two committed prefixes agree\<close>

lemma evidence_length: "evidence M g T k l \<Longrightarrow> k \<le> length l"
  by (auto simp: evidence_def committed_def intro: take_long [of _ l])

lemma evidence_agree:
  assumes c: "complete_leaders M c g" and a: "evidence M g T k a" and b: "evidence M g T' k' b" and "j \<le> k" "j \<le> k'"
  shows "take j a = take j b"
proof (cases "j = 0")
  case False
  have half: "take j (llog g t) = take j (llog g u)"
    if t: "committed M g n t" "j \<le> n" and u: "gllog g u \<noteq> None" "t \<le> u" for t u n
  proof (cases "t = u")
    case False
    then show ?thesis
      using complete_leadersD [OF c committed_settled [OF t(1)] _ u(1)] u(2) take_shorter [OF _ t(2)] by fastforce
  qed simp
  obtain n t where t: "k \<le> n" "committed M g n t" "take k a = take k (llog g t)"
    using a False assms(4) by (auto simp: evidence_def)
  obtain m u where u: "k' \<le> m" "committed M g m u" "take k' b = take k' (llog g u)"
    using b False assms(5) by (auto simp: evidence_def)
  have "take j (llog g t) = take j (llog g u)"
  proof (cases "t \<le> u")
    case True
    then show ?thesis using half [OF t(2), of u] u(2) t(1) assms(4) by (simp add: committed_def)
  next
    case False
    then show ?thesis using half [OF u(2), of t] t(2) u(1) assms(5) by (simp add: committed_def)
  qed
  moreover have "take j a = take j (llog g t)" "take j b = take j (llog g u)"
    using take_shorter [OF t(3) assms(4)] take_shorter [OF u(3) assms(5)] .
  ultimately show ?thesis by simp
qed simp

section \<open>The history grows\<close>

definition grows :: "string set \<Rightarrow> 'c cluster \<Rightarrow> 'c hist \<Rightarrow> 'c cluster \<Rightarrow> 'c hist \<Rightarrow> bool" where
  "grows M c g c' g' \<longleftrightarrow> gext g g'
     \<and> (\<forall>v. nterm (cnode c v) \<le> nterm (cnode c' v))
     \<and> (\<forall>v t. gack g v t \<le> gack g' v t \<and> (gack g' v t = gack g v t \<or> nterm (cnode c v) \<le> t))"

lemma settled_old:
  assumes gr: "grows M c g c' g'" and s: "settled M c' g' k t" and old: "gllog g t \<noteq> None" "k \<le> length (llog g t)"
  shows "settled M c g k t" "take k (llog g' t) = take k (llog g t)"
proof -
  show e: "take k (llog g' t) = take k (llog g t)" using gr old by (intro gext_take) (simp_all add: grows_def)
  have "k \<le> gack g v t \<or> nterm (cnode c v) \<le> t" if "k \<le> gack g' v t \<or> nterm (cnode c' v) \<le> t" for v
  proof -
    have "gack g' v t = gack g v t \<or> nterm (cnode c v) \<le> t" "nterm (cnode c v) \<le> nterm (cnode c' v)"
      using gr by (simp_all add: grows_def)
    then show ?thesis using that by auto
  qed
  then show "settled M c g k t"
    using s old take_term [OF e order.refl] unfolding settled_def by metis
qed

lemma committed_ext:
  assumes g: "gext g g'" "\<And>v t. gack g v t \<le> gack g' v t" and "committed M g k t"
  shows "committed M g' k t" "take k (llog g' t) = take k (llog g t)"
proof -
  have old: "gllog g t \<noteq> None" "k \<le> length (llog g t)" using assms(3) by (simp_all add: committed_def)
  show e: "take k (llog g' t) = take k (llog g t)" by (rule gext_take [OF g(1) old])
  obtain Q where Q: "Q \<subseteq> M" "card M < 2 * card Q" "\<forall>v\<in>Q. k \<le> gack g v t" using assms(3) by (auto simp: committed_def)
  have "\<forall>v\<in>Q. k \<le> gack g' v t" using Q(3) g(2) order.trans by blast
  moreover have "gllog g' t \<noteq> None" using g(1) old(1) by (simp add: gext_def)
  moreover have "k \<le> length (llog g' t)" using take_long [OF e old(2)] .
  ultimately show "committed M g' k t"
    using assms(3) Q take_term [OF e order.refl] unfolding committed_def by metis
qed

lemma evidence_ext:
  assumes g: "gext g g'" "\<And>v t. gack g v t \<le> gack g' v t" and "evidence M g T k l" and "T \<le> T'"
  shows "evidence M g' T' k l"
  unfolding evidence_def
proof (cases "k = 0")
  case False
  then obtain k' t where e: "k \<le> k'" "t \<le> T" "committed M g k' t" "take k l = take k (llog g t)"
    using assms(3) by (auto simp: evidence_def)
  have "take k (llog g' t) = take k (llog g t)"
    by (rule take_shorter [OF committed_ext(2) [OF g e(3)] e(1)])
  then show "k = 0 \<or> (\<exists>k' t. k \<le> k' \<and> t \<le> T' \<and> committed M g' k' t \<and> take k l = take k (llog g' t))"
    using e committed_ext(1) [OF g e(3)] assms(4) by (metis order.trans)
qed simp

lemma evidence_grows: "grows M c g c' g' \<Longrightarrow> evidence M g T k l \<Longrightarrow> T \<le> T' \<Longrightarrow> evidence M g' T' k l"
  by (rule evidence_ext) (simp_all add: grows_def)

section \<open>Steps that make no leader log\<close>

lemma vote_ack_frozen:
  assumes "grows M c g c' g'" and "vote_cur M c g" and "(v, T, x) \<in> gvote g" and "t < T"
  shows "gack g' v t = gack g v t"
proof -
  have "T \<le> nterm (cnode c v)" using assms(2,3) by (simp add: vote_cur_def)
  moreover have "gack g' v t = gack g v t \<or> nterm (cnode c v) \<le> t" using assms(1) by (simp add: grows_def)
  ultimately show ?thesis using assms(4) by auto
qed

lemma safe_frame:
  assumes inv: "safe_inv M c g" and h: "hist_ok g" and cur: "vote_cur M c g" and gr: "grows M c g c' g'"
    and ll: "gllog g' = gllog g" and c': "cnode c' = (cnode c)(i := n)"
    and others: "\<And>j. j \<noteq> i \<Longrightarrow> gack g' j = gack g j"
    and votes: "\<And>z. z \<in> gvote g' \<Longrightarrow> z \<in> gvote g \<and> (case z of (v, T, x) \<Rightarrow> gvlog g' v T = gvlog g v T \<and> gclog g' x T = gclog g x T)
      \<or> vote_kept M c' g' z"
    and kept: "i \<in> M \<Longrightarrow> kept M c' g' i (nlog n)"
    and ev: "i \<in> M \<Longrightarrow> evidence M g' (nterm n) (ncommit n) (nlog n)"
    and calls: "\<And>m. m \<in> set (ccalls c') \<Longrightarrow> m \<in> set (ccalls c) \<or> scall_ok M g' m"
  shows "safe_inv M c' g'"
proof -
  have lg: "llog g' = llog g" by (intro ext) (simp add: llog_def ll)
  have old: "settled M c g k t" if "settled M c' g' k t" for k t
    using settled_old(1) [OF gr that] that by (simp add: settled_def ll lg)
  show ?thesis
    unfolding safe_inv_def
  proof (intro conjI ballI)
    show "complete_leaders M c' g'"
      using safe_invD(1) [OF inv] old unfolding complete_leaders_def ll lg by blast
  next
    fix x assume x: "x \<in> M"
    show "kept M c' g' x (nlog (cnode c' x))"
    proof (cases "x = i")
      case False
      then show ?thesis
        using safe_invD(2) [OF inv x] others [OF False] old unfolding kept_def lg by (simp add: c')
    qed (use kept x in \<open>simp add: c'\<close>)
    show "evidence M g' (nterm (cnode c' x)) (ncommit (cnode c' x)) (nlog (cnode c' x))"
      using ev x evidence_grows [OF gr safe_invD(3) [OF inv x]] by (auto simp: c')
  next
    fix z assume z: "z \<in> gvote g'"
    obtain v T x where zz: "z = (v, T, x)" by (cases z)
    show "vote_kept M c' g' z"
      using votes [OF z]
    proof
      assume a: "z \<in> gvote g \<and> (case z of (v, T, x) \<Rightarrow> gvlog g' v T = gvlog g v T \<and> gclog g' x T = gclog g x T)"
      then have e: "gvlog g' v T = gvlog g v T" "gclog g' x T = gclog g x T" by (simp_all add: zz)
      have "vote_kept M c g z" using a safe_invD(4) [OF inv] by blast
      moreover have "gack g' v t = gack g v t" if "t < T" for t
        using a that by (intro vote_ack_frozen [OF gr cur, where x = x]) (simp_all add: zz)
      ultimately show ?thesis using old unfolding vote_kept_def zz by (simp add: e lg)
    qed
  next
    fix m assume "m \<in> set (ccalls c')"
    then consider "m \<in> set (ccalls c)" | "scall_ok M g' m" using calls by blast
    then show "scall_ok M g' m"
    proof cases
      case 1
      have e: "evidence M g' T k l" if "evidence M g T k l" for T k l by (rule evidence_grows [OF gr that order.refl])
      from safe_invD(5) [OF inv 1] show ?thesis by (cases m) (simp_all add: lg e)
    qed
  qed
qed

lemma kept_old:
  assumes gr: "grows M c g c' g'" and ll: "gllog g' = gllog g" and k: "kept M c g i l" and a: "gack g' i = gack g i"
  shows "kept M c' g' i l"
proof -
  have lg: "llog g' = llog g" by (intro ext) (simp add: llog_def ll)
  have "settled M c g k t" if "settled M c' g' k t" for k t
    using settled_old(1) [OF gr that] that by (simp add: settled_def ll lg)
  then show ?thesis using k unfolding kept_def lg a by blast
qed

text \<open>Appending entries of its own keeps what a log has.\<close>

lemma kept_append:
  assumes h: "hist_ok g" and k: "kept M c g i l"
  shows "kept M c g i (l @ es)"
  unfolding kept_def
proof (intro allI impI)
  fix k t assume a: "settled M c g k t" "k \<le> gack g i t"
  then have e: "take k l = take k (llog g t)" using k by (simp add: kept_def)
  then have "k \<le> length l" using take_long [OF e] a(1) by (simp add: settled_def)
  then show "take k (l @ es) = take k (llog g t)" using e by simp
qed

lemma evidence_append: "evidence M g T k l \<Longrightarrow> evidence M g T k (l @ es)"
  using evidence_length [of M g T k l] by (auto simp: evidence_def)

section \<open>A new leader log\<close>

lemma consistent_mono:
  assumes "consistent g l" and h: "hist_ok g" and "j \<le> k" "k \<le> length l"
  shows "term_at l j \<le> term_at l k"
proof (cases "j = 0")
  case False
  then have k: "0 < k" using assms(3) by simp
  note e = consistentD [OF assms(1) k assms(4)]
  have "term_at l j = term_at (llog g (term_at l k)) j" using take_term [OF _ assms(3)] e by blast
  moreover have "j \<le> length (llog g (term_at l k))"
    using take_long [of k "llog g (term_at l k)" l] e assms(3,4) by simp
  ultimately show ?thesis
    using term_at_in [of j "llog g (term_at l k)"] hist_okD(2) [OF h, of "term_at l k"] e False by fastforce
qed simp

text \<open>Leader completeness: the log of an elected candidate holds what was settled before.\<close>

lemma leader_complete:
  assumes fin: "finite M" and h: "hist_ok g" and cur: "vote_cur M c g" and el: "elected M g i T"
    and cl: "complete_leaders M c g" and vk: "\<And>z. z \<in> gvote g \<Longrightarrow> vote_kept M c g z"
    and s: "settled M c g k t" and t: "t < T"
  shows "take k (gclog g i T) = take k (llog g t)"
proof -
  let ?a = "gclog g i T"
  obtain Q where Q: "Q \<subseteq> M" "card M < 2 * card Q" "\<forall>v\<in>Q. k \<le> gack g v t \<or> nterm (cnode c v) \<le> t"
    and k: "0 < k" "gllog g t \<noteq> None" "k \<le> length (llog g t)" "term_at (llog g t) k = t"
    using s by (auto simp: settled_def)
  obtain Q' where Q': "Q' \<subseteq> M" "card M < 2 * card Q'" "\<forall>v\<in>Q'. (v, T, i) \<in> gvote g"
    using el by (auto simp: elected_def)
  obtain v where v: "v \<in> Q" "v \<in> Q'" using majorities_meet [OF fin Q(1) Q'(1) Q(2) Q'(2)] by blast
  have vote: "(v, T, i) \<in> gvote g" using v Q'(3) by blast
  then have "T \<le> nterm (cnode c v)" using cur by (simp add: vote_cur_def)
  then have ack: "k \<le> gack g v t" using Q(3) v t by force
  let ?b = "gvlog g v T"
  have up: "uptodate ?a ?b" and b: "take k ?b = take k (llog g t)"
    using vk [OF vote] s t ack by (simp_all add: vote_kept_def)
  have kb: "k \<le> length ?b" by (rule take_long [OF b k(3)])
  have ca: "consistent g ?a" and cb: "consistent g ?b" by (rule hist_okD [OF h])+
  have tb: "t \<le> term_at ?b (length ?b)"
    using consistent_mono [OF cb h kb order.refl] take_term [OF b order.refl] k(4) by simp
  have na: "0 < length ?a"
  proof (rule ccontr)
    assume "\<not> 0 < length ?a"
    then show False using up kb k(1) unfolding uptodate_def by auto
  qed
  let ?w = "term_at ?a (length ?a)"
  have w: "gllog g ?w \<noteq> None" "take (length ?a) ?a = take (length ?a) (llog g ?w)"
    using consistentD [OF ca na order.refl] by blast+
  have tw: "t \<le> ?w" using up tb unfolding uptodate_def by auto
  show ?thesis
  proof (cases "?w = t")
    case True
    then have "k \<le> length ?a" using up tb kb unfolding uptodate_def by auto
    then show ?thesis using take_shorter [OF w(2)] True by simp
  next
    case False
    then have e: "take k (llog g ?w) = take k (llog g t)" using complete_leadersD [OF cl s _ w(1)] tw by simp
    have "k \<le> length ?a"
    proof (rule ccontr)
      assume len: "\<not> k \<le> length ?a"
      then have "?w = term_at (llog g t) (length ?a)"
        using take_term [OF w(2) order.refl] take_term [OF e, of "length ?a"] by simp
      also have "\<dots> \<le> t"
        using consistent_mono [OF hist_okD(1) [OF h k(2)] h, of "length ?a" k] len k by simp
      finally show False using tw False by simp
    qed
    then show ?thesis using take_shorter [OF w(2)] e by simp
  qed
qed

lemma lead_grows:
  assumes s: "lead_step i (cnode c i) l e g"
  shows "grows M c g c (hist_lead i (cnode c i) g)"
  using lead_ext [OF s] lead_ack [OF s] by (auto simp: grows_def lead_alt [OF s])

lemma lead_settled:
  assumes s: "lead_step i (cnode c i) l e g"
    and own: "gllog g (nterm (cnode c i)) = Some l \<or> l = gclog g i (nterm (cnode c i))"
    and st: "settled M c (hist_lead i (cnode c i) g) k t"
  shows "settled M c g k t \<and> take k (llog (hist_lead i (cnode c i) g) t) = take k (llog g t)
    \<or> t = nterm (cnode c i) \<and> k = Suc (length l)"
proof (cases "t = nterm (cnode c i)")
  case False
  then have "llog (hist_lead i (cnode c i) g) t = llog g t" "gllog g t \<noteq> None" "k \<le> length (llog g t)"
    using st by (auto simp: settled_def lead_alt [OF s])
  then show ?thesis using settled_old [OF lead_grows [OF s] st] by blast
next
  case True
  have len: "k \<le> Suc (length l)" and T: "term_at (l @ [e]) k = t" and k: "0 < k"
    using st True lead_stepD(2) [OF s] by (auto simp: settled_def lead_alt [OF s])
  show ?thesis
  proof (cases "k = Suc (length l)")
    case False
    then have kl: "k \<le> length l" using len by simp
    have "gllog g (nterm (cnode c i)) = Some l"
    proof (rule ccontr)
      assume "gllog g (nterm (cnode c i)) \<noteq> Some l"
      then have l: "l = gclog g i t" using own True by simp
      obtain x where "x \<in> set l" "term_at l k = eterm x" using term_at_in [OF k kl] by blast
      then show False using hist_okD(4) [OF lead_stepD(4) [OF s], of x i t] l T kl by simp
    qed
    then show ?thesis using settled_old [OF lead_grows [OF s] st] True kl by (simp add: llog_def)
  qed (use True in simp)
qed

text \<open>Nobody leads a later term while an entry the leader has just appended could still be settled.\<close>

lemma lead_last:
  assumes fin: "finite M" and s: "lead_step i (cnode c i) l e g" and cur: "vote_cur M c g"
    and led: "\<And>t. gllog g t \<noteq> None \<Longrightarrow> \<exists>x. elected M g x t"
    and st: "settled M c (hist_lead i (cnode c i) g) (Suc (length l)) (nterm (cnode c i))"
    and t: "nterm (cnode c i) < t"
  shows "gllog g t = None"
proof (rule ccontr)
  let ?T = "nterm (cnode c i)"
  assume "gllog g t \<noteq> None"
  then obtain x Q' where Q': "Q' \<subseteq> M" "card M < 2 * card Q'" "\<forall>v\<in>Q'. (v, t, x) \<in> gvote g"
    using led unfolding elected_def by blast
  obtain Q where Q: "Q \<subseteq> M" "card M < 2 * card Q"
    "\<forall>v\<in>Q. Suc (length l) \<le> gack (hist_lead i (cnode c i) g) v ?T \<or> nterm (cnode c v) \<le> ?T"
    using st unfolding settled_def by blast
  obtain v where v: "v \<in> Q" "v \<in> Q'" using majorities_meet [OF fin Q(1) Q'(1) Q(2) Q'(2)] by blast
  then have "(v, t, x) \<in> gvote g" using Q'(3) by blast
  then have "t \<le> nterm (cnode c v)" using cur by (simp add: vote_cur_def)
  then have n: "\<not> nterm (cnode c v) \<le> ?T" using t by simp
  then have "Suc (length l) \<le> gack (hist_lead i (cnode c i) g) v ?T" using Q(3) v(1) by blast
  moreover have "v \<noteq> i" using n by auto
  ultimately show False using lead_old_ack [OF s, of v] by (simp add: lead_alt [OF s])
qed

lemma safe_lead:
  assumes inv: "safe_inv M c g" and fin: "finite M" and i: "i \<in> M" and cur: "vote_cur M c g"
    and led: "\<And>t. gllog g t \<noteq> None \<Longrightarrow> \<exists>x. elected M g x t"
    and s: "lead_step i (cnode c i) l e g"
    and own: "gllog g (nterm (cnode c i)) = Some l
      \<or> elected M g i (nterm (cnode c i)) \<and> l = gclog g i (nterm (cnode c i))"
    and calls: "\<And>f t r. AReq f t r \<in> set (ccalls c) \<or> AOrphan f t r \<in> set (ccalls c) \<Longrightarrow> gllog g (aeTerm r) \<noteq> None"
  shows "safe_inv M c (hist_lead i (cnode c i) g)"
proof -
  let ?n = "cnode c i" and ?g = "hist_lead i (cnode c i) g"
  let ?T = "nterm ?n"
  note alt = lead_alt [OF s] and gr = lead_grows [OF s, of M] and cl = safe_invD(1) [OF inv]
  have l: "nlog ?n = l @ [e]" by (rule lead_stepD(2) [OF s])
  have split: "settled M c g k t \<and> take k (llog ?g t) = take k (llog g t) \<or> t = ?T \<and> k = Suc (length l)"
    if "settled M c ?g k t" for k t
    using lead_settled [OF s _ that] own by blast
  have ack: "gack ?g v t = gack g v t" if "\<not> (v = i \<and> t = ?T)" for v t using that by (auto simp: alt)
  have bound: "gack g v ?T \<le> length l" for v by (rule lead_old_ack [OF s])
  have ext: "gext g ?g" by (rule lead_ext [OF s])
  show ?thesis
    unfolding safe_inv_def
  proof (intro conjI ballI)
    show "complete_leaders M c ?g"
      unfolding complete_leaders_def
    proof (intro allI impI)
      fix k t t' assume st: "settled M c ?g k t" and tt: "t < t'" and ll: "gllog ?g t' \<noteq> None"
      from split [OF st] show "take k (llog ?g t') = take k (llog ?g t)"
      proof
        assume "t = ?T \<and> k = Suc (length l)"
        then have "gllog g t' = None" using lead_last [OF fin s cur led] st tt by blast
        then show ?thesis using ll tt \<open>t = ?T \<and> k = Suc (length l)\<close> by (simp add: alt)
      next
        assume a: "settled M c g k t \<and> take k (llog ?g t) = take k (llog g t)"
        show ?thesis
        proof (cases "t' = ?T")
          case False
          then show ?thesis using complete_leadersD [OF cl _ tt, of k] a ll by (simp add: alt)
        next
          case True
          have "take k l = take k (llog g t)"
            using own
          proof
            assume "gllog g ?T = Some l"
            then show ?thesis using complete_leadersD [OF cl _ tt, of k] a True by (simp add: llog_def)
          next
            assume o: "elected M g i ?T \<and> l = gclog g i ?T"
            show ?thesis
              using leader_complete [OF fin lead_stepD(4) [OF s] cur _ cl safe_invD(4) [OF inv], of i ?T k t] o a tt True by simp
          qed
          moreover from this have "k \<le> length l" using take_long [of k l "llog g t"] a by (simp add: settled_def)
          ultimately show ?thesis using True a l by (simp add: alt)
        qed
      qed
    qed
  next
    fix x assume x: "x \<in> M"
    show "kept M c ?g x (nlog (cnode c x))"
      unfolding kept_def
    proof (intro allI impI)
      fix k t assume st: "settled M c ?g k t" and k: "k \<le> gack ?g x t"
      show "take k (nlog (cnode c x)) = take k (llog ?g t)"
      proof (cases "x = i \<and> t = ?T")
        case False
        then show ?thesis
          using split [OF st] safe_invD(2) [OF inv x] k ack [OF False] bound [of x] by (auto simp: kept_def)
      qed (simp add: alt)
    qed
    show "evidence M ?g (nterm (cnode c x)) (ncommit (cnode c x)) (nlog (cnode c x))"
      by (rule evidence_grows [OF gr safe_invD(3) [OF inv x] order.refl])
  next
    fix z assume z: "z \<in> gvote ?g"
    obtain v T' x where zz: "z = (v, T', x)" by (cases z)
    have old: "vote_kept M c g z" "T' \<le> nterm (cnode c v)"
      using z safe_invD(4) [OF inv] cur by (auto simp: zz vote_cur_def)
    have "take k (gvlog g v T') = take k (llog ?g t)" if st: "settled M c ?g k t" "t < T'" "k \<le> gack ?g v t" for k t
    proof -
      have n: "\<not> (v = i \<and> t = ?T)" using old(2) st(2) by auto
      show ?thesis using split [OF st(1)] old(1) st(2,3) ack [OF n] bound [of v] unfolding vote_kept_def zz by auto
    qed
    then show "vote_kept M c ?g z" using old(1) by (simp add: vote_kept_def zz)
  next
    fix m assume m: "m \<in> set (ccalls c)"
    have e: "evidence M ?g T k (llog ?g t)" if "gllog g t \<noteq> None" "evidence M g T k (llog g t)" for T k t
    proof -
      obtain es where "llog ?g t = llog g t @ es" using ext \<open>gllog g t \<noteq> None\<close> by (auto simp: gext_def)
      then show ?thesis using evidence_grows [OF gr evidence_append [OF that(2)] order.refl] by simp
    qed
    show "scall_ok M ?g m"
    proof (cases m)
      case (AReq f t r)
      then show ?thesis using safe_invD(5) [OF inv m] e [OF calls [of f t r]] m by simp
    next
      case (AOrphan f t r)
      then show ?thesis using safe_invD(5) [OF inv m] e [OF calls [of f t r]] m by simp
    qed simp_all
  qed
qed

section \<open>Every action keeps it\<close>

lemma grows_same:
  assumes "cnode c' = (cnode c)(i := n)" and "nterm (cnode c i) \<le> nterm n" and "gllog g' = gllog g" "gack g' = gack g"
  shows "grows M c g c' g'"
  using assms gext_same by (auto simp: grows_def)

text \<open>Nothing happens but to one node, which may append entries and forget its commit index.\<close>

lemma safe_node:
  assumes inv: "safe_inv M c g" and h: "hist_ok g" and cur: "vote_cur M c g"
    and c': "cnode c' = (cnode c)(i := n)" and n: "nterm (cnode c i) \<le> nterm n" "nlog n = nlog (cnode c i) @ es"
      "ncommit n = ncommit (cnode c i) \<or> ncommit n = 0"
    and g: "gllog g' = gllog g" "gack g' = gack g"
    and votes: "\<And>z. z \<in> gvote g' \<Longrightarrow> z \<in> gvote g \<and> (case z of (v, T, x) \<Rightarrow> gvlog g' v T = gvlog g v T \<and> gclog g' x T = gclog g x T)
      \<or> vote_kept M c' g' z"
    and calls: "\<And>m. m \<in> set (ccalls c') \<Longrightarrow> m \<in> set (ccalls c) \<or> scall_ok M g' m"
  shows "safe_inv M c' g'"
proof -
  note gr = grows_same [OF c' n(1) g, of M]
  show ?thesis
  proof (rule safe_frame [OF inv h cur gr g(1) c' _ votes _ _ calls])
    assume i: "i \<in> M"
    show "kept M c' g' i (nlog n)"
      unfolding n(2) by (rule kept_old [OF gr g(1) kept_append [OF h safe_invD(2) [OF inv i]]]) (simp add: g)
    have "evidence M g (nterm (cnode c i)) (ncommit n) (nlog n)"
      using n(3)
    proof
      assume "ncommit n = ncommit (cnode c i)"
      then show ?thesis using evidence_append [OF safe_invD(3) [OF inv i], of es] by (simp add: n(2))
    qed (simp add: evidence_def)
    then show "evidence M g' (nterm n) (ncommit n) (nlog n)" by (rule evidence_grows [OF gr _ n(1)])
  qed (simp add: g)
qed

lemma safe_calls:
  assumes "safe_inv M c g" and "cnode c' = cnode c" and "\<And>m. m \<in> set (ccalls c') \<Longrightarrow> m \<in> set (ccalls c) \<or> scall_ok M g m"
  shows "safe_inv M c' g"
proof -
  have "settled M c' g = settled M c g" by (intro ext) (simp add: settled_def assms(2))
  then have "complete_leaders M c' g = complete_leaders M c g" "\<And>x l. kept M c' g x l = kept M c g x l"
    "\<And>z. vote_kept M c' g z = vote_kept M c g z"
    by (simp_all add: complete_leaders_def kept_def vote_kept_def)
  moreover have "\<forall>m\<in>set (ccalls c'). scall_ok M g m" using assms(1,3) unfolding safe_inv_def by blast
  ultimately show ?thesis
    using assms(1,2) by (simp add: safe_inv_def)
qed

lemma safe_send:
  assumes inv: "safe_inv M c g" and lg: "log_inv M c g" and i: "i \<in> M" and r: "replicateTo (cnode c i) p = Some r"
    and p: "p \<in> set (npeers (cnode c i))"
  shows "safe_inv M (c\<lparr>ccalls := ccalls c @ [AReq i p r]\<rparr>) g"
proof (rule safe_calls [OF inv])
  let ?n = "cnode c i"
  have lead: "nstate ?n = Leader" using r by (auto simp: replicateTo_def split: if_splits)
  have r': "aeTerm r = nterm ?n" "aePrevIndex r = nnext ?n p - 1" "aeCommit r = ncommit ?n"
    "aeEntries r = drop (nnext ?n p - 1) (nlog ?n)"
    using r by (auto simp: replicateTo_def Let_def split: if_splits)
  have ok: "lead_ok g i ?n" using log_invD(2) [OF lg i] lead by (simp add: node_ok_def)
  then have ll: "llog g (nterm ?n) = nlog ?n" by (simp add: lead_ok_def llog_def)
  have "aePrevIndex r + length (aeEntries r) = length (nlog ?n)" using ok p by (fastforce simp: r' lead_ok_def)
  then have "scall_ok M g (AReq i p r)"
    using safe_invD(3) [OF inv i] evidence_length [OF safe_invD(3) [OF inv i]] by (simp add: r' ll)
  then show "m \<in> set (ccalls (c\<lparr>ccalls := ccalls c @ [AReq i p r]\<rparr>)) \<Longrightarrow> m \<in> set (ccalls c) \<or> scall_ok M g m" for m
    by auto
qed simp

lemma safe_vserve:
  assumes inv: "safe_inv M c g" and lg: "log_inv M c g" and v: "vote_inv M c g" and t: "t \<in> M"
    and r: "vreq_ok c g (rvCandidate r) r"
    and h: "HandleRequestVote now draw r (cnode c t) = Some (n, p)"
    and once: "vote_once (hist_vserve t r c g)"
    and c': "cnode c' = (cnode c)(t := n)" "ccalls c' = (ccalls c)[k := m]" and m: "scall_ok M (hist_vserve t r c g) m"
  shows "safe_inv M c' (hist_vserve t r c g)"
proof -
  let ?g = "hist_vserve t r c g" and ?o = "cnode c t"
  note cases = HandleRequestVote_cases [OF h]
  have same: "gllog ?g = gllog g" "gack ?g = gack g" "gclog ?g = gclog g"
    by (simp_all add: hist_vserve_alt [OF h])
  have lg': "llog ?g = llog g" by (intro ext) (simp add: llog_def same)
  have n: "nterm ?o \<le> nterm n" using cases by simp
  note gr = grows_same [OF c'(1) n same(1,2), of M]
  show ?thesis
  proof (rule safe_node [OF inv log_invD(1) [OF lg] _ c'(1) n, where es = "[]"])
    show "vote_cur M c g" using v by (simp add: vote_inv_def)
    fix z assume z: "z \<in> gvote ?g"
    show "z \<in> gvote g \<and> (case z of (v, T, x) \<Rightarrow> gvlog ?g v T = gvlog g v T \<and> gclog ?g x T = gclog g x T)
      \<or> vote_kept M c' ?g z"
    proof (cases "rvrGranted p \<and> (t, rvTerm r, rvCandidate r) \<notin> gvote g")
      case False
      then have "?g = g" by (auto simp: hist_vserve_alt [OF h] hist_vote_def)
      then show ?thesis using z by auto
    next
      case True
      then have g': "gvote ?g = insert (t, rvTerm r, rvCandidate r) (gvote g)"
        "gvlog ?g = (gvlog g)(t := (gvlog g t)(rvTerm r := nlog ?o))"
        by (simp_all add: hist_vserve_alt [OF h] hist_vote_def)
      have "uptodate (gclog g (rvCandidate r) (rvTerm r)) (nlog ?o)"
        using cases True r by (auto simp: uptodate_def vreq_ok_def)
      moreover have "take k (nlog ?o) = take k (llog g T)" if "settled M c' ?g k T" "k \<le> gack g t T" for k T
      proof -
        have "settled M c g k T" using settled_old(1) [OF gr that(1)] that(1) by (simp add: settled_def same lg')
        then show ?thesis using safe_invD(2) [OF inv t] that(2) by (simp add: kept_def)
      qed
      ultimately have new: "vote_kept M c' ?g (t, rvTerm r, rvCandidate r)"
        by (simp add: vote_kept_def g' same lg')
      show ?thesis
      proof (cases "z = (t, rvTerm r, rvCandidate r)")
        case False
        then have "z \<in> gvote g" using z g' by simp
        moreover have "\<not> (fst z = t \<and> fst (snd z) = rvTerm r)"
          using once z False g'(1) by (cases z) (auto simp: vote_once_def)
        ultimately show ?thesis by (auto simp: g' same split: prod.splits)
      qed (use new in simp)
    qed
  qed (use cases c' m same in \<open>auto dest!: set_update_cases\<close>)
qed

text \<open>What is settled or committed for a log of term at most \<open>T\<close> is in the log of \<open>T\<close>'s leader.\<close>

lemma evidence_leader:
  assumes c: "complete_leaders M c g" and e: "evidence M g T k l" and T: "T \<le> T'" "gllog g T' \<noteq> None"
  shows "take k l = take k (llog g T')"
proof (cases "k = 0")
  case False
  then obtain k' t where t: "k \<le> k'" "t \<le> T" "committed M g k' t" "take k l = take k (llog g t)"
    using e by (auto simp: evidence_def)
  show ?thesis
  proof (cases "t = T'")
    case False
    then have "take k' (llog g T') = take k' (llog g t)"
      using complete_leadersD [OF c committed_settled [OF t(3)] _ T(2)] t(2) T(1) by simp
    then show ?thesis using take_shorter [OF _ t(1)] t(4) by metis
  qed (use t(4) in simp)
qed simp

lemma safe_aserve:
  assumes inv: "safe_inv M c g" and lg: "log_inv M c g" and v: "vote_inv M c g" and t: "t \<in> M"
    and h: "HandleAppendEntries now draw r (cnode c t) = Some (n, p)"
    and r: "areq_ok M g f r" and ce: "evidence M g (aeTerm r) (aeCommit r) (llog g (aeTerm r))"
      "aeCommit r \<le> aePrevIndex r + length (aeEntries r)"
    and c': "cnode c' = (cnode c)(t := n)" "ccalls c' = (ccalls c)[k := m]" and m: "m = AResp f t r p \<or> m = Finished"
    and lg': "log_inv M c' (hist_aserve t r c g)"
  shows "safe_inv M c' (hist_aserve t r c g)"
proof -
  let ?g = "hist_aserve t r c g" and ?o = "cnode c t" and ?T = "aeTerm r" and ?m = "aePrevIndex r + length (aeEntries r)"
  note cases = HandleAppendEntries_cases [OF h]
  have h0: "hist_ok g" and nok: "node_ok g t ?o" by (rule log_invD [OF lg] t)+
  have cur: "vote_cur M c g" using v by (simp add: vote_inv_def)
  have calls: "m' \<in> set (ccalls c') \<Longrightarrow> m' \<in> set (ccalls c) \<or> scall_ok M ?g m'" for m'
    using m by (auto simp: c' dest!: set_update_cases)
  show ?thesis
  proof (cases "aerSuccess p")
    case False
    then have "?g = g" by (simp add: hist_aserve_alt [OF h])
    then show ?thesis
      using cases False calls by (intro safe_node [OF inv h0 cur c'(1), where es = "[]"]) auto
  next
    case True
    have n: "nterm n = ?T" "nterm ?o \<le> ?T" "nlog n = fst (merge_entries (nlog ?o) (aePrevIndex r) (aeEntries r))"
      "ncommit n = (if aeCommit r > ncommit ?o then min (aeCommit r) ?m else ncommit ?o)"
      and pre: "aePrevIndex r \<le> length (nlog ?o)" "term_at (nlog ?o) (aePrevIndex r) = aePrevTerm r"
      using cases True by (auto split: if_splits)
    have ll: "gllog g ?T \<noteq> None" using r by (simp add: areq_ok_def)
    have cons: "consistent g (nlog ?o)" using nok by (simp add: node_ok_def)
    have g': "gack ?g = (gack g)(t := (gack g t)(?T := max (gack g t ?T) ?m))" "gllog ?g = gllog g" "gclog ?g = gclog g"
      "gvlog ?g = gvlog g" "gvote ?g = gvote g"
      using True by (simp_all add: hist_aserve_alt [OF h])
    have lgs: "llog ?g = llog g" by (intro ext) (simp add: llog_def g')
    have gr: "grows M c g c' ?g" using n by (auto simp: grows_def g' c' intro: gext_same)
    note keeps = merge_keeps [OF cons h0 r pre, folded n(3)]
    have cl: "complete_leaders M c g" by (rule safe_invD(1) [OF inv])
    show ?thesis
    proof (rule safe_frame [OF inv h0 cur gr g'(2) c'(1)])
      show "kept M c' ?g t (nlog n)"
        unfolding kept_def
      proof (intro allI impI)
        fix k u assume s: "settled M c' ?g k u" and k: "k \<le> gack ?g t u"
        have old: "settled M c g k u" using settled_old(1) [OF gr s] s by (simp add: settled_def g' lgs)
        show "take k (nlog n) = take k (llog ?g u)"
        proof (cases "u = ?T")
          case True
          have "node_ok ?g t n" using log_invD(2) [OF lg' t] by (simp add: c')
          then have "take (gack ?g t ?T) (nlog n) = take (gack ?g t ?T) (llog ?g ?T)" by (simp add: node_ok_def n(1))
          then show ?thesis using take_shorter k True by metis
        next
          case False
          then have k: "k \<le> gack g t u" "0 < gack g t u" using k s by (auto simp: g' settled_def)
          then have "u \<le> nterm ?o" using nok by (simp add: node_ok_def)
          then have "u < ?T" using n(2) False by simp
          then have e: "take k (llog g ?T) = take k (llog g u)" by (rule complete_leadersD [OF cl old _ ll])
          have o: "take k (nlog ?o) = take k (llog g u)" using safe_invD(2) [OF inv t] old k by (simp add: kept_def)
          then have "k \<le> length (nlog ?o)" using take_long [OF o] old by (simp add: settled_def)
          then show ?thesis using keeps [of k] e o by (simp add: lgs)
        qed
      qed
      have "evidence M g ?T (ncommit n) (nlog n)"
      proof (cases "aeCommit r > ncommit ?o")
        case True
        then have "ncommit n = aeCommit r" using n(4) ce(2) by simp
        moreover have "take (aeCommit r) (nlog n) = take (aeCommit r) (llog g ?T)"
          by (rule take_shorter [OF merge_new(2) [OF cons h0 r pre, folded n(3)] ce(2)])
        ultimately show ?thesis using ce(1) by (simp add: evidence_def)
      next
        case False
        then have nc: "ncommit n = ncommit ?o" by (simp add: n(4))
        have ev: "evidence M g (nterm ?o) (ncommit ?o) (nlog ?o)" by (rule safe_invD(3) [OF inv t])
        have e: "take (ncommit ?o) (nlog ?o) = take (ncommit ?o) (llog g ?T)"
          by (rule evidence_leader [OF cl ev n(2) ll])
        have "take (ncommit ?o) (nlog n) = take (ncommit ?o) (nlog ?o)"
          using keeps [OF e evidence_length [OF ev]] e by simp
        then show ?thesis using ev n(2) unfolding nc evidence_def by (auto intro: order.trans)
      qed
      then show "evidence M ?g (nterm n) (ncommit n) (nlog n)"
        using evidence_grows [OF gr _ order.refl] by (simp add: n(1))
      show "z \<in> gvote ?g \<Longrightarrow> z \<in> gvote g \<and> (case z of (v, T, x) \<Rightarrow> gvlog ?g v T = gvlog g v T \<and> gclog ?g x T = gclog g x T)
          \<or> vote_kept M c' ?g z" for z
        by (auto simp: g')
    qed (use calls in \<open>auto simp: g'\<close>)
  qed
qed

section \<open>Advancing the commit index\<close>

lemma advance_loop_cases:
  "advance_loop n k = n \<or> (\<exists>N \<le> k. N > ncommit n \<and> termAt n N = nterm n
     \<and> quorum n (1 + length (filter (\<lambda>p. nmatch n p \<ge> N) (npeers n))) \<and> advance_loop n k = n\<lparr>ncommit := N\<rparr>)"
proof (induction k)
  case (Suc k)
  then show ?case by (auto simp: Let_def intro: le_SucI)
qed simp

lemma advance_evidence:
  assumes lead: "lead_ok g f n" and el: "nstate n = Leader" and st: "f \<in> M" "distinct (npeers n)" "set (npeers n) = M - {f}"
    and q: "\<And>v. quorum n v \<longleftrightarrow> card M < 2 * v" and ev: "evidence M g (nterm n) (ncommit n) (nlog n)"
  shows "evidence M g (nterm n) (ncommit (advanceCommit n)) (nlog n)"
  using advance_loop_cases [of n "lastLogIndex n"]
proof
  assume "advance_loop n (lastLogIndex n) = n"
  then show ?thesis using ev by (simp add: advanceCommit_def)
next
  assume "\<exists>N\<le>lastLogIndex n. N > ncommit n \<and> termAt n N = nterm n
     \<and> quorum n (1 + length (filter (\<lambda>p. nmatch n p \<ge> N) (npeers n)))
     \<and> advance_loop n (lastLogIndex n) = n\<lparr>ncommit := N\<rparr>"
  then obtain N where N: "N \<le> length (nlog n)" "N > 0" "term_at (nlog n) N = nterm n"
    "quorum n (1 + length (filter (\<lambda>p. nmatch n p \<ge> N) (npeers n)))" "advanceCommit n = n\<lparr>ncommit := N\<rparr>"
    by (auto simp: lastLogIndex_def termAt_def advanceCommit_def)
  let ?P = "filter (\<lambda>p. nmatch n p \<ge> N) (npeers n)"
  have ll: "gllog g (nterm n) \<noteq> None" "llog g (nterm n) = nlog n" and own: "gack g f (nterm n) = length (nlog n)"
    and peers: "\<And>p. p \<in> set (npeers n) \<Longrightarrow> nmatch n p \<le> gack g p (nterm n)"
    using lead by (auto simp: lead_ok_def llog_def)
  have "distinct ?P" using st(2) by simp
  then have "card (set ?P) = length ?P" by (rule distinct_card)
  moreover have "f \<notin> set ?P" using st(3) by simp
  ultimately have "card (insert f (set ?P)) = 1 + length ?P" by (simp del: set_filter)
  moreover have "\<forall>v\<in>insert f (set ?P). N \<le> gack g v (nterm n)"
    using own N(1) peers by (auto intro: order.trans)
  moreover have "insert f (set ?P) \<subseteq> M" using st by auto
  ultimately have "committed M g N (nterm n)"
    using N(1-4) ll q unfolding committed_def by (intro conjI) (auto intro!: exI [of _ "insert f (set ?P)"])
  then show ?thesis
    unfolding evidence_def by (intro disjI2 exI [of _ N] exI [of _ "nterm n"]) (simp add: N(5) ll(2))
qed

lemma safe_areply:
  assumes inv: "safe_inv M c g" and lg: "log_inv M c g" and v: "vote_inv M c g" and st: "static M c"
    and k: "k < length (ccalls c)" and m: "ccalls c ! k = AResp f t r p"
    and x: "appendReply now draw t r p (cnode c f) = (n, b)"
    and lg': "log_inv M (set_call k Finished (set_node f n c)) g"
  shows "safe_inv M (set_call k Finished (set_node f n c)) g"
proof -
  let ?c = "set_call k Finished (set_node f n c)" and ?o = "cnode c f"
  have f: "f \<in> M" using static_call [OF st k] m by simp
  have h0: "hist_ok g" by (rule log_invD(1) [OF lg])
  have cur: "vote_cur M c g" using v by (simp add: vote_inv_def)
  note node = safe_node [OF inv h0 cur, where c' = ?c and i = f and n = n and es = "[]" and g' = g]
  consider (quiet) "nterm ?o \<le> nterm n" "nlog n = nlog ?o" "ncommit n = ncommit ?o"
    | (adv) n0 where "nstate ?o = Leader" "nstate n = Leader" "nterm n = nterm ?o" "nlog n = nlog ?o" "n = advanceCommit n0"
      "ncommit n0 = ncommit ?o" "nlog n0 = nlog ?o" "nterm n0 = nterm ?o"
    using appendReply_cases [OF x] by (auto simp: Let_def split: if_splits)
  then show ?thesis
  proof cases
    case quiet
    then show ?thesis by (intro node) (auto dest!: set_update_cases)
  next
    case adv
    have fr: "nlog n0 = nlog n \<and> nterm n0 = nterm n \<and> nmatch n0 = nmatch n \<and> nnext n0 = nnext n
      \<and> npeers n0 = npeers n \<and> nstate n0 = nstate n \<and> nid n0 = nid n"
      using advance_loop_frame [of n0 "lastLogIndex n0"] by (simp add: adv(5) advanceCommit_def)
    have "static M ?c"
      using static_exec [OF st, of noop "Reply k now draw" ?c] k m x by simp
    then have ns: "distinct (npeers n)" "set (npeers n) = M - {f}" "quorum n w \<longleftrightarrow> card M < 2 * w" for w
      using staticD(3) [of M ?c f] static_quorum [of M ?c f w] f by auto
    have "node_ok g f n" using log_invD(2) [OF lg' f] by simp
    then have "lead_ok g f n" using adv(2) by (simp add: node_ok_def)
    then have l0: "lead_ok g f n0" using fr by (simp add: lead_ok_def)
    have q0: "quorum n0 w \<longleftrightarrow> card M < 2 * w" for w using ns(3) [of w] fr by (simp add: quorum_def)
    have ev: "evidence M g (nterm n0) (ncommit (advanceCommit n0)) (nlog n0)"
      by (rule advance_evidence [OF l0 _ f _ _ q0]) (use fr adv ns safe_invD(3) [OF inv f] in auto)
    show ?thesis
    proof (rule safe_frame [OF inv h0 cur])
      show gr: "grows M c g ?c g" using adv by (auto simp: grows_def intro: gext_same)
      show "kept M ?c g f (nlog n)" using kept_old [OF gr refl safe_invD(2) [OF inv f] refl] adv(4) by simp
      show "evidence M g (nterm n) (ncommit n) (nlog n)" using ev adv(5) fr by simp
    qed (auto dest!: set_update_cases)
  qed
qed

lemma votes_same: "gvote g' = gvote g \<Longrightarrow> gvlog g' = gvlog g \<Longrightarrow> gclog g' = gclog g \<Longrightarrow> z \<in> gvote g' \<Longrightarrow>
  z \<in> gvote g \<and> (case z of (v, T, x) \<Rightarrow> gvlog g' v T = gvlog g v T \<and> gclog g' x T = gclog g x T) \<or> P"
  by (auto split: prod.splits)

lemma led_votes: "vote_inv M c g \<Longrightarrow> gllog g t \<noteq> None \<Longrightarrow> \<exists>x. elected M g x t"
  by (auto simp: vote_inv_def vote_lead_def)

lemma leader_elected: "vote_inv M c g \<Longrightarrow> i \<in> M \<Longrightarrow> nstate (cnode c i) = Leader \<Longrightarrow> elected M g i (nterm (cnode c i))"
  by (simp add: vote_inv_def vote_lead_def)

lemma request_term:
  "log_inv M c g \<Longrightarrow> AReq f t r \<in> set (ccalls c) \<or> AOrphan f t r \<in> set (ccalls c) \<Longrightarrow> gllog g (aeTerm r) \<noteq> None"
  using log_invD(3) [of M c g "AReq f t r"] log_invD(3) [of M c g "AOrphan f t r"] by (auto simp: areq_ok_def)

lemma safe_submit:
  assumes inv: "safe_inv M c g" and lg: "log_inv M c g" and v: "vote_inv M c g" and st: "static M c" and i: "i \<in> M"
  shows "safe_inv M (set_node i (fst (raft_propose now cmd (cnode c i))) c)
    (hist_lead i (fst (raft_propose now cmd (cnode c i))) g)"
proof (cases "nstate (cnode c i) = Leader")
  case False
  then have "fst (raft_propose now cmd (cnode c i)) = cnode c i" by (simp add: raft_propose_def)
  then show ?thesis using False inv by (simp add: hist_lead_def set_node_def)
next
  case True
  let ?o = "cnode c i"
  define n where "n = fst (raft_propose now cmd ?o)"
  let ?c = "set_node i n c"
  have n: "n = (persist (?o\<lparr>nlog := nlog ?o @ [\<lparr>eterm = nterm ?o, ecmd = cmd\<rparr>]\<rparr>))\<lparr>nlastHb := now\<rparr>"
    using True staticD(3) [OF st i] by (simp add: n_def raft_propose_def Let_def)
  have h0: "hist_ok g" and nok: "node_ok g i ?o" by (rule log_invD [OF lg] i)+
  have lead: "lead_ok g i ?o" using nok True by (simp add: node_ok_def)
  have cur: "vote_cur M c g" using v by (simp add: vote_inv_def)
  have s: "lead_step i n (nlog ?o) \<lparr>eterm = nterm ?o, ecmd = cmd\<rparr> g"
    unfolding lead_step_def n using nok lead True h0
    by (auto simp: node_ok_def lead_ok_def intro: order.trans)
  have mid: "safe_inv M ?c g"
    by (rule safe_node [OF inv h0 cur, where i = i and n = n]) (auto simp: n)
  have "safe_inv M ?c (hist_lead i (cnode ?c i) g)"
  proof (rule safe_lead [OF mid staticD(1) [OF st] i])
    show "lead_step i (cnode ?c i) (nlog ?o) \<lparr>eterm = nterm ?o, ecmd = cmd\<rparr> g" using s by simp
    show "vote_cur M ?c g" using cur by (simp add: vote_cur_def n)
    show "gllog g (nterm (cnode ?c i)) = Some (nlog ?o)
      \<or> elected M g i (nterm (cnode ?c i)) \<and> nlog ?o = gclog g i (nterm (cnode ?c i))"
      using lead by (simp add: lead_ok_def n)
  qed (use led_votes [OF v] request_term [OF lg] in auto)
  then show ?thesis by (simp add: n_def)
qed

lemma safe_serve:
  assumes inv: "safe_inv M c g" and lg: "log_inv M c g" and v: "vote_inv M c g" and st: "static M c"
    and k: "k < length (ccalls c)" and s: "serve k now draw (ccalls c ! k) c = Some c'"
    and v': "vote_inv M c' (hist_serve (ccalls c ! k) c g)" and lg': "log_inv M c' (hist_serve (ccalls c ! k) c g)"
  shows "safe_inv M c' (hist_serve (ccalls c ! k) c g)"
proof -
  have ends: "call_ends M (ccalls c ! k)" by (rule static_call [OF st k])
  have mem: "ccalls c ! k \<in> set (ccalls c)" using k by simp
  note vok = vote_callsD(2) [OF v k] and lok = log_invD(3) [OF lg mem] and sok = safe_invD(5) [OF inv mem]
  consider (vote) f t r where "ccalls c ! k = VReq f t r \<or> ccalls c ! k = VOrphan f t r"
    | (app) f t r where "ccalls c ! k = AReq f t r \<or> ccalls c ! k = AOrphan f t r"
    using s by (cases "ccalls c ! k") auto
  then show ?thesis
  proof cases
    case vote
    then have t: "t \<in> M" and r: "vreq_ok c g (rvCandidate r) r" using ends vok by (auto simp: vreq_ok_def)
    have hs: "hist_serve (ccalls c ! k) c g = hist_vserve t r c g" using vote by auto
    have "HandleRequestVote now draw r (cnode c t) \<noteq> None"
      using staticD(3) [OF st t] by (auto simp: HandleRequestVote_def Let_def)
    then obtain n p where h: "HandleRequestVote now draw r (cnode c t) = Some (n, p)" by auto
    then obtain m where m: "c' = set_call k m (set_node t n c)" "scall_ok M (hist_vserve t r c g) m"
      using s vote by auto
    have "vote_once (hist_vserve t r c g)" using v' by (simp add: vote_inv_def hs)
    then show ?thesis
      unfolding hs by (intro safe_vserve [OF inv lg v t r h _ _ _ m(2), of _ k]) (simp_all add: m(1))
  next
    case app
    then have t: "t \<in> M" and r: "areq_ok M g f r" using ends lok by auto
    have ev: "evidence M g (aeTerm r) (aeCommit r) (llog g (aeTerm r))" "aeCommit r \<le> aePrevIndex r + length (aeEntries r)"
      using sok app by auto
    have hs: "hist_serve (ccalls c ! k) c g = hist_aserve t r c g" using app by auto
    have "HandleAppendEntries now draw r (cnode c t) \<noteq> None"
      using staticD(3) [OF st t] by (auto simp: HandleAppendEntries_def Let_def split: prod.splits)
    then obtain n p where h: "HandleAppendEntries now draw r (cnode c t) = Some (n, p)" by auto
    then obtain m where m: "c' = set_call k m (set_node t n c)" "m = AResp f t r p \<or> m = Finished"
      using s app by auto
    show ?thesis
      using lg' unfolding hs
      by (intro safe_aserve [OF inv lg v t h r ev _ _ m(2), of _ k]) (simp_all add: m(1))
  qed
qed

lemma safe_vreply:
  assumes inv: "safe_inv M c g" and lg: "log_inv M c g" and v: "vote_inv M c g" and st: "static M c"
    and k: "k < length (ccalls c)" and m: "ccalls c ! k = VResp f t r p"
    and x: "voteReply now draw noop r p (cnode c f, cvotes c f (rvTerm r)) = (n, w)"
    and c': "cnode c' = (cnode c)(f := n)" "ccalls c' = (ccalls c)[k := Finished]"
    and g1: "g1 = hist_reply (VResp f t r p) c g"
    and g': "g' = (if nstate (cnode c f) \<noteq> Leader then hist_lead f n g1 else g1)"
    and v': "vote_inv M c' g'"
  shows "safe_inv M c' g'"
proof -
  let ?o = "cnode c f"
  have f: "f \<in> M" using static_call [OF st k] m by simp
  have h0: "hist_ok g" and nok: "node_ok g f ?o" by (rule log_invD [OF lg] f)+
  have cur: "vote_cur M c g" using v by (simp add: vote_inv_def)
  have same: "gllog g1 = gllog g" "gack g1 = gack g" "gclog g1 = gclog g" "gvlog g1 = gvlog g" "gvote g1 = gvote g"
    by (simp_all add: g1)
  have calls: "m' \<in> set (ccalls c') \<Longrightarrow> m' \<in> set (ccalls c) \<or> scall_ok M h m'" for m' h
    by (auto simp: c' dest!: set_update_cases)
  note node = safe_node [OF inv h0 cur c'(1) _ _ _ same(1,2) votes_same [OF same(5,4,3)] calls]
  from voteReply_cases [OF x] consider (step) "n = persist (stepDown now draw (rvrTerm p) ?o)" | (same) "n = ?o"
    | (win) "counts r p ?o" "n = becomeLeader now noop ?o" by blast
  then show ?thesis
  proof cases
    case step
    then have "safe_inv M c' g1" by (intro node [where es = "[]"]) auto
    then show ?thesis using step by (simp add: g' hist_lead_def)
  next
    case same
    then have "safe_inv M c' g1" by (intro node [where es = "[]"]) auto
    then show ?thesis using same by (auto simp: g' hist_lead_def)
  next
    case win
    have cand: "nstate ?o = Candidate" using win(1) by (simp add: counts_def)
    have g'': "g' = hist_lead f n g1" using cand by (simp add: g')
    have fresh: "gllog g (nterm ?o) = None"
      using fresh_term [OF staticD(1) [OF st] v v' _ f] win(2) cand by (simp add: c' g'' same)
    have mid: "safe_inv M c' g1" by (rule node [where es = "[\<lparr>eterm = nterm ?o, ecmd = noop\<rparr>]"]) (simp_all add: win(2))
    have nx: "\<forall>q\<in>set (npeers ?o). nnext (becomeLeader now noop ?o) q = length (nlog ?o) + 2
      \<and> nmatch (becomeLeader now noop ?o) q = 0"
      by (simp add: becomeLeader_next)
    have ls: "log_same g g1" by (simp add: log_same_def same)
    have gv: "consistent g (gvlog g u T)" for u T by (rule gvlog_ok [OF lg])
    have s: "lead_step f n (nlog ?o) \<lparr>eterm = nterm ?o, ecmd = noop\<rparr> g1"
      unfolding lead_step_def consistent_same [OF ls]
      using nok fresh same(1,2) nx hist_ok_same [OF ls h0] gv same(4)
      by (simp add: win(2) node_ok_def)
    have "elected M g' f (nterm n)" using leader_elected [OF v' f] by (simp add: c' win(2))
    then have el: "elected M g1 f (nterm n)" by (simp add: g'' elected_def)
    have "safe_inv M c' (hist_lead f (cnode c' f) g1)"
    proof (rule safe_lead [OF mid staticD(1) [OF st] f])
      show "lead_step f (cnode c' f) (nlog ?o) \<lparr>eterm = nterm ?o, ecmd = noop\<rparr> g1" using s by (simp add: c')
      show "vote_cur M c' g1" using cur by (auto simp: vote_cur_def c' same win(2))
      show "gllog g1 t \<noteq> None \<Longrightarrow> \<exists>x. elected M g1 x t" for t
        using led_votes [OF v, of t] by (simp add: same elected_def)
      show "gllog g1 (nterm (cnode c' f)) = Some (nlog ?o)
        \<or> elected M g1 f (nterm (cnode c' f)) \<and> nlog ?o = gclog g1 f (nterm (cnode c' f))"
        using el nok cand by (simp add: c' same node_ok_def win(2))
      show "AReq f' t' r' \<in> set (ccalls c') \<or> AOrphan f' t' r' \<in> set (ccalls c') \<Longrightarrow> gllog g1 (aeTerm r') \<noteq> None"
        for f' t' r'
        using request_term [OF lg, of f' t' r'] by (auto simp: c' same dest!: set_update_cases)
    qed
    then show ?thesis by (simp add: g'' c')
  qed
qed

section \<open>Terms only grow, votes are for terms a candidate has reached\<close>

lemma exec_terms:
  assumes st: "static M c" and x: "exec noop M a c = Some c'"
  shows "nterm (cnode c v) \<le> nterm (cnode c' v)"
proof (cases a)
  case (Elect i now draw)
  obtain n out where e: "startElection now draw noop (cnode c i) = (n, out)" by fastforce
  then have "nterm (cnode c i) \<le> nterm n" by (auto dest: startElection_cases)
  with e x Elect show ?thesis by (auto split: if_splits option.splits)
next
  case (Serve k now draw)
  have a: "nterm (cnode c t) \<le> nterm n" if "HandleRequestVote now draw r (cnode c t) = Some (n, p)" for t n p r
    using HandleRequestVote_cases [OF that] by simp
  have b: "nterm (cnode c t) \<le> nterm n" if "HandleAppendEntries now draw r (cnode c t) = Some (n, p)" for t n p r
    using HandleAppendEntries_cases [OF that] by simp
  show ?thesis using x Serve by (cases "ccalls c ! k") (auto split: if_splits option.splits dest: a b)
next
  case (Reply k now draw)
  have a: "nterm (cnode c f) \<le> nterm n" if "voteReply now draw noop r p (cnode c f, w) = (n, w')" for f n p r w w'
    using voteReply_cases [OF that] by auto
  have b: "nterm (cnode c f) \<le> nterm n" if "appendReply now draw t r p (cnode c f) = (n, b)" for f n p r t b
    using appendReply_cases [OF that] by auto
  show ?thesis using x Reply by (cases "ccalls c ! k") (auto split: if_splits prod.splits dest: a b)
next
  case (Crash i now draw cfg)
  then have i: "i \<in> M" using x by (auto split: if_splits)
  with x Crash obtain n where n: "NewNode now draw i (npeers (cnode c i)) cfg (nstore (cnode c i)) = Some n"
    "cnode c' = (cnode c)(i := n)" by (auto split: option.splits)
  then show ?thesis using NewNode_synced [OF _ n(1)] staticD(3) [OF st i] by simp
qed (use x in \<open>auto simp: propose_static applier_static split: if_splits option.splits\<close>)

definition vote_terms :: "'c cluster \<Rightarrow> 'c hist \<Rightarrow> bool" where
  "vote_terms c g \<longleftrightarrow> (\<forall>(v, T, x)\<in>gvote g. T \<le> nterm (cnode c x))"

lemma vserve_votes:
  assumes "vreq_ok c g f r"
  shows "z \<in> gvote (hist_vserve t r c g) \<Longrightarrow> z \<in> gvote g \<or> z = (t, rvTerm r, f) \<and> rvTerm r \<le> nterm (cnode c f)"
  using assms by (auto simp: hist_vserve_def vreq_ok_def split: option.splits if_splits)

lemma track_votes:
  assumes v: "vote_inv M c g" and x: "exec noop M a c = Some c'" and z: "(w, T, y) \<in> gvote (track a c c' g)"
  shows "(w, T, y) \<in> gvote g \<or> T \<le> nterm (cnode c' y) \<or> T \<le> nterm (cnode c y)"
proof (cases a)
  case (Serve k now draw)
  then have "k < length (ccalls c)" using x by (auto split: if_splits)
  then have ok: "vcall_ok c g (ccalls c ! k)" by (rule vote_callsD(2) [OF v])
  have vs: "(w, T, y) \<in> gvote g \<or> T \<le> nterm (cnode c y)"
    if "vreq_ok c g f r" "(w, T, y) \<in> gvote (hist_vserve t r c g)" for f t r
    using vserve_votes [OF that] by auto
  show ?thesis using z ok Serve by (cases "ccalls c ! k") (auto dest: vs)
next
  case (Reply k now draw)
  then show ?thesis using z by (cases "ccalls c ! k") (auto simp: Let_def split: if_splits)
qed (use z in \<open>auto simp: Let_def split: if_splits\<close>)

lemma tracked_terms: "tracked noop M c g \<Longrightarrow> vote_terms c g"
proof (induction rule: tracked.induct)
  case (next_act c g a c')
  have mono: "nterm (cnode c v) \<le> nterm (cnode c' v)" for v
    by (rule exec_terms [OF tracked_static [OF next_act(1)] next_act(2)])
  show ?case
    unfolding vote_terms_def
  proof clarify
    fix w T y assume "(w, T, y) \<in> gvote (track a c c' g)"
    then have "(w, T, y) \<in> gvote g \<or> T \<le> nterm (cnode c' y) \<or> T \<le> nterm (cnode c y)"
      by (rule track_votes [OF tracked_votes [OF next_act(1)] next_act(2)])
    then show "T \<le> nterm (cnode c' y)"
      using next_act(3) mono [of y] by (auto simp: vote_terms_def)
  qed
qed (simp add: vote_terms_def init_hist_def)

lemma safe_elect:
  assumes inv: "safe_inv M c g" and lg: "log_inv M c g" and v: "vote_inv M c g" and st: "static M c" and i: "i \<in> M" and vt: "vote_terms c g"
    and e: "startElection now draw noop (cnode c i) = (n, out)" and T: "nterm n = nterm (cnode c i) + 1"
    and c': "cnode c' = (cnode c)(i := n)"
      "\<And>m. m \<in> set (ccalls c') \<Longrightarrow> m \<in> set (ccalls c) \<or> (\<exists>q r. m = VReq i q r)"
    and g1: "g1 = (hist_vote i (nterm n) i (nlog (cnode c i)) g)
      \<lparr>gcount := (gcount g)(i := (gcount g i)(nterm n := {i})),
       gclog := (gclog g)(i := (gclog g i)(nterm n := nlog (cnode c i)))\<rparr>"
    and v': "vote_inv M c' (hist_lead i n g1)"
  shows "safe_inv M c' (hist_lead i n g1)"
proof -
  let ?o = "cnode c i"
  have h0: "hist_ok g" and nok: "node_ok g i ?o" by (rule log_invD [OF lg] i)+
  have cur: "vote_cur M c g" using v by (simp add: vote_inv_def)
  have new: "(i, nterm n, x) \<notin> gvote g" for x
  proof
    assume "(i, nterm n, x) \<in> gvote g"
    with cur have "nterm n \<le> nterm ?o" by (simp add: vote_cur_def)
    with T show False by simp
  qed
  have gl: "gllog g1 = gllog g" "gack g1 = gack g" "gvote g1 = insert (i, nterm n, i) (gvote g)"
    "gclog g1 = (gclog g)(i := (gclog g i)(nterm n := nlog ?o))"
    "gvlog g1 = (gvlog g)(i := (gvlog g i)(nterm n := nlog ?o))"
    using new by (simp_all add: g1 hist_vote_def)
  have lgs: "llog g1 = llog g" by (intro ext) (simp add: llog_def gl)
  have cons: "consistent g1 = consistent g" by (intro ext) (simp add: consistent_def lgs gl)
  obtain es where n: "nterm ?o \<le> nterm n" "nlog n = nlog ?o @ es" "ncommit n = ncommit ?o"
    and ld: "nstate n = Leader \<Longrightarrow> es = [\<lparr>eterm = nterm n, ecmd = noop\<rparr>]
      \<and> (\<forall>q\<in>set (npeers n). nnext n q = length (nlog ?o) + 2 \<and> nmatch n q = 0)"
    using startElection_cases [OF e] T by auto
  note gr = grows_same [OF c'(1) n(1) gl(1,2), of M]
  have own: "take k (nlog ?o) = take k (llog g t)" if "settled M c' g1 k t" "k \<le> gack g i t" for k t
  proof -
    have "settled M c g k t" using settled_old(1) [OF gr that(1)] that(1) by (simp add: settled_def gl lgs)
    then show ?thesis using safe_invD(2) [OF inv i] that(2) by (simp add: kept_def)
  qed
  have mid: "safe_inv M c' g1"
  proof (rule safe_node [OF inv h0 cur c'(1) n(1,2) disjI1 [OF n(3)] gl(1,2)])
    fix z assume "z \<in> gvote g1"
    then consider "z = (i, nterm n, i)" | "z \<in> gvote g" by (auto simp: gl)
    then show "z \<in> gvote g \<and> (case z of (v, T, x) \<Rightarrow> gvlog g1 v T = gvlog g v T \<and> gclog g1 x T = gclog g x T)
      \<or> vote_kept M c' g1 z"
    proof cases
      case 1
      then show ?thesis using own by (simp add: vote_kept_def uptodate_def gl lgs)
    next
      case 2
      obtain w T' x where z: "z = (w, T', x)" by (cases z)
      have "\<not> (w = i \<and> T' = nterm n)" using 2 new z by auto
      moreover have "\<not> (x = i \<and> T' = nterm n)" using vt 2 T by (auto simp: vote_terms_def z)
      ultimately show ?thesis using 2 z by (auto simp: gl)
    qed
  qed (use c'(2) in fastforce)
  show ?thesis
  proof (cases "nstate n = Leader")
    case False
    then show ?thesis using mid by (simp add: hist_lead_def)
  next
    case True
    have fresh: "gllog g (nterm n) = None"
      using fresh_term [OF staticD(1) [OF st] v v' _ i] T gl(3) True by (auto simp: c'(1))
    have el: "elected M g1 i (nterm n)" using leader_elected [OF v' i] True by (simp add: c'(1) elected_def)
    have bound: "consistent g (nlog ?o)" "\<forall>x\<in>set (nlog ?o). eterm x \<le> nterm ?o" "\<forall>t. gack g i t > 0 \<longrightarrow> t \<le> nterm ?o"
      using nok by (auto simp: node_ok_def)
    have h1: "hist_ok g1"
      using h0 bound(1,2) T unfolding hist_ok_def cons lgs by (auto simp: gl less_Suc_eq_le)
    have s: "lead_step i n (nlog ?o) \<lparr>eterm = nterm n, ecmd = noop\<rparr> g1"
      unfolding lead_step_def cons using bound h1 ld [OF True] fresh T True n(2) by (auto simp: gl intro: le_SucI)
    have "safe_inv M c' (hist_lead i (cnode c' i) g1)"
    proof (rule safe_lead [OF mid staticD(1) [OF st] i])
      show "lead_step i (cnode c' i) (nlog ?o) \<lparr>eterm = nterm n, ecmd = noop\<rparr> g1" using s by (simp add: c'(1))
      show "vote_cur M c' g1" using v' by (simp add: vote_inv_def vote_cur_def)
      show "gllog g1 t \<noteq> None \<Longrightarrow> \<exists>x. elected M g1 x t" for t
        using led_votes [OF v, of t] elected_mono [of M g _ t g1] by (auto simp: gl)
      show "gllog g1 (nterm (cnode c' i)) = Some (nlog ?o)
        \<or> elected M g1 i (nterm (cnode c' i)) \<and> nlog ?o = gclog g1 i (nterm (cnode c' i))"
        using el by (simp add: c'(1) gl)
      show "AReq f' t' r' \<in> set (ccalls c') \<or> AOrphan f' t' r' \<in> set (ccalls c') \<Longrightarrow> gllog g1 (aeTerm r') \<noteq> None"
        for f' t' r'
        using request_term [OF lg, of f' t' r'] c'(2) by (fastforce simp: gl)
    qed
    then show ?thesis by (simp add: c'(1))
  qed
qed

end
