(* ===== verification/RaftSafety.thy ===== *)
theory RaftSafety
  imports RaftCommit
begin

text \<open>
  The safety theorems of the cluster: the invariants of \<open>RaftCommit\<close> hold in every reachable state;
  committed prefixes agree between any two nodes at any two times; what the appliers deliver agrees;
  a leader holds every entry committed in an earlier term.
\<close>

lemma safe_exec:
  assumes inv: "safe_inv M c g" and tr: "tracked noop M c g" and x: "exec noop M a c = Some c'"
  shows "safe_inv M c' (track a c c' g)"
proof -
  note st = tracked_static [OF tr] and v = tracked_votes [OF tr] and lg = tracked_logs [OF tr] and vt = tracked_terms [OF tr]
  note tr' = tracked.next_act [OF tr x]
  note v' = tracked_votes [OF tr'] and lg' = tracked_logs [OF tr']
  have h0: "hist_ok g" by (rule log_invD(1) [OF lg])
  have cur: "vote_cur M c g" using v by (simp add: vote_inv_def)
  show ?thesis
  proof (cases a)
    case (Elect i now draw)
    obtain n out where e: "startElection now draw noop (cnode c i) = (n, out)" by fastforce
    have i: "i \<in> M" using x Elect by (auto split: if_splits)
    have c': "cnode c' = (cnode c)(i := n)"
      "\<And>m. m \<in> set (ccalls c') \<Longrightarrow> m \<in> set (ccalls c) \<or> (\<exists>q r. m = VReq i q r)"
      using x Elect e i by (auto split: option.splits)
    show ?thesis
    proof (cases "nterm n = nterm (cnode c i)")
      case True
      then have "n = cnode c i" "out = None" using startElection_cases [OF e] by auto
      then have "cnode c' = cnode c" "ccalls c' = ccalls c" using x Elect e i by auto
      then show ?thesis using safe_calls [OF inv, of c'] by (simp add: Elect)
    next
      case False
      then have T: "nterm n = nterm (cnode c i) + 1" using startElection_cases [OF e] by auto
      show ?thesis
        using safe_elect [OF inv lg v st i vt e T c' refl] v' False by (simp add: Elect c'(1) Let_def)
    qed
  next
    case (Serve k now draw)
    then show ?thesis using x v' lg' safe_serve [OF inv lg v st, of k now draw c'] by (auto split: if_splits)
  next
    case (Lose k)
    then have c': "c' = set_call k Finished c" using x by (auto split: if_splits)
    have "m \<in> set ((ccalls c)[k := Finished]) \<Longrightarrow> m \<in> set (ccalls c) \<or> scall_ok M g m" for m
      by (auto dest!: set_update_cases)
    then show ?thesis using safe_calls [OF inv, of c'] by (simp add: c' Lose)
  next
    case (Reply k now draw)
    then have k: "k < length (ccalls c)" and s: "reply noop k now draw (ccalls c ! k) c = Some c'"
      using x by (auto split: if_splits)
    consider (vote) f t r p where "ccalls c ! k = VResp f t r p" | (app) f t r p where "ccalls c ! k = AResp f t r p"
      using s by (cases "ccalls c ! k") auto
    then show ?thesis
    proof cases
      case app
      obtain n b where y: "appendReply now draw t r p (cnode c f) = (n, b)" by fastforce
      then show ?thesis
        using safe_areply [OF inv lg v st k app y] lg' s app Reply by (auto simp: Let_def)
    next
      case vote
      obtain n w where y: "voteReply now draw noop r p (cnode c f, cvotes c f (rvTerm r)) = (n, w)" by fastforce
      have c': "cnode c' = (cnode c)(f := n)" "ccalls c' = (ccalls c)[k := Finished]" using s vote y by auto
      have g': "track a c c' g = (if nstate (cnode c f) \<noteq> Leader then hist_lead f n (hist_reply (VResp f t r p) c g)
          else hist_reply (VResp f t r p) c g)"
        by (simp add: Reply vote c' del: hist_reply.simps)
      show ?thesis by (rule safe_vreply [OF inv lg v st k vote y c' refl g' v'])
    qed
  next
    case (Send i p)
    then show ?thesis using x safe_send [OF inv lg] by (auto split: if_splits option.splits)
  next
    case (Submit i now cmd)
    then show ?thesis using x safe_submit [OF inv lg v st] by (auto split: if_splits)
  next
    case (Apply i)
    then have "c' = set_node i (fst (applier (cnode c i))) c" using x by (auto split: if_splits)
    then show ?thesis
      using applier_static [of "cnode c i"]
      by (intro safe_node [OF inv h0 cur, where i = i and n = "fst (applier (cnode c i))" and es = "[]"]) (auto simp: Apply)
  next
    case (Crash i now draw cfg)
    then have i: "i \<in> M" using x by (auto split: if_splits)
    with x Crash obtain n where n: "NewNode now draw i (npeers (cnode c i)) cfg (nstore (cnode c i)) = Some n"
      "c' = (set_node i n c)\<lparr>ccalls := map (orphan i) (ccalls c)\<rparr>" by (auto split: option.splits)
    have orphan: "scall_ok M g (orphan i m)" if "scall_ok M g m" for m using that by (cases m) auto
    have calls: "m \<in> set (ccalls c') \<Longrightarrow> m \<in> set (ccalls c) \<or> scall_ok M g m" for m
      using orphan [OF safe_invD(5) [OF inv]] by (auto simp: n(2))
    show ?thesis
      using NewNode_simps [OF n(1)] NewNode_synced [OF _ n(1)] staticD(3) [OF st i] calls
      by (intro safe_node [OF inv h0 cur, where i = i and n = n and es = "[]"]) (auto simp: Crash n(2))
  qed
qed

lemma safe_init:
  fixes c :: "'c cluster"
  assumes "initial M c"
  shows "safe_inv M c init_hist"
proof -
  have n: "evidence M init_hist T (ncommit (cnode c i)) l" if "i \<in> M" for i T and l :: "'c entry list"
    using init_node_fresh [OF assms that] by (simp add: evidence_def)
  moreover have "\<not> settled M c init_hist k t" for k t by (simp add: settled_def init_hist_def)
  moreover have "gvote (init_hist :: 'c hist) = {}" by (simp add: init_hist_def)
  ultimately show ?thesis
    using n assms by (simp add: safe_inv_def complete_leaders_def kept_def initial_def)
qed

lemma tracked_safe: "tracked noop M c g \<Longrightarrow> safe_inv M c g"
  by (induction rule: tracked.induct) (auto intro: safe_init safe_exec)

section \<open>Over time\<close>

text \<open>The history only grows, whatever happens.\<close>

lemma hist_lead_grows:
  assumes h: "hist_ok g" and l: "nstate n = Leader \<Longrightarrow> gllog g (nterm n) = None \<or> (\<exists>es. nlog n = llog g (nterm n) @ es)"
  shows "gext g (hist_lead i n g)" "gack g v t \<le> gack (hist_lead i n g) v t"
proof -
  show "gext g (hist_lead i n g)" using l by (auto simp: gext_def hist_lead_def llog_def)
  have "gack g i (nterm n) \<le> length (nlog n)" if "nstate n = Leader"
  proof (cases "gack g i (nterm n) = 0")
    case False
    then have "gllog g (nterm n) \<noteq> None" using hist_okD(6) [OF h] by blast
    then show ?thesis using l [OF that] ack_bound [OF h, of i "nterm n"] by auto
  qed simp
  then show "gack g v t \<le> gack (hist_lead i n g) v t" by (auto simp: hist_lead_def)
qed

lemma gext_trans: "gext a b \<Longrightarrow> gext b c \<Longrightarrow> gext a c"
  unfolding gext_def by (metis append_assoc)

lemma track_grows:
  assumes tr: "tracked noop M c g" and x: "exec noop M a c = Some c'"
  shows "gext g (track a c c' g) \<and> (\<forall>v t. gack g v t \<le> gack (track a c c' g) v t)"
proof -
  note st = tracked_static [OF tr] and v = tracked_votes [OF tr] and lg = tracked_logs [OF tr]
  note v' = tracked_votes [OF tracked.next_act [OF tr x]]
  have h0: "hist_ok g" by (rule log_invD(1) [OF lg])
  have same: "gext g (hist_lead i n g1) \<and> (\<forall>v t. gack g v t \<le> gack (hist_lead i n g1) v t)"
    if g1: "gllog g1 = gllog g" "gack g1 = gack g"
      and l: "nstate n = Leader \<Longrightarrow> gllog g (nterm n) = None \<or> (\<exists>es. nlog n = llog g (nterm n) @ es)" for i n g1
  proof -
    have "hist_lead i n g1 = g1\<lparr>gllog := gllog (hist_lead i n g), gack := gack (hist_lead i n g)\<rparr>"
      using g1 by (simp add: hist_lead_def)
    then have "gllog (hist_lead i n g1) = gllog (hist_lead i n g)" "gack (hist_lead i n g1) = gack (hist_lead i n g)"
      by simp_all
    moreover have "gext g (hist_lead i n g)" "\<forall>v t. gack g v t \<le> gack (hist_lead i n g) v t"
      using hist_lead_grows [OF h0 l] by blast+
    ultimately show ?thesis by (simp add: gext_def llog_def)
  qed
  show ?thesis
  proof (cases a)
    case (Elect i now draw)
    have i: "i \<in> M" using x Elect by (auto split: if_splits)
    obtain n out where e: "startElection now draw noop (cnode c i) = (n, out)" by fastforce
    have n: "cnode c' i = n" using x Elect e i by (auto split: option.splits)
    show ?thesis
    proof (cases "nterm n = nterm (cnode c i)")
      case False
      then have T: "nterm n > nterm (cnode c i)" using startElection_cases [OF e] by auto
      have sub: "gvote g \<subseteq> gvote (track a c c' g)" using False by (auto simp: Elect Let_def n)
      have "nstate n = Leader \<Longrightarrow> gllog g (nterm n) = None"
        using fresh_term [OF staticD(1) [OF st] v v' sub i] T n by simp
      then show ?thesis using False by (simp add: Elect Let_def n same)
    qed (simp add: Elect n gext_same)
  next
    case (Serve k now draw)
    have a: "gext g (hist_vserve t r c g) \<and> (\<forall>v u. gack g v u \<le> gack (hist_vserve t r c g) v u)"
      and b: "gext g (hist_aserve t q c g) \<and> (\<forall>v u. gack g v u \<le> gack (hist_aserve t q c g) v u)" for t r q
      by (auto simp: hist_vserve_def hist_aserve_def gext_def llog_def split: option.splits)
    show ?thesis using a b by (cases "ccalls c ! k") (auto simp: Serve intro: gext_same)
  next
    case (Reply k now draw)
    then have k: "k < length (ccalls c)" and s: "reply noop k now draw (ccalls c ! k) c = Some c'"
      using x by (auto split: if_splits)
    consider (vote) f t r p where "ccalls c ! k = VResp f t r p" | (app) f t r p where "ccalls c ! k = AResp f t r p"
      using s by (cases "ccalls c ! k") auto
    then show ?thesis
    proof cases
      case vote
      have f: "f \<in> M" using static_call [OF st k] vote by simp
      obtain n w where y: "voteReply now draw noop r p (cnode c f, cvotes c f (rvTerm r)) = (n, w)" by fastforce
      have n: "cnode c' f = n" using s vote y by auto
      let ?g1 = "hist_reply (VResp f t r p) c g"
      have g1: "gllog ?g1 = gllog g" "gack ?g1 = gack g" "gvote ?g1 = gvote g" by simp_all
      have g': "track a c c' g = (if nstate (cnode c f) \<noteq> Leader then hist_lead f n ?g1 else ?g1)"
        by (simp add: Reply vote n del: hist_reply.simps)
      have "gllog g (nterm n) = None" if "nstate n = Leader" "nstate (cnode c f) \<noteq> Leader"
      proof -
        have "nstate (cnode c f) = Candidate" "nterm n = nterm (cnode c f)"
          using voteReply_cases [OF y] that by (auto simp: counts_def)
        then show ?thesis
          using fresh_term [OF staticD(1) [OF st] v v' _ f] that n by (simp add: g' g1 del: hist_reply.simps)
      qed
      then show ?thesis
        unfolding g' using same [OF g1(1,2)] gext_same [OF g1(1)] by (simp add: g1 del: hist_reply.simps)
    qed (simp add: Reply gext_same)
  next
    case (Submit i now cmd)
    then have i: "i \<in> M" and c': "c' = set_node i (fst (raft_propose now cmd (cnode c i))) c" using x by (auto split: if_splits)
    have "nlog (fst (raft_propose now cmd (cnode c i))) = llog g (nterm (cnode c i))
        @ drop (length (nlog (cnode c i))) (nlog (fst (raft_propose now cmd (cnode c i))))"
      if "nstate (cnode c i) = Leader"
      using log_invD(2) [OF lg i] that by (auto simp: node_ok_def lead_ok_def llog_def raft_propose_def Let_def)
    then show ?thesis
      using same [of g "fst (raft_propose now cmd (cnode c i))" i] propose_static [of now cmd "cnode c i"]
      by (auto simp: Submit c')
  qed (simp_all add: gext_same)
qed

lemma tracked_later:
  assumes "(step noop M)\<^sup>*\<^sup>* c c'" and "tracked noop M c g"
  shows "\<exists>g'. tracked noop M c' g' \<and> gext g g' \<and> (\<forall>v t. gack g v t \<le> gack g' v t)"
  using assms
proof (induction rule: rtranclp_induct)
  case base
  then show ?case using gext_same [of g g] by blast
next
  case (step d e)
  then obtain g1 where g1: "tracked noop M d g1" "gext g g1" "\<forall>v t. gack g v t \<le> gack g1 v t" by blast
  obtain a where a: "exec noop M a d = Some e" using step(2) by (rule stepE)
  note gr = track_grows [OF g1(1) a]
  have "gext g (track a d e g1)" using gext_trans [OF g1(2)] gr by blast
  moreover have "\<forall>v t. gack g v t \<le> gack (track a d e g1) v t" using g1(3) gr order.trans by blast
  ultimately show ?case using tracked.next_act [OF g1(1) a] by blast
qed

section \<open>The theorems\<close>

lemma committed_agree:
  assumes r: "reachable noop M c" and later: "(step noop M)\<^sup>*\<^sup>* c c'" and i: "i \<in> M" "j \<in> M"
    and k: "k \<le> ncommit (cnode c i)" "k \<le> ncommit (cnode c' j)"
  shows "take k (nlog (cnode c i)) = take k (nlog (cnode c' j))" "k \<le> length (nlog (cnode c i))"
proof -
  obtain g where g: "tracked noop M c g" using reachable_tracked [OF r] by blast
  obtain g' where g': "tracked noop M c' g'" "gext g g'" "\<forall>v t. gack g v t \<le> gack g' v t"
    using tracked_later [OF later g] by blast
  have e: "evidence M g (nterm (cnode c i)) (ncommit (cnode c i)) (nlog (cnode c i))"
    by (rule safe_invD(3) [OF tracked_safe [OF g] i(1)])
  then have "evidence M g' (nterm (cnode c i)) (ncommit (cnode c i)) (nlog (cnode c i))"
    using evidence_ext g'(2,3) by blast
  then show "take k (nlog (cnode c i)) = take k (nlog (cnode c' j))"
    using evidence_agree [OF safe_invD(1) [OF tracked_safe [OF g'(1)]] _ safe_invD(3) [OF tracked_safe [OF g'(1)] i(2)]] k
    by blast
  show "k \<le> length (nlog (cnode c i))" using evidence_length [OF e] k(1) by simp
qed

lemma applied_entry:
  assumes "(x, t, cmd) \<in> set (snd (applier n))"
  shows "0 < x \<and> x \<le> ncommit n \<and> t = eterm (nlog n ! (x - 1)) \<and> cmd = ecmd (nlog n ! (x - 1))"
  using assms by (auto simp: applier_def split: if_splits)

text \<open>\<^bold>\<open>C2\<close> State machine safety: if any node's applier ever delivers a command at an index, then no
  node's applier, then or at any later time, delivers another one there (or one of another term),
  through any losses, delays, elections, crashes and restarts.\<close>

theorem state_machine_safety:
  assumes "reachable noop M c" and "(step noop M)\<^sup>*\<^sup>* c c'" and "i \<in> M" "j \<in> M"
    and "(x, t, cmd) \<in> set (snd (applier (cnode c i)))" and "(x, t', cmd') \<in> set (snd (applier (cnode c' j)))"
  shows "t = t' \<and> cmd = cmd'"
proof -
  note a = applied_entry [OF assms(5)] and b = applied_entry [OF assms(6)]
  have "take x (nlog (cnode c i)) = take x (nlog (cnode c' j))" "x \<le> length (nlog (cnode c i))"
    using committed_agree [OF assms(1-4)] a b by blast+
  then have "nlog (cnode c i) ! (x - 1) = nlog (cnode c' j) ! (x - 1)"
    using a by (metis Suc_pred' lessI nth_take)
  with a b show ?thesis by simp
qed

theorem state_machine_safety_witness:
  "\<exists>c :: nat cluster. (2, 1, 42) \<in> set (snd (applier (cnode c ''a''))) \<and> (2, 1, 42) \<in> set (snd (applier (cnode c ''b'')))
     \<and> (\<forall>cmd. (2, 1, cmd) \<in> set (snd (applier (cnode c ''b''))) \<longrightarrow> cmd = 42)"
proof -
  obtain c where c: "reachable (0 :: nat) (set trio) c"
    "nlog (cnode c ''a'') = [\<lparr>eterm = 1, ecmd = 0\<rparr>, \<lparr>eterm = 1, ecmd = 42\<rparr>]"
    "nlog (cnode c ''b'') = [\<lparr>eterm = 1, ecmd = 0\<rparr>, \<lparr>eterm = 1, ecmd = 42\<rparr>]"
    "ncommit (cnode c ''a'') = 2" "ncommit (cnode c ''b'') = 2"
    "napplied (cnode c ''a'') = 0" "napplied (cnode c ''b'') = 0"
    by (rule trio_reached)
  have m: "''a'' \<in> set trio" "''b'' \<in> set trio" by (simp_all add: trio_def)
  obtain g where "tracked 0 (set trio) c g" using reachable_tracked [OF c(1)] by blast
  then have st: "static (set trio) c" by (rule tracked_static)
  have "\<not> nstopped (cnode c ''a'')" "\<not> nstopped (cnode c ''b'')" using staticD(3) [OF st] m by blast+
  then have a: "(2, 1, 42) \<in> set (snd (applier (cnode c ''a'')))" "(2, 1, 42) \<in> set (snd (applier (cnode c ''b'')))"
    using c by (auto simp: applier_def)
  have "cmd = 42" if "(2, 1, cmd) \<in> set (snd (applier (cnode c ''b'')))" for cmd
    using state_machine_safety [OF c(1) rtranclp.rtrancl_refl m a(1) that] by simp
  with a show ?thesis by (intro exI [of _ c] conjI allI impI)
qed

text \<open>\<^bold>\<open>C5\<close> Leader completeness: once a node has committed a prefix of its log, every leader of the
  same or a later term, at that time or later, has this prefix in its log.\<close>

theorem leader_completeness:
  assumes "reachable noop M c" and "(step noop M)\<^sup>*\<^sup>* c c'" and "i \<in> M" "j \<in> M"
    and "nstate (cnode c' j) = Leader" and "nterm (cnode c i) \<le> nterm (cnode c' j)"
  shows "take (ncommit (cnode c i)) (nlog (cnode c' j)) = take (ncommit (cnode c i)) (nlog (cnode c i))"
proof -
  obtain g where g: "tracked noop M c g" using reachable_tracked [OF assms(1)] by blast
  obtain g' where g': "tracked noop M c' g'" "gext g g'" "\<forall>v t. gack g v t \<le> gack g' v t"
    using tracked_later [OF assms(2) g] by blast
  have e: "evidence M g' (nterm (cnode c i)) (ncommit (cnode c i)) (nlog (cnode c i))"
    using evidence_ext [OF g'(2) _ safe_invD(3) [OF tracked_safe [OF g] assms(3)]] g'(3) by blast
  have "lead_ok g' j (cnode c' j)"
    using log_invD(2) [OF tracked_logs [OF g'(1)] assms(4)] assms(5) by (simp add: node_ok_def)
  then have l: "gllog g' (nterm (cnode c' j)) \<noteq> None" "llog g' (nterm (cnode c' j)) = nlog (cnode c' j)"
    by (simp_all add: lead_ok_def llog_def)
  show ?thesis
    using evidence_leader [OF safe_invD(1) [OF tracked_safe [OF g'(1)]] e assms(6) l(1)] l(2) by simp
qed

theorem leader_completeness_witness:
  "\<exists>c. nstate (cnode c ''a'') = Leader \<and> ncommit (cnode c ''b'') = 2
     \<and> take 2 (nlog (cnode c ''a'')) = take (2 :: nat) (nlog (cnode (c :: nat cluster) ''b''))"
proof -
  obtain c where c: "reachable (0 :: nat) (set trio) c" "ncommit (cnode c ''b'') = 2"
    "nstate (cnode c ''a'') = Leader" "nterm (cnode c ''a'') = 1" "nterm (cnode c ''b'') = 1"
    by (rule trio_reached)
  have m: "''b'' \<in> set trio" "''a'' \<in> set trio" by (simp_all add: trio_def)
  have "take (ncommit (cnode c ''b'')) (nlog (cnode c ''a'')) = take (ncommit (cnode c ''b'')) (nlog (cnode c ''b''))"
    by (rule leader_completeness [OF c(1) rtranclp.rtrancl_refl m c(3)]) (simp add: c)
  with c show ?thesis by (intro exI [of _ c]) simp
qed

end
