(* ===== verification/Clock.thy ===== *)
theory Clock
  imports Prelude "HOL-Library.AList" "HOL-Library.Word"
begin

text \<open>
  Logical clocks (\<open>pkg/clock/clock.go\<close>). A vector is the Go map from node ids to counters, as an
  association list without duplicate keys; a missing id reads as 0. The interface \<open>join_state\<close> is what
  the convergence of the counters in \<open>Crdt\<close> rests on too. Shown: \<open>Compare\<close> decides the pointwise
  order, and in any execution of message-passing processes it decides causality exactly.
\<close>

type_synonym vector = "(string \<times> 64 word) list"

datatype Ordering = Equal | Before | After | Concurrent

fun ordering_string :: "Ordering \<Rightarrow> string" where
  "ordering_string Before = ''before''"
| "ordering_string After = ''after''"
| "ordering_string Concurrent = ''concurrent''"
| "ordering_string Equal = ''equal''"

definition vget :: "vector \<Rightarrow> string \<Rightarrow> 64 word" where
  "vget v i = (case map_of v i of Some c \<Rightarrow> c | None \<Rightarrow> 0)"

definition NewVector :: vector where
  "NewVector = []"

definition vec_tick :: "string \<Rightarrow> vector \<Rightarrow> vector \<times> 64 word" where
  "vec_tick i v = (let c = vget v i + 1 in (AList.update i c v, c))"

definition vec_merge :: "vector \<Rightarrow> vector \<Rightarrow> vector" where
  "vec_merge v w = fold (\<lambda>(i, c) v. if c > vget v i then AList.update i c v else v) w v"

definition vec_clone :: "vector \<Rightarrow> vector" where
  "vec_clone v = fold (\<lambda>(i, c) u. AList.update i c u) v []"

definition vec_compare :: "vector \<Rightarrow> vector \<Rightarrow> Ordering" where
  "vec_compare v w =
     (let less1 = list_ex (\<lambda>(i, c). c < vget w i) v;
          greater = list_ex (\<lambda>(i, c). \<not> c < vget w i \<and> c > vget w i) v;
          less = (less1 \<or> list_ex (\<lambda>(i, c). map_of v i = None \<and> c > 0) w)
      in if less \<and> greater then Concurrent else if less then Before else if greater then After else Equal)"

text \<open>\<open>Lamport\<close>: one counter, every operation atomic (the compare-and-swap loop retries until it is).\<close>

definition lamport_tick :: "64 word \<Rightarrow> 64 word \<times> 64 word" where
  "lamport_tick c = (c + 1, c + 1)"

definition lamport_observe :: "64 word \<Rightarrow> 64 word \<Rightarrow> 64 word \<times> 64 word" where
  "lamport_observe remote cur = (let next = (if remote > cur then remote else cur) + 1 in (next, next))"

definition lamport_now :: "64 word \<Rightarrow> 64 word" where
  "lamport_now c = c"

section \<open>States that merge by maximum\<close>

locale join_state =
  fixes ok :: "'s \<Rightarrow> bool" and component :: "'s \<Rightarrow> 'k \<Rightarrow> 'v :: linorder" and merge :: "'s \<Rightarrow> 's \<Rightarrow> 's"
  assumes ok_merge: "ok a \<Longrightarrow> ok b \<Longrightarrow> ok (merge a b)"
    and merge_max: "ok a \<Longrightarrow> ok b \<Longrightarrow> component (merge a b) k = max (component a k) (component b k)"
begin

lemma merge_comm: "ok a \<Longrightarrow> ok b \<Longrightarrow> component (merge a b) = component (merge b a)"
  by (intro ext) (simp add: merge_max max.commute)

lemma merge_assoc: "ok a \<Longrightarrow> ok b \<Longrightarrow> ok c \<Longrightarrow> component (merge (merge a b) c) = component (merge a (merge b c))"
  by (intro ext) (simp add: merge_max ok_merge max.assoc)

lemma merge_idem: "ok a \<Longrightarrow> component (merge a a) = component a"
  by (intro ext) (simp add: merge_max)

lemma fold_ok: "ok a \<Longrightarrow> \<forall>b\<in>set bs. ok b \<Longrightarrow> ok (fold (\<lambda>b a. merge a b) bs a)"
  by (induction bs arbitrary: a) (simp_all add: ok_merge)

lemma fold_component:
  "ok a \<Longrightarrow> \<forall>b\<in>set bs. ok b \<Longrightarrow>
   component (fold (\<lambda>b a. merge a b) bs a) k = Max (insert (component a k) ((\<lambda>b. component b k) ` set bs))"
proof (induction bs arbitrary: a)
  case (Cons b bs)
  then have "component (fold (\<lambda>b a. merge a b) (b # bs) a) k
    = Max (insert (max (component a k) (component b k)) ((\<lambda>b. component b k) ` set bs))"
    by (simp add: ok_merge merge_max)
  also have "\<dots> = Max (insert (component a k) ((\<lambda>b. component b k) ` set (b # bs)))"
    by (cases "set bs = {}") (simp_all add: max.assoc)
  finally show ?case .
qed simp

text \<open>Whoever has merged the same states has the same state, in whatever order and however often.\<close>

lemma converge:
  assumes "ok a" "\<forall>x\<in>set as. ok x" "ok b" "\<forall>x\<in>set bs. ok x" and "insert a (set as) = insert b (set bs)"
  shows "component (fold (\<lambda>x s. merge s x) as a) = component (fold (\<lambda>x s. merge s x) bs b)"
proof (rule ext)
  fix k
  have "insert (component a k) ((\<lambda>x. component x k) ` set as) = (\<lambda>x. component x k) ` insert a (set as)"
    "insert (component b k) ((\<lambda>x. component x k) ` set bs) = (\<lambda>x. component x k) ` insert b (set bs)" by auto
  then show "component (fold (\<lambda>x s. merge s x) as a) k = component (fold (\<lambda>x s. merge s x) bs b) k"
    using fold_component [OF assms(1,2)] fold_component [OF assms(3,4)] assms(5) by metis
qed

end

definition vok :: "vector \<Rightarrow> bool" where
  "vok v \<longleftrightarrow> distinct (map fst v)"

lemma vget_update [simp]: "vget (AList.update i c v) k = (if k = i then c else vget v k)"
  by (simp add: vget_def update_conv')

lemma vok_update [simp]: "vok v \<Longrightarrow> vok (AList.update i c v)"
  by (simp add: vok_def distinct_update)

lemma merge_fold:
  "vok v \<Longrightarrow> distinct (map fst w) \<Longrightarrow>
   vok (fold (\<lambda>(i, c) v. if c > vget v i then AList.update i c v else v) w v)
   \<and> vget (fold (\<lambda>(i, c) v. if c > vget v i then AList.update i c v else v) w v) k = max (vget v k) (vget w k)"
proof (induction w arbitrary: v)
  case (Cons p w)
  obtain i c where p: "p = (i, c)" by (cases p)
  let ?v = "if c > vget v i then AList.update i c v else v"
  have v: "vok ?v" using Cons.prems by simp
  have "map_of w i = None" using Cons.prems p by (auto simp: map_of_eq_None_iff)
  then have i: "vget w i = 0" by (simp add: vget_def)
  have "vget ?v k = (if k = i then max (vget v i) c else vget v k)" by (auto simp: max_def)
  moreover have "vget (p # w) k = (if k = i then c else vget w k)" by (simp add: p vget_def)
  ultimately have "max (vget ?v k) (vget w k) = max (vget v k) (vget (p # w) k)" using i by auto
  then show ?case using Cons.IH [OF v] Cons.prems p by simp
qed (simp add: vget_def)

lemma vec_merge_ok: "vok v \<Longrightarrow> vok w \<Longrightarrow> vok (vec_merge v w)"
  and vget_merge: "vok v \<Longrightarrow> vok w \<Longrightarrow> vget (vec_merge v w) k = max (vget v k) (vget w k)"
  using merge_fold [of v w] by (simp_all add: vec_merge_def vok_def)

interpretation vec: join_state vok vget vec_merge
  by unfold_locales (simp_all add: vec_merge_ok vget_merge)

lemma clone_fold:
  "vok u \<Longrightarrow> distinct (map fst v) \<Longrightarrow> vok (fold (\<lambda>(i, c) u. AList.update i c u) v u)
   \<and> map_of (fold (\<lambda>(i, c) u. AList.update i c u) v u) k = (case map_of v k of Some c \<Rightarrow> Some c | None \<Rightarrow> map_of u k)"
proof (induction v arbitrary: u)
  case (Cons p v)
  obtain i c where p: "p = (i, c)" by (cases p)
  have "map_of v i = None" using Cons.prems p by (auto simp: map_of_eq_None_iff)
  then show ?case using Cons p by (auto simp: update_conv' split: option.splits)
qed simp

lemma vec_clone: "vok v \<Longrightarrow> vok (vec_clone v) \<and> map_of (vec_clone v) = map_of v"
  using clone_fold [of "[]" v] by (auto simp: vec_clone_def vok_def split: option.splits)

lemma vget_clone: "vok v \<Longrightarrow> vget (vec_clone v) = vget v"
  by (intro ext) (simp add: vget_def vec_clone)

section \<open>The comparison\<close>

lemma vget_in: "vok v \<Longrightarrow> (i, c) \<in> set v \<Longrightarrow> vget v i = c"
  by (simp add: vget_def vok_def)

lemma vget_out: "map_of v i = None \<Longrightarrow> vget v i = 0"
  by (simp add: vget_def)

lemma compare_less:
  assumes "vok v" "vok w"
  shows "(list_ex (\<lambda>(i, c). c < vget w i) v \<or> list_ex (\<lambda>(i, c). map_of v i = None \<and> c > 0) w) \<longleftrightarrow> (\<exists>k. vget v k < vget w k)"
    (is "?l \<or> ?r \<longleftrightarrow> _")
proof
  assume "?l \<or> ?r"
  then show "\<exists>k. vget v k < vget w k"
  proof
    assume ?l
    then obtain i c where "(i, c) \<in> set v" "c < vget w i" by (auto simp: list_ex_iff)
    then show ?thesis using vget_in [OF assms(1)] by (intro exI [of _ i]) simp
  next
    assume ?r
    then obtain i c where "(i, c) \<in> set w" "map_of v i = None" "c > 0" by (auto simp: list_ex_iff)
    then show ?thesis using vget_in [OF assms(2)] vget_out [of v i] by (intro exI [of _ i]) simp
  qed
next
  assume "\<exists>k. vget v k < vget w k"
  then obtain k where k: "vget v k < vget w k" by blast
  show "?l \<or> ?r"
  proof (cases "map_of v k")
    case None
    then have "vget w k > 0" using k vget_out [of v k] by simp
    moreover obtain c where "map_of w k = Some c" using k by (cases "map_of w k") (auto simp: vget_def)
    ultimately have "(k, c) \<in> set w" "c > 0" using map_of_SomeD [of w k c] by (auto simp: vget_def)
    with None have ?r unfolding list_ex_iff by (intro bexI [of _ "(k, c)"]) auto
    then show ?thesis ..
  next
    case (Some c)
    then have "(k, c) \<in> set v" "c < vget w k" using k map_of_SomeD [of v k c] by (auto simp: vget_def)
    then have ?l unfolding list_ex_iff by (intro bexI [of _ "(k, c)"]) auto
    then show ?thesis ..
  qed
qed

lemma compare_greater:
  assumes "vok v"
  shows "list_ex (\<lambda>(i, c). \<not> c < vget w i \<and> c > vget w i) v \<longleftrightarrow> (\<exists>k. vget w k < vget v k)" (is "?g \<longleftrightarrow> _")
proof
  assume ?g
  then obtain i c where "(i, c) \<in> set v" "c > vget w i" by (auto simp: list_ex_iff)
  then show "\<exists>k. vget w k < vget v k" using vget_in [OF assms] by (intro exI [of _ i]) simp
next
  assume "\<exists>k. vget w k < vget v k"
  then obtain k where k: "vget w k < vget v k" by blast
  then obtain c where "map_of v k = Some c" by (cases "map_of v k") (auto simp: vget_def)
  then have "(k, c) \<in> set v" "vget w k < c" using k map_of_SomeD [of v k c] by (auto simp: vget_def)
  then show ?g unfolding list_ex_iff by (intro bexI [of _ "(k, c)"]) auto
qed

lemma vec_compare:
  assumes "vok v" "vok w"
  shows "vec_compare v w = Before \<longleftrightarrow> (\<forall>k. vget v k \<le> vget w k) \<and> (\<exists>k. vget v k < vget w k)"
    "vec_compare v w = After \<longleftrightarrow> (\<forall>k. vget w k \<le> vget v k) \<and> (\<exists>k. vget w k < vget v k)"
    "vec_compare v w = Equal \<longleftrightarrow> vget v = vget w"
    "vec_compare v w = Concurrent \<longleftrightarrow> (\<exists>k. vget v k < vget w k) \<and> (\<exists>k. vget w k < vget v k)"
proof -
  define less where "less = (\<exists>k. vget v k < vget w k)"
  define greater where "greater = (\<exists>k. vget w k < vget v k)"
  have c: "vec_compare v w = (if less \<and> greater then Concurrent else if less then Before else if greater then After else Equal)"
    unfolding vec_compare_def Let_def compare_less [OF assms] compare_greater [OF assms(1)] less_def greater_def ..
  have l: "\<not> less \<longleftrightarrow> (\<forall>k. vget w k \<le> vget v k)" and g: "\<not> greater \<longleftrightarrow> (\<forall>k. vget v k \<le> vget w k)"
    by (simp_all add: less_def greater_def not_less)
  have e: "vget v = vget w \<longleftrightarrow> \<not> less \<and> \<not> greater" unfolding l g fun_eq_iff by (auto intro: order.antisym)
  show "vec_compare v w = Before \<longleftrightarrow> (\<forall>k. vget v k \<le> vget w k) \<and> (\<exists>k. vget v k < vget w k)"
    unfolding g [symmetric] less_def [symmetric] by (simp add: c)
  show "vec_compare v w = After \<longleftrightarrow> (\<forall>k. vget w k \<le> vget v k) \<and> (\<exists>k. vget w k < vget v k)"
    unfolding l [symmetric] greater_def [symmetric] by (simp add: c)
  show "vec_compare v w = Equal \<longleftrightarrow> vget v = vget w" unfolding e by (simp add: c)
  show "vec_compare v w = Concurrent \<longleftrightarrow> (\<exists>k. vget v k < vget w k) \<and> (\<exists>k. vget w k < vget v k)"
    unfolding less_def [symmetric] greater_def [symmetric] by (simp add: c)
qed

section \<open>Executions of message-passing processes\<close>

text \<open>
  An execution is the list of its events, in some order they happened in. A process ticks its clocks
  at every event and stamps the event (and the message it may send there) with a copy; receiving the
  message of event \<open>j\<close>, it merges or observes the stamp first.
\<close>

datatype event = Local string | Receive string nat

fun proc :: "event \<Rightarrow> string" where
  "proc (Local p) = p"
| "proc (Receive p j) = p"

record system =
  vclock :: "string \<Rightarrow> vector"
  vstamp :: "vector list"
  lclock :: "string \<Rightarrow> 64 word"
  lstamp :: "64 word list"

fun happen :: "event \<Rightarrow> system \<Rightarrow> system" where
  "happen (Local p) s =
     (let v = fst (vec_tick p (vclock s p)); (c, l) = lamport_tick (lclock s p) in
      s\<lparr>vclock := (vclock s)(p := v), vstamp := vstamp s @ [vec_clone v],
        lclock := (lclock s)(p := c), lstamp := lstamp s @ [l]\<rparr>)"
| "happen (Receive p j) s =
     (let v = fst (vec_tick p (vec_merge (vclock s p) (vstamp s ! j))); (c, l) = lamport_observe (lstamp s ! j) (lclock s p) in
      s\<lparr>vclock := (vclock s)(p := v), vstamp := vstamp s @ [vec_clone v],
        lclock := (lclock s)(p := c), lstamp := lstamp s @ [l]\<rparr>)"

definition start :: system where
  "start = \<lparr>vclock = (\<lambda>_. NewVector), vstamp = [], lclock = (\<lambda>_. 0), lstamp = []\<rparr>"

definition execution :: "event list \<Rightarrow> system" where
  "execution es = fold happen es start"

text \<open>A message is received after it was sent.\<close>

definition sound :: "event list \<Rightarrow> bool" where
  "sound es \<longleftrightarrow> (\<forall>n<length es. case es ! n of Receive p j \<Rightarrow> j < n | Local p \<Rightarrow> True)"

definition causes :: "event list \<Rightarrow> (nat \<times> nat) set" where
  "causes es = {(a, b). a < b \<and> b < length es \<and> (proc (es ! a) = proc (es ! b) \<or> (\<exists>p. es ! b = Receive p a))}"

definition past :: "event list \<Rightarrow> nat \<Rightarrow> nat set" where
  "past es n = {m. (m, n) \<in> (causes es)\<^sup>*}"

definition happens_before :: "event list \<Rightarrow> nat \<Rightarrow> nat \<Rightarrow> bool" where
  "happens_before es a b \<longleftrightarrow> (a, b) \<in> (causes es)\<^sup>+"

lemma past_le: "m \<in> past es n \<Longrightarrow> m \<le> n"
  unfolding past_def mem_Collect_eq by (induction rule: converse_rtrancl_induct) (auto simp: causes_def)

lemma past_finite [simp]: "finite (past es n)"
  by (rule finite_subset [of _ "{..n}"]) (auto dest: past_le)

lemma past_self [simp]: "n \<in> past es n"
  by (simp add: past_def)

lemma past_trans: "m \<in> past es n \<Longrightarrow> k \<in> past es m \<Longrightarrow> k \<in> past es n"
  by (auto simp: past_def intro: rtrancl_trans)

lemma past_down:
  assumes "m \<in> past es n" and "n < length es" and "k < m" and "proc (es ! k) = proc (es ! m)"
  shows "k \<in> past es n"
proof -
  have "(k, m) \<in> causes es" using assms(2-4) past_le [OF assms(1)] by (simp add: causes_def)
  then show ?thesis using past_trans [OF assms(1), of k] by (auto simp: past_def)
qed

lemma happens_past: "happens_before es a b \<longleftrightarrow> a \<in> past es b \<and> a \<noteq> b"
proof -
  have "a < b" if "(a, b) \<in> (causes es)\<^sup>+" for a b
    using that by (induction rule: trancl_induct) (auto simp: causes_def)
  then show ?thesis by (auto simp: happens_before_def past_def rtrancl_eq_or_trancl)
qed

definition preds :: "event list \<Rightarrow> event \<Rightarrow> nat set" where
  "preds es e = {c. c < length es \<and> (proc (es ! c) = proc e \<or> (\<exists>p. e = Receive p c))}"

lemma causes_snoc: "causes (es @ [e]) = causes es \<union> {(c, length es) | c. c \<in> preds es e}"
  by (auto simp: causes_def preds_def nth_append less_Suc_eq)

lemma past_old:
  assumes "n < length es"
  shows "past (es @ [e]) n = past es n"
proof
  show "past es n \<subseteq> past (es @ [e]) n" by (auto simp: past_def causes_snoc intro: rtrancl_mono [THEN subsetD, rotated])
  have "m \<in> past es n" if "(m, n) \<in> (causes (es @ [e]))\<^sup>*" for m
    using that
  proof (induction rule: converse_rtrancl_induct)
    case (step y z)
    then have "z \<le> n" using past_le by blast
    then have "(y, z) \<in> causes es" using step(1) assms by (auto simp: causes_snoc)
    then show ?case using step(3) by (auto simp: past_def intro: converse_rtrancl_into_rtrancl)
  qed simp
  then show "past (es @ [e]) n \<subseteq> past es n" by (auto simp: past_def)
qed

lemma past_new: "past (es @ [e]) (length es) = insert (length es) (\<Union>c\<in>preds es e. past es c)"
proof -
  have "m \<in> past (es @ [e]) (length es) \<longleftrightarrow> m = length es \<or> (\<exists>c\<in>preds es e. m \<in> past (es @ [e]) c)" for m
  proof -
    have "(c, length es) \<in> causes (es @ [e]) \<longleftrightarrow> c \<in> preds es e" for c
      by (auto simp: causes_def preds_def nth_append)
    then show ?thesis
      unfolding past_def mem_Collect_eq by (metis rtrancl.simps)
  qed
  moreover have "past (es @ [e]) c = past es c" if "c \<in> preds es e" for c
    using that by (intro past_old) (simp add: preds_def)
  ultimately show ?thesis by blast
qed

section \<open>A stamp counts the causal past\<close>

definition at :: "event list \<Rightarrow> string \<Rightarrow> nat set \<Rightarrow> nat set" where
  "at es k P = {m \<in> P. proc (es ! m) = k}"

text \<open>Sets of events that hold, with an event, all earlier ones of its process.\<close>

definition down :: "event list \<Rightarrow> nat set \<Rightarrow> bool" where
  "down es P \<longleftrightarrow> P \<subseteq> {..<length es} \<and> (\<forall>m\<in>P. \<forall>k<m. proc (es ! k) = proc (es ! m) \<longrightarrow> k \<in> P)"

lemma down_finite: "down es P \<Longrightarrow> finite P"
  by (auto simp: down_def intro: finite_subset)

lemma down_past: "n < length es \<Longrightarrow> down es (past es n)"
  using past_down [of _ es n] by (auto simp: down_def dest: past_le)

lemma down_Union: "(\<And>c. c \<in> C \<Longrightarrow> down es (f c)) \<Longrightarrow> down es (\<Union>c\<in>C. f c)"
  unfolding down_def by blast

lemma down_nested:
  assumes "down es P" "down es Q"
  shows "at es k P \<subseteq> at es k Q \<or> at es k Q \<subseteq> at es k P"
proof (rule ccontr)
  assume "\<not> ?thesis"
  then obtain m n where m: "m \<in> P" "m \<notin> Q" "proc (es ! m) = k" and n: "n \<in> Q" "n \<notin> P" "proc (es ! n) = k"
    by (auto simp: at_def)
  have "m < n \<or> n < m" using m n by (metis nat_neq_iff)
  then show False using assms m n unfolding down_def by metis
qed

lemma card_at_Un:
  assumes "down es P" "down es Q"
  shows "card (at es k (P \<union> Q)) = max (card (at es k P)) (card (at es k Q))"
proof -
  have u: "at es k (P \<union> Q) = at es k P \<union> at es k Q" by (auto simp: at_def)
  have f: "finite (at es k P)" "finite (at es k Q)" using assms by (auto simp: at_def dest: down_finite)
  from down_nested [OF assms, of k] show ?thesis
  proof
    assume "at es k P \<subseteq> at es k Q"
    then show ?thesis using card_mono [OF f(2)] by (simp add: u Un_absorb1 max_absorb2)
  next
    assume "at es k Q \<subseteq> at es k P"
    then show ?thesis using card_mono [OF f(1)] by (simp add: u Un_absorb2 max_absorb1)
  qed
qed

definition counts_past :: "event list \<Rightarrow> vector \<Rightarrow> nat set \<Rightarrow> bool" where
  "counts_past es v P \<longleftrightarrow> vok v \<and> down es P \<and> (\<forall>k. unat (vget v k) = card (at es k P))"

lemma counts_merge:
  assumes "counts_past es v P" "counts_past es w Q"
  shows "counts_past es (vec_merge v w) (P \<union> Q)"
proof -
  have "down es (P \<union> Q)" using assms by (auto simp: counts_past_def down_def)
  moreover have "unat (vget (vec_merge v w) k) = card (at es k (P \<union> Q))" for k
    using assms card_at_Un [of es P Q k] by (simp add: counts_past_def vget_merge max_def word_le_nat_alt)
  ultimately show ?thesis using assms by (simp add: counts_past_def vec_merge_ok)
qed

lemma at_snoc: "P \<subseteq> {..<length es} \<Longrightarrow> at (es @ [e]) k P = at es k P"
  by (auto simp: at_def nth_append)

lemma down_snoc: "down es P \<Longrightarrow> down (es @ [e]) P"
  by (auto simp: down_def nth_append subset_iff)

lemma counts_snoc: "counts_past es v P \<Longrightarrow> counts_past (es @ [e]) v P"
  using at_snoc [of P es e] by (simp add: counts_past_def down_snoc) (simp add: down_def)

lemma counts_tick:
  assumes c: "counts_past es v P" and len: "length es + 1 < 2 ^ 64"
    and all: "\<And>c. c < length es \<Longrightarrow> proc (es ! c) = proc e \<Longrightarrow> c \<in> P"
  shows "counts_past (es @ [e]) (fst (vec_tick (proc e) v)) (insert (length es) P)"
proof -
  have P: "P \<subseteq> {..<length es}" and d: "down es P" and v: "\<And>k. unat (vget v k) = card (at es k P)"
    using c by (auto simp: counts_past_def down_def)
  have "card (at es k P) \<le> card {..<length es}" for k using P by (intro card_mono) (auto simp: at_def)
  then have small: "unat (vget v k) \<le> length es" for k by (simp add: v)
  have inc: "unat (vget v k + 1) = unat (vget v k) + 1" for k
    using small [of k] len unat_add_lem [of "vget v k" 1] by simp
  have fin: "finite (at es k P)" for k using down_finite [OF d] by (simp add: at_def)
  have at: "at (es @ [e]) k (insert (length es) P) = (if k = proc e then insert (length es) (at es k P) else at es k P)" for k
  proof -
    have "at (es @ [e]) k (insert (length es) P) = (if k = proc e then insert (length es) (at (es @ [e]) k P) else at (es @ [e]) k P)"
      by (auto simp: at_def)
    then show ?thesis by (simp add: at_snoc [OF P])
  qed
  have "length es \<notin> at es k P" for k using P by (auto simp: at_def)
  then have "unat (vget (fst (vec_tick (proc e) v)) k) = card (at (es @ [e]) k (insert (length es) P))" for k
    unfolding at using fin by (simp add: vec_tick_def Let_def inc v)
  moreover have "down (es @ [e]) (insert (length es) P)"
    using down_snoc [OF d, of e] all by (auto simp: down_def nth_append)
  ultimately show ?thesis using c by (simp add: counts_past_def vec_tick_def Let_def)
qed

lemma execution_snoc: "execution (es @ [e]) = happen e (execution es)"
  by (simp add: execution_def)

lemma stamp_length: "length (vstamp (execution es)) = length es \<and> length (lstamp (execution es)) = length es"
proof (induction es rule: rev_induct)
  case (snoc e es)
  then show ?case by (cases e) (simp_all add: execution_snoc Let_def lamport_tick_def lamport_observe_def)
qed (simp add: execution_def start_def)

text \<open>What a process knows: the pasts of all its events.\<close>

definition known :: "event list \<Rightarrow> string \<Rightarrow> nat set" where
  "known es p = (\<Union>c\<in>{c. c < length es \<and> proc (es ! c) = p}. past es c)"

lemma known_down: "down es (known es p)"
  unfolding known_def by (intro down_Union down_past) simp

lemma known_snoc: "known (es @ [e]) p = (if p = proc e then past (es @ [e]) (length es) else known es p)"
proof -
  have "{c. c < length (es @ [e]) \<and> proc ((es @ [e]) ! c) = p}
      = {c. c < length es \<and> proc (es ! c) = p} \<union> (if p = proc e then {length es} else {})"
    by (auto simp: nth_append less_Suc_eq)
  moreover have "past (es @ [e]) c = past es c" if "c < length es" for c by (rule past_old [OF that])
  moreover have "known es p \<subseteq> past (es @ [e]) (length es)" if "p = proc e"
    using that unfolding past_new known_def by (auto simp: preds_def)
  ultimately show ?thesis by (auto simp: known_def)
qed

lemma past_known:
  "past (es @ [e]) (length es) = insert (length es) (known es (proc e) \<union> (case e of Receive p j \<Rightarrow> if j < length es then past es j else {} | Local p \<Rightarrow> {}))"
  unfolding past_new by (cases e) (auto simp: preds_def known_def)

lemma sound_snoc: "sound (es @ [e]) \<longleftrightarrow> sound es \<and> (case e of Receive p j \<Rightarrow> j < length es | Local p \<Rightarrow> True)"
  unfolding sound_def length_append_singleton All_less_Suc by (simp add: nth_append conj_commute)

lemma counts_clone: "counts_past es v P \<Longrightarrow> counts_past es (vec_clone v) P"
  by (simp add: counts_past_def vec_clone vget_clone)

lemma execution_counts:
  assumes "sound es" and "length es < 2 ^ 64"
  shows "(\<forall>p. counts_past es (vclock (execution es) p) (known es p))
    \<and> (\<forall>n<length es. counts_past es (vstamp (execution es) ! n) (past es n))"
  using assms
proof (induction es rule: rev_induct)
  case Nil
  have "counts_past [] [] (known [] p)" for p by (simp add: counts_past_def known_def down_def at_def vok_def vget_def)
  then show ?case by (simp add: execution_def start_def NewVector_def)
next
  case (snoc e es)
  let ?s = "execution es"
  have IH: "\<And>p. counts_past es (vclock ?s p) (known es p)" "\<And>n. n < length es \<Longrightarrow> counts_past es (vstamp ?s ! n) (past es n)"
    using snoc by (auto simp: sound_snoc)
  have all: "c \<in> known es (proc e)" if "c < length es" "proc (es ! c) = proc e" for c
    using that by (auto simp: known_def intro!: exI [of _ c])
  define v where "v = (case e of Local p \<Rightarrow> vclock ?s p | Receive p j \<Rightarrow> vec_merge (vclock ?s p) (vstamp ?s ! j))"
  define P where "P = known es (proc e) \<union> (case e of Receive p j \<Rightarrow> if j < length es then past es j else {} | Local p \<Rightarrow> {})"
  have "counts_past es v P"
  proof (cases e)
    case (Local p)
    then show ?thesis using IH(1) by (simp add: v_def P_def)
  next
    case (Receive p j)
    then have "j < length es" using snoc.prems by (simp add: sound_snoc)
    then show ?thesis using counts_merge [OF IH(1) IH(2)] Receive by (simp add: v_def P_def)
  qed
  then have new: "counts_past (es @ [e]) (fst (vec_tick (proc e) v)) (past (es @ [e]) (length es))"
    unfolding past_known P_def [symmetric]
    by (rule counts_tick) (use snoc.prems all in \<open>auto simp: P_def\<close>)
  have s: "vclock (execution (es @ [e])) = (vclock ?s)(proc e := fst (vec_tick (proc e) v))"
    "vstamp (execution (es @ [e])) = vstamp ?s @ [vec_clone (fst (vec_tick (proc e) v))]"
    by (cases e; simp add: execution_snoc Let_def v_def lamport_tick_def lamport_observe_def)+
  show ?case
  proof (intro conjI allI impI)
    fix p show "counts_past (es @ [e]) (vclock (execution (es @ [e])) p) (known (es @ [e]) p)"
      using new counts_snoc [OF IH(1)] by (simp add: s known_snoc)
  next
    fix n assume "n < length (es @ [e])"
    then consider "n < length es" | "n = length es" by fastforce
    then show "counts_past (es @ [e]) (vstamp (execution (es @ [e])) ! n) (past (es @ [e]) n)"
    proof cases
      case 1
      then show ?thesis using counts_snoc [OF IH(2)] stamp_length [of es] by (simp add: s nth_append past_old)
    next
      case 2
      then show ?thesis using counts_clone [OF new] stamp_length [of es] by (simp add: s nth_append)
    qed
  qed
qed

text \<open>\<^bold>\<open>C28\<close> Vector clocks decide causality: in any execution of message-passing processes, one event's
  stamp compares \<open>Before\<close> another's exactly when the event happened before the other, along the
  processes' orders and the messages.\<close>

theorem vector_clock_causality:
  assumes "sound es" "length es < 2 ^ 64" and "a < length es" "b < length es"
  shows "vec_compare (vstamp (execution es) ! a) (vstamp (execution es) ! b) = Before \<longleftrightarrow> happens_before es a b"
proof -
  let ?v = "\<lambda>n. vget (vstamp (execution es) ! n)"
  have c: "counts_past es (vstamp (execution es) ! n) (past es n)" if "n < length es" for n
    using execution_counts [OF assms(1,2)] that by blast
  have ok: "vok (vstamp (execution es) ! n)" and cnt: "unat (?v n k) = card (at es k (past es n))" if "n < length es" for n k
    using c [OF that] by (auto simp: counts_past_def)
  have fin: "finite (at es k (past es n))" for k n by (simp add: at_def)
  show ?thesis
    unfolding vec_compare(1) [OF ok [OF assms(3)] ok [OF assms(4)]] happens_past
  proof
    assume v: "(\<forall>k. ?v a k \<le> ?v b k) \<and> (\<exists>k. ?v a k < ?v b k)"
    have sub: "at es (proc (es ! a)) (past es a) \<subseteq> at es (proc (es ! a)) (past es b)"
    proof (rule ccontr)
      assume n: "\<not> ?thesis"
      then have "at es (proc (es ! a)) (past es b) \<subset> at es (proc (es ! a)) (past es a)"
        using down_nested [OF down_past [OF assms(3)] down_past [OF assms(4)], of "proc (es ! a)"] by blast
      then have "unat (?v b (proc (es ! a))) < unat (?v a (proc (es ! a)))"
        unfolding cnt [OF assms(3)] cnt [OF assms(4)] by (rule psubset_card_mono [OF fin])
      then show False using v by (simp add: word_less_nat_alt [symmetric] not_less [symmetric])
    qed
    have "a \<in> at es (proc (es ! a)) (past es b)" by (rule subsetD [OF sub]) (simp add: at_def)
    then have "a \<in> past es b" by (simp add: at_def)
    moreover have "a \<noteq> b" using v by auto
    ultimately show "a \<in> past es b \<and> a \<noteq> b" ..
  next
    assume ab: "a \<in> past es b \<and> a \<noteq> b"
    then have sub: "at es k (past es a) \<subseteq> at es k (past es b)" for k using past_trans by (auto simp: at_def)
    have "?v a k \<le> ?v b k" for k
      unfolding word_le_nat_alt cnt [OF assms(3)] cnt [OF assms(4)] by (rule card_mono [OF fin sub])
    moreover have "?v a (proc (es ! b)) < ?v b (proc (es ! b))"
    proof -
      have "b \<notin> past es a" using past_le [of b es a] past_le [of a es b] ab by auto
      then have "at es (proc (es ! b)) (past es a) \<subset> at es (proc (es ! b)) (past es b)"
        using sub [of "proc (es ! b)"] by (auto simp: at_def)
      then show ?thesis
        unfolding word_less_nat_alt cnt [OF assms(3)] cnt [OF assms(4)] by (rule psubset_card_mono [OF fin])
    qed
    ultimately show "(\<forall>k. ?v a k \<le> ?v b k) \<and> (\<exists>k. ?v a k < ?v b k)" by blast
  qed
qed

definition sample_run :: "event list" where
  "sample_run = [Local ''a'', Local ''b'', Receive ''b'' 0, Local ''a'']"

theorem vector_clock_causality_witness:
  "happens_before sample_run 0 2 \<and> \<not> happens_before sample_run 1 3"
proof -
  have s: "sound sample_run" "length sample_run = 4"
    by (simp_all add: sound_def sample_run_def less_Suc_eq numeral_eq_Suc)
  have "vec_compare (vstamp (execution sample_run) ! 0) (vstamp (execution sample_run) ! 2) = Before"
    "vec_compare (vstamp (execution sample_run) ! 1) (vstamp (execution sample_run) ! 3) = Concurrent"
    by code_simp+
  then show ?thesis
    using vector_clock_causality [OF s(1), of 0 2] vector_clock_causality [OF s(1), of 1 3] s(2) by simp
qed

section \<open>Lamport stamps\<close>

lemma lamport_observe_max: "lamport_observe r c = (max c r + 1, max c r + 1)"
  by (auto simp: lamport_observe_def Let_def max_def not_less intro: order.antisym)

definition lamport_ok :: "event list \<Rightarrow> bool" where
  "lamport_ok es \<longleftrightarrow> (\<forall>p. unat (lclock (execution es) p) \<le> length es)
    \<and> (\<forall>n<length es. unat (lstamp (execution es) ! n) \<le> length es)
    \<and> (\<forall>n<length es. lstamp (execution es) ! n \<le> lclock (execution es) (proc (es ! n)))
    \<and> (\<forall>(a, b)\<in>causes es. lstamp (execution es) ! a < lstamp (execution es) ! b)"

lemma lamport_ok: "sound es \<Longrightarrow> length es < 2 ^ 64 \<Longrightarrow> lamport_ok es"
proof (induction es rule: rev_induct)
  case Nil
  then show ?case by (simp add: lamport_ok_def execution_def start_def causes_def)
next
  case (snoc e es)
  let ?s = "execution es"
  have "lamport_ok es" using snoc by (auto simp: sound_snoc)
  then have IH: "\<And>p. unat (lclock ?s p) \<le> length es" "\<And>n. n < length es \<Longrightarrow> unat (lstamp ?s ! n) \<le> length es"
    "\<And>n. n < length es \<Longrightarrow> lstamp ?s ! n \<le> lclock ?s (proc (es ! n))"
    "\<And>a b. (a, b) \<in> causes es \<Longrightarrow> lstamp ?s ! a < lstamp ?s ! b"
    by (auto simp: lamport_ok_def)
  define m where "m = (case e of Local p \<Rightarrow> lclock ?s p | Receive p j \<Rightarrow> max (lclock ?s p) (lstamp ?s ! j))"
  have m: "unat m \<le> length es" "lclock ?s (proc e) \<le> m"
  proof -
    have "unat (max (lclock ?s p) (lstamp ?s ! j)) \<le> length es" if "j < length es" for p j
      using IH(1) [of p] IH(2) [OF that] by (simp add: max_def)
    then show "unat m \<le> length es" using IH(1) snoc.prems by (cases e) (simp_all add: m_def sound_snoc)
    show "lclock ?s (proc e) \<le> m" by (cases e) (simp_all add: m_def)
  qed
  have inc: "unat (m + 1) = unat m + 1" using m(1) snoc.prems unat_add_lem [of m 1] by simp
  have s: "lclock (execution (es @ [e])) = (lclock ?s)(proc e := m + 1)" "lstamp (execution (es @ [e])) = lstamp ?s @ [m + 1]"
    by (cases e; simp add: execution_snoc Let_def m_def lamport_tick_def lamport_observe_max)+
  have up: "x < m + 1" if "x \<le> m" for x using that inc by (simp add: word_le_nat_alt word_less_nat_alt)
  have len: "length (lstamp ?s) = length es" using stamp_length [of es] by blast
  have pred: "lstamp ?s ! a \<le> m" if "a \<in> preds es e" for a
  proof (cases "proc (es ! a) = proc e")
    case True
    then show ?thesis using IH(3) [of a] m(2) that by (auto simp: preds_def intro: order.trans)
  next
    case False
    then have "\<exists>p. e = Receive p a" using that unfolding preds_def by blast
    then obtain p where "e = Receive p a" ..
    then show ?thesis by (simp add: m_def)
  qed
  have own: "lstamp ?s ! n \<le> m + 1" if "n < length es" "proc (es ! n) = proc e" for n
    using pred [of n] up that by (simp add: preds_def less_imp_le)
  show ?case
    unfolding lamport_ok_def
  proof (intro conjI allI impI)
    fix p show "unat (lclock (execution (es @ [e])) p) \<le> length (es @ [e])"
      using IH(1) [of p] m(1) inc by (simp add: s)
  next
    fix n assume n: "n < length (es @ [e])"
    then consider "n < length es" | "n = length es" by fastforce
    then show "unat (lstamp (execution (es @ [e])) ! n) \<le> length (es @ [e])"
      using IH(2) [of n] m(1) inc len by cases (simp_all add: s nth_append)
    from n consider "n < length es" | "n = length es" by fastforce
    then show "lstamp (execution (es @ [e])) ! n \<le> lclock (execution (es @ [e])) (proc ((es @ [e]) ! n))"
      using IH(3) [of n] own [of n] len by cases (simp_all add: s nth_append)
  next
    show "\<forall>(a, b)\<in>causes (es @ [e]). lstamp (execution (es @ [e])) ! a < lstamp (execution (es @ [e])) ! b"
    proof clarify
      fix a b assume "(a, b) \<in> causes (es @ [e])"
      then consider "(a, b) \<in> causes es" | "b = length es" "a \<in> preds es e" by (auto simp: causes_snoc)
      then show "lstamp (execution (es @ [e])) ! a < lstamp (execution (es @ [e])) ! b"
      proof cases
        case 1
        then have "a < length es" "b < length es" by (auto simp: causes_def)
        then show ?thesis using IH(4) [OF 1] len by (simp add: s nth_append)
      next
        case 2
        then have "a < length es" by (simp add: preds_def)
        then show ?thesis using up [OF pred [OF 2(2)]] 2(1) len by (simp add: s nth_append)
      qed
    qed
  qed
qed

text \<open>Lamport stamps respect causality: an event that happened before another has the smaller
  stamp, as long as the counters do not overflow.\<close>

lemma lamport_causality:
  assumes "sound es" "length es < 2 ^ 64" and "happens_before es a b"
  shows "lstamp (execution es) ! a < lstamp (execution es) ! b"
proof -
  have step: "\<And>a b. (a, b) \<in> causes es \<Longrightarrow> lstamp (execution es) ! a < lstamp (execution es) ! b"
    using lamport_ok [OF assms(1,2)] by (auto simp: lamport_ok_def)
  from assms(3) have "(a, b) \<in> (causes es)\<^sup>+" by (simp add: happens_before_def)
  then show ?thesis
    by (induction rule: trancl_induct) (auto intro: step order.strict_trans)
qed

lemma lamport_causality_witness:
  "lstamp (execution sample_run) ! 0 < lstamp (execution sample_run) ! 2"
proof (rule lamport_causality)
  show "sound sample_run" by (simp add: sound_def sample_run_def less_Suc_eq numeral_eq_Suc)
  show "length sample_run < 2 ^ 64" by (simp add: sample_run_def)
  have "(0, 2) \<in> causes sample_run" by (simp add: causes_def sample_run_def)
  then show "happens_before sample_run 0 2" by (auto simp: happens_before_def)
qed

end
