(* ===== verification/Crdt.thy ===== *)
theory Crdt
  imports Clock
begin

text \<open>
  Replicated counters (\<open>pkg/crdt\<close>). A grow-only counter has the state and the merge of a vector
  clock; the counter that also decreases is a pair of them. Both merge by maximum, so they are
  instances of \<open>join_state\<close> and converge; the value of a replica that has heard from everybody is
  the sum of all increments.
\<close>

record GCounter =
  counts :: vector

definition NewGCounter :: GCounter where
  "NewGCounter = \<lparr>counts = []\<rparr>"

definition g_increment :: "string \<Rightarrow> 64 word \<Rightarrow> GCounter \<Rightarrow> GCounter" where
  "g_increment node delta g = g\<lparr>counts := AList.update node (vget (counts g) node + delta) (counts g)\<rparr>"

definition g_value :: "GCounter \<Rightarrow> 64 word" where
  "g_value g = sum_list (map snd (counts g))"

definition g_merge :: "GCounter \<Rightarrow> GCounter \<Rightarrow> GCounter" where
  "g_merge g h = g\<lparr>counts := fold (\<lambda>(node, c) m. if c > vget m node then AList.update node c m else m) (counts h) (counts g)\<rparr>"

definition g_clone :: "GCounter \<Rightarrow> GCounter" where
  "g_clone g = \<lparr>counts = fold (\<lambda>(node, v) m. AList.update node v m) (counts g) []\<rparr>"

definition g_state :: "GCounter \<Rightarrow> vector" where
  "g_state g = counts (g_clone g)"

record PNCounter =
  pos :: GCounter
  neg :: GCounter

definition NewPNCounter :: PNCounter where
  "NewPNCounter = \<lparr>pos = NewGCounter, neg = NewGCounter\<rparr>"

definition pn_increment :: "string \<Rightarrow> 64 word \<Rightarrow> PNCounter \<Rightarrow> PNCounter" where
  "pn_increment node delta c = c\<lparr>pos := g_increment node delta (pos c)\<rparr>"

definition pn_decrement :: "string \<Rightarrow> 64 word \<Rightarrow> PNCounter \<Rightarrow> PNCounter" where
  "pn_decrement node delta c = c\<lparr>neg := g_increment node delta (neg c)\<rparr>"

text \<open>The difference of two \<open>int64\<close> conversions wraps like the machine's.\<close>

definition pn_value :: "PNCounter \<Rightarrow> int" where
  "pn_value c = sint (g_value (pos c) - g_value (neg c))"

definition pn_merge :: "PNCounter \<Rightarrow> PNCounter \<Rightarrow> PNCounter" where
  "pn_merge c d = c\<lparr>pos := g_merge (pos c) (pos d), neg := g_merge (neg c) (neg d)\<rparr>"

definition pn_clone :: "PNCounter \<Rightarrow> PNCounter" where
  "pn_clone c = \<lparr>pos = g_clone (pos c), neg = g_clone (neg c)\<rparr>"

section \<open>Components\<close>

definition gok :: "GCounter \<Rightarrow> bool" where
  "gok g \<longleftrightarrow> vok (counts g)"

definition gget :: "GCounter \<Rightarrow> string \<Rightarrow> 64 word" where
  "gget g = vget (counts g)"

lemma g_merge_alt: "g_merge g h = g\<lparr>counts := vec_merge (counts g) (counts h)\<rparr>"
  by (simp add: g_merge_def vec_merge_def)

lemma g_clone_alt: "g_clone g = \<lparr>counts = vec_clone (counts g)\<rparr>"
  by (simp add: g_clone_def vec_clone_def)

interpretation gc: join_state gok gget g_merge
  by unfold_locales (simp_all add: gok_def gget_def g_merge_alt vec_merge_ok vget_merge)

lemma g_simps [simp]:
  "gok NewGCounter" "gget NewGCounter k = 0" "gok g \<Longrightarrow> gok (g_increment i d g)"
  "gget (g_increment i d g) k = (if k = i then gget g i + d else gget g k)"
  "gok g \<Longrightarrow> gok (g_clone g)" "gok g \<Longrightarrow> gget (g_clone g) = gget g"
  using vec_clone [of "counts g"] vget_clone [of "counts g"]
  by (auto simp: gok_def gget_def NewGCounter_def g_increment_def g_clone_alt) (simp_all add: vok_def vget_def)

text \<open>The value is a function of the components.\<close>

lemma g_value_sum:
  assumes "gok g" and "finite K" and "\<And>k. k \<notin> K \<Longrightarrow> gget g k = 0"
  shows "g_value g = (\<Sum>k\<in>K. gget g k)"
proof -
  have d: "distinct (map fst (counts g))" using assms(1) by (simp add: gok_def vok_def)
  let ?D = "fst ` set (counts g)"
  have "g_value g = (\<Sum>x\<in>set (counts g). snd x)"
    using d by (simp add: g_value_def sum_list_distinct_conv_sum_set distinct_map)
  also have "\<dots> = (\<Sum>k\<in>?D. gget g k)"
    using d vget_in [of "counts g"] by (intro sum.reindex_cong [symmetric]) (auto simp: distinct_map vok_def gget_def intro: inj_onI)
  also have "\<dots> = (\<Sum>k\<in>?D \<union> K. gget g k)"
  proof (rule sum.mono_neutral_left)
    show "\<forall>i\<in>?D \<union> K - ?D. gget g i = 0"
      by (auto simp: gget_def vget_def map_of_eq_None_iff [THEN iffD2] image_iff split: option.splits dest!: map_of_SomeD)
  qed (use assms in auto)
  also have "\<dots> = (\<Sum>k\<in>K. gget g k)"
    by (rule sum.mono_neutral_right) (use assms in auto)
  finally show ?thesis .
qed

lemma g_value_cong:
  assumes "gok g" "gok h" and "gget g = gget h"
  shows "g_value g = g_value h"
proof -
  let ?K = "fst ` set (counts g)"
  have z: "gget g k = 0" if "k \<notin> ?K" for k
    using that by (auto simp: gget_def vget_def image_iff split: option.splits dest!: map_of_SomeD)
  show ?thesis using g_value_sum [OF assms(1), of ?K] g_value_sum [OF assms(2), of ?K] z assms(3) by simp
qed

definition pnok :: "PNCounter \<Rightarrow> bool" where
  "pnok c \<longleftrightarrow> gok (pos c) \<and> gok (neg c)"

definition pnget :: "PNCounter \<Rightarrow> bool \<times> string \<Rightarrow> 64 word" where
  "pnget c x = gget (if fst x then pos c else neg c) (snd x)"

interpretation pn: join_state pnok pnget pn_merge
  by unfold_locales (simp_all add: pnok_def pnget_def pn_merge_def gc.ok_merge gc.merge_max)

lemma pn_value_cong:
  assumes "pnok c" "pnok d" and "pnget c = pnget d"
  shows "pn_value c = pn_value d"
proof -
  have "gget (pos c) = gget (pos d)" using fun_cong [OF assms(3), of "(True, _)"] by (intro ext) (simp add: pnget_def)
  moreover have "gget (neg c) = gget (neg d)" using fun_cong [OF assms(3), of "(False, _)"] by (intro ext) (simp add: pnget_def)
  ultimately have "g_value (pos c) = g_value (pos d)" "g_value (neg c) = g_value (neg d)"
    using assms(1,2) g_value_cong by (auto simp: pnok_def)
  then show ?thesis by (simp add: pn_value_def)
qed

text \<open>Strong eventual consistency: two replicas of a counter that goes up and down, having
  merged the same set of states (their own included) in any order and any number of times, read the
  same value.\<close>

lemma pncounter_converges:
  assumes "pnok a" "\<forall>x\<in>set as. pnok x" "pnok b" "\<forall>x\<in>set bs. pnok x" and "insert a (set as) = insert b (set bs)"
  shows "pn_value (fold (\<lambda>x s. pn_merge s x) as a) = pn_value (fold (\<lambda>x s. pn_merge s x) bs b)"
  by (rule pn_value_cong [OF pn.fold_ok [OF assms(1,2)] pn.fold_ok [OF assms(3,4)] pn.converge [OF assms]])

lemma pncounter_converges_witness:
  "let x = pn_increment ''a'' 5 (pn_decrement ''a'' 1 NewPNCounter); y = pn_decrement ''b'' 4 NewPNCounter in
     pn_value (fold (\<lambda>s r. pn_merge r s) [y, x, y] x) = pn_value (fold (\<lambda>s r. pn_merge r s) [x] y)
     \<and> pn_value (fold (\<lambda>s r. pn_merge r s) [x] y) = 0"
proof -
  let ?x = "pn_increment ''a'' 5 (pn_decrement ''a'' 1 NewPNCounter)" and ?y = "pn_decrement ''b'' 4 NewPNCounter"
  have "pnok ?x" "pnok ?y" by (simp_all add: pnok_def pn_increment_def pn_decrement_def NewPNCounter_def)
  then have "pn_value (fold (\<lambda>s r. pn_merge r s) [?y, ?x, ?y] ?x) = pn_value (fold (\<lambda>s r. pn_merge r s) [?x] ?y)"
    by (intro pncounter_converges) auto
  moreover have "pn_value (fold (\<lambda>s r. pn_merge r s) [?x] ?y) = 0" by code_simp
  ultimately show ?thesis by (simp only: Let_def)
qed

section \<open>Gossiping replicas\<close>

text \<open>Every replica increments its own component and merges copies of the others' states.\<close>

datatype gossip = Inc string "64 word" | Pull string string

fun gossip_step :: "gossip \<Rightarrow> (string \<Rightarrow> GCounter) \<Rightarrow> (string \<Rightarrow> GCounter)" where
  "gossip_step (Inc i d) r = r(i := g_increment i d (r i))"
| "gossip_step (Pull i j) r = r(i := g_merge (r i) (g_clone (r j)))"

fun added :: "string \<Rightarrow> gossip \<Rightarrow> nat" where
  "added i (Inc j d) = (if j = i then unat d else 0)"
| "added i (Pull _ _) = 0"

definition total :: "string \<Rightarrow> gossip list \<Rightarrow> nat" where
  "total i ops = sum_list (map (added i) ops)"

definition gossip_inv :: "gossip list \<Rightarrow> (string \<Rightarrow> GCounter) \<Rightarrow> bool" where
  "gossip_inv ops r \<longleftrightarrow> (\<forall>i. gok (r i)) \<and> (\<forall>k. unat (gget (r k) k) = total k ops) \<and> (\<forall>i k. gget (r i) k \<le> gget (r k) k)"

lemma gossip_inv_step:
  assumes inv: "gossip_inv ops r" and small: "\<forall>k. total k (ops @ [x]) < 2 ^ 64"
  shows "gossip_inv (ops @ [x]) (gossip_step x r)"
proof (cases x)
  case (Inc i d)
  have "unat (gget (r i) i) + unat d < 2 ^ 64" using inv small Inc by (auto simp: gossip_inv_def total_def split: if_splits)
  then have add: "unat (gget (r i) i + d) = unat (gget (r i) i) + unat d" using unat_add_lem [of "gget (r i) i" d] by simp
  then have up: "gget (r i) i \<le> gget (r i) i + d" by (simp add: word_le_nat_alt)
  show ?thesis
    using inv add up order.trans [OF _ up] unfolding gossip_inv_def by (auto simp: Inc total_def)
next
  case (Pull i j)
  have ok: "\<And>i. gok (r i)" and le: "\<And>i k. gget (r i) k \<le> gget (r k) k" using inv by (simp_all add: gossip_inv_def)
  have m: "gget (g_merge (r i) (g_clone (r j))) k = max (gget (r i) k) (gget (r j) k)" for k
    using ok by (simp add: gc.merge_max)
  have "max (gget (r i) i) (gget (r j) i) = gget (r i) i" using le [of j i] by (simp add: max_def)
  then show ?thesis
    using inv ok le unfolding gossip_inv_def by (auto simp: Pull total_def m gc.ok_merge)
qed

lemma total_mono: "total k ops \<le> total k (ops @ xs)"
  by (simp add: total_def)

lemma gossip_inv_run:
  "\<forall>k. total k ops < 2 ^ 64 \<Longrightarrow> gossip_inv ops (fold gossip_step ops (\<lambda>_. NewGCounter))"
proof (induction ops rule: rev_induct)
  case (snoc x ops)
  have "\<forall>k. total k ops < 2 ^ 64" using snoc.prems total_mono le_less_trans by blast
  with snoc show ?case by (simp add: gossip_inv_step)
qed (simp add: gossip_inv_def total_def)


lemma total_pulls [simp]: "total k (ops @ map (Pull i) js) = total k ops"
  by (induction js) (simp_all add: total_def)

text \<open>After pulling from \<open>js\<close>, a replica has the owners' components of all of them.\<close>

lemma pulled:
  assumes small: "\<forall>k. total k ops < 2 ^ 64"
  shows "\<forall>k\<in>insert i (set js). unat (gget (fold gossip_step (ops @ map (Pull i) js) (\<lambda>_. NewGCounter) i) k) = total k ops"
proof (induction js rule: rev_induct)
  case Nil
  then show ?case using gossip_inv_run [OF small] by (simp add: gossip_inv_def)
next
  case (snoc j js)
  let ?r = "fold gossip_step (ops @ map (Pull i) js) (\<lambda>_. NewGCounter)"
  have inv: "gossip_inv (ops @ map (Pull i) js) ?r" by (rule gossip_inv_run) (use small in simp)
  then have ok: "\<And>i. gok (?r i)" and own: "\<And>k. unat (gget (?r k) k) = total k ops" and le: "\<And>i k. gget (?r i) k \<le> gget (?r k) k"
    by (simp_all add: gossip_inv_def del: fold_append)
  have m: "gget (g_merge (?r i) (g_clone (?r j))) k = max (gget (?r i) k) (gget (?r j) k)" for k
    using ok [of i] ok [of j] by (simp add: gc.merge_max del: fold_append)
  have "unat (gget (g_merge (?r i) (g_clone (?r j))) k) = total k ops" if "k \<in> insert i (set (js @ [j]))" for k
  proof (cases "k = j")
    case True
    then show ?thesis unfolding m using le [of i j] own [of j] by (simp add: max_def del: fold_append)
  next
    case False
    then have "unat (gget (?r i) k) = total k ops" using that snoc by (auto simp del: fold_append)
    then have "gget (?r i) k = gget (?r k) k" using own [of k] by (simp add: word_unat_eq_iff del: fold_append)
    then show ?thesis unfolding m using le [of j k] own [of k] by (simp add: max_def del: fold_append)
  qed
  then show ?case by simp
qed

text \<open>\<^bold>\<open>C29\<close> No increment is lost or counted twice: whatever the replicas incremented and merged before,
  in any order, a replica that then hears from every replica that ever incremented reads exactly the
  sum of all increments.\<close>

theorem gcounter_total:
  assumes "distinct (i # js)" and "\<forall>k. k \<notin> set (i # js) \<longrightarrow> total k ops = 0" and "(\<Sum>k\<leftarrow>i # js. total k ops) < 2 ^ 64"
  shows "unat (g_value (fold gossip_step (ops @ map (Pull i) js) (\<lambda>_. NewGCounter) i)) = (\<Sum>k\<leftarrow>i # js. total k ops)"
proof -
  let ?r = "fold gossip_step (ops @ map (Pull i) js) (\<lambda>_. NewGCounter)" and ?K = "set (i # js)"
  have sum: "(\<Sum>k\<leftarrow>i # js. total k ops) = (\<Sum>k\<in>?K. total k ops)"
    by (rule sum_list_distinct_conv_sum_set [OF assms(1)])
  have "total k ops \<le> (\<Sum>k\<in>?K. total k ops)" if "k \<in> ?K" for k
    using that by (intro member_le_sum) simp_all
  then have small: "\<forall>k. total k ops < 2 ^ 64" using assms(2,3) unfolding sum by (metis le_less_trans zero_less_numeral zero_less_power)
  have inv: "gossip_inv (ops @ map (Pull i) js) ?r" by (rule gossip_inv_run) (use small in simp)
  then have ok: "gok (?r i)" and le: "\<And>k. gget (?r i) k \<le> gget (?r k) k" and own: "\<And>k. unat (gget (?r k) k) = total k ops"
    by (simp_all add: gossip_inv_def del: fold_append)
  have "gget (?r i) k = 0" if "k \<notin> ?K" for k
    using le [of k] own [of k] assms(2) that by (simp add: word_le_nat_alt unat_eq_0 del: fold_append)
  then have "g_value (?r i) = (\<Sum>k\<in>?K. gget (?r i) k)" using g_value_sum [OF ok, of ?K] by blast
  also have "\<dots> = (\<Sum>k\<in>?K. of_nat (total k ops))"
  proof (rule sum.cong)
    fix k assume "k \<in> ?K"
    then have "unat (gget (?r i) k) = total k ops" using pulled [OF small, of i js] by (auto simp del: fold_append)
    then show "gget (?r i) k = of_nat (total k ops)" using small by (simp add: word_unat_eq_iff)
  qed simp
  also have "\<dots> = of_nat (\<Sum>k\<in>?K. total k ops)" by simp
  finally have "unat (g_value (?r i)) = unat (of_nat (\<Sum>k\<in>?K. total k ops) :: 64 word)" by (rule arg_cong)
  then show ?thesis using assms(3) unfolding sum by (simp only: unat_of_nat_u64)
qed

theorem gcounter_total_witness:
  "unat (g_value (fold gossip_step
     ([Inc ''a'' 3, Inc ''b'' 4, Pull ''b'' ''a'', Inc ''a'' 2, Pull ''a'' ''b''] @ map (Pull ''c'') [''a'', ''b'']) (\<lambda>_. NewGCounter) ''c'')) = 9"
  by (subst gcounter_total) (auto simp: total_def)

end
