(* ===== verification/Resilience.thy ===== *)
theory Resilience
  imports Prelude
begin

text \<open>
  Circuit breaker, bulkhead and their composition (\<open>pkg/resilience\<close>). A protected call is two critical
  sections around the function, \<open>acquire\<close> and \<open>report\<close>, so calls interleave as sequences of them;
  every reading of the clock is an argument. The semaphore of a bulkhead is the number of slots in
  use, and the case a \<open>select\<close> takes is an argument that has to be enabled.
\<close>

datatype breaker_state = Closed | Open | HalfOpen

fun breaker_string :: "breaker_state \<Rightarrow> string" where
  "breaker_string Open = ''open''"
| "breaker_string HalfOpen = ''half-open''"
| "breaker_string Closed = ''closed''"

record BreakerOptions =
  FailureThreshold :: int
  OpenDuration :: int
  HalfOpenMax :: int
  HalfOpenSuccesses :: int

record Breaker =
  bopts :: BreakerOptions
  bstate :: breaker_state
  bfailures :: int
  openedAt :: int
  halfOpenBusy :: int
  halfOpenOK :: int

definition breaker_defaults :: "BreakerOptions \<Rightarrow> BreakerOptions" where
  "breaker_defaults o0 =
     (let o1 = (if FailureThreshold o0 \<le> 0 then o0\<lparr>FailureThreshold := 5\<rparr> else o0);
          o2 = (if OpenDuration o1 \<le> 0 then o1\<lparr>OpenDuration := 5 * 1000000000\<rparr> else o1);
          o3 = (if HalfOpenMax o2 \<le> 0 then o2\<lparr>HalfOpenMax := 1\<rparr> else o2)
      in if HalfOpenSuccesses o3 \<le> 0 then o3\<lparr>HalfOpenSuccesses := 1\<rparr> else o3)"

definition NewBreaker :: "BreakerOptions \<Rightarrow> Breaker" where
  "NewBreaker opts = \<lparr>bopts = breaker_defaults opts, bstate = Closed, bfailures = 0, openedAt = 0, halfOpenBusy = 0, halfOpenOK = 0\<rparr>"

definition maybeHalfOpen :: "int \<Rightarrow> Breaker \<Rightarrow> Breaker" where
  "maybeHalfOpen now b =
     (if bstate b = Open \<and> now - openedAt b \<ge> OpenDuration (bopts b)
      then b\<lparr>bstate := HalfOpen, halfOpenBusy := 0, halfOpenOK := 0\<rparr> else b)"

definition breaker_status :: "int \<Rightarrow> Breaker \<Rightarrow> Breaker \<times> breaker_state" where
  "breaker_status now b = (let b1 = maybeHalfOpen now b in (b1, bstate b1))"

text \<open>The flag: the call may pass (no \<open>ErrOpen\<close>).\<close>

definition breaker_acquire :: "int \<Rightarrow> Breaker \<Rightarrow> Breaker \<times> bool" where
  "breaker_acquire now b =
     (let b1 = maybeHalfOpen now b in
      case bstate b1 of
        Open \<Rightarrow> (b1, False)
      | HalfOpen \<Rightarrow> if halfOpenBusy b1 \<ge> HalfOpenMax (bopts b1) then (b1, False)
                    else (b1\<lparr>halfOpenBusy := halfOpenBusy b1 + 1\<rparr>, True)
      | Closed \<Rightarrow> (b1, True))"

definition trip :: "int \<Rightarrow> Breaker \<Rightarrow> Breaker" where
  "trip now b = b\<lparr>bstate := Open, openedAt := now, bfailures := 0, halfOpenBusy := 0, halfOpenOK := 0\<rparr>"

definition breaker_report :: "int \<Rightarrow> bool \<Rightarrow> Breaker \<Rightarrow> Breaker" where
  "breaker_report now failed b =
     (case bstate b of
        HalfOpen \<Rightarrow>
          (let b1 = b\<lparr>halfOpenBusy := halfOpenBusy b - 1\<rparr> in
           if failed then trip now b1
           else let b2 = b1\<lparr>halfOpenOK := halfOpenOK b1 + 1\<rparr> in
             if halfOpenOK b2 \<ge> HalfOpenSuccesses (bopts b2) then b2\<lparr>bstate := Closed, bfailures := 0, halfOpenOK := 0\<rparr> else b2)
      | Closed \<Rightarrow>
          if failed
          then let b1 = b\<lparr>bfailures := bfailures b + 1\<rparr> in
            if bfailures b1 \<ge> FailureThreshold (bopts b1) then trip now b1 else b1
          else b\<lparr>bfailures := 0\<rparr>
      | Open \<Rightarrow> b)"

datatype 'e outcome = Done | Failed 'e | ErrOpen | ErrFull | ErrCtx

text \<open>A whole call, nothing else running: \<open>fn\<close> is its error (\<open>None\<close> is success); the result says
  whether \<open>fn\<close> ran through its outcome.\<close>

definition breaker_do :: "int \<Rightarrow> int \<Rightarrow> 'e option \<Rightarrow> Breaker \<Rightarrow> Breaker \<times> 'e outcome" where
  "breaker_do t1 t2 fn b =
     (case breaker_acquire t1 b of
        (b1, False) \<Rightarrow> (b1, ErrOpen)
      | (b1, True) \<Rightarrow> (breaker_report t2 (fn \<noteq> None) b1, case fn of None \<Rightarrow> Done | Some e \<Rightarrow> Failed e))"

section \<open>Any interleaving\<close>

datatype breaker_op = Acquire int | Report int bool | Observe int

fun breaker_step :: "breaker_op \<Rightarrow> Breaker \<Rightarrow> Breaker" where
  "breaker_step (Acquire t) b = fst (breaker_acquire t b)"
| "breaker_step (Report t failed) b = breaker_report t failed b"
| "breaker_step (Observe t) b = fst (breaker_status t b)"

definition breaker_inv :: "Breaker \<Rightarrow> bool" where
  "breaker_inv b \<longleftrightarrow> 0 < FailureThreshold (bopts b) \<and> 0 < OpenDuration (bopts b) \<and> 0 < HalfOpenMax (bopts b)
     \<and> 0 < HalfOpenSuccesses (bopts b)
     \<and> 0 \<le> bfailures b \<and> bfailures b < FailureThreshold (bopts b) \<and> halfOpenBusy b \<le> HalfOpenMax (bopts b)
     \<and> 0 \<le> halfOpenOK b \<and> halfOpenOK b < HalfOpenSuccesses (bopts b) \<and> (bstate b \<noteq> Closed \<longrightarrow> bfailures b = 0)"

lemma bopts_new: "bopts (NewBreaker opts) = breaker_defaults opts"
  by (simp add: NewBreaker_def)

lemma breaker_inv_new: "breaker_inv (NewBreaker opts)"
  by (simp add: breaker_inv_def NewBreaker_def breaker_defaults_def Let_def)

lemma breaker_inv_step: "breaker_inv b \<Longrightarrow> breaker_inv (breaker_step op b)"
  by (cases op; cases "bstate b")
    (auto simp: breaker_inv_def breaker_acquire_def breaker_report_def breaker_status_def maybeHalfOpen_def trip_def Let_def)

text \<open>Whatever calls interleave, the breaker stays within its options: the failure count is below
  the threshold (at the threshold it has already tripped), no more probes are counted in flight than
  allowed, and outside \<open>Closed\<close> no failures are remembered.\<close>

lemma breaker_bounds:
  "let b = fold breaker_step ops (NewBreaker opts) in
     0 \<le> bfailures b \<and> bfailures b < FailureThreshold (breaker_defaults opts)
     \<and> halfOpenBusy b \<le> HalfOpenMax (breaker_defaults opts)
     \<and> 0 \<le> halfOpenOK b \<and> halfOpenOK b < HalfOpenSuccesses (breaker_defaults opts)
     \<and> (bstate b \<noteq> Closed \<longrightarrow> bfailures b = 0)"
proof -
  have o: "bopts (breaker_step op b) = bopts b" for op b
    by (cases op; cases "bstate b")
      (auto simp: breaker_acquire_def breaker_report_def breaker_status_def maybeHalfOpen_def trip_def Let_def)
  have "breaker_inv (fold breaker_step ops b) \<and> bopts (fold breaker_step ops b) = bopts b" if "breaker_inv b" for b
    using that by (induction ops arbitrary: b) (simp_all add: breaker_inv_step o)
  from this [OF breaker_inv_new, of opts]
  have b: "breaker_inv (fold breaker_step ops (NewBreaker opts))"
    "bopts (fold breaker_step ops (NewBreaker opts)) = breaker_defaults opts"
    by (auto simp: bopts_new)
  show ?thesis using b(1) unfolding breaker_inv_def Let_def b(2) by blast
qed

text \<open>A late result is taken for a probe's: a call admitted while the breaker was closed and
  reporting success after it tripped and cooled down closes the circuit, although no probe was sent
  to the dependency.\<close>

lemma breaker_stale_success:
  "let opts = \<lparr>FailureThreshold = 1, OpenDuration = 10, HalfOpenMax = 1, HalfOpenSuccesses = 1\<rparr>;
       b = fold breaker_step [Acquire 0, Acquire 1, Report 2 True, Observe 12, Report 13 False] (NewBreaker opts)
   in bstate (fold breaker_step [Acquire 0, Acquire 1, Report 2 True, Observe 12] (NewBreaker opts)) = HalfOpen
      \<and> bstate b = Closed \<and> halfOpenBusy b = -1"
  by code_simp

section \<open>One call after the other\<close>

text \<open>What the breaker promises: closed with the current run of failures, open since a time, or
  probing with the successes so far.\<close>

datatype circuit = CClosed int | COpen int | CHalf int

fun probe :: "BreakerOptions \<Rightarrow> int \<Rightarrow> bool \<Rightarrow> int \<Rightarrow> circuit" where
  "probe opts now True k = COpen now"
| "probe opts now False k = (if k + 1 \<ge> HalfOpenSuccesses opts then CClosed 0 else CHalf (k + 1))"

fun circuit_call :: "BreakerOptions \<Rightarrow> int \<Rightarrow> int \<Rightarrow> bool \<Rightarrow> circuit \<Rightarrow> circuit \<times> bool" where
  "circuit_call opts t1 t2 failed (CClosed k) =
     (if \<not> failed then CClosed 0 else if k + 1 \<ge> FailureThreshold opts then COpen t2 else CClosed (k + 1), True)"
| "circuit_call opts t1 t2 failed (COpen t) =
     (if t1 - t \<ge> OpenDuration opts then (probe opts t2 failed 0, True) else (COpen t, False))"
| "circuit_call opts t1 t2 failed (CHalf k) = (probe opts t2 failed k, True)"

definition circuit_of :: "Breaker \<Rightarrow> circuit" where
  "circuit_of b = (case bstate b of Closed \<Rightarrow> CClosed (bfailures b) | Open \<Rightarrow> COpen (openedAt b) | HalfOpen \<Rightarrow> CHalf (halfOpenOK b))"

definition idle :: "Breaker \<Rightarrow> bool" where
  "idle b \<longleftrightarrow> breaker_inv b \<and> (bstate b = HalfOpen \<longrightarrow> halfOpenBusy b = 0)"

lemma breaker_do_circuit:
  assumes "idle b"
  shows "idle (fst (breaker_do t1 t2 fn b)) \<and> bopts (fst (breaker_do t1 t2 fn b)) = bopts b
    \<and> (circuit_of (fst (breaker_do t1 t2 fn b)), snd (breaker_do t1 t2 fn b) \<noteq> ErrOpen)
      = circuit_call (bopts b) t1 t2 (fn \<noteq> None) (circuit_of b)"
  using assms
  by (cases "bstate b"; cases fn)
    (auto simp: idle_def breaker_inv_def circuit_of_def breaker_do_def breaker_acquire_def breaker_report_def
      maybeHalfOpen_def trip_def Let_def)

fun breaker_run :: "(int \<times> int \<times> 'e option) list \<Rightarrow> Breaker \<Rightarrow> bool list" where
  "breaker_run [] b = []"
| "breaker_run ((t1, t2, fn) # cs) b = (case breaker_do t1 t2 fn b of (b1, r) \<Rightarrow> (r \<noteq> ErrOpen) # breaker_run cs b1)"

fun circuit_run :: "BreakerOptions \<Rightarrow> (int \<times> int \<times> 'e option) list \<Rightarrow> circuit \<Rightarrow> bool list" where
  "circuit_run opts [] c = []"
| "circuit_run opts ((t1, t2, fn) # cs) c = (case circuit_call opts t1 t2 (fn \<noteq> None) c of (c1, r) \<Rightarrow> r # circuit_run opts cs c1)"

text \<open>\<^bold>\<open>C35\<close> The breaker implements its state diagram: for any calls one after the other, with any
  outcomes at any times, exactly those calls reach the dependency that the diagram lets through (all
  while closed; none for the cooldown after the threshold's last failure; then probes, a failing one
  reopening it and enough successes closing it).\<close>

theorem breaker_refines_diagram:
  "breaker_run cs (NewBreaker opts) = circuit_run (breaker_defaults opts) cs (CClosed 0)"
proof -
  have run: "breaker_run cs b = circuit_run (bopts b) cs (circuit_of b)" if "idle b" for b
    using that
  proof (induction cs arbitrary: b)
    case (Cons c cs)
    obtain t1 t2 fn where c: "c = (t1, t2, fn)" by (cases c)
    obtain b1 r where d: "breaker_do t1 t2 fn b = (b1, r)" by fastforce
    note x = breaker_do_circuit [OF Cons.prems, of t1 t2 fn, unfolded d fst_conv snd_conv]
    have "circuit_call (bopts b) t1 t2 (fn \<noteq> None) (circuit_of b) = (circuit_of b1, r \<noteq> ErrOpen)" using x by simp
    moreover have "breaker_run cs b1 = circuit_run (bopts b) cs (circuit_of b1)" using Cons.IH [of b1] x by simp
    ultimately show ?case by (simp add: c d)
  qed simp
  have "idle (NewBreaker opts)" using breaker_inv_new [of opts] by (simp add: idle_def) (simp add: NewBreaker_def)
  from run [OF this] show ?thesis by (simp add: NewBreaker_def circuit_of_def)
qed

section \<open>The bulkhead\<close>

record Bulkhead =
  inflight :: nat
  capacity :: nat
  wait :: int

definition NewBulkhead :: "int \<Rightarrow> int \<Rightarrow> Bulkhead" where
  "NewBulkhead limit w = \<lparr>inflight = 0, capacity = nat (if limit \<le> 0 then 1 else limit), wait = w\<rparr>"

datatype select = SlotCase | TimerCase | CtxCase | DefaultCase

text \<open>The cases of the \<open>select\<close> that can proceed; the default only when no other can.\<close>

definition enabled :: "bool \<Rightarrow> Bulkhead \<Rightarrow> select \<Rightarrow> bool" where
  "enabled cancelled b ch = (case ch of
       SlotCase \<Rightarrow> inflight b < capacity b
     | TimerCase \<Rightarrow> wait b > 0
     | CtxCase \<Rightarrow> cancelled
     | DefaultCase \<Rightarrow> wait b \<le> 0 \<and> \<not> inflight b < capacity b \<and> \<not> cancelled)"

definition bulkhead_acquire :: "bool \<Rightarrow> select \<Rightarrow> Bulkhead \<Rightarrow> (Bulkhead \<times> 'e outcome) option" where
  "bulkhead_acquire cancelled ch b =
     (if \<not> enabled cancelled b ch then None
      else Some (case ch of
          SlotCase \<Rightarrow> (b\<lparr>inflight := inflight b + 1\<rparr>, Done)
        | TimerCase \<Rightarrow> (b, ErrFull)
        | CtxCase \<Rightarrow> (b, ErrCtx)
        | DefaultCase \<Rightarrow> (b, ErrFull)))"

text \<open>The deferred receive; it would block on an empty channel.\<close>

definition bulkhead_release :: "Bulkhead \<Rightarrow> Bulkhead option" where
  "bulkhead_release b = (if inflight b = 0 then None else Some (b\<lparr>inflight := inflight b - 1\<rparr>))"

definition InFlight :: "Bulkhead \<Rightarrow> nat" where
  "InFlight b = inflight b"

definition Capacity :: "Bulkhead \<Rightarrow> nat" where
  "Capacity b = capacity b"

definition bulkhead_do :: "bool \<Rightarrow> select \<Rightarrow> ('s \<Rightarrow> 's \<times> 'e outcome) \<Rightarrow> Bulkhead \<times> 's \<Rightarrow> ((Bulkhead \<times> 's) \<times> 'e outcome) option" where
  "bulkhead_do cancelled ch fn bs =
     (case bs of (b, s) \<Rightarrow>
      case bulkhead_acquire cancelled ch b of
        None \<Rightarrow> None
      | Some (b1, Done) \<Rightarrow> (case fn s of (s1, r) \<Rightarrow> case bulkhead_release b1 of None \<Rightarrow> None | Some b2 \<Rightarrow> Some ((b2, s1), r))
      | Some (b1, e) \<Rightarrow> Some ((b1, s), e))"

text \<open>\<open>Guard\<close>: the bulkhead outside, the breaker inside; either may be absent.\<close>

definition guard_do :: "bool \<Rightarrow> select \<Rightarrow> int \<Rightarrow> int \<Rightarrow> 'e option
    \<Rightarrow> Bulkhead option \<times> Breaker option \<Rightarrow> ((Bulkhead option \<times> Breaker option) \<times> 'e outcome) option" where
  "guard_do cancelled ch t1 t2 fn g =
     (case g of (bh, br) \<Rightarrow>
      let run = (\<lambda>br. case br of
              None \<Rightarrow> (None, case fn of None \<Rightarrow> Done | Some e \<Rightarrow> Failed e)
            | Some b \<Rightarrow> (case breaker_do t1 t2 fn b of (b1, r) \<Rightarrow> (Some b1, r)))
      in case bh of
           None \<Rightarrow> (case run br of (br1, r) \<Rightarrow> Some ((None, br1), r))
         | Some b \<Rightarrow> (case bulkhead_do cancelled ch run (b, br) of
               None \<Rightarrow> None
             | Some ((b1, br1), r) \<Rightarrow> Some ((Some b1, br1), r)))"

text \<open>Calls in the bulkhead, interleaved: a caller enters by a case of its \<open>select\<close>, one that got a slot leaves.\<close>

datatype bulkhead_op = Enter bool select | Leave

fun bulkhead_step :: "bulkhead_op \<Rightarrow> Bulkhead \<times> nat \<Rightarrow> Bulkhead \<times> nat" where
  "bulkhead_step (Enter cancelled ch) (b, running) =
     (case bulkhead_acquire cancelled ch b of
        Some (b1, r) \<Rightarrow> (b1, if r = (Done :: unit outcome) then running + 1 else running) | None \<Rightarrow> (b, running))"
| "bulkhead_step Leave (b, running) =
     (if running = 0 then (b, running) else case bulkhead_release b of Some b1 \<Rightarrow> (b1, running - 1) | None \<Rightarrow> (b, running))"

text \<open>The bulkhead holds: whatever callers come and go, the slots in use are exactly the calls
  running, never more than the capacity, and a call that ends always finds its slot to give back.\<close>

lemma bulkhead_bound:
  "let (b, running) = fold bulkhead_step ops (NewBulkhead limit w, 0) in
     InFlight b = running \<and> running \<le> Capacity b \<and> Capacity b = nat (max limit 1)
     \<and> (running > 0 \<longrightarrow> bulkhead_release b \<noteq> None)"
proof -
  have "case fold bulkhead_step ops (b, k) of (b', running) \<Rightarrow> inflight b' = running \<and> running \<le> capacity b' \<and> capacity b' = capacity b"
    if "inflight b = k" "k \<le> capacity b" for b k
    using that
  proof (induction ops arbitrary: b k)
    case (Cons op ops)
    obtain b1 k1 where s: "bulkhead_step op (b, k) = (b1, k1)" by fastforce
    then have "inflight b1 = k1 \<and> k1 \<le> capacity b1 \<and> capacity b1 = capacity b"
      using Cons.prems by (cases op)
        (auto simp: bulkhead_acquire_def bulkhead_release_def enabled_def split: if_splits select.splits)
    then show ?case using Cons.IH [of b1 k1] s by simp
  qed simp
  from this [of "NewBulkhead limit w" 0] show ?thesis
    by (auto simp: NewBulkhead_def InFlight_def Capacity_def bulkhead_release_def max_def split: prod.splits)
qed

lemma bulkhead_bound_witness:
  "let (b, running) = fold bulkhead_step [Enter False SlotCase] (NewBulkhead 2 0, 0) in
     running = 1 \<and> InFlight b = 1 \<and> bulkhead_release b \<noteq> None"
  using bulkhead_bound [of "[Enter False SlotCase]" 2 0]
  by (simp add: NewBulkhead_def bulkhead_acquire_def enabled_def InFlight_def)

text \<open>Saturation is not the dependency's fault: a call the bulkhead turns away never reaches the
  breaker, and one it lets in leaves the bulkhead as it found it and the breaker as if called alone.\<close>

lemma guard_order:
  assumes "guard_do cancelled ch t1 t2 fn (Some b, Some br) = Some ((bh', br'), r)"
  shows "bh' = Some b \<and> (if ch = SlotCase then (br', r) = (case breaker_do t1 t2 fn br of (br1, r1) \<Rightarrow> (Some br1, r1))
    else br' = Some br \<and> r \<in> {ErrFull, ErrCtx})"
  using assms
  by (auto simp: guard_do_def bulkhead_do_def bulkhead_acquire_def bulkhead_release_def Let_def
      split: if_splits select.splits option.splits prod.splits outcome.splits)

definition sample_opts :: BreakerOptions where
  "sample_opts = \<lparr>FailureThreshold = 3, OpenDuration = 10, HalfOpenMax = 1, HalfOpenSuccesses = 1\<rparr>"

lemma guard_order_witness:
  "\<exists>bh br r. guard_do False DefaultCase 0 0 (Some ()) (Some ((NewBulkhead 1 0)\<lparr>inflight := 1\<rparr>), Some (NewBreaker sample_opts))
     = Some ((bh, br), r) \<and> br = Some (NewBreaker sample_opts) \<and> r = ErrFull"
proof -
  have g: "guard_do False DefaultCase 0 0 (Some ()) (Some ((NewBulkhead 1 0)\<lparr>inflight := 1\<rparr>), Some (NewBreaker sample_opts))
      = Some ((Some ((NewBulkhead 1 0)\<lparr>inflight := 1\<rparr>), Some (NewBreaker sample_opts)), ErrFull)"
    by (simp add: guard_do_def bulkhead_do_def bulkhead_acquire_def enabled_def NewBulkhead_def Let_def)
  show ?thesis using g guard_order [OF g] by simp
qed

end
