(* ===== verification/Ratelimit.thy ===== *)
theory Ratelimit
  imports Complex_Main Prelude
begin

text \<open>
  The token bucket and its per-key collection (\<open>pkg/ratelimit\<close>). Readings of the clock are arguments,
  in nanoseconds. Floating-point arithmetic is a parameter: \<open>float_laws\<close> are what holds of it in
  general, \<open>exact\<close> is the same code over an ordered field, where nothing is rounded.
\<close>

record 'f float64 =
  fadd :: "'f \<Rightarrow> 'f \<Rightarrow> 'f"
  fsub :: "'f \<Rightarrow> 'f \<Rightarrow> 'f"
  fmul :: "'f \<Rightarrow> 'f \<Rightarrow> 'f"
  fless :: "'f \<Rightarrow> 'f \<Rightarrow> bool"
  ofInt :: "int \<Rightarrow> 'f"
  toInt :: "'f \<Rightarrow> int"
  Seconds :: "int \<Rightarrow> 'f"

text \<open>Conversion of whole numbers respects the sign; comparisons are those of a linear order on the
  values that occur; subtracting a non-negative value does not increase, and taking a value from a
  larger one leaves nothing negative; adding and multiplying non-negative values gives such a value.\<close>

definition float_laws :: "'f float64 \<Rightarrow> bool" where
  "float_laws F \<longleftrightarrow>
     (\<forall>x. \<not> fless F x x)
   \<and> (\<forall>x y z. fless F x y \<longrightarrow> \<not> fless F z y \<longrightarrow> fless F x z)
   \<and> (\<forall>x y. fless F x y \<longrightarrow> \<not> fless F y x)
   \<and> (\<forall>x y. \<not> fless F y (ofInt F 0) \<longrightarrow> \<not> fless F x (fsub F x y))
   \<and> (\<forall>x y. \<not> fless F x y \<longrightarrow> \<not> fless F (fsub F x y) (ofInt F 0))
   \<and> (\<forall>x y. \<not> fless F x (ofInt F 0) \<longrightarrow> \<not> fless F y (ofInt F 0) \<longrightarrow> \<not> fless F (fadd F x y) (ofInt F 0))
   \<and> (\<forall>x y. \<not> fless F x (ofInt F 0) \<longrightarrow> \<not> fless F y (ofInt F 0) \<longrightarrow> \<not> fless F (fmul F x y) (ofInt F 0))
   \<and> (\<forall>i. i \<ge> 0 \<longrightarrow> \<not> fless F (ofInt F i) (ofInt F 0))
   \<and> fless F (ofInt F 0) (ofInt F 10)"

record 'f Options =
  Rate :: 'f
  Burst :: int

definition limit_defaults :: "'f float64 \<Rightarrow> 'f Options \<Rightarrow> 'f Options" where
  "limit_defaults F o0 =
     (let o1 = (if \<not> fless F (ofInt F 0) (Rate o0) then o0\<lparr>Rate := ofInt F 10\<rparr> else o0)
      in if Burst o1 \<le> 0
         then (let o2 = o1\<lparr>Burst := toInt F (Rate o1)\<rparr> in if Burst o2 \<le> 0 then o2\<lparr>Burst := 1\<rparr> else o2)
         else o1)"

record 'f Bucket =
  rate :: 'f
  burst :: 'f
  tokens :: 'f
  last_ns :: int

definition NewBucket :: "'f float64 \<Rightarrow> int \<Rightarrow> 'f Options \<Rightarrow> 'f Bucket" where
  "NewBucket F now opts =
     (let o1 = limit_defaults F opts in
      \<lparr>rate = Rate o1, burst = ofInt F (Burst o1), tokens = ofInt F (Burst o1), last_ns = now\<rparr>)"

definition refill :: "'f float64 \<Rightarrow> int \<Rightarrow> 'f Bucket \<Rightarrow> 'f Bucket" where
  "refill F now b =
     (let elapsed = Seconds F (now - last_ns b) in
      if fless F (ofInt F 0) elapsed
      then (let t = fadd F (tokens b) (fmul F elapsed (rate b)) in
            b\<lparr>tokens := (if fless F (burst b) t then burst b else t), last_ns := now\<rparr>)
      else b)"

definition AllowN :: "'f float64 \<Rightarrow> int \<Rightarrow> int \<Rightarrow> 'f Bucket \<Rightarrow> 'f Bucket \<times> bool" where
  "AllowN F now n b =
     (let b1 = refill F now b in
      if fless F (tokens b1) (ofInt F n) then (b1, False)
      else (b1\<lparr>tokens := fsub F (tokens b1) (ofInt F n)\<rparr>, True))"

definition bucket_allow :: "'f float64 \<Rightarrow> int \<Rightarrow> 'f Bucket \<Rightarrow> 'f Bucket \<times> bool" where
  "bucket_allow F now b = AllowN F now 1 b"

definition Tokens :: "'f float64 \<Rightarrow> int \<Rightarrow> 'f Bucket \<Rightarrow> 'f Bucket \<times> 'f" where
  "Tokens F now b = (let b1 = refill F now b in (b1, tokens b1))"

section \<open>Buckets by key\<close>

text \<open>The bound calls \<open>New\<close> with options that have their defaults already; the maps are association
  lists with one entry per key.\<close>

record 'f Keyed =
  kopts :: "'f Options"
  buckets :: "(string \<times> 'f Bucket) list"
  lastSeen :: "(string \<times> int) list"

definition put :: "'k \<Rightarrow> 'v \<Rightarrow> ('k \<times> 'v) list \<Rightarrow> ('k \<times> 'v) list" where
  "put k v m = (k, v) # filter (\<lambda>(k', _). k' \<noteq> k) m"

definition NewKeyed :: "'f float64 \<Rightarrow> 'f Options \<Rightarrow> 'f Keyed" where
  "NewKeyed F opts = \<lparr>kopts = limit_defaults F opts, buckets = [], lastSeen = []\<rparr>"

text \<open>The call reads the clock when it makes a bucket, when it notes the key, and in the bucket.\<close>

definition keyed_allow :: "'f float64 \<Rightarrow> int \<Rightarrow> int \<Rightarrow> int \<Rightarrow> string \<Rightarrow> 'f Keyed \<Rightarrow> 'f Keyed \<times> bool" where
  "keyed_allow F t0 t1 t2 key k =
     (let b = (case map_of (buckets k) key of Some b \<Rightarrow> b | None \<Rightarrow> NewBucket F t0 (kopts k));
          (b1, ok) = bucket_allow F t2 b
      in (k\<lparr>buckets := put key b1 (buckets k), lastSeen := put key t1 (lastSeen k)\<rparr>, ok))"

definition Cleanup :: "int \<Rightarrow> int \<Rightarrow> 'f Keyed \<Rightarrow> 'f Keyed \<times> nat" where
  "Cleanup now idle k =
     (let gone = filter (\<lambda>(_, seen). now - seen \<ge> idle) (lastSeen k)
      in (k\<lparr>buckets := filter (\<lambda>(key, _). key \<notin> fst ` set gone) (buckets k),
            lastSeen := filter (\<lambda>(key, _). key \<notin> fst ` set gone) (lastSeen k)\<rparr>, length gone))"

definition Size :: "'f Keyed \<Rightarrow> nat" where
  "Size k = length (buckets k)"

section \<open>What a bucket promises\<close>

datatype bucket_op = Spend int nat | Look int

fun bucket_step :: "'f float64 \<Rightarrow> bucket_op \<Rightarrow> 'f Bucket \<Rightarrow> 'f Bucket" where
  "bucket_step F (Spend t n) b = fst (AllowN F t (int n) b)"
| "bucket_step F (Look t) b = fst (Tokens F t b)"

definition bucket_ok :: "'f float64 \<Rightarrow> 'f Bucket \<Rightarrow> bool" where
  "bucket_ok F b \<longleftrightarrow> \<not> fless F (tokens b) (ofInt F 0) \<and> \<not> fless F (burst b) (tokens b)
     \<and> \<not> fless F (rate b) (ofInt F 0)"

lemma float_laws_D:
  assumes "float_laws F"
  shows "\<forall>x. \<not> fless F x x"
    and "\<forall>x y z. fless F x y \<longrightarrow> \<not> fless F z y \<longrightarrow> fless F x z"
    and "\<forall>x y. fless F x y \<longrightarrow> \<not> fless F y x"
    and "\<forall>x y. \<not> fless F y (ofInt F 0) \<longrightarrow> \<not> fless F x (fsub F x y)"
    and "\<forall>x y. \<not> fless F x y \<longrightarrow> \<not> fless F (fsub F x y) (ofInt F 0)"
    and "\<forall>x y. \<not> fless F x (ofInt F 0) \<longrightarrow> \<not> fless F y (ofInt F 0) \<longrightarrow> \<not> fless F (fadd F x y) (ofInt F 0)"
    and "\<forall>x y. \<not> fless F x (ofInt F 0) \<longrightarrow> \<not> fless F y (ofInt F 0) \<longrightarrow> \<not> fless F (fmul F x y) (ofInt F 0)"
    and "\<forall>i. i \<ge> 0 \<longrightarrow> \<not> fless F (ofInt F i) (ofInt F 0)"
    and "fless F (ofInt F 0) (ofInt F 10)"
  using assms unfolding float_laws_def by - (elim conjE, assumption)+

lemma refill_ok:
  assumes F: "float_laws F" and b: "bucket_ok F b"
  shows "bucket_ok F (refill F t b)"
proof -
  note L = float_laws_D [OF F]
  have b': "\<not> fless F (tokens b) (ofInt F 0)" "\<not> fless F (burst b) (tokens b)" "\<not> fless F (rate b) (ofInt F 0)"
    using b unfolding bucket_ok_def by blast+
  have nn: "\<not> fless F (burst b) (ofInt F 0)" using L(2) b' by blast
  show ?thesis
  proof (cases "fless F (ofInt F 0) (Seconds F (t - last_ns b))")
    case True
    let ?t = "fadd F (tokens b) (fmul F (Seconds F (t - last_ns b)) (rate b))"
    have "\<not> fless F ?t (ofInt F 0)" using True L(3,6,7) b' by blast
    then show ?thesis using b' nn L(1) True
      by (cases "fless F (burst b) ?t") (simp_all add: refill_def bucket_ok_def Let_def)
  next
    case False
    then show ?thesis using b by (simp add: refill_def Let_def)
  qed
qed

lemma AllowN_ok:
  assumes F: "float_laws F" and b: "bucket_ok F b"
  shows "bucket_ok F (fst (AllowN F t (int n) b))"
proof -
  note L = float_laws_D [OF F]
  let ?r = "refill F t b"
  note r = refill_ok [OF F b, of t]
  show ?thesis
  proof (cases "fless F (tokens ?r) (ofInt F (int n))")
    case True
    then show ?thesis using r by (simp add: AllowN_def Let_def)
  next
    case False
    have "\<not> fless F (ofInt F (int n)) (ofInt F 0)" using L(8) by simp
    then have "\<not> fless F (tokens ?r) (fsub F (tokens ?r) (ofInt F (int n)))" using L(4) by blast
    then have "\<not> fless F (burst ?r) (fsub F (tokens ?r) (ofInt F (int n)))" using L(2) r unfolding bucket_ok_def by blast
    moreover have "\<not> fless F (fsub F (tokens ?r) (ofInt F (int n))) (ofInt F 0)" using L(5) False by blast
    ultimately show ?thesis using r False by (simp add: AllowN_def Let_def bucket_ok_def)
  qed
qed

lemma NewBucket_ok:
  assumes F: "float_laws F"
  shows "bucket_ok F (NewBucket F now opts)"
proof -
  note L = float_laws_D [OF F]
  have "Burst (limit_defaults F opts) > 0" by (simp add: limit_defaults_def Let_def)
  then have "\<not> fless F (ofInt F (Burst (limit_defaults F opts))) (ofInt F 0)" using L(8) by simp
  moreover have "fless F (ofInt F 0) (Rate (limit_defaults F opts))"
    using L(9) by (simp add: limit_defaults_def Let_def)
  then have "\<not> fless F (Rate (limit_defaults F opts)) (ofInt F 0)" using L(3) by blast
  ultimately show ?thesis using L(1) by (simp add: NewBucket_def bucket_ok_def Let_def)
qed

lemma bucket_run_ok:
  assumes F: "float_laws F"
  shows "bucket_ok F b \<Longrightarrow> bucket_ok F (fold (bucket_step F) ops b)"
proof (induction ops arbitrary: b)
  case (Cons op ops)
  have "bucket_ok F (bucket_step F op b)"
    using AllowN_ok [OF F] refill_ok [OF F] Cons.prems by (cases op) (simp_all add: Tokens_def Let_def)
  then show ?case using Cons.IH by simp
qed simp

text \<open>The same operations without rounding.\<close>

definition exact :: "rat float64" where
  "exact = \<lparr>fadd = (+), fsub = (-), fmul = (*), fless = (<), ofInt = of_int,
            toInt = (\<lambda>x. if x < 0 then - \<lfloor>- x\<rfloor> else \<lfloor>x\<rfloor>), Seconds = (\<lambda>d. of_int d / 1000000000)\<rparr>"

lemma exact_laws: "float_laws exact"
  unfolding float_laws_def exact_def by (simp add: not_less)

text \<open>Whatever is asked of a bucket and whenever, by a clock that may jump, its tokens stay between
  none and its burst.\<close>

lemma bucket_never_over:
  assumes "float_laws F"
  shows "let b = fold (bucket_step F) ops (NewBucket F t0 opts) in
    \<not> fless F (tokens b) (ofInt F 0) \<and> \<not> fless F (burst b) (tokens b)"
  using bucket_run_ok [OF assms NewBucket_ok [OF assms], of ops t0 opts] by (simp add: bucket_ok_def Let_def)

text \<open>The tokens the calls of a list are granted.\<close>

fun granted :: "'f float64 \<Rightarrow> (int \<times> nat) list \<Rightarrow> 'f Bucket \<Rightarrow> nat" where
  "granted F [] b = 0"
| "granted F ((t, n) # cs) b = (case AllowN F t (int n) b of (b1, ok) \<Rightarrow> (if ok then n else 0) + granted F cs b1)"

lemma granted_bound:
  "bucket_ok exact b \<Longrightarrow>
   of_nat (granted exact cs b) \<le> tokens b + rate b * (of_int (fold max (map fst cs) (last_ns b) - last_ns b) / 1000000000)"
proof (induction cs arbitrary: b)
  case Nil
  then show ?case by (simp add: bucket_ok_def exact_def not_less)
next
  case (Cons c cs)
  obtain t n where c: "c = (t, n)" by (cases c)
  obtain b1 ok where a: "AllowN exact t (int n) b = (b1, ok)" by fastforce
  let ?d = "\<lambda>i. rate b * (of_int i / 1000000000 :: rat)"
  have r: "rate b1 = rate b" using a by (auto simp: AllowN_def refill_def Let_def split: if_splits)
  have l: "last_ns b1 = max (last_ns b) t" using a
    by (auto simp: AllowN_def refill_def Let_def exact_def split: if_splits)
  have step: "(if ok then of_nat n else 0) + tokens b1 \<le> tokens b + ?d (last_ns b1 - last_ns b)"
    using a by (auto simp: AllowN_def refill_def Let_def exact_def mult.commute split: if_splits)
  have "bucket_ok exact b1" using AllowN_ok [OF exact_laws Cons.prems, of t n] a by simp
  then have "of_nat (granted exact cs b1) \<le> tokens b1 + ?d (fold max (map fst cs) (last_ns b1) - last_ns b1)"
    using Cons.IH [of b1] r by simp
  moreover have "?d (fold max (map fst cs) (last_ns b1) - last_ns b1) + ?d (last_ns b1 - last_ns b)
    = ?d (fold max (map fst cs) (last_ns b1) - last_ns b)"
    by (simp add: algebra_simps diff_divide_distrib)
  ultimately have "(if ok then of_nat n else 0) + of_nat (granted exact cs b1)
    \<le> tokens b + ?d (fold max (map fst cs) (last_ns b1) - last_ns b)"
    using step by linarith
  then show ?case by (cases ok) (simp_all add: c a l max.commute)
qed


section \<open>Isolation of the keys\<close>

datatype keyed_op = KAllow int int int string | KCleanup int int

fun keyed_run :: "'f float64 \<Rightarrow> keyed_op list \<Rightarrow> 'f Keyed \<Rightarrow> (string \<times> bool) list" where
  "keyed_run F [] k = []"
| "keyed_run F (KAllow t0 t1 t2 key # ops) k =
     (case keyed_allow F t0 t1 t2 key k of (k1, ok) \<Rightarrow> (key, ok) # keyed_run F ops k1)"
| "keyed_run F (KCleanup now idle # ops) k = keyed_run F ops (fst (Cleanup now idle k))"

text \<open>One client alone: its bucket, when it has one, and when it was last seen.\<close>

fun lane_run :: "'f float64 \<Rightarrow> 'f Options \<Rightarrow> string \<Rightarrow> keyed_op list \<Rightarrow> ('f Bucket \<times> int) option \<Rightarrow> bool list" where
  "lane_run F opts me [] l = []"
| "lane_run F opts me (KAllow t0 t1 t2 key # ops) l =
     (if key \<noteq> me then lane_run F opts me ops l
      else case bucket_allow F t2 (case l of Some (b, _) \<Rightarrow> b | None \<Rightarrow> NewBucket F t0 opts) of
             (b1, ok) \<Rightarrow> ok # lane_run F opts me ops (Some (b1, t1)))"
| "lane_run F opts me (KCleanup now idle # ops) l =
     lane_run F opts me ops (case l of Some (b, seen) \<Rightarrow> if now - seen \<ge> idle then None else l | None \<Rightarrow> None)"

definition keyed_ok :: "'f Keyed \<Rightarrow> bool" where
  "keyed_ok k \<longleftrightarrow> fst ` set (buckets k) = fst ` set (lastSeen k) \<and> distinct (map fst (buckets k)) \<and> distinct (map fst (lastSeen k))"

definition lane_of :: "string \<Rightarrow> 'f Keyed \<Rightarrow> ('f Bucket \<times> int) option" where
  "lane_of key k = (case (map_of (buckets k) key, map_of (lastSeen k) key) of
      (Some b, Some t) \<Rightarrow> Some (b, t) | _ \<Rightarrow> None)"

lemma map_of_put: "map_of (put k v m) k' = (if k' = k then Some v else map_of m k')"
  by (simp add: put_def map_of_filter_fst [where P = "\<lambda>x. x \<noteq> k"])

lemma keys_put: "fst ` set (put k v m) = insert k (fst ` set m)" "distinct (map fst m) \<Longrightarrow> distinct (map fst (put k v m))"
  by (auto simp: put_def distinct_map inj_on_def image_iff)

lemma keyed_allow_ok: "keyed_ok k \<Longrightarrow> keyed_ok (fst (keyed_allow F t0 t1 t2 key k))"
  by (simp add: keyed_ok_def keyed_allow_def Let_def split_def keys_put)

lemma keys_filter: "fst ` set (filter (\<lambda>(x, _). P x) m) = {x \<in> fst ` set m. P x}"
  by (induction m) auto

lemma cleanup_ok: "keyed_ok k \<Longrightarrow> keyed_ok (fst (Cleanup now idle k))"
proof -
  assume k: "keyed_ok k"
  let ?P = "\<lambda>x. x \<notin> fst ` set (filter (\<lambda>(_, seen). now - seen \<ge> idle) (lastSeen k))"
  show ?thesis
    using k keys_filter [of ?P "buckets k"] keys_filter [of ?P "lastSeen k"]
    by (simp add: keyed_ok_def Cleanup_def Let_def distinct_map_filter del: set_filter)
qed

lemma lane_allow:
  assumes "keyed_ok k"
  shows "lane_of me (fst (keyed_allow F t0 t1 t2 key k)) = (if key \<noteq> me then lane_of me k
    else Some (fst (bucket_allow F t2 (case lane_of me k of Some (b, _) \<Rightarrow> b | None \<Rightarrow> NewBucket F t0 (kopts k))), t1))"
    and "snd (keyed_allow F t0 t1 t2 me k)
    = snd (bucket_allow F t2 (case lane_of me k of Some (b, _) \<Rightarrow> b | None \<Rightarrow> NewBucket F t0 (kopts k)))"
proof -
  have "(map_of (buckets k) me = None) = (map_of (lastSeen k) me = None)"
    using assms by (simp add: keyed_ok_def map_of_eq_None_iff)
  then show "lane_of me (fst (keyed_allow F t0 t1 t2 key k)) = (if key \<noteq> me then lane_of me k
    else Some (fst (bucket_allow F t2 (case lane_of me k of Some (b, _) \<Rightarrow> b | None \<Rightarrow> NewBucket F t0 (kopts k))), t1))"
    "snd (keyed_allow F t0 t1 t2 me k)
    = snd (bucket_allow F t2 (case lane_of me k of Some (b, _) \<Rightarrow> b | None \<Rightarrow> NewBucket F t0 (kopts k)))"
    by (auto simp: lane_of_def keyed_allow_def Let_def split_def map_of_put split: option.splits)
qed

lemma lane_cleanup:
  assumes k: "keyed_ok k"
  shows "lane_of me (fst (Cleanup now idle k))
    = (case lane_of me k of Some (b, seen) \<Rightarrow> if now - seen \<ge> idle then None else Some (b, seen) | None \<Rightarrow> None)"
proof -
  have gone: "me \<in> fst ` set (filter (\<lambda>(_, seen). now - seen \<ge> idle) (lastSeen k)) \<longleftrightarrow> now - t \<ge> idle"
    if "map_of (lastSeen k) me = Some t" for t
    using that k by (auto simp: keyed_ok_def image_iff map_of_eq_Some_iff dest: eq_key_imp_eq_value)
  let ?P = "\<lambda>x. x \<notin> fst ` set (filter (\<lambda>(_, seen). now - seen \<ge> idle) (lastSeen k))"
  have c: "fst (Cleanup now idle k) = k\<lparr>buckets := filter (\<lambda>(x, _). ?P x) (buckets k), lastSeen := filter (\<lambda>(x, _). ?P x) (lastSeen k)\<rparr>"
    by (simp add: Cleanup_def Let_def)
  have l: "lane_of me (fst (Cleanup now idle k)) = (if ?P me then lane_of me k else None)"
    unfolding c by (simp add: lane_of_def map_of_filter_fst [where P = ?P] del: set_filter)
  show ?thesis
  proof (cases "map_of (lastSeen k) me")
    case None
    then show ?thesis unfolding l by (simp add: lane_of_def del: set_filter split: option.splits)
  next
    case (Some t)
    then show ?thesis unfolding l using gone [OF Some] by (simp add: lane_of_def del: set_filter split: option.splits)
  qed
qed

text \<open>\<^bold>\<open>C40\<close> One client's flood costs the others nothing: in any sequence of calls and clean-ups, the
  answers a key gets are those of a bucket of its own that sees only its calls and forgets itself
  when a clean-up finds it idle.\<close>

theorem keyed_isolation:
  "map snd (filter (\<lambda>(key, _). key = me) (keyed_run F ops (NewKeyed F opts)))
   = lane_run F (limit_defaults F opts) me ops None"
proof -
  have run: "map snd (filter (\<lambda>(key, _). key = me) (keyed_run F ops k)) = lane_run F (kopts k) me ops (lane_of me k)"
    if "keyed_ok k" for k
    using that
  proof (induction ops arbitrary: k)
    case (Cons op ops)
    show ?case
    proof (cases op)
      case (KAllow t0 t1 t2 key)
      let ?k1 = "fst (keyed_allow F t0 t1 t2 key k)"
      have o': "kopts ?k1 = kopts k" by (simp add: keyed_allow_def Let_def split_def)
      note IH = Cons.IH [OF keyed_allow_ok [OF Cons.prems, of F t0 t1 t2 key], unfolded o' lane_allow(1) [OF Cons.prems]]
      show ?thesis using IH lane_allow(2) [OF Cons.prems, of F t0 t1 t2 me] by (auto simp: KAllow split_def)
    next
      case (KCleanup now idle)
      have o': "kopts (fst (Cleanup now idle k)) = kopts k" by (simp add: Cleanup_def Let_def)
      show ?thesis using Cons.IH [OF cleanup_ok [OF Cons.prems, of now idle], unfolded o' lane_cleanup [OF Cons.prems]]
        by (simp add: KCleanup) (auto split: option.splits)
    qed
  qed simp
  have "keyed_ok (NewKeyed F opts)" "lane_of me (NewKeyed F opts) = None" "kopts (NewKeyed F opts) = limit_defaults F opts"
    by (simp_all add: NewKeyed_def keyed_ok_def lane_of_def)
  then show ?thesis using run [of "NewKeyed F opts"] by simp
qed

end
