(* ===== verification/Ringbuf.thy ===== *)
theory Ringbuf
  imports Prelude
begin

text \<open>
  The bounded lock-free queue of many producers and one consumer (\<open>pkg/ringbuf\<close>). Producers interleave
  at every access to shared memory: a call of \<open>TryPush\<close> is a program counter that loads \<open>enq\<close>, loads the
  slot's sequence number, compares and swaps, writes the value and publishes it; a local decision goes
  with the access before it. The consumer is one goroutine with a program counter of its own. Memory is
  sequentially consistent, as Go's atomics are; values are written and read by their owners only.
\<close>

datatype 'a push = Idle | Trying 'a | Loaded 'a u64 | Free 'a u64 | Won 'a u64 | Written 'a u64

datatype 'a pop = Ready | Taking u64 | Taken u64 'a | Freed u64 'a

record 'a mpsc =
  slots :: "(u64 \<times> 'a) list"
  mask :: u64
  enq :: u64
  deq :: u64
  procs :: "nat \<Rightarrow> 'a push"
  consumer :: "'a pop"

function next_pow2 :: "nat \<Rightarrow> nat \<Rightarrow> nat" where
  "next_pow2 capacity n = (if 0 < n \<and> n < capacity then next_pow2 capacity (2 * n) else n)"
  by pat_completeness auto
termination by (relation "measure (\<lambda>(c, n). c - n)") auto

declare next_pow2.simps [simp del]

text \<open>\<open>None\<close> is the panic; \<open>n\<close> would wrap only past capacities no memory holds.\<close>

definition NewMPSC :: "'a \<Rightarrow> int \<Rightarrow> 'a mpsc option" where
  "NewMPSC zero capacity =
     (if capacity < 1 then None
      else let n = next_pow2 (nat capacity) 2 in
        Some \<lparr>slots = map (\<lambda>i. (of_nat i, zero)) [0..<n], mask = of_nat (n - 1), enq = 0, deq = 0,
              procs = (\<lambda>_. Idle), consumer = Ready\<rparr>)"

definition slot_of :: "'a mpsc \<Rightarrow> u64 \<Rightarrow> nat" where
  "slot_of q pos = unat (pos AND mask q)"

text \<open>\<open>int64(a) - int64(b)\<close>, in 64 bits.\<close>

definition dif :: "u64 \<Rightarrow> u64 \<Rightarrow> int" where
  "dif a b = sint (a - b)"

datatype 'a event = Nothing | Claimed nat 'a | Pushed nat bool | Popped "'a option"

definition try_push :: "nat \<Rightarrow> 'a mpsc \<Rightarrow> 'a mpsc \<times> 'a event" where
  "try_push p q =
     (let goto = (\<lambda>pc q. q\<lparr>procs := (procs q)(p := pc)\<rparr>) in
      case procs q p of
        Idle \<Rightarrow> (q, Nothing)
      | Trying v \<Rightarrow> (goto (Loaded v (enq q)) q, Nothing)
      | Loaded v pos \<Rightarrow>
          (let seq = fst (slots q ! slot_of q pos) in
           if dif seq pos = 0 then (goto (Free v pos) q, Nothing)
           else if dif seq pos < 0 then (goto Idle q, Pushed p False)
           else (goto (Trying v) q, Nothing))
      | Free v pos \<Rightarrow>
          if enq q = pos then (goto (Won v pos) (q\<lparr>enq := pos + 1\<rparr>), Claimed p v)
          else (goto (Trying v) q, Nothing)
      | Won v pos \<Rightarrow>
          (let i = slot_of q pos in
           (goto (Written v pos) (q\<lparr>slots := (slots q)[i := (fst (slots q ! i), v)]\<rparr>), Nothing))
      | Written v pos \<Rightarrow>
          (let i = slot_of q pos in
           (goto Idle (q\<lparr>slots := (slots q)[i := (pos + 1, snd (slots q ! i))]\<rparr>), Pushed p True)))"

definition try_pop :: "'a \<Rightarrow> 'a mpsc \<Rightarrow> 'a mpsc \<times> 'a event" where
  "try_pop zero q =
     (case consumer q of
        Ready \<Rightarrow>
          (let pos = deq q; seq = fst (slots q ! slot_of q pos) in
           if dif seq (pos + 1) < 0 then (q, Popped None) else (q\<lparr>consumer := Taking pos\<rparr>, Nothing))
      | Taking pos \<Rightarrow>
          (let i = slot_of q pos in
           (q\<lparr>slots := (slots q)[i := (fst (slots q ! i), zero)], consumer := Taken pos (snd (slots q ! i))\<rparr>, Nothing))
      | Taken pos v \<Rightarrow>
          (let i = slot_of q pos in
           (q\<lparr>slots := (slots q)[i := (pos + of_nat (length (slots q)), snd (slots q ! i))], consumer := Freed pos v\<rparr>, Nothing))
      | Freed pos v \<Rightarrow> (q\<lparr>deq := pos + 1, consumer := Ready\<rparr>, Popped (Some v)))"

definition Len :: "'a mpsc \<Rightarrow> nat" where
  "Len q = (if enq q \<le> deq q then 0
            else let n = unat (enq q - deq q) in if n > length (slots q) then length (slots q) else n)"

definition Cap :: "'a mpsc \<Rightarrow> nat" where
  "Cap q = length (slots q)"

text \<open>A schedule: producer \<open>p\<close> calls \<open>TryPush v\<close> when it is idle, makes its next access, or the consumer
  makes its own; the history is what the steps reported, oldest first.\<close>

datatype 'a move = Call nat 'a | Push nat | Pop

fun ring_step :: "'a \<Rightarrow> 'a move \<Rightarrow> 'a mpsc \<Rightarrow> 'a mpsc \<times> 'a event" where
  "ring_step zero (Call p v) q = (if procs q p = Idle then q\<lparr>procs := (procs q)(p := Trying v)\<rparr> else q, Nothing)"
| "ring_step zero (Push p) q = try_push p q"
| "ring_step zero Pop q = try_pop zero q"

fun ring_run :: "'a \<Rightarrow> 'a move list \<Rightarrow> 'a mpsc \<Rightarrow> 'a mpsc \<times> 'a event list" where
  "ring_run zero [] q = (q, [])"
| "ring_run zero (m # ms) q = (case ring_step zero m q of (q1, e) \<Rightarrow> case ring_run zero ms q1 of (q2, es) \<Rightarrow> (q2, e # es))"

fun claims :: "'a event list \<Rightarrow> 'a list" where
  "claims [] = []"
| "claims (Claimed p v # es) = v # claims es"
| "claims (_ # es) = claims es"

fun popped :: "'a event list \<Rightarrow> 'a list" where
  "popped [] = []"
| "popped (Popped (Some v) # es) = v # popped es"
| "popped (_ # es) = popped es"

section \<open>Counters at their width\<close>

lemma sint_small: "- (2 ^ 63) \<le> x \<Longrightarrow> x < 2 ^ 63 \<Longrightarrow> sint (of_int x :: u64) = x"
  by (simp add: signed_of_int signed_take_bit_int_eq_self)

lemma dif_nat: "a < 2 ^ 63 \<Longrightarrow> b < 2 ^ 63 \<Longrightarrow> dif (of_nat a) (of_nat b) = int a - int b"
proof -
  assume "a < 2 ^ 63" "b < 2 ^ 63"
  then have "sint (of_int (int a - int b) :: u64) = int a - int b" by (intro sint_small) simp_all
  moreover have "(of_nat a - of_nat b :: u64) = of_int (int a - int b)" by simp
  ultimately show ?thesis unfolding dif_def by argo
qed

lemma of_nat_u64_inj: "a < 2 ^ 64 \<Longrightarrow> b < 2 ^ 64 \<Longrightarrow> (of_nat a :: u64) = of_nat b \<longleftrightarrow> a = b"
  by (metis unat_of_nat_u64)

lemma next_pow2_power: "\<exists>k. next_pow2 c (2 ^ Suc j) = 2 ^ Suc k"
proof (induction c "(2::nat) ^ Suc j" arbitrary: j rule: next_pow2.induct)
  case (1 c)
  show ?case
  proof (cases "2 ^ Suc j < c")
    case True
    then obtain k where "next_pow2 c (2 ^ Suc (Suc j)) = 2 ^ Suc k" using 1 [of "Suc j"] by auto
    then show ?thesis using True by (subst next_pow2.simps) auto
  next
    case False
    then show ?thesis by (subst next_pow2.simps) auto
  qed
qed

lemma slot_index:
  assumes "a < 2 ^ 64" "k < 64"
  shows "unat ((of_nat a :: u64) AND of_nat (2 ^ k - 1)) = a mod 2 ^ k"
proof -
  have "(of_nat (2 ^ k - 1) :: u64) = Bit_Operations.mask k"
    by (simp add: mask_eq_exp_minus_1 of_nat_diff)
  then have "(of_nat a :: u64) AND of_nat (2 ^ k - 1) = take_bit k (of_nat a)" by (simp add: take_bit_eq_mask)
  moreover have "unat (take_bit k (of_nat a :: u64)) = take_bit k (unat (of_nat a :: u64))" by (rule unsigned_take_bit_eq)
  moreover have "unat (of_nat a :: u64) = a" using assms(1) by (rule unat_of_nat_u64)
  ultimately show ?thesis by (simp only: take_bit_eq_mod)
qed

section \<open>The sequence protocol\<close>

fun at :: "'a push \<Rightarrow> u64 option" where
  "at (Won v pos) = Some pos"
| "at (Written v pos) = Some pos"
| "at _ = None"

definition held :: "'a mpsc \<Rightarrow> nat \<Rightarrow> bool" where
  "held q j \<longleftrightarrow> (\<exists>p. at (procs q p) = Some (of_nat j))"

definition unwritten :: "'a mpsc \<Rightarrow> nat \<Rightarrow> bool" where
  "unwritten q j \<longleftrightarrow> (\<exists>p v. procs q p = Won v (of_nat j))"

text \<open>\<open>L\<close> are the values claimed so far, in order, \<open>D\<close> the number delivered; positions from \<open>floor\<close>
  on have a slot, as many as there are slots.\<close>

definition floor_pos :: "'a mpsc \<Rightarrow> nat \<Rightarrow> nat" where
  "floor_pos q D = (case consumer q of Freed _ _ \<Rightarrow> D + 1 | _ \<Rightarrow> D)"

definition slot_ok :: "'a mpsc \<Rightarrow> 'a list \<Rightarrow> nat \<Rightarrow> nat \<Rightarrow> bool" where
  "slot_ok q L D j \<longleftrightarrow>
     fst (slots q ! (j mod Cap q)) = of_nat (if j < length L \<and> \<not> held q j then j + 1 else j)
   \<and> (j < length L \<and> \<not> unwritten q j \<and> \<not> (j = D \<and> (\<exists>pos v. consumer q = Taken pos v))
        \<longrightarrow> snd (slots q ! (j mod Cap q)) = L ! j)"

fun proc_ok :: "'a list \<Rightarrow> nat \<Rightarrow> nat \<Rightarrow> 'a push \<Rightarrow> bool" where
  "proc_ok L f n (Loaded v pos) = (\<exists>a \<le> length L. pos = of_nat a)"
| "proc_ok L f n (Free v pos) = (\<exists>a \<le> length L. pos = of_nat a \<and> a < f + n)"
| "proc_ok L f n (Won v pos) = (\<exists>a. f \<le> a \<and> a < length L \<and> pos = of_nat a \<and> L ! a = v)"
| "proc_ok L f n (Written v pos) = (\<exists>a. f \<le> a \<and> a < length L \<and> pos = of_nat a \<and> L ! a = v)"
| "proc_ok L f n _ = True"

fun pop_ok :: "'a mpsc \<Rightarrow> 'a list \<Rightarrow> nat \<Rightarrow> 'a pop \<Rightarrow> bool" where
  "pop_ok q L D Ready = True"
| "pop_ok q L D (Taking pos) = (pos = of_nat D \<and> D < length L \<and> \<not> held q D)"
| "pop_ok q L D (Taken pos v) = (pos = of_nat D \<and> D < length L \<and> \<not> held q D \<and> v = L ! D)"
| "pop_ok q L D (Freed pos v) = (pos = of_nat D \<and> D < length L \<and> v = L ! D)"

definition ring_ok :: "'a mpsc \<Rightarrow> 'a list \<Rightarrow> nat \<Rightarrow> bool" where
  "ring_ok q L D \<longleftrightarrow>
     (\<exists>k. Cap q = 2 ^ Suc k) \<and> mask q = of_nat (Cap q - 1) \<and> length L + Cap q < 2 ^ 63
   \<and> enq q = of_nat (length L) \<and> deq q = of_nat D
   \<and> floor_pos q D \<le> length L \<and> length L \<le> floor_pos q D + Cap q
   \<and> (\<forall>j. floor_pos q D \<le> j \<longrightarrow> j < floor_pos q D + Cap q \<longrightarrow> slot_ok q L D j)
   \<and> (\<forall>p. proc_ok L (floor_pos q D) (Cap q) (procs q p))
   \<and> (\<forall>p p' pos. at (procs q p) = Some pos \<longrightarrow> at (procs q p') = Some pos \<longrightarrow> p = p')
   \<and> pop_ok q L D (consumer q)"

lemma ring_okD:
  assumes "ring_ok q L D"
  shows "\<exists>k. Cap q = 2 ^ Suc k" "mask q = of_nat (Cap q - 1)" "length L + Cap q < 2 ^ 63"
    "enq q = of_nat (length L)" "deq q = of_nat D" "floor_pos q D \<le> length L" "length L \<le> floor_pos q D + Cap q"
    "\<And>j. floor_pos q D \<le> j \<Longrightarrow> j < floor_pos q D + Cap q \<Longrightarrow> slot_ok q L D j"
    "\<And>p. proc_ok L (floor_pos q D) (Cap q) (procs q p)"
    "\<And>p p' pos. at (procs q p) = Some pos \<Longrightarrow> at (procs q p') = Some pos \<Longrightarrow> p = p'"
    "pop_ok q L D (consumer q)"
  using assms unfolding ring_ok_def by blast+

lemma ring_okI:
  assumes "\<exists>k. Cap q = 2 ^ Suc k" "mask q = of_nat (Cap q - 1)" "length L + Cap q < 2 ^ 63"
    "enq q = of_nat (length L)" "deq q = of_nat D" "floor_pos q D \<le> length L" "length L \<le> floor_pos q D + Cap q"
    "\<And>j. floor_pos q D \<le> j \<Longrightarrow> j < floor_pos q D + Cap q \<Longrightarrow> slot_ok q L D j"
    "\<And>p. proc_ok L (floor_pos q D) (Cap q) (procs q p)"
    "\<And>p p' pos. at (procs q p) = Some pos \<Longrightarrow> at (procs q p') = Some pos \<Longrightarrow> p = p'"
    "pop_ok q L D (consumer q)"
  shows "ring_ok q L D"
  unfolding ring_ok_def using assms by blast

lemma ring_slot:
  assumes q: "ring_ok q L D" and a: "a < 2 ^ 64"
  shows "slot_of q (of_nat a) = a mod Cap q" "2 \<le> Cap q" "a mod Cap q < length (slots q)"
proof -
  obtain k where k: "Cap q = 2 ^ Suc k" using ring_okD(1) [OF q] by blast
  have "2 ^ Suc k < (2 ^ 63 :: nat)" using ring_okD(3) [OF q] k by simp
  then have "Suc k < 64" using power_less_imp_less_exp [of "2::nat" "Suc k" 63] by simp
  from slot_index [OF a this] show "slot_of q (of_nat a) = a mod Cap q"
    unfolding slot_of_def ring_okD(2) [OF q] k .
  show "2 \<le> Cap q" using k by simp
  then show "a mod Cap q < length (slots q)" unfolding Cap_def by (intro mod_less_divisor) linarith
qed

lemma window_unique: "f \<le> i \<Longrightarrow> i < f + n \<Longrightarrow> f \<le> j \<Longrightarrow> j < f + n \<Longrightarrow> i mod n = j mod n \<Longrightarrow> i = (j::nat)"
proof (induction i j rule: linorder_wlog)
  case (le i j)
  then have "n dvd j - i" by (metis mod_eq_dvd_iff_nat)
  moreover have "j - i < n" using le by linarith
  ultimately have "j - i = 0" using dvd_imp_le by fastforce
  then show ?case using le by simp
next
  case (sym i j)
  then show ?case by simp
qed

lemma window_slot: "0 < n \<Longrightarrow> \<exists>j \<ge> f. j < f + n \<and> j mod n = (a::nat) mod n"
proof -
  assume n: "0 < n"
  let ?j = "f + (a + (n - 1) * f) mod n"
  have "f + (a + (n - 1) * f) = a + n * f" using n by (cases n) (simp_all add: algebra_simps)
  moreover have "?j mod n = (f + (a + (n - 1) * f)) mod n" by (rule mod_add_right_eq)
  ultimately have "?j mod n = (a + n * f) mod n" by argo
  then have "?j mod n = a mod n" by simp
  then show ?thesis using n by (intro exI [of _ ?j]) simp
qed

lemma slot_seq:
  assumes q: "ring_ok q L D" and a: "a \<le> length L"
  shows "dif (fst (slots q ! slot_of q (of_nat a))) (of_nat a) = 0 \<Longrightarrow> a < floor_pos q D + Cap q"
    and "dif (fst (slots q ! slot_of q (of_nat a))) (of_nat a) < 0 \<Longrightarrow> length L = floor_pos q D + Cap q"
proof -
  note Q = ring_okD [OF q] and n = ring_slot(2) [OF q, of 0, simplified]
  have a64: "a < 2 ^ 64" "a < 2 ^ 63" using a Q(3) by simp_all
  obtain j where j: "floor_pos q D \<le> j" "j < floor_pos q D + Cap q" "j mod Cap q = a mod Cap q"
    using window_slot [of "Cap q" "floor_pos q D" a] n by auto
  define s where "s = (if j < length L \<and> \<not> held q j then j + 1 else j)"
  have "fst (slots q ! slot_of q (of_nat a)) = of_nat s"
    using Q(8) [OF j(1,2)] j(3) unfolding slot_ok_def s_def ring_slot(1) [OF q a64(1)] by simp
  moreover have "s < 2 ^ 63" using j Q(3,6) s_def by (auto split: if_splits)
  ultimately have d: "dif (fst (slots q ! slot_of q (of_nat a))) (of_nat a) = int s - int a"
    using a64(2) dif_nat by simp
  have far: "a \<ge> j + Cap q \<or> a = j \<or> j \<ge> a + Cap q" using j(3)
    by (metis dvd_imp_le le_add_diff_inverse mod_eq_dvd_iff_nat nat_le_linear not_le zero_less_diff nat_add_left_cancel_le le_neq_implies_less)
  show "a < floor_pos q D + Cap q" if "dif (fst (slots q ! slot_of q (of_nat a))) (of_nat a) = 0"
  proof -
    have "s = a" using that d by simp
    then have "a = j" using far n by (auto simp: s_def split: if_splits)
    then show ?thesis using j(2) by simp
  qed
  show "length L = floor_pos q D + Cap q" if "dif (fst (slots q ! slot_of q (of_nat a))) (of_nat a) < 0"
  proof -
    have "s < a" using that d by simp
    then have "a \<ge> j + Cap q" using far n by (auto simp: s_def split: if_splits)
    then show ?thesis using j(1) a Q(7) by linarith
  qed
qed

section \<open>Every access keeps the protocol\<close>

lemma at_upd: "at ((f(p := pc)) r) = (if r = p then at pc else at (f r))"
  by simp

lemma won_upd: "at (f p) = None \<Longrightarrow> at pc = None \<Longrightarrow> (f(p := pc)) r = Won v pos \<longleftrightarrow> f r = Won v pos"
  by auto

lemma ring_goto:
  assumes q: "ring_ok q L D" and at: "at (procs q p) = None" "at pc = None"
    and pc: "proc_ok L (floor_pos q D) (Cap q) pc"
  shows "ring_ok (q\<lparr>procs := (procs q)(p := pc)\<rparr>) L D"
proof -
  let ?q = "q\<lparr>procs := (procs q)(p := pc)\<rparr>"
  note Q = ring_okD [OF q]
  have same: "at (procs ?q r) = at (procs q r)" for r using at by simp
  have h: "held ?q = held q" unfolding held_def same ..
  have u: "unwritten ?q = unwritten q" using won_upd [of "procs q" p pc] at by (simp add: unwritten_def fun_eq_iff del: fun_upd_apply)
  have f: "floor_pos ?q D = floor_pos q D" "Cap ?q = Cap q" by (simp_all add: floor_pos_def Cap_def)
  have s: "slot_ok ?q L D j = slot_ok q L D j" for j by (simp add: slot_ok_def h u f)
  have c: "pop_ok ?q L D x = pop_ok q L D x" for x by (cases x) (simp_all add: h)
  show ?thesis
  proof (rule ring_okI, unfold f s same c)
    show "proc_ok L (floor_pos q D) (Cap q) (procs ?q r)" for r using Q(9) pc by simp
  qed (use Q in \<open>simp_all\<close>)
qed

lemma at_pos:
  assumes q: "ring_ok q L D" and at: "at (procs q p) = Some pos"
  obtains a where "floor_pos q D \<le> a" "a < length L" "pos = of_nat a"
  using ring_okD(9) [OF q, of p] at that by (cases "procs q p") auto

lemma held_pos: "ring_ok q L D \<Longrightarrow> held q j \<Longrightarrow> j < 2 ^ 63 \<Longrightarrow> floor_pos q D \<le> j \<and> j < length L"
proof -
  assume q: "ring_ok q L D" and h: "held q j" and j: "j < 2 ^ 63"
  obtain p where "at (procs q p) = Some (of_nat j)" using h unfolding held_def by blast
  from at_pos [OF q this] obtain a where a: "floor_pos q D \<le> a" "a < length L" "(of_nat j :: u64) = of_nat a" .
  then have "j = a" using ring_okD(3) [OF q] j by (subst (asm) of_nat_u64_inj) simp_all
  then show ?thesis using a by simp
qed

lemma proc_ok_snoc: "proc_ok L f n pc \<Longrightarrow> proc_ok (L @ [v]) f n pc"
  by (cases pc) (auto simp: nth_append intro: le_SucI less_SucI)

lemma proc_ok_raise:
  assumes "proc_ok L f n pc" "at pc \<noteq> Some (of_nat f)"
  shows "proc_ok L (f + 1) n pc"
proof -
  have "\<exists>a. f + 1 \<le> a \<and> a < length L \<and> pos = of_nat a \<and> L ! a = v"
    if c: "\<exists>a. f \<le> a \<and> a < length L \<and> pos = of_nat a \<and> L ! a = v" "pos \<noteq> of_nat f" for pos :: u64 and v
  proof -
    obtain a where a: "f \<le> a" "a < length L" "pos = of_nat a" "L ! a = v" using c(1) by blast
    have "a \<noteq> f" using a(3) c(2) by metis
    then have "f + 1 \<le> a" using a(1) by linarith
    then show ?thesis using a(2-4) by (intro exI [of _ a]) simp
  qed
  moreover have "\<exists>a \<le> length L. pos = of_nat a \<and> a < f + 1 + n"
    if w: "\<exists>a \<le> length L. pos = of_nat a \<and> a < f + n" for pos :: u64
  proof -
    obtain a where a: "a \<le> length L" "pos = of_nat a" "a < f + n" using w by blast
    then show ?thesis by (intro exI [of _ a]) simp
  qed
  ultimately show ?thesis using assms by (cases pc) simp_all
qed

lemma pop_ok_held: "(held q D \<longleftrightarrow> held q' D) \<Longrightarrow> pop_ok q L D c = pop_ok q' L D c"
  by (cases c) auto

lemma pop_ok_snoc: "pop_ok q L D c \<Longrightarrow> pop_ok q (L @ [v]) D c"
  by (cases c) (auto simp: nth_append)

lemma ring_claim:
  assumes q: "ring_ok q L D" and pc: "procs q p = Free v pos" and e: "enq q = pos"
    and bound: "Suc (length L) + Cap q < 2 ^ 63"
  shows "ring_ok (q\<lparr>enq := pos + 1, procs := (procs q)(p := Won v pos)\<rparr>) (L @ [v]) D"
proof -
  let ?q = "q\<lparr>enq := pos + 1, procs := (procs q)(p := Won v pos)\<rparr>" and ?e = "length L"
  note Q = ring_okD [OF q]
  have pos: "pos = of_nat ?e" using e Q(4) by simp
  have inj: "(of_nat ?e :: u64) = of_nat j \<longleftrightarrow> j = ?e" if "j < 2 ^ 63" for j
    using that bound by (subst of_nat_u64_inj) auto
  obtain a where a: "a \<le> ?e" "pos = of_nat a" "a < floor_pos q D + Cap q" using Q(9) [of p] pc by auto
  then have room: "?e < floor_pos q D + Cap q" using inj [of a] pos bound by simp
  have free: "at (procs q p) = None" using pc by simp
  have h: "held ?q j \<longleftrightarrow> held q j \<or> j = ?e" if "j < 2 ^ 63" for j
    using inj [OF that] free unfolding held_def pos by (auto simp: at_upd simp del: fun_upd_apply) (metis option.distinct(1))+
  have u: "unwritten ?q j \<longleftrightarrow> unwritten q j \<or> j = ?e" if "j < 2 ^ 63" for j
    using inj [OF that] pc unfolding unwritten_def pos by (auto) (metis push.distinct)+
  have f: "floor_pos ?q D = floor_pos q D" "Cap ?q = Cap q" by (simp_all add: floor_pos_def Cap_def)
  show ?thesis
  proof (rule ring_okI, unfold f)
    fix j assume j: "floor_pos q D \<le> j" "j < floor_pos q D + Cap q"
    have j63: "j < 2 ^ 63" using j Q(6) bound by simp
    show "slot_ok ?q (L @ [v]) D j"
      using Q(8) [OF j] unfolding slot_ok_def h [OF j63] u [OF j63] f by (cases "j < ?e") (auto simp: nth_append)
  next
    show "proc_ok (L @ [v]) (floor_pos q D) (Cap q) (procs ?q r)" for r
      using proc_ok_snoc [OF Q(9)] pos Q(6) by (auto simp: nth_append)
  next
    fix r r' w assume at: "at (procs ?q r) = Some w" "at (procs ?q r') = Some w"
    have other: "r0 = p" if "at (procs q r0) = Some (of_nat ?e)" for r0
      using at_pos [OF q that] inj bound by fastforce
    show "r = r'" using at Q(10) other by (auto simp: at_upd pos simp del: fun_upd_apply split: if_splits)
  next
    have "D \<noteq> ?e" if "consumer q \<noteq> Ready" using that Q(11) by (cases "consumer q") auto
    moreover have "D < 2 ^ 63" if "consumer q \<noteq> Ready" using that Q(11) bound by (cases "consumer q") auto
    ultimately have "pop_ok ?q L D (consumer q)" using Q(11) h [of D] by (cases "consumer q") auto
    then show "pop_ok ?q (L @ [v]) D (consumer ?q)" using pop_ok_snoc by simp
  qed (use Q bound room in \<open>simp_all add: pos\<close>)
qed

lemma slot_update:
  assumes q: "ring_ok q L D" and a: "floor_pos q D \<le> a" "a < floor_pos q D + Cap q"
    and j: "floor_pos q D \<le> j" "j < floor_pos q D + Cap q"
  shows "((slots q)[slot_of q (of_nat a) := x]) ! (j mod Cap q) = (if j = a then x else slots q ! (j mod Cap q))"
proof -
  have a64: "a < 2 ^ 64" using a ring_okD(3,6) [OF q] by simp
  show ?thesis using window_unique [OF a j] ring_slot(3) [OF q a64]
    unfolding ring_slot(1) [OF q a64] by (auto simp: nth_list_update)
qed

lemma ring_write:
  assumes q: "ring_ok q L D" and pc: "procs q p = Won v pos"
  shows "ring_ok (q\<lparr>slots := (slots q)[slot_of q pos := (fst (slots q ! slot_of q pos), v)],
    procs := (procs q)(p := Written v pos)\<rparr>) L D" (is "ring_ok ?q L D")
proof -
  note Q = ring_okD [OF q]
  obtain a where a: "floor_pos q D \<le> a" "a < length L" "pos = of_nat a" "L ! a = v" using Q(9) [of p] pc by auto
  have a': "a < floor_pos q D + Cap q" "a < 2 ^ 64" using a Q(3,7) by simp_all
  have same: "at (procs ?q r) = at (procs q r)" for r using pc by simp
  have h: "held ?q = held q" unfolding held_def same ..
  have u: "unwritten ?q j" if w: "unwritten q j" "j \<noteq> a" "j < 2 ^ 63" for j
  proof -
    obtain r w where r: "procs q r = Won w (of_nat j)" using w(1) unfolding unwritten_def by blast
    have "(of_nat j :: u64) \<noteq> of_nat a" using w(2,3) a'(2) by (subst of_nat_u64_inj) auto
    then have "r \<noteq> p" using r pc a(3) by auto
    then show ?thesis using r unfolding unwritten_def by (intro exI [of _ r] exI [of _ w]) simp
  qed
  have na: "\<not> (a = D \<and> (\<exists>pos v. consumer q = Taken pos v))"
  proof
    assume t: "a = D \<and> (\<exists>pos v. consumer q = Taken pos v)"
    then have "\<not> held q a" using Q(11) by auto
    then show False using pc a(3) unfolding held_def by (metis at.simps(1))
  qed
  have f: "floor_pos ?q D = floor_pos q D" "Cap ?q = Cap q" by (simp_all add: floor_pos_def Cap_def)
  show ?thesis
  proof (rule ring_okI, unfold f same)
    fix j assume j: "floor_pos q D \<le> j" "j < floor_pos q D + Cap q"
    have j63: "j < 2 ^ 63" using j Q(3,6) by simp
    have s: "slots ?q ! (j mod Cap q) = (if j = a then (fst (slots q ! (a mod Cap q)), v) else slots q ! (j mod Cap q))"
      using slot_update [OF q a(1) a'(1) j] ring_slot(1) [OF q a'(2)] by (simp add: a(3))
    show "slot_ok ?q L D j"
      using Q(8) [OF j] u [of j] j63 a(4) unfolding slot_ok_def f s h by (cases "j = a") auto
  next
    show "proc_ok L (floor_pos q D) (Cap q) (procs ?q r)" for r using Q(9) a by auto
  next
    show "pop_ok ?q L D (consumer ?q)" using Q(11) pop_ok_held [of ?q D q L] h by simp
  qed (use Q in simp_all)
qed

lemma ring_publish:
  assumes q: "ring_ok q L D" and pc: "procs q p = Written v pos"
  shows "ring_ok (q\<lparr>slots := (slots q)[slot_of q pos := (pos + 1, snd (slots q ! slot_of q pos))],
    procs := (procs q)(p := Idle)\<rparr>) L D" (is "ring_ok ?q L D")
proof -
  note Q = ring_okD [OF q]
  obtain a where a: "floor_pos q D \<le> a" "a < length L" "pos = of_nat a" "L ! a = v" using Q(9) [of p] pc by auto
  have a': "a < floor_pos q D + Cap q" "a < 2 ^ 64" using a Q(3,7) by simp_all
  have h: "held ?q j \<longleftrightarrow> held q j \<and> j \<noteq> a" if "j < 2 ^ 63" for j
  proof -
    have inj: "(of_nat j :: u64) = of_nat a \<longleftrightarrow> j = a" using that a'(2) by (subst of_nat_u64_inj) auto
    have own: "at (procs q r) = Some (of_nat a) \<longleftrightarrow> r = p" for r using Q(10) [of r _ p] pc a(3) by auto
    have e: "at (procs ?q r) = Some (of_nat j) \<longleftrightarrow> r \<noteq> p \<and> at (procs q r) = Some (of_nat j)" for r
      by simp
    show ?thesis unfolding held_def e using inj own by (metis option.inject)
  qed
  have "procs ?q r = Won w x \<longleftrightarrow> procs q r = Won w x" for r w x using pc by simp
  then have u: "unwritten ?q = unwritten q" unfolding unwritten_def by simp
  have f: "floor_pos ?q D = floor_pos q D" "Cap ?q = Cap q" by (simp_all add: floor_pos_def Cap_def)
  show ?thesis
  proof (rule ring_okI, unfold f)
    fix j assume j: "floor_pos q D \<le> j" "j < floor_pos q D + Cap q"
    have j63: "j < 2 ^ 63" using j Q(3,6) by simp
    have s: "slots ?q ! (j mod Cap q) = (if j = a then (of_nat a + 1, snd (slots q ! (a mod Cap q))) else slots q ! (j mod Cap q))"
      using slot_update [OF q a(1) a'(1) j] ring_slot(1) [OF q a'(2)] by (simp add: a(3))
    show "slot_ok ?q L D j"
      using Q(8) [OF j] a unfolding slot_ok_def f s h [OF j63] u by (cases "j = a") auto
  next
    show "proc_ok L (floor_pos q D) (Cap q) (procs ?q r)" for r using Q(9) by simp
  next
    show "at (procs ?q r) = Some w \<Longrightarrow> at (procs ?q r') = Some w \<Longrightarrow> r = r'" for r r' w
      using Q(10) by (auto split: if_splits)
  next
    have "D < 2 ^ 63" if "consumer q \<noteq> Ready" using that Q(3,11) by (cases "consumer q") auto
    then show "pop_ok ?q L D (consumer ?q)" using Q(11) h [of D] by (cases "consumer q") auto
  qed (use Q in simp_all)
qed

lemma ring_taking:
  assumes q: "ring_ok q L D" and c: "consumer q = Ready"
    and d: "\<not> dif (fst (slots q ! slot_of q (deq q))) (deq q + 1) < 0"
  shows "ring_ok (q\<lparr>consumer := Taking (deq q)\<rparr>) L D" (is "ring_ok ?q L D")
    and "D < length L \<and> \<not> held q D"
proof -
  note Q = ring_okD [OF q]
  have f: "floor_pos q D = D" using c by (simp add: floor_pos_def)
  have f': "floor_pos ?q D = floor_pos q D" "Cap ?q = Cap q" using c by (simp_all add: floor_pos_def Cap_def)
  have D64: "D < 2 ^ 64" "D + 1 < 2 ^ 63" using Q(3,6) f ring_slot(2) [OF q, of 0] by simp_all
  have "slot_ok q L D D" using Q(8) [of D] f ring_slot(2) [OF q, of 0] by simp
  then have s: "fst (slots q ! slot_of q (deq q)) = of_nat (if D < length L \<and> \<not> held q D then D + 1 else D)"
    unfolding Q(5) ring_slot(1) [OF q D64(1)] slot_ok_def by simp
  show t: "D < length L \<and> \<not> held q D"
  proof (rule ccontr)
    assume no: "\<not> (D < length L \<and> \<not> held q D)"
    have w: "deq q + 1 = of_nat (D + 1)" using Q(5) by simp
    have "dif (of_nat D) (of_nat (D + 1)) = -1" using D64 dif_nat [of D "D + 1"] by simp
    then show False using d no unfolding s w by simp
  qed
  have h: "held ?q = held q" by (simp add: held_def fun_eq_iff)
  show "ring_ok ?q L D"
  proof (rule ring_okI, unfold f')
    show "floor_pos q D \<le> j \<Longrightarrow> j < floor_pos q D + Cap q \<Longrightarrow> slot_ok ?q L D j" for j
      using Q(8) [of j] c unfolding slot_ok_def f' h unwritten_def by simp
    show "pop_ok ?q L D (consumer ?q)" using t Q(5) h by simp
    show "at (procs ?q p) = Some pos \<Longrightarrow> at (procs ?q p') = Some pos \<Longrightarrow> p = p'" for p p' pos using Q(10) by simp
  qed (use Q in simp_all)
qed

lemma ring_take:
  assumes q: "ring_ok q L D" and c: "consumer q = Taking pos"
  shows "ring_ok (q\<lparr>slots := (slots q)[slot_of q pos := (fst (slots q ! slot_of q pos), zero)],
    consumer := Taken pos (snd (slots q ! slot_of q pos))\<rparr>) L D" (is "ring_ok ?q L D")
proof -
  note Q = ring_okD [OF q]
  have t: "pos = of_nat D" "D < length L" "\<not> held q D" using Q(11) c by simp_all
  have f: "floor_pos q D = D" using c by (simp add: floor_pos_def)
  have f': "floor_pos ?q D = floor_pos q D" "Cap ?q = Cap q" using c by (simp_all add: floor_pos_def Cap_def)
  have D: "D < 2 ^ 64" "floor_pos q D \<le> D" "D < floor_pos q D + Cap q" using Q(3) t f ring_slot(2) [OF q, of 0] by simp_all
  have "\<not> unwritten q D" using t(3) unfolding held_def unwritten_def by (metis at.simps(1))
  then have v: "snd (slots q ! slot_of q pos) = L ! D"
    using Q(8) [OF D(2,3)] t(2) c unfolding t(1) ring_slot(1) [OF q D(1)] slot_ok_def by simp
  have h: "held ?q = held q" "unwritten ?q = unwritten q" by (simp_all add: held_def unwritten_def fun_eq_iff)
  show ?thesis
  proof (rule ring_okI, unfold f')
    fix j assume j: "floor_pos q D \<le> j" "j < floor_pos q D + Cap q"
    have s: "slots ?q ! (j mod Cap q) = (if j = D then (fst (slots q ! (D mod Cap q)), zero) else slots q ! (j mod Cap q))"
      using slot_update [OF q D(2,3) j] ring_slot(1) [OF q D(1)] by (simp add: t(1))
    show "slot_ok ?q L D j" using Q(8) [OF j] c unfolding slot_ok_def f' s h by (cases "j = D") auto
  next
    show "pop_ok ?q L D (consumer ?q)" using t v h by simp
    show "at (procs ?q p) = Some pos \<Longrightarrow> at (procs ?q p') = Some pos \<Longrightarrow> p = p'" for p p' pos using Q(10) by simp
  qed (use Q in simp_all)
qed

lemma ring_free:
  assumes q: "ring_ok q L D" and c: "consumer q = Taken pos v"
  shows "ring_ok (q\<lparr>slots := (slots q)[slot_of q pos := (pos + of_nat (length (slots q)), snd (slots q ! slot_of q pos))],
    consumer := Freed pos v\<rparr>) L D" (is "ring_ok ?q L D")
proof -
  note Q = ring_okD [OF q]
  have t: "pos = of_nat D" "D < length L" "\<not> held q D" "v = L ! D" using Q(11) c by simp_all
  have f: "floor_pos q D = D" "floor_pos ?q D = D + 1" "Cap ?q = Cap q" using c by (simp_all add: floor_pos_def Cap_def)
  have D: "D < 2 ^ 64" "floor_pos q D \<le> D" "D < floor_pos q D + Cap q" using Q(3) t f ring_slot(2) [OF q, of 0] by simp_all
  have h: "held ?q = held q" "unwritten ?q = unwritten q" by (simp_all add: held_def unwritten_def fun_eq_iff)
  have i: "slot_of q pos = D mod Cap q" using ring_slot(1) [OF q D(1)] t(1) by simp
  show ?thesis
  proof (rule ring_okI, unfold f)
    fix j assume j: "D + 1 \<le> j" "j < D + 1 + Cap q"
    show "slot_ok ?q L D j"
    proof (cases "j = D + Cap q")
      case True
      have "\<not> j < length L" using Q(7) f True by simp
      moreover have "slots ?q ! (j mod Cap q) = (of_nat j, snd (slots q ! (D mod Cap q)))"
        using ring_slot(3) [OF q D(1)] True t(1) i [unfolded t(1)] by (simp add: Cap_def)
      ultimately show ?thesis unfolding slot_ok_def f by simp
    next
      case False
      then have j': "floor_pos q D \<le> j" "j < floor_pos q D + Cap q" "j \<noteq> D" using j f by simp_all
      have "slots ?q ! (j mod Cap q) = slots q ! (j mod Cap q)"
        using slot_update [OF q D(2,3) j'(1,2)] j'(3) by (simp add: t(1))
      then show ?thesis using Q(8) [OF j'(1,2)] j'(3) unfolding slot_ok_def f h by simp
    qed
  next
    fix p
    have "at (procs q p) \<noteq> Some (of_nat D)" using t(3) unfolding held_def by blast
    then show "proc_ok L (D + 1) (Cap q) (procs ?q p)" using Q(9) [of p] f proc_ok_raise [of L D] by simp
  next
    show "pop_ok ?q L D (consumer ?q)" using t by simp
    show "at (procs ?q p) = Some pos \<Longrightarrow> at (procs ?q p') = Some pos \<Longrightarrow> p = p'" for p p' pos using Q(10) by simp
  qed (use Q t f in simp_all)
qed

lemma ring_done:
  assumes q: "ring_ok q L D" and c: "consumer q = Freed pos v"
  shows "ring_ok (q\<lparr>deq := pos + 1, consumer := Ready\<rparr>) L (D + 1)" (is "ring_ok ?q L (D + 1)") and "v = L ! D" "D < length L"
proof -
  note Q = ring_okD [OF q]
  show t: "v = L ! D" "D < length L" using Q(11) c by simp_all
  have p: "pos = of_nat D" using Q(11) c by simp
  have f: "floor_pos q D = D + 1" "floor_pos ?q (D + 1) = D + 1" "Cap ?q = Cap q" using c by (simp_all add: floor_pos_def Cap_def)
  have h: "held ?q = held q" "unwritten ?q = unwritten q" by (simp_all add: held_def unwritten_def fun_eq_iff)
  show "ring_ok ?q L (D + 1)"
  proof (rule ring_okI, unfold f)
    show "D + 1 \<le> j \<Longrightarrow> j < D + 1 + Cap q \<Longrightarrow> slot_ok ?q L (D + 1) j" for j
      using Q(8) [of j] c unfolding slot_ok_def f h by simp
    show "at (procs ?q p) = Some pos \<Longrightarrow> at (procs ?q p') = Some pos \<Longrightarrow> p = p'" for p p' pos using Q(10) by simp
  qed (use Q p f in simp_all)
qed

section \<open>Any schedule\<close>

lemma ring_step_ok:
  assumes q: "ring_ok q L D" and bound: "Suc (length L) + Cap q < 2 ^ 63" and s: "ring_step zero m q = (q1, e)"
  shows "ring_ok q1 (L @ claims [e]) (D + length (popped [e])) \<and> Cap q1 = Cap q
    \<and> (\<forall>v. e = Popped (Some v) \<longrightarrow> D < length L \<and> v = L ! D)
    \<and> (\<forall>p. e = Pushed p False \<longrightarrow> D + Cap q \<le> length L)
    \<and> (e = Popped None \<longrightarrow> D = length L \<or> held q D)"
proof (cases m)
  case (Call p v)
  show ?thesis
  proof (cases "procs q p = Idle")
    case True
    then have "ring_ok (q\<lparr>procs := (procs q)(p := Trying v)\<rparr>) L D" using q by (intro ring_goto) simp_all
    then show ?thesis using True s Call by (auto simp: Cap_def)
  next
    case False
    then show ?thesis using q s Call by auto
  qed
next
  case (Push p)
  note Q = ring_okD [OF q]
  have fl: "D \<le> floor_pos q D" by (simp add: floor_pos_def split: pop.split)
  have s': "try_push p q = (q1, e)" using s Push by simp
  show ?thesis
  proof (cases "procs q p")
    case Idle
    then show ?thesis using q s' by (auto simp: try_push_def)
  next
    case (Trying v)
    have "ring_ok (q\<lparr>procs := (procs q)(p := Loaded v (enq q))\<rparr>) L D" using Trying q Q(4) by (intro ring_goto) auto
    then show ?thesis using s' Trying by (auto simp: try_push_def Cap_def)
  next
    case (Loaded v pos)
    then obtain a where a: "a \<le> length L" "pos = of_nat a" using Q(9) [of p] by auto
    note seq = slot_seq [OF q a(1)]
    have g: "at pc = None \<Longrightarrow> proc_ok L (floor_pos q D) (Cap q) pc \<Longrightarrow> ring_ok (q\<lparr>procs := (procs q)(p := pc)\<rparr>) L D" for pc
      using Loaded q by (intro ring_goto) simp_all
    show ?thesis using s' Loaded g [of Idle] g [of "Trying v"] g [of "Free v pos"] seq a fl
      by (auto simp: try_push_def Let_def Cap_def split: if_splits)
  next
    case (Free v pos)
    show ?thesis
    proof (cases "enq q = pos")
      case True
      then show ?thesis using ring_claim [OF q Free True bound] s' Free by (auto simp: try_push_def Cap_def)
    next
      case False
      have "ring_ok (q\<lparr>procs := (procs q)(p := Trying v)\<rparr>) L D" using Free q by (intro ring_goto) simp_all
      then show ?thesis using s' Free False by (auto simp: try_push_def Cap_def)
    qed
  next
    case (Won v pos)
    then show ?thesis using ring_write [OF q Won] s' by (auto simp: try_push_def Let_def Cap_def)
  next
    case (Written v pos)
    then show ?thesis using ring_publish [OF q Written] s' by (auto simp: try_push_def Let_def Cap_def)
  qed
next
  case Pop
  have s': "try_pop zero q = (q1, e)" using s Pop by simp
  show ?thesis
  proof (cases "consumer q")
    case Ready
    note Q = ring_okD [OF q]
    have f: "floor_pos q D = D" using Ready by (simp add: floor_pos_def)
    show ?thesis
    proof (cases "dif (fst (slots q ! slot_of q (deq q))) (deq q + 1) < 0")
      case True
      have "D = length L \<or> held q D"
      proof (rule ccontr)
        assume no: "\<not> (D = length L \<or> held q D)"
        have D: "D < 2 ^ 64" "D + 1 < 2 ^ 63" using Q(3,6) f ring_slot(2) [OF q, of 0] by simp_all
        have "slot_ok q L D D" using Q(8) [of D] f ring_slot(2) [OF q, of 0] by simp
        then have w: "fst (slots q ! slot_of q (deq q)) = of_nat (D + 1)"
          using no Q(6) f unfolding Q(5) ring_slot(1) [OF q D(1)] slot_ok_def by simp
        have x: "deq q + 1 = of_nat (D + 1)" using Q(5) by simp
        show False using True dif_nat [OF D(2) D(2)] unfolding w x by simp
      qed
      then show ?thesis using True Ready s' q by (auto simp: try_pop_def Let_def)
    next
      case False
      then show ?thesis using ring_taking [OF q Ready False] s' Ready by (auto simp: try_pop_def Let_def Cap_def)
    qed
  next
    case (Taking pos)
    then show ?thesis using ring_take [OF q Taking] s' by (auto simp: try_pop_def Let_def Cap_def)
  next
    case (Taken pos v)
    then show ?thesis using ring_free [OF q Taken] s' by (auto simp: try_pop_def Let_def Cap_def)
  next
    case (Freed pos v)
    then show ?thesis using ring_done [OF q Freed] s' by (auto simp: try_pop_def Let_def Cap_def)
  qed
qed

lemma popped_none: "\<nexists>v. e = Popped (Some v) \<Longrightarrow> popped [e] = []"
proof (cases e)
  case (Popped v)
  assume "\<nexists>v. e = Popped (Some v)"
  then show ?thesis using Popped by (cases v) simp_all
qed simp_all

lemma claims_cons: "claims (e # es) = claims [e] @ claims es"
  by (cases e) auto

lemma popped_cons: "popped (e # es) = popped [e] @ popped es"
  by (cases e) (auto, metis option.exhaust popped.simps append_Nil append_Cons)

lemma ring_run_ok:
  assumes "ring_ok q L D" "length L + length ms + Cap q < 2 ^ 63" "ring_run zero ms q = (q1, es)"
  shows "ring_ok q1 (L @ claims es) (D + length (popped es)) \<and> Cap q1 = Cap q \<and> length (claims es) \<le> length ms
    \<and> popped es = take (length (popped es)) (drop D (L @ claims es))"
  using assms
proof (induction ms arbitrary: q L D es)
  case (Cons m ms)
  obtain q2 e where s: "ring_step zero m q = (q2, e)" by fastforce
  obtain es' where r: "ring_run zero ms q2 = (q1, es')" and es: "es = e # es'"
    using Cons.prems(3) s by (auto split: prod.splits)
  have b: "Suc (length L) + Cap q < 2 ^ 63" using Cons.prems(2) by simp
  note S = ring_step_ok [OF Cons.prems(1) b s]
  have c1: "length (claims [e]) \<le> 1" by (cases e) auto
  have "length (L @ claims [e]) + length ms + Cap q2 < 2 ^ 63" using Cons.prems(2) c1 S by simp
  note IH = Cons.IH [OF conjunct1 [OF S] this r]
  have c: "claims es = claims [e] @ claims es'" "popped es = popped [e] @ popped es'"
    unfolding es by (rule claims_cons, rule popped_cons)
  have "popped es = take (length (popped es)) (drop D (L @ claims es))"
  proof (cases "\<exists>v. e = Popped (Some v)")
    case True
    then obtain v where v: "e = Popped (Some v)" by blast
    then have D: "D < length L" "v = L ! D" using S by simp_all
    then have "drop D (L @ claims es) = v # drop (Suc D) (L @ claims es)"
      by (simp add: Cons_nth_drop_Suc [symmetric])
    then show ?thesis using IH v c by simp
  next
    case False
    then have "popped [e] = []" by (rule popped_none)
    then show ?thesis using IH c by simp
  qed
  moreover have "ring_ok q1 (L @ claims es) (D + length (popped es))"
    using conjunct1 [OF IH] unfolding c by (simp add: add.assoc)
  moreover have "Cap q1 = Cap q \<and> length (claims es) \<le> length (m # ms)" using IH S c1 unfolding c by simp
  ultimately show ?case by blast
qed simp

lemma NewMPSC_ok:
  assumes n: "NewMPSC zero c = Some q" and b: "Cap q < 2 ^ 63"
  shows "ring_ok q [] 0"
proof -
  let ?n = "next_pow2 (nat c) 2"
  have q: "q = \<lparr>slots = map (\<lambda>i. (of_nat i, zero)) [0..<?n], mask = of_nat (?n - 1), enq = 0, deq = 0,
              procs = (\<lambda>_. Idle), consumer = Ready\<rparr>"
    using n by (simp add: NewMPSC_def Let_def split: if_splits)
  have C: "Cap q = ?n" by (simp add: q Cap_def)
  have f: "floor_pos q 0 = 0" by (simp add: q floor_pos_def)
  show ?thesis
  proof (rule ring_okI, unfold f C)
    show "\<exists>k. ?n = 2 ^ Suc k" using next_pow2_power [of "nat c" 0] by simp
    show "slot_ok q [] 0 j" if "j < 0 + ?n" for j using that C by (simp add: slot_ok_def) (simp add: q)
  qed (use b C in \<open>simp_all add: q\<close>)
qed

text \<open>\<^bold>\<open>C23\<close> The queue is a first-in first-out queue under any interleaving of its producers and consumer
  (for fewer accesses than the counters hold): what \<open>TryPop\<close> has returned is a prefix of what producers
  claimed, in the order they claimed it (nothing lost, doubled, overtaken, overwritten or seen half
  written), and \<open>Len\<close> is the number not yet returned, within the capacity.\<close>

theorem ring_fifo:
  assumes "NewMPSC zero c = Some q0" "length ms + Cap q0 < 2 ^ 63" "ring_run zero ms q0 = (q, es)"
  shows "popped es = take (length (popped es)) (claims es) \<and> length (popped es) \<le> length (claims es)
    \<and> Len q = min (Cap q0) (length (claims es) - length (popped es))"
proof -
  have ok: "ring_ok q0 [] 0" using NewMPSC_ok [OF assms(1)] assms(2) by simp
  have "length ([] :: 'a list) + length ms + Cap q0 < 2 ^ 63" using assms(2) by simp
  note R = ring_run_ok [OF ok this assms(3), simplified]
  let ?c = "length (claims es)" and ?p = "length (popped es)"
  have Q: "ring_ok q (claims es) ?p" using R by simp
  have le: "?p \<le> ?c" using R by (metis length_take min.absorb_iff2)
  have c64: "?c < 2 ^ 64" "?p < 2 ^ 64" using ring_okD(3) [OF Q] le by simp_all
  have u: "unat (enq q) = ?c" "unat (deq q) = ?p"
    using ring_okD(4,5) [OF Q] c64 unat_of_nat_u64 by metis+
  have w: "enq q \<le> deq q \<longleftrightarrow> ?c = ?p" using le u by (simp add: word_le_nat_alt)
  have d: "unat (enq q - deq q) = ?c - ?p" using u le by (subst unat_sub) (simp_all add: word_le_nat_alt)
  have "Len q = min (Cap q0) (?c - ?p)" using R unfolding Len_def w d by (auto simp: Cap_def Let_def)
  then show ?thesis using R le by simp
qed

theorem ring_fifo_witness:
  "\<exists>q0 q es. NewMPSC (0 :: int) 1 = Some q0
    \<and> ring_run 0 [Call 0 10, Call 1 20, Push 0, Push 1, Push 1, Push 0, Push 1, Push 0, Push 1, Push 1, Pop, Pop, Pop, Pop] q0 = (q, es)
    \<and> popped es = [20] \<and> popped es = take (length (popped es)) (claims es)"
proof -
  let ?ms = "[Call 0 10, Call 1 20, Push 0, Push 1, Push 1, Push 0, Push 1, Push 0, Push 1, Push 1, Pop, Pop, Pop, Pop]"
  define q0 where "q0 = the (NewMPSC (0 :: int) 1)"
  have n: "next_pow2 (Suc 0) 2 = 2" by (subst next_pow2.simps) simp
  have q: "NewMPSC 0 1 = Some q0" and C: "Cap q0 = 2"
    by (simp_all add: q0_def NewMPSC_def n Cap_def Let_def)
  have p: "popped (snd (ring_run 0 ?ms q0)) = [20]"
    unfolding q0_def NewMPSC_def n by code_simp
  obtain r es where r: "ring_run 0 ?ms q0 = (r, es)" by fastforce
  then show ?thesis using p q ring_fifo [OF q _ r] C by auto
qed

text \<open>The refusals are justified, under any interleaving: when \<open>TryPush\<close> reports a full queue, at
  least its capacity of claimed values has not been returned; when \<open>TryPop\<close> reports an empty one,
  everything claimed has been returned or the producer of the next value has not published it yet.\<close>

lemma ring_verdicts:
  assumes "NewMPSC zero c = Some q0" "Suc (length ms) + Cap q0 < 2 ^ 63" "ring_run zero ms q0 = (q, es)"
  shows "(snd (ring_step zero m q) = Pushed p False \<longrightarrow> length (popped es) + Cap q0 \<le> length (claims es))
    \<and> (snd (ring_step zero m q) = Popped None \<longrightarrow> length (popped es) = length (claims es)
         \<or> (\<exists>p v. procs q p \<in> {Won v (deq q), Written v (deq q)}))"
proof -
  have ok: "ring_ok q0 [] 0" using NewMPSC_ok [OF assms(1)] assms(2) by simp
  have "length ([] :: 'a list) + length ms + Cap q0 < 2 ^ 63" using assms(2) by simp
  note R = ring_run_ok [OF ok this assms(3), simplified]
  have Q: "ring_ok q (claims es) (length (popped es))" using R by simp
  have "Suc (length (claims es)) + Cap q < 2 ^ 63" using R assms(2) by simp
  from ring_step_ok [OF Q this, of zero m "fst (ring_step zero m q)" "snd (ring_step zero m q)"]
  have S: "snd (ring_step zero m q) = Pushed p False \<longrightarrow> length (popped es) + Cap q0 \<le> length (claims es)"
    "snd (ring_step zero m q) = Popped None \<longrightarrow> length (popped es) = length (claims es) \<or> held q (length (popped es))"
    using R by auto
  have "\<exists>p v. procs q p \<in> {Won v (deq q), Written v (deq q)}" if h: "held q (length (popped es))"
  proof -
    obtain p where "at (procs q p) = Some (deq q)" using h unfolding held_def ring_okD(5) [OF Q] by blast
    then have "\<exists>v. procs q p \<in> {Won v (deq q), Written v (deq q)}" by (cases "procs q p") auto
    then show ?thesis by blast
  qed
  then show ?thesis using S by blast
qed

lemma ring_verdicts_witness:
  "\<exists>q0 q es. NewMPSC (0 :: int) 1 = Some q0 \<and> ring_run 0 [Call 0 10, Push 0, Push 0, Push 0] q0 = (q, es)
     \<and> snd (ring_step 0 Pop q) = Popped None
     \<and> (length (popped es) = length (claims es) \<or> (\<exists>p v. procs q p \<in> {Won v (deq q), Written v (deq q)}))"
proof -
  define q0 where "q0 = the (NewMPSC (0 :: int) 1)"
  have n: "next_pow2 (Suc 0) 2 = 2" by (subst next_pow2.simps) simp
  have q: "NewMPSC 0 1 = Some q0" and C: "Cap q0 = 2"
    by (simp_all add: q0_def NewMPSC_def n Cap_def Let_def)
  have p: "snd (ring_step 0 Pop (fst (ring_run 0 [Call 0 10, Push 0, Push 0, Push 0] q0))) = Popped None"
    unfolding q0_def NewMPSC_def n by code_simp
  obtain r es where r: "ring_run 0 [Call 0 10, Push 0, Push 0, Push 0] q0 = (r, es)" by fastforce
  then show ?thesis using p q ring_verdicts [OF q _ r, of Pop] C by auto
qed

end
