(* ===== verification/Hashring.thy ===== *)
theory Hashring
  imports Codec
begin

text \<open>
  Consistent hashing (\<open>pkg/hashring\<close>): the ring's sorted positions, their owners and the registered
  nodes; adding, removing and looking up. The map of nodes is the list of its keys. The binary search
  of \<open>sort.Search\<close> on a sorted ring is the number of positions below the hash.
\<close>

record Ring =
  replicas :: nat
  ring :: "u32 list"
  owner :: "u32 \<Rightarrow> string option"
  nodes :: "string list"

definition NewRing :: "int \<Rightarrow> Ring" where
  "NewRing r = \<lparr>replicas = (if r \<le> 0 then 1 else nat r), ring = [], owner = (\<lambda>_. None), nodes = []\<rparr>"

function itoa_loop :: "nat \<Rightarrow> string \<Rightarrow> string" where
  "itoa_loop i b = (if i > 0 then itoa_loop (i div 10) (char_of (48 + i mod 10) # b) else b)"
  by pat_completeness auto
termination by (relation "measure fst") auto

declare itoa_loop.simps [simp del]

definition itoa :: "nat \<Rightarrow> string" where
  "itoa i = (if i = 0 then ''0'' else itoa_loop i [])"

definition vnodeKey :: "string \<Rightarrow> nat \<Rightarrow> string" where
  "vnodeKey node i = node @ ''#'' @ itoa i"

definition ring_hash :: "string \<Rightarrow> u32" where
  "ring_hash s = crc32 (string_bytes s)"

definition add_vnode :: "string \<Rightarrow> nat \<Rightarrow> Ring \<Rightarrow> Ring" where
  "add_vnode node i r =
     (let h = ring_hash (vnodeKey node i) in
      if owner r h = None then r\<lparr>owner := (owner r)(h \<mapsto> node), ring := ring r @ [h]\<rparr> else r)"

definition add_node :: "string \<Rightarrow> Ring \<times> bool \<Rightarrow> Ring \<times> bool" where
  "add_node node rc =
     (case rc of (r, changed) \<Rightarrow>
      if node = [] \<or> node \<in> set (nodes r) then (r, changed)
      else (fold (add_vnode node) [0..<replicas r] (r\<lparr>nodes := node # nodes r\<rparr>), True))"

definition Add :: "string list \<Rightarrow> Ring \<Rightarrow> Ring" where
  "Add ns r = (case fold add_node ns (r, False) of (r1, changed) \<Rightarrow> if changed then r1\<lparr>ring := sort (ring r1)\<rparr> else r1)"

definition Remove :: "string \<Rightarrow> Ring \<Rightarrow> Ring" where
  "Remove node r =
     (if node \<notin> set (nodes r) then r
      else r\<lparr>nodes := removeAll node (nodes r),
             ring := filter (\<lambda>h. owner r h \<noteq> Some node) (ring r),
             owner := (\<lambda>h. if h \<in> set (ring r) \<and> owner r h = Some node then None else owner r h)\<rparr>)"

definition search_ring :: "u32 list \<Rightarrow> u32 \<Rightarrow> nat" where
  "search_ring xs h = length (takeWhile (\<lambda>x. x < h) xs)"

definition owner_at :: "Ring \<Rightarrow> u32 \<Rightarrow> string" where
  "owner_at r h = (case owner r h of Some n \<Rightarrow> n | None \<Rightarrow> [])"

definition Get :: "string \<Rightarrow> Ring \<Rightarrow> string" where
  "Get key r =
     (if ring r = [] then []
      else let i = search_ring (ring r) (ring_hash key);
               i1 = (if i = length (ring r) then 0 else i)
           in owner_at r (ring r ! i1))"

fun getn_loop :: "Ring \<Rightarrow> nat \<Rightarrow> nat \<Rightarrow> nat list \<Rightarrow> string list \<Rightarrow> string list" where
  "getn_loop r start n [] out = out"
| "getn_loop r start n (i # is) out =
     (if length out < n
      then let node = owner_at r (ring r ! ((start + i) mod length (ring r)))
           in getn_loop r start n is (if node \<in> set out then out else out @ [node])
      else out)"

definition GetN :: "string \<Rightarrow> int \<Rightarrow> Ring \<Rightarrow> string list" where
  "GetN key n r =
     (if ring r = [] \<or> n \<le> 0 then []
      else let m = (if n > int (length (nodes r)) then length (nodes r) else nat n)
           in getn_loop r (search_ring (ring r) (ring_hash key)) m [0..<length (ring r)] [])"

definition Nodes :: "Ring \<Rightarrow> string list" where
  "Nodes r = sort (nodes r)"

datatype ring_op = AddOp "string list" | RemoveOp string

fun ring_apply :: "ring_op \<Rightarrow> Ring \<Rightarrow> Ring" where
  "ring_apply (AddOp ns) r = Add ns r"
| "ring_apply (RemoveOp n) r = Remove n r"

section \<open>Names of virtual nodes\<close>

fun is_digit :: "char \<Rightarrow> bool" where
  "is_digit c = (48 \<le> (of_char c :: nat) \<and> (of_char c :: nat) < 58)"

definition digit_value :: "string \<Rightarrow> nat" where
  "digit_value s = foldl (\<lambda>v c. v * 10 + (of_char c - 48)) 0 s"

lemma itoa_loop_append: "itoa_loop i b = itoa_loop i [] @ b"
proof (induction i arbitrary: b rule: less_induct)
  case (less i)
  show ?case
  proof (cases "i > 0")
    case True
    let ?c = "char_of (48 + i mod 10) :: char"
    have "itoa_loop (i div 10) x = itoa_loop (i div 10) [] @ x" for x by (rule less) (use True in simp)
    moreover have "itoa_loop i b = itoa_loop (i div 10) (?c # b)" for b using True by (subst itoa_loop.simps) simp
    ultimately have e: "itoa_loop i b = itoa_loop (i div 10) [] @ ?c # b" for b by (metis (no_types))
    show ?thesis unfolding e [of b] e [of "[]"] by simp
  qed (simp add: itoa_loop.simps)
qed

lemma itoa_loop_step: "i > 0 \<Longrightarrow> itoa_loop i [] = itoa_loop (i div 10) [] @ [char_of (48 + i mod 10)]"
  by (subst itoa_loop.simps) (simp add: itoa_loop_append [of _ "[_]"])

lemma itoa_loop_value: "digit_value (itoa_loop i []) = i \<and> list_all is_digit (itoa_loop i [])"
proof (induction i rule: less_induct)
  case (less i)
  show ?case
  proof (cases "i > 0")
    case True
    have "(of_char (char_of (48 + i mod 10) :: char) :: nat) = 48 + i mod 10"
      by (simp add: take_bit_eq_mod)
    then show ?thesis using less [of "i div 10"] True
      by (simp add: itoa_loop_step [OF True] digit_value_def)
  qed (simp add: itoa_loop.simps digit_value_def)
qed

lemma itoa_value: "digit_value (itoa i) = i" and itoa_digits: "list_all is_digit (itoa i)"
  using itoa_loop_value [of i] by (simp_all add: itoa_def digit_value_def)

lemma vnodeKey_inj:
  assumes "vnodeKey m i = vnodeKey n j"
  shows "m = n \<and> i = j"
proof -
  have split: "takeWhile is_digit (rev (vnodeKey m i)) = rev (itoa i)
    \<and> dropWhile is_digit (rev (vnodeKey m i)) = CHR ''#'' # rev m" for m i
  proof -
    have "\<And>c. c \<in> set (rev (itoa i)) \<Longrightarrow> is_digit c" using itoa_digits [of i] by (simp add: list_all_iff)
    then have "takeWhile is_digit (rev (itoa i) @ x) = rev (itoa i) @ takeWhile is_digit x"
      "dropWhile is_digit (rev (itoa i) @ x) = dropWhile is_digit x" for x
      using takeWhile_append2 [of "rev (itoa i)" is_digit x] dropWhile_append2 [of "rev (itoa i)" is_digit x] by blast+
    then show ?thesis by (simp add: vnodeKey_def)
  qed
  have "rev (itoa i) = rev (itoa j)" "CHR ''#'' # rev m = CHR ''#'' # rev n"
    using split [of m i] split [of n j] assms by metis+
  then have "itoa i = itoa j" "m = n" by simp_all
  then show ?thesis using itoa_value by metis
qed

section \<open>The ring's invariant\<close>

definition hashring_inv :: "Ring \<Rightarrow> bool" where
  "hashring_inv r \<longleftrightarrow> sorted_wrt (<) (ring r) \<and> set (ring r) = dom (owner r)
     \<and> ran (owner r) \<subseteq> set (nodes r) \<and> distinct (nodes r) \<and> [] \<notin> set (nodes r)"

text \<open>While nodes are being added the ring is not sorted yet, and an old position keeps its owner.\<close>

definition grows :: "Ring \<Rightarrow> string set \<Rightarrow> Ring \<Rightarrow> bool" where
  "grows r ns r1 \<longleftrightarrow> (\<exists>new. ring r1 = ring r @ new) \<and> distinct (ring r1) \<and> set (ring r1) = dom (owner r1)
     \<and> (\<forall>h n. owner r h = Some n \<longrightarrow> owner r1 h = Some n)
     \<and> (\<forall>h n. owner r1 h = Some n \<longrightarrow> owner r h = None \<longrightarrow> n \<in> ns)
     \<and> ran (owner r1) \<subseteq> set (nodes r1) \<and> distinct (nodes r1) \<and> [] \<notin> set (nodes r1)
     \<and> replicas r1 = replicas r"

lemma grows_vnode: "grows r ns r1 \<Longrightarrow> n \<in> ns \<Longrightarrow> n \<in> set (nodes r1) \<Longrightarrow> grows r ns (add_vnode n i r1)"
  by (auto simp: grows_def add_vnode_def Let_def ran_def split: if_splits)

lemma grows_vnodes:
  "grows r ns r1 \<Longrightarrow> n \<in> ns \<Longrightarrow> n \<in> set (nodes r1) \<Longrightarrow>
   grows r ns (fold (add_vnode n) is r1) \<and> nodes (fold (add_vnode n) is r1) = nodes r1"
proof (induction "is" arbitrary: r1)
  case (Cons i "is")
  have "nodes (add_vnode n i r1) = nodes r1" by (simp add: add_vnode_def Let_def)
  then show ?case using Cons.IH [OF grows_vnode [OF Cons.prems, of i]] Cons.prems by simp
qed simp

lemma grows_node: "grows r ns r1 \<Longrightarrow> n \<in> ns \<Longrightarrow> grows r ns (fst (add_node n (r1, c)))"
proof -
  assume r1: "grows r ns r1" and n: "n \<in> ns"
  show ?thesis
  proof (cases "n = [] \<or> n \<in> set (nodes r1)")
    case True
    then show ?thesis using r1 by (simp add: add_node_def)
  next
    case False
    then have "grows r ns (r1\<lparr>nodes := n # nodes r1\<rparr>)" using r1 by (auto simp: grows_def)
    then show ?thesis using grows_vnodes [of r ns _ n] n False by (simp add: add_node_def)
  qed
qed

lemma grows_nodes: "grows r ns r1 \<Longrightarrow> set ms \<subseteq> ns \<Longrightarrow> grows r ns (fst (fold add_node ms (r1, c)))"
proof (induction ms arbitrary: r1 c)
  case (Cons m ms)
  obtain r2 c2 where a: "add_node m (r1, c) = (r2, c2)" by fastforce
  have "grows r ns r2" using grows_node [of r ns r1 m c] Cons.prems a by simp
  then show ?case using Cons a by simp
qed simp

lemma unchanged_nodes: "snd (fold add_node ms (r1, c)) = False \<Longrightarrow> fst (fold add_node ms (r1, c)) = r1 \<and> \<not> c"
proof (induction ms arbitrary: r1 c)
  case (Cons m ms)
  obtain r2 c2 where a: "add_node m (r1, c) = (r2, c2)" by fastforce
  have f: "fold add_node (m # ms) (r1, c) = fold add_node ms (r2, c2)" using a by simp
  then have r: "fst (fold add_node ms (r2, c2)) = r2 \<and> \<not> c2" using Cons.IH [of r2 c2] Cons.prems by metis
  then have "r2 = r1 \<and> c2 = c" using a by (auto simp: add_node_def split: if_splits)
  then show ?case using f r by metis
qed simp

lemma Add_grows:
  assumes r: "hashring_inv r"
  shows "hashring_inv (Add ns r) \<and> (\<forall>h n. owner r h = Some n \<longrightarrow> owner (Add ns r) h = Some n)
    \<and> (\<forall>h n. owner (Add ns r) h = Some n \<longrightarrow> owner r h = None \<longrightarrow> n \<in> set ns)"
proof -
  have "grows r (set ns) r" using r by (auto simp: grows_def hashring_inv_def strict_sorted_iff)
  then have g: "grows r (set ns) (fst (fold add_node ns (r, False)))" by (rule grows_nodes) simp
  show ?thesis
  proof (cases "snd (fold add_node ns (r, False))")
    case True
    then have "Add ns r = (fst (fold add_node ns (r, False)))\<lparr>ring := sort (ring (fst (fold add_node ns (r, False))))\<rparr>"
      by (simp add: Add_def split_def)
    then show ?thesis using g by (auto simp: grows_def hashring_inv_def strict_sorted_iff)
  next
    case False
    then have "Add ns r = r" using unchanged_nodes [of ns r False] by (simp add: Add_def split_def)
    then show ?thesis using r by simp
  qed
qed

lemma Remove_inv: "hashring_inv r \<Longrightarrow> hashring_inv (Remove n r)"
proof -
  assume r: "hashring_inv r"
  have "distinct xs \<Longrightarrow> distinct (removeAll n xs)" for xs by (simp add: distinct_removeAll)
  then show ?thesis using r
    by (auto simp: hashring_inv_def Remove_def ran_def dom_def sorted_wrt_filter split: if_splits)
qed

lemma hashring_reachable: "hashring_inv (fold ring_apply ops (NewRing k))"
proof -
  have "hashring_inv (fold ring_apply ops r)" if "hashring_inv r" for r
    using that
  proof (induction ops arbitrary: r)
    case (Cons op ops)
    then show ?case by (cases op) (simp_all add: Add_grows Remove_inv)
  qed simp
  moreover have "hashring_inv (NewRing k)" by (simp add: hashring_inv_def NewRing_def)
  ultimately show ?thesis by blast
qed

section \<open>Clockwise from a hash\<close>

definition clockwise :: "u32 \<Rightarrow> u32 list \<Rightarrow> u32 list" where
  "clockwise h xs = filter (\<lambda>x. \<not> x < h) xs @ filter (\<lambda>x. x < h) xs"

lemma clockwise_filter: "clockwise h (filter P xs) = filter P (clockwise h xs)"
  by (simp add: clockwise_def conj_commute)

lemma clockwise_rotate:
  assumes "sorted_wrt (<) xs"
  shows "clockwise h xs = drop (search_ring xs h) xs @ take (search_ring xs h) xs"
proof -
  let ?P = "\<lambda>x. x < h"
  have d: "filter (\<lambda>x. \<not> x < h) xs = dropWhile ?P xs" "filter ?P xs = takeWhile ?P xs"
    using assms
    by (induction xs) (auto simp: dropWhile_eq_self_iff takeWhile_eq_Nil_iff dest: hd_in_set order.strict_trans)
  show ?thesis unfolding clockwise_def d search_ring_def
    by (metis dropWhile_eq_drop takeWhile_eq_take)
qed

lemma clockwise_nth:
  assumes "sorted_wrt (<) xs" "i < length xs"
  shows "clockwise h xs ! i = xs ! ((search_ring xs h + i) mod length xs)"
proof -
  let ?s = "search_ring xs h"
  have s: "?s \<le> length xs" by (simp add: search_ring_def length_takeWhile_le)
  show ?thesis
  proof (cases "i < length xs - ?s")
    case True
    then show ?thesis using s by (simp add: clockwise_rotate [OF assms(1)] nth_append)
  next
    case False
    then have "(?s + i) mod length xs = ?s + i - length xs" using assms(2) s
      by (simp add: le_mod_geq)
    then show ?thesis using False s assms(2)
      by (simp add: clockwise_rotate [OF assms(1)] nth_append add.commute)
  qed
qed

lemma Get_clockwise:
  assumes r: "hashring_inv r"
  shows "Get key r = (case clockwise (ring_hash key) (ring r) of [] \<Rightarrow> [] | h # _ \<Rightarrow> owner_at r h)"
proof (cases "ring r = []")
  case False
  let ?i = "search_ring (ring r) (ring_hash key)"
  have s: "sorted_wrt (<) (ring r)" using r by (simp add: hashring_inv_def)
  have i: "?i \<le> length (ring r)" by (simp add: search_ring_def length_takeWhile_le)
  have "length (clockwise (ring_hash key) (ring r)) = length (ring r)"
    using i by (simp add: clockwise_rotate [OF s])
  then obtain h t where c: "clockwise (ring_hash key) (ring r) = h # t"
    using False by (cases "clockwise (ring_hash key) (ring r)") auto
  have "h = ring r ! (?i mod length (ring r))" using clockwise_nth [OF s, of 0 "ring_hash key"] c False by simp
  moreover have "?i mod length (ring r) = (if ?i = length (ring r) then 0 else ?i)" using i by auto
  ultimately show ?thesis using False c by (simp add: Get_def Let_def)
qed (simp add: Get_def clockwise_def)

lemma owner_at_nodes: "hashring_inv r \<Longrightarrow> h \<in> set (ring r) \<Longrightarrow> owner r h = Some (owner_at r h) \<and> owner_at r h \<in> set (nodes r)"
  by (auto simp: hashring_inv_def owner_at_def ran_def)

text \<open>When one ring's positions are some of another's, with the same owners, a key keeps its node or has
  one at a position the smaller ring lacks.\<close>

lemma Get_subring:
  assumes r: "hashring_inv r" and s: "hashring_inv s"
    and sub: "\<forall>h n. owner r h = Some n \<longrightarrow> owner s h = Some n"
  shows "Get key s = Get key r \<or> (\<exists>h. owner r h = None \<and> owner s h = Some (Get key s))"
proof -
  have dom: "set (ring r) = dom (owner r)" "set (ring s) = dom (owner s)" using r s by (simp_all add: hashring_inv_def)
  have sr: "ring r = filter (\<lambda>h. owner r h \<noteq> None) (ring s)"
  proof (rule strict_sorted_equal)
    show "sorted_wrt (<) (ring r)" using r by (simp add: hashring_inv_def)
    show "sorted_wrt (<) (filter (\<lambda>h. owner r h \<noteq> None) (ring s))"
      using s by (auto simp: hashring_inv_def)
    show "set (ring r) = set (filter (\<lambda>h. owner r h \<noteq> None) (ring s))" using dom sub by auto
  qed
  let ?c = "clockwise (ring_hash key)"
  have f: "?c (ring r) = filter (\<lambda>h. owner r h \<noteq> None) (?c (ring s))" by (subst sr) (rule clockwise_filter)
  show ?thesis
  proof (cases "?c (ring s)")
    case Nil
    then show ?thesis using f by (simp add: Get_clockwise [OF r] Get_clockwise [OF s])
  next
    case (Cons h t)
    have "h \<in> set (ring s)" using Cons by (auto simp: clockwise_def dest!: arg_cong [where f = set])
    then have h: "owner s h = Some (Get key s)"
      using owner_at_nodes [OF s] Cons by (simp add: Get_clockwise [OF s])
    show ?thesis
    proof (cases "owner r h")
      case None
      then show ?thesis using h by blast
    next
      case (Some n)
      then show ?thesis using h sub f Cons by (auto simp: Get_clockwise [OF r] owner_at_def)
    qed
  qed
qed

text \<open>\<^bold>\<open>C25\<close> Minimal remapping: whatever the ring's history, adding nodes moves a key only to one of the
  new nodes, and removing a node moves only that node's keys.\<close>

theorem minimal_remapping:
  "let r = fold ring_apply ops (NewRing k) in
     (Get key (Add ns r) = Get key r \<or> Get key (Add ns r) \<in> set ns)
   \<and> (Get key (Remove n r) = Get key r \<or> Get key r = n)"
proof -
  let ?r = "fold ring_apply ops (NewRing k)"
  note r = hashring_reachable [of ops k]
  have add: "Get key (Add ns ?r) = Get key ?r \<or> Get key (Add ns ?r) \<in> set ns"
    using Get_subring [of ?r "Add ns ?r" key] Add_grows [OF r, of ns] r by blast
  have "\<forall>h m. owner (Remove n ?r) h = Some m \<longrightarrow> owner ?r h = Some m" by (simp add: Remove_def split: if_splits)
  moreover have "owner ?r h = Some m \<Longrightarrow> owner (Remove n ?r) h = None \<Longrightarrow> m = n" for h m
    by (auto simp: Remove_def split: if_splits)
  ultimately have "Get key (Remove n ?r) = Get key ?r \<or> Get key ?r = n"
    using Get_subring [OF Remove_inv [OF r, of n] r, of key] by metis
  then show ?thesis using add by (simp add: Let_def)
qed

section \<open>Replicas\<close>

definition firsts_from :: "'a list \<Rightarrow> 'a list \<Rightarrow> 'a list" where
  "firsts_from out xs = foldl (\<lambda>out x. if x \<in> set out then out else out @ [x]) out xs"

lemma firsts_from_append: "\<exists>ys. firsts_from out xs = out @ ys"
proof (induction xs arbitrary: out)
  case (Cons x xs)
  obtain ys where "firsts_from (if x \<in> set out then out else out @ [x]) xs = (if x \<in> set out then out else out @ [x]) @ ys"
    using Cons by blast
  then show ?case by (auto simp: firsts_from_def split: if_splits)
qed (simp add: firsts_from_def)

lemma firsts_from_set: "distinct out \<Longrightarrow> distinct (firsts_from out xs) \<and> set (firsts_from out xs) = set out \<union> set xs"
proof (induction xs arbitrary: out)
  case (Cons x xs)
  then show ?case using Cons.IH [of "if x \<in> set out then out else out @ [x]"] Cons.prems
    by (auto simp: firsts_from_def)
qed (simp add: firsts_from_def)

lemma getn_loop_firsts:
  "length out \<le> n \<Longrightarrow> getn_loop r start n is out
     = take n (firsts_from out (map (\<lambda>i. owner_at r (ring r ! ((start + i) mod length (ring r)))) is))"
proof (induction "is" arbitrary: out)
  case (Cons i "is")
  show ?case
  proof (cases "length out < n")
    case True
    then show ?thesis using Cons by (auto simp: firsts_from_def Let_def)
  next
    case False
    then have "length out = n" using Cons.prems by simp
    then show ?thesis
      using firsts_from_append [of out "map (\<lambda>i. owner_at r (ring r ! ((start + i) mod length (ring r)))) (i # is)"]
      by auto
  qed
qed (simp add: firsts_from_def)

text \<open>Replica placement: whatever the ring's history, \<open>GetN\<close> is the first \<open>n\<close> different owners met
  clockwise from the key, all registered, starting with the node \<open>Get\<close> names.\<close>

lemma replica_placement:
  "let r = fold ring_apply ops (NewRing k);
       owners = firsts_from [] (map (owner_at r) (clockwise (ring_hash key) (ring r)))
   in GetN key n r = take (nat n) owners \<and> distinct owners \<and> set owners = ran (owner r)
      \<and> set owners \<subseteq> set (Nodes r) \<and> Get key r = (case owners of [] \<Rightarrow> [] | x # _ \<Rightarrow> x)"
proof -
  define r where "r = fold ring_apply ops (NewRing k)"
  have r: "hashring_inv r" using hashring_reachable by (simp add: r_def)
  let ?c = "clockwise (ring_hash key) (ring r)"
  define owners where "owners = firsts_from [] (map (owner_at r) ?c)"
  have s: "sorted_wrt (<) (ring r)" using r by (simp add: hashring_inv_def)
  have c: "set ?c = dom (owner r)" "length ?c = length (ring r)"
    using r by (auto simp: clockwise_def hashring_inv_def) (metis add.commute sum_length_filter_compl)
  have own: "distinct owners" "set owners = owner_at r ` dom (owner r)"
    using firsts_from_set [of "[]" "map (owner_at r) ?c"] c by (simp_all add: owners_def)
  have ran: "set owners = ran (owner r)"
    unfolding own(2) by (force simp: owner_at_def ran_def dom_def image_iff)
  have sub: "set owners \<subseteq> set (nodes r)" using r ran by (simp add: hashring_inv_def)
  have "length owners \<le> length (nodes r)"
    using card_mono [OF _ sub] distinct_card [OF own(1)] r by (simp add: hashring_inv_def distinct_card)
  moreover have "map (\<lambda>i. owner_at r (ring r ! ((search_ring (ring r) (ring_hash key) + i) mod length (ring r)))) [0..<length (ring r)]
    = map (owner_at r) ?c"
    using clockwise_nth [OF s] c by (intro nth_equalityI) simp_all
  ultimately have getn: "GetN key n r = take (nat n) owners"
    using getn_loop_firsts [of "[]" _ r "search_ring (ring r) (ring_hash key)" "[0..<length (ring r)]"] c
    by (auto simp: GetN_def owners_def Let_def clockwise_def firsts_from_def)
  have "Get key r = (case owners of [] \<Rightarrow> [] | x # _ \<Rightarrow> x)"
  proof (cases ?c)
    case (Cons h t)
    obtain ys where "owners = owner_at r h # ys"
      using firsts_from_append [of "[owner_at r h]" "map (owner_at r) t"] Cons by (auto simp: owners_def firsts_from_def)
    then show ?thesis using Cons by (simp add: Get_clockwise [OF r])
  qed (simp add: Get_clockwise [OF r] owners_def firsts_from_def)
  then show ?thesis using own getn ran sub by (simp add: Let_def Nodes_def r_def owners_def)
qed

end
