(* ===== verification/Dlock.thy ===== *)
theory Dlock
  imports Raft Text
begin

text \<open>
  The lease lock on Raft (\<open>pkg/dlock\<close>): the replicated state machine every replica derives from the
  committed log, and the manager that proposes commands to the leader and waits for them. The JSON
  encoding of a command is a parameter (\<open>enc\<close>, \<open>decode\<close>); a command that does not decode, as the leader's
  empty one, only advances the applied index. Times are milliseconds in the commands and nanoseconds
  for the timers, far from the ends of their types.
\<close>

datatype lock_err = ErrNoQuorum | ErrTimeout

definition quorumWindow :: int where "quorumWindow = 200 * 1000000"

record command =
  cOp :: string
  cKey :: string
  cOwner :: string
  cTTL :: int
  cNow :: int

record lock_entry =
  lOwner :: string
  lExpires :: int
  lToken :: nat

record replica =
  locks :: "string \<Rightarrow> lock_entry option"
  lapplied :: nat

definition newReplica :: replica where
  "newReplica = \<lparr>locks = Map.empty, lapplied = 0\<rparr>"

definition lock_command :: "nat \<Rightarrow> command \<Rightarrow> (string \<Rightarrow> lock_entry option) \<Rightarrow> (string \<Rightarrow> lock_entry option)" where
  "lock_command index c ls =
     (let expired = (case ls (cKey c) of Some cur \<Rightarrow> cNow c \<ge> lExpires cur | None \<Rightarrow> False);
          mine = (case ls (cKey c) of Some cur \<Rightarrow> lOwner cur = cOwner c | None \<Rightarrow> False)
      in if cOp c = ''acquire'' then
           (if ls (cKey c) = None \<or> expired \<or> mine
            then ls(cKey c \<mapsto> \<lparr>lOwner = cOwner c, lExpires = cNow c + cTTL c, lToken = index\<rparr>) else ls)
         else if cOp c = ''renew'' then
           (case ls (cKey c) of
              Some cur \<Rightarrow> if \<not> expired \<and> mine then ls(cKey c \<mapsto> cur\<lparr>lExpires := cNow c + cTTL c\<rparr>) else ls
            | None \<Rightarrow> ls)
         else if cOp c = ''release'' then (if mine then ls(cKey c := None) else ls)
         else ls)"

definition lock_apply :: "('b \<Rightarrow> command option) \<Rightarrow> nat \<times> 'b \<Rightarrow> replica \<Rightarrow> replica" where
  "lock_apply decode msg r =
     (case msg of (index, cmd) \<Rightarrow>
      let r1 = (case decode cmd of Some c \<Rightarrow> r\<lparr>locks := lock_command index c (locks r)\<rparr> | None \<Rightarrow> r)
      in r1\<lparr>lapplied := index\<rparr>)"

text \<open>The polling loop: each turn finds the replica as it is then and whether the deadline has passed.
  \<open>None\<close>: still polling.\<close>

fun waitApplied :: "nat \<Rightarrow> (replica \<times> bool) list \<Rightarrow> (lock_err + replica) option" where
  "waitApplied index [] = None"
| "waitApplied index ((r, late) # obs) =
     (if lapplied r < index then if late then Some (Inl ErrTimeout) else waitApplied index obs
      else Some (Inr r))"

definition replica_get :: "string \<Rightarrow> replica \<Rightarrow> lock_entry option" where
  "replica_get key r = locks r key"

section \<open>The manager\<close>

record lock_options =
  Replicas :: int
  oTimes :: raft_times
  CommitTimeout :: int

definition lock_defaults :: "lock_options \<Rightarrow> lock_options" where
  "lock_defaults o0 =
     (let ms = 1000000; t0 = oTimes o0;
          t1 = (if ElectionTimeoutMin t0 \<le> 0 then t0\<lparr>ElectionTimeoutMin := 150 * ms\<rparr> else t0);
          t2 = (if ElectionTimeoutMax t1 \<le> ElectionTimeoutMin t1
                then t1\<lparr>ElectionTimeoutMax := 2 * ElectionTimeoutMin t1\<rparr> else t1);
          t3 = (if HeartbeatInterval t2 \<le> 0 then t2\<lparr>HeartbeatInterval := 50 * ms\<rparr> else t2);
          t4 = (if TickInterval t3 \<le> 0 then t3\<lparr>TickInterval := 10 * ms\<rparr> else t3)
      in o0\<lparr>Replicas := (if Replicas o0 \<le> 0 then 3 else Replicas o0), oTimes := t4,
            CommitTimeout := (if CommitTimeout o0 \<le> 0 then 3000 * ms else CommitTimeout o0)\<rparr>)"

record 'b Manager =
  mids :: "string list"
  mnodes :: "string \<Rightarrow> 'b raft_node option"
  mreps :: "string \<Rightarrow> replica"
  mnet :: network
  commitTO :: int

definition replica_ids :: "string \<Rightarrow> int \<Rightarrow> string list" where
  "replica_ids name n = map (\<lambda>i. name @ ''-l'' @ dec i) [0..<nat n]"

definition start_replica :: "int \<Rightarrow> (string \<Rightarrow> int) \<Rightarrow> raft_times \<Rightarrow> string \<Rightarrow> 'b Manager option \<Rightarrow> 'b Manager option" where
  "start_replica now draw cfg i mo =
     (case mo of None \<Rightarrow> None
      | Some m \<Rightarrow>
          (case NewNode now (draw i) i (filter (\<lambda>p. p \<noteq> i) (mids m)) cfg \<lparr>hsTerm = 0, hsVotedFor = [], hsLog = []\<rparr> of
             None \<Rightarrow> None
           | Some n \<Rightarrow> Some (m\<lparr>mnodes := (mnodes m)(i \<mapsto> n), mreps := (mreps m)(i := newReplica),
                              mnet := nw_register i (mnet m)\<rparr>)))"

definition NewManager :: "int \<Rightarrow> (string \<Rightarrow> int) \<Rightarrow> string \<Rightarrow> lock_options \<Rightarrow> 'b Manager option" where
  "NewManager now draw name opts =
     (let o1 = lock_defaults opts; ids = replica_ids name (Replicas o1) in
      fold (start_replica now draw (oTimes o1)) ids
        (Some \<lparr>mids = ids, mnodes = Map.empty, mreps = (\<lambda>_. newReplica), mnet = NewNetwork, commitTO = CommitTimeout o1\<rparr>))"

definition lock_leader :: "int \<Rightarrow> 'b Manager \<Rightarrow> string option" where
  "lock_leader now m =
     List.find (\<lambda>i. case mnodes m i of Some n \<Rightarrow> QuorumActive now quorumWindow n | None \<Rightarrow> False) (mids m)"

text \<open>The leader's answer to the command: its id and the log index; then the wait on that replica.\<close>

definition lock_submit :: "int \<Rightarrow> (command \<Rightarrow> 'b) \<Rightarrow> command \<Rightarrow> 'b Manager \<Rightarrow> lock_err + ('b Manager \<times> string \<times> nat)" where
  "lock_submit now enc c m =
     (case lock_leader now m of
        None \<Rightarrow> Inl ErrNoQuorum
      | Some i \<Rightarrow>
          (case raft_propose now (enc c) (the (mnodes m i)) of
             (n, None) \<Rightarrow> Inl ErrNoQuorum
           | (n, Some (idx, _)) \<Rightarrow> Inr (m\<lparr>mnodes := (mnodes m)(i \<mapsto> n)\<rparr>, i, idx)))"

definition lock_propose :: "int \<Rightarrow> (command \<Rightarrow> 'b) \<Rightarrow> (replica \<times> bool) list \<Rightarrow> command \<Rightarrow> 'b Manager
    \<Rightarrow> (lock_err + 'b Manager \<times> replica) option" where
  "lock_propose now enc obs c m =
     (case lock_submit now enc c m of
        Inl e \<Rightarrow> Some (Inl e)
      | Inr (m1, i, idx) \<Rightarrow> (case waitApplied idx obs of
            None \<Rightarrow> None | Some (Inl e) \<Rightarrow> Some (Inl e) | Some (Inr r) \<Rightarrow> Some (Inr (m1, r))))"

definition holds_for :: "int \<Rightarrow> string \<Rightarrow> lock_entry option \<Rightarrow> bool" where
  "holds_for now_ms who e = (case e of Some x \<Rightarrow> lOwner x = who \<and> now_ms < lExpires x | None \<Rightarrow> False)"

text \<open>The three calls; \<open>t0\<close> stamps the command, the replica read afterwards is \<open>r\<close> as it is at \<open>t1\<close>.\<close>

definition lock_answer :: "int \<Rightarrow> string \<Rightarrow> string \<Rightarrow> replica \<Rightarrow> nat option" where
  "lock_answer t1 key who r =
     (case replica_get key r of
        Some e \<Rightarrow> if holds_for t1 who (Some e) then Some (lToken e) else None
      | None \<Rightarrow> None)"

definition lock_acquire :: "int \<Rightarrow> int \<Rightarrow> int \<Rightarrow> (command \<Rightarrow> 'b) \<Rightarrow> (replica \<times> bool) list \<Rightarrow> string \<Rightarrow> string \<Rightarrow> int
    \<Rightarrow> 'b Manager \<Rightarrow> (lock_err + 'b Manager \<times> nat option) option" where
  "lock_acquire now t0 t1 enc obs key who ttl m =
     (case lock_propose now enc obs \<lparr>cOp = ''acquire'', cKey = key, cOwner = who, cTTL = ttl, cNow = t0\<rparr> m of
        None \<Rightarrow> None | Some (Inl e) \<Rightarrow> Some (Inl e)
      | Some (Inr (m1, r)) \<Rightarrow> Some (Inr (m1, lock_answer t1 key who r)))"

definition lock_renew :: "int \<Rightarrow> int \<Rightarrow> int \<Rightarrow> (command \<Rightarrow> 'b) \<Rightarrow> (replica \<times> bool) list \<Rightarrow> string \<Rightarrow> string \<Rightarrow> int
    \<Rightarrow> 'b Manager \<Rightarrow> (lock_err + 'b Manager \<times> bool) option" where
  "lock_renew now t0 t1 enc obs key who ttl m =
     (case lock_propose now enc obs \<lparr>cOp = ''renew'', cKey = key, cOwner = who, cTTL = ttl, cNow = t0\<rparr> m of
        None \<Rightarrow> None | Some (Inl e) \<Rightarrow> Some (Inl e)
      | Some (Inr (m1, r)) \<Rightarrow> Some (Inr (m1, holds_for t1 who (replica_get key r))))"

definition lock_release :: "int \<Rightarrow> int \<Rightarrow> (command \<Rightarrow> 'b) \<Rightarrow> (replica \<times> bool) list \<Rightarrow> string \<Rightarrow> string
    \<Rightarrow> 'b Manager \<Rightarrow> (lock_err + 'b Manager) option" where
  "lock_release now t0 enc obs key who m =
     (case lock_propose now enc obs \<lparr>cOp = ''release'', cKey = key, cOwner = who, cTTL = 0, cNow = t0\<rparr> m of
        None \<Rightarrow> None | Some (Inl e) \<Rightarrow> Some (Inl e) | Some (Inr (m1, r)) \<Rightarrow> Some (Inr m1))"

definition Holder :: "int \<Rightarrow> int \<Rightarrow> string \<Rightarrow> 'b Manager \<Rightarrow> (string \<times> nat) option" where
  "Holder now t1 key m =
     (case lock_leader now m of
        None \<Rightarrow> None
      | Some i \<Rightarrow> (case replica_get key (mreps m i) of
            None \<Rightarrow> None
          | Some e \<Rightarrow> if t1 \<ge> lExpires e then None else Some (lOwner e, lToken e)))"

definition ReplicaView :: "string \<Rightarrow> string \<Rightarrow> 'b Manager \<Rightarrow> lock_entry option" where
  "ReplicaView i key m = (if mnodes m i = None then None else replica_get key (mreps m i))"

definition lock_IDs :: "'b Manager \<Rightarrow> string list" where
  "lock_IDs m = mids m"

definition lock_partition :: "string list list \<Rightarrow> 'b Manager \<Rightarrow> 'b Manager" where
  "lock_partition gs m = m\<lparr>mnet := nw_partition gs (mnet m)\<rparr>"

definition lock_heal :: "'b Manager \<Rightarrow> 'b Manager" where
  "lock_heal m = m\<lparr>mnet := nw_heal (mnet m)\<rparr>"

definition IsolateAll :: "'b Manager \<Rightarrow> 'b Manager" where
  "IsolateAll m = m\<lparr>mnet := nw_partition (map (\<lambda>i. [i]) (mids m)) (mnet m)\<rparr>"

text \<open>Each turn: the time and the manager then; the turns before the deadline.\<close>

fun WaitReady :: "(int \<times> 'b Manager) list \<Rightarrow> bool" where
  "WaitReady [] = False"
| "WaitReady ((now, m) # obs) = (if lock_leader now m \<noteq> None then True else WaitReady obs)"

definition lock_stop :: "'b Manager \<Rightarrow> 'b Manager" where
  "lock_stop m = m\<lparr>mnodes := (\<lambda>i. map_option raft_stop (mnodes m i))\<rparr>"

section \<open>Leases\<close>

text \<open>A replica after a log: the messages with their indices, 1-based.\<close>

definition replica_after :: "('b \<Rightarrow> command option) \<Rightarrow> 'b list \<Rightarrow> replica" where
  "replica_after decode cmds = fold (lock_apply decode) (zip [1..<Suc (length cmds)] cmds) newReplica"

lemma replica_after_snoc:
  "replica_after decode (cmds @ [x]) = lock_apply decode (Suc (length cmds), x) (replica_after decode cmds)"
proof -
  have "[1..<Suc (length (cmds @ [x]))] = [1..<Suc (length cmds)] @ [Suc (length cmds)]" by simp
  then show ?thesis unfolding replica_after_def by (simp del: upt_Suc)
qed

lemma lock_command_other: "cKey c \<noteq> k \<Longrightarrow> lock_command i c ls k = ls k"
  by (auto simp: lock_command_def Let_def split: option.splits)

lemma lock_command_cases:
  assumes "cKey c = k" and "lock_command i c ls k = Some e'"
  shows "ls k = Some e' \<or> (lOwner e' = cOwner c \<and> (lToken e' = i
    \<or> (\<exists>e. ls k = Some e \<and> lToken e' = lToken e \<and> lOwner e = lOwner e')))"
  using assms by (auto simp: lock_command_def Let_def split: if_splits option.splits)

lemma lock_command_foreign:
  assumes "cKey c = k" and "ls k = Some e" and "cOwner c \<noteq> lOwner e" and "cNow c < lExpires e"
  shows "lock_command i c ls k = Some e"
  using assms by (auto simp: lock_command_def Let_def)

lemma tokens_bounded: "locks (replica_after decode cmds) k = Some e \<Longrightarrow> lToken e \<le> length cmds"
proof (induction cmds arbitrary: e rule: rev_induct)
  case (snoc x cmds)
  show ?case
  proof (cases "decode x")
    case None
    then show ?thesis using snoc by (auto simp: replica_after_snoc lock_apply_def le_SucI)
  next
    case (Some c)
    then have l: "lock_command (Suc (length cmds)) c (locks (replica_after decode cmds)) k = Some e"
      using snoc.prems by (simp add: replica_after_snoc lock_apply_def)
    show ?thesis
    proof (cases "cKey c = k")
      case True
      then show ?thesis using lock_command_cases [OF True l] snoc.IH by (auto simp: le_SucI)
    next
      case False
      then show ?thesis using l snoc.IH by (simp add: lock_command_other le_SucI)
    qed
  qed
qed (simp add: replica_after_def newReplica_def)

lemma entry_since:
  "locks (replica_after decode (cmds @ rest)) k = Some e' \<Longrightarrow>
   length cmds < lToken e' \<or> (\<exists>e. locks (replica_after decode cmds) k = Some e \<and> lToken e' = lToken e \<and> lOwner e' = lOwner e)"
proof (induction rest arbitrary: e' rule: rev_induct)
  case (snoc x rest)
  let ?r = "replica_after decode (cmds @ rest)"
  have st: "locks (replica_after decode (cmds @ rest @ [x])) k = (case decode x of None \<Rightarrow> locks ?r k
    | Some c \<Rightarrow> lock_command (Suc (length (cmds @ rest))) c (locks ?r) k)"
    using replica_after_snoc [of decode "cmds @ rest" x] by (simp add: lock_apply_def split: option.splits)
  show ?case
  proof (cases "\<exists>c. decode x = Some c \<and> cKey c = k")
    case True
    then obtain c where c: "decode x = Some c" "cKey c = k" by blast
    have l: "lock_command (Suc (length (cmds @ rest))) c (locks ?r) k = Some e'" using st c snoc.prems by simp
    show ?thesis using lock_command_cases [OF c(2) l] snoc.IH by auto
  next
    case False
    then have "locks ?r k = Some e'" using st snoc.prems by (auto simp: lock_command_other split: option.splits)
    then show ?thesis by (rule snoc.IH)
  qed
qed simp

text \<open>\<^bold>\<open>C14\<close> Fencing: as the log grows, the token of a key's entry never decreases, even across releases;
  and when the holder is another one than before, or the lock was free in between, it is strictly
  greater. So a resource that refuses tokens below the greatest it has seen refuses every former
  holder once the new one has written.\<close>

theorem fencing_tokens:
  assumes "locks (replica_after decode cmds) k = Some e"
    and "locks (replica_after decode (cmds @ mid @ rest)) k = Some e'"
  shows "lToken e \<le> lToken e'
    \<and> (lOwner e \<noteq> lOwner e' \<or> locks (replica_after decode (cmds @ mid)) k = None \<longrightarrow> lToken e < lToken e')"
proof -
  have "lToken e \<le> length cmds" by (rule tokens_bounded [OF assms(1)])
  moreover have "length cmds < lToken e' \<or> lToken e' = lToken e \<and> lOwner e' = lOwner e"
    using entry_since [OF assms(2)] assms(1) by auto
  moreover have "length (cmds @ mid) < lToken e'" if "locks (replica_after decode (cmds @ mid)) k = None"
    using entry_since [of decode "cmds @ mid" rest k e'] assms(2) that by simp
  ultimately show ?thesis by fastforce
qed

definition acq :: "string \<Rightarrow> int \<Rightarrow> command" where
  "acq who now = \<lparr>cOp = ''acquire'', cKey = ''k'', cOwner = who, cTTL = 10, cNow = now\<rparr>"

theorem fencing_tokens_witness:
  "\<exists>e e'. locks (replica_after Some [acq ''a'' 0]) ''k'' = Some e \<and> locks (replica_after Some [acq ''a'' 0, acq ''b'' 20]) ''k'' = Some e'
    \<and> lToken e < lToken e'"
proof -
  let ?e = "\<lparr>lOwner = ''a'', lExpires = 10, lToken = 1\<rparr>" and ?f = "\<lparr>lOwner = ''b'', lExpires = 30, lToken = 2\<rparr>"
  have e: "locks (replica_after Some [acq ''a'' 0]) ''k'' = Some ?e"
    "locks (replica_after Some ([acq ''a'' 0] @ [] @ [acq ''b'' 20])) ''k'' = Some ?f"
    by (simp_all add: replica_after_def newReplica_def lock_apply_def lock_command_def acq_def Let_def)
  from fencing_tokens [OF e] show ?thesis using e by auto
qed

text \<open>\<^bold>\<open>C33\<close> A lease in force is exclusive: while every command of the log is stamped before the lease's
  end and the holder does nothing about the key itself, no sequence of other clients' acquires, renews
  and releases changes who holds it, until when, or with which token.\<close>

theorem lease_exclusive:
  assumes "locks (replica_after decode cmds) k = Some e"
    and "\<forall>x\<in>set rest. \<forall>c. decode x = Some c \<longrightarrow> cKey c = k \<longrightarrow> cOwner c \<noteq> lOwner e \<and> cNow c < lExpires e"
  shows "locks (replica_after decode (cmds @ rest)) k = Some e"
  using assms(2)
proof (induction rest rule: rev_induct)
  case Nil
  then show ?case using assms(1) by simp
next
  case (snoc x rest)
  then have "locks (replica_after decode (cmds @ rest)) k = Some e" by simp
  then show ?case
    using replica_after_snoc [of decode "cmds @ rest" x] snoc.prems lock_command_foreign lock_command_other
    by (auto simp: lock_apply_def split: option.splits) (metis option.inject)+
qed

theorem lease_exclusive_witness:
  "locks (replica_after Some ([acq ''a'' 0] @ [acq ''b'' 5])) ''k'' = Some \<lparr>lOwner = ''a'', lExpires = 10, lToken = 1\<rparr>"
  by (rule lease_exclusive)
    (simp_all add: replica_after_def newReplica_def lock_apply_def lock_command_def acq_def)

text \<open>A granted acquire is backed by the table: the token returned is the one of the caller's unexpired entry
  in a replica that has applied the command.\<close>

lemma waitApplied_done: "waitApplied index obs = Some (Inr r) \<Longrightarrow> index \<le> lapplied r"
  by (induction index obs rule: waitApplied.induct) (auto split: if_splits)

theorem acquire_backed:
  assumes "lock_acquire now t0 t1 enc obs key who ttl m = Some (Inr (m1, Some token))"
  shows "\<exists>i n (r :: replica) (e :: lock_entry) idx t. lock_leader now m = Some i \<and> raft_propose now (enc \<lparr>cOp = ''acquire'', cKey = key, cOwner = who, cTTL = ttl, cNow = t0\<rparr>)
      (the (mnodes m i)) = (n, Some (idx, t))
    \<and> idx \<le> lapplied r \<and> locks r key = Some e \<and> lOwner e = who \<and> t1 < lExpires e \<and> lToken e = token"
  using assms
  by (auto simp: lock_acquire_def lock_propose_def lock_submit_def lock_answer_def holds_for_def replica_get_def
      split: option.splits sum.splits prod.splits if_splits dest!: waitApplied_done)

end
