(* ===== verification/DlockCluster.thy ===== *)
theory DlockCluster
  imports RaftSafety Dlock
begin

text \<open>
  The lock tables of a cluster: the replica of a node is what its applier's messages make of an empty
  one, and Raft's safety makes the replicas of all nodes agree.
\<close>

definition node_replica :: "('b \<Rightarrow> command option) \<Rightarrow> 'b raft_node \<Rightarrow> replica" where
  "node_replica decode n = replica_after decode (map ecmd (take (napplied n) (nlog n)))"

definition deliver :: "('b \<Rightarrow> command option) \<Rightarrow> nat \<times> nat \<times> 'b \<Rightarrow> replica \<Rightarrow> replica" where
  "deliver decode msg r = (case msg of (index, _, cmd) \<Rightarrow> lock_apply decode (index, cmd) r)"

lemma replica_after_append:
  "replica_after decode (xs @ ys)
   = fold (lock_apply decode) (zip [Suc (length xs)..<Suc (length xs + length ys)] ys) (replica_after decode xs)"
proof -
  have "[1..<Suc (length (xs @ ys))] = [1..<Suc (length xs)] @ [Suc (length xs)..<Suc (length xs + length ys)]"
    using upt_add_eq_append [of 1 "Suc (length xs)" "length ys"] by simp
  then show ?thesis unfolding replica_after_def by (simp del: upt_Suc)
qed

lemma applier_delivers:
  assumes "ncommit n \<le> length (nlog n)" "napplied n \<le> ncommit n"
  shows "node_replica decode (fst (applier n)) = fold (deliver decode) (snd (applier n)) (node_replica decode n)"
proof (cases "nstopped n \<or> napplied n \<ge> ncommit n")
  case True
  then show ?thesis by (simp add: applier_def)
next
  case False
  let ?xs = "map ecmd (take (napplied n) (nlog n))"
    and ?ys = "map ecmd (drop (napplied n) (take (ncommit n) (nlog n)))"
  have t: "take (ncommit n) (nlog n) = take (napplied n) (nlog n) @ drop (napplied n) (take (ncommit n) (nlog n))"
    using assms(2) by (metis append_take_drop_id min.absorb1 take_take)
  have len: "length ?xs = napplied n" "length ?ys = ncommit n - napplied n" using assms by simp_all
  have z: "map (\<lambda>i. (i, ecmd (nlog n ! (i - 1)))) [napplied n + 1..<ncommit n + 1]
    = zip [Suc (napplied n)..<Suc (ncommit n)] ?ys"
    using assms False by (intro nth_equalityI) (simp_all del: upt_Suc)
  have d: "fold (deliver decode) (map (\<lambda>i. (i, f i, g i)) is) r = fold (lock_apply decode) (map (\<lambda>i. (i, g i)) is) r"
    for f g "is" and r by (induction "is" arbitrary: r) (simp_all add: deliver_def)
  have "node_replica decode (fst (applier n)) = replica_after decode (?xs @ ?ys)"
    using False t by (simp add: node_replica_def applier_def flip: map_append)
  also have "\<dots> = fold (lock_apply decode) (zip [Suc (napplied n)..<Suc (ncommit n)] ?ys) (replica_after decode ?xs)"
    unfolding replica_after_append len using assms(2) by simp
  also have "\<dots> = fold (deliver decode) (snd (applier n)) (node_replica decode n)"
    using False by (simp add: applier_def d z [symmetric] node_replica_def del: upt_Suc)
  finally show ?thesis .
qed



end
