(* ===== verification/Kv.thy ===== *)
theory Kv
  imports Db
begin

text \<open>
  The storage as its clients see it (\<open>storage.DB\<close> called by \<open>pkg/es\<close>, \<open>pkg/raftstore\<close> and others): an
  ordered map from non-empty keys to values. The interface is a locale; the database of \<open>Db\<close>
  interprets it. Also the big-endian keys by which the clients make the map's order their own.
\<close>

text \<open>The operations a client calls. \<open>kscan\<close> is the sequence of pairs a scan offers to its callback; the
  client's own loop decides where to stop.\<close>

record 's kv_ops =
  kget :: "'s \<Rightarrow> bytes \<Rightarrow> db_err + bytes"
  kput :: "'s \<Rightarrow> bytes \<Rightarrow> bytes \<Rightarrow> db_err option \<times> 's"
  kdel :: "'s \<Rightarrow> bytes \<Rightarrow> db_err option \<times> 's"
  kscan :: "'s \<Rightarrow> bytes \<Rightarrow> db_err + (bytes \<times> bytes) list"

text \<open>What the storage promises while its tables fit the format (\<open>fits\<close>).\<close>

locale kv =
  fixes K :: "'s kv_ops"
    and ok :: "'s \<Rightarrow> bool"
    and content :: "'s \<Rightarrow> bytes \<Rightarrow> bytes option"
    and fits :: "'s \<Rightarrow> rec \<Rightarrow> bool"
  assumes get: "ok s \<Longrightarrow> kget K s k = (case content s k of None \<Rightarrow> Inl ErrNotFound | Some v \<Rightarrow> Inr v)"
    and put: "ok s \<Longrightarrow> k \<noteq> [] \<Longrightarrow> fits s \<lparr>rkey = k, rval = v, rtomb = False\<rparr> \<Longrightarrow>
      \<exists>s'. kput K s k v = (None, s') \<and> ok s' \<and> content s' = (content s)(k \<mapsto> v)"
    and del: "ok s \<Longrightarrow> k \<noteq> [] \<Longrightarrow> fits s \<lparr>rkey = k, rval = [], rtomb = True\<rparr> \<Longrightarrow>
      \<exists>s'. kdel K s k = (None, s') \<and> ok s' \<and> content s' = (content s)(k := None)"
    and scan: "ok s \<Longrightarrow> \<exists>xs. kscan K s lo = Inr xs \<and> sorted_wrt (<) (map fst xs)
      \<and> (\<forall>k. map_of xs k = (if lo \<le> k then content s k else None))"
begin

text \<open>Two sorted listings of one map are equal, so a scan is determined by the content.\<close>

lemma scan_listing:
  assumes "ok s" and "sorted_wrt (<) (map fst ys)" and "\<forall>k. map_of ys k = (if lo \<le> k then content s k else None)"
  shows "kscan K s lo = Inr ys"
proof -
  obtain xs where xs: "kscan K s lo = Inr xs" "sorted_wrt (<) (map fst xs)"
    "\<forall>k. map_of xs k = (if lo \<le> k then content s k else None)" using scan [OF assms(1)] by blast
  have m: "map_of xs = map_of ys" using xs(3) assms(3) by auto
  have d: "distinct (map fst xs)" "distinct (map fst ys)" using xs(2) assms(2) by (simp_all add: strict_sorted_iff)
  have "map fst xs = map fst ys"
  proof (rule strict_sorted_equal [OF xs(2) assms(2), symmetric])
    show "set (map fst ys) = set (map fst xs)" using m by (metis dom_map_of_conv_image_fst list.set_map)
  qed
  moreover have listing: "map (\<lambda>k. (k, the (map_of zs k))) (map fst zs) = zs" if "distinct (map fst zs)" for zs :: "(bytes \<times> bytes) list"
    using that by (auto simp: comp_def intro!: map_idI)
  ultimately have "xs = ys" using listing [OF d(1)] listing [OF d(2)] m by metis
  then show ?thesis using xs(1) by simp
qed

end

definition db_ops :: "(nat \<Rightarrow> nat) \<Rightarrow> db kv_ops" where
  "db_ops rnd = \<lparr>kget = db_get,
     kput = (\<lambda>s k v. case db_put rnd s k v of (e, s', _) \<Rightarrow> (e, s')),
     kdel = (\<lambda>s k. case db_delete rnd s k of (e, s', _) \<Rightarrow> (e, s')),
     kscan = (\<lambda>s lo. db_scanFrom s lo (\<lambda>_ _. True))\<rparr>"

definition db_live :: "db \<Rightarrow> bool" where
  "db_live s \<longleftrightarrow> db_ok s \<and> \<not> dclosed s"

lemma visit_all: "visit (\<lambda>_ _. True) rs = map (\<lambda>r. (rkey r, rval r)) rs"
  by (induction rs) simp_all

lemma map_of_records: "map_of (map (\<lambda>r. (rkey r, rval r)) rs) k = map_option rval (rlookup rs k)"
  by (induction rs) simp_all

lemma live_val_put: "(f :: bytes \<Rightarrow> bytes option)(k := live_val (Some \<lparr>rkey = k, rval = v, rtomb = False\<rparr>)) = f(k \<mapsto> v)"
  "f(k := live_val (Some \<lparr>rkey = k, rval = [], rtomb = True\<rparr>)) = f(k := None)"
  by (simp_all add: live_val_def)

interpretation db: kv "db_ops rnd" db_live db_abs write_room for rnd
proof
  show "kget (db_ops rnd) s k = (case db_abs s k of None \<Rightarrow> Inl ErrNotFound | Some v \<Rightarrow> Inr v)" if "db_live s" for s k
    using that db_get_abs by (simp add: db_ops_def db_live_def)
  show "\<exists>s'. kput (db_ops rnd) s k v = (None, s') \<and> db_live s' \<and> db_abs s' = (db_abs s)(k \<mapsto> v)"
    if "db_live s" "k \<noteq> []" "write_room s \<lparr>rkey = k, rval = v, rtomb = False\<rparr>" for s k v
    using db_write_refines [of s "\<lparr>rkey = k, rval = v, rtomb = False\<rparr>" rnd] that live_val_put(1)
    by (auto simp: db_ops_def db_live_def db_put_def live_val_def)
  show "\<exists>s'. kdel (db_ops rnd) s k = (None, s') \<and> db_live s' \<and> db_abs s' = (db_abs s)(k := None)"
    if "db_live s" "k \<noteq> []" "write_room s \<lparr>rkey = k, rval = [], rtomb = True\<rparr>" for s k
    using db_write_refines [of s "\<lparr>rkey = k, rval = [], rtomb = True\<rparr>" rnd] that
    by (auto simp: db_ops_def db_live_def db_delete_def live_val_def)
  show "\<exists>xs. kscan (db_ops rnd) s lo = Inr xs \<and> sorted_wrt (<) (map fst xs)
      \<and> (\<forall>k. map_of xs k = (if lo \<le> k then db_abs s k else None))" if "db_live s" for s lo
  proof -
    let ?rs = "live_records (map (rfrom lo) (layers s))"
    have "db_scanFrom s lo (\<lambda>_ _. True) = Inr (map (\<lambda>r. (rkey r, rval r)) ?rs)"
      using that db_scan_live by (simp add: db_live_def visit_all)
    moreover have "sorted_wrt (<) (map fst (map (\<lambda>r. (rkey r, rval r)) ?rs))"
      using live_records_sorted [of "map (rfrom lo) (layers s)"]
      by (simp add: rsorted_def sorted_wrt_map)
    moreover have "map_of (map (\<lambda>r. (rkey r, rval r)) ?rs) k = (if lo \<le> k then db_abs s k else None)" for k
      by (simp add: map_of_records rlookup_scan option.map_comp comp_def option.map_ident)
    ultimately show ?thesis by (auto simp: db_ops_def)
  qed
qed

section \<open>Big-endian keys\<close>

definition be64 :: "u64 \<Rightarrow> bytes" where
  "be64 w = map (\<lambda>i. ucast (drop_bit (8 * i) w)) [7, 6, 5, 4, 3, 2, 1, 0]"

definition of_be64 :: "bytes \<Rightarrow> nat" where
  "of_be64 bs = foldl (\<lambda>v b. 256 * v + unat b) 0 bs"

lemma length_be64 [simp]: "length (be64 w) = 8"
  by (simp add: be64_def)

lemma foldl_digits: "foldl (\<lambda>v b. 256 * v + unat b) a (bs :: bytes) = a * 256 ^ length bs + of_be64 bs"
proof (induction bs arbitrary: a)
  case (Cons b bs)
  show ?case using Cons.IH [of "256 * a + unat b"] Cons.IH [of "unat b"]
    by (simp add: of_be64_def algebra_simps)
qed (simp add: of_be64_def)

lemma of_be64_bound: "of_be64 bs < 256 ^ length bs"
proof (induction bs rule: rev_induct)
  case (snoc b bs)
  have "unat b < 256" using unsigned_less [of b] by simp
  then show ?case using snoc by (simp add: of_be64_def)
qed (simp add: of_be64_def)

lemma be64_order: "length xs = length ys \<Longrightarrow> xs < ys \<longleftrightarrow> of_be64 xs < of_be64 ys"
proof (induction xs ys rule: list_induct2)
  case (Cons x xs y ys)
  have c: "of_be64 (x # xs) = unat x * 256 ^ length xs + of_be64 xs" for x :: u8 and xs
    using foldl_digits [of "unat x" xs] by (simp add: of_be64_def)
  have b: "of_be64 xs < 256 ^ length xs" "of_be64 ys < 256 ^ length xs"
    using of_be64_bound [of xs] of_be64_bound [of ys] Cons.hyps by simp_all
  let ?p = "256 ^ length xs :: nat"
  have lt: "unat u < unat v \<Longrightarrow> s < ?p \<Longrightarrow> unat u * ?p + s < unat v * ?p + t" for u v :: u8 and s t
  proof -
    assume "unat u < unat v" and s: "s < ?p"
    then have "(unat u + 1) * ?p \<le> unat v * ?p" by (intro mult_le_mono1) simp
    then show ?thesis using s by (simp add: algebra_simps)
  qed
  show ?case
  proof (cases "x = y")
    case True
    then show ?thesis using Cons by (simp add: c)
  next
    case False
    then consider "unat x < unat y" | "unat y < unat x" by (metis linorder_neqE_nat unsigned_word_eqI)
    then show ?thesis
    proof cases
      case 1
      then show ?thesis using lt [OF 1 b(1)] Cons.hyps by (simp add: c word_less_nat_alt)
    next
      case 2
      then show ?thesis using lt [OF 2 b(2), of "of_be64 xs"] Cons.hyps False by (simp add: c word_less_nat_alt)
    qed
  qed
qed simp

lemma foldl_digits_snoc: "of_be64 (bs @ [b]) = 256 * of_be64 bs + unat b"
  by (simp add: of_be64_def)

lemma of_be64_be64 [codec_simps]: "of_be64 (be64 w) = unat w"
proof -
  have d: "unat (ucast (drop_bit n w) :: u8) = unat (drop_bit n w) mod 256" for n
    by (simp add: unsigned_ucast_eq take_bit_eq_mod)
  have d0: "unat (ucast w :: u8) = unat w mod 256" using d [of 0] by simp
  have m: "256 * (unat (drop_bit (n + 8) w)) + unat (drop_bit n w) mod 256 = unat (drop_bit n w)" for n
    by (simp add: unat_drop_bit power_add div_mult2_eq)
  have "unat w < 2 ^ 64" by (rule unat_u64_less)
  then have top: "unat (drop_bit 56 w) mod 256 = unat (drop_bit 56 w)" by (simp add: unat_drop_bit less_mult_imp_div_less)
  show ?thesis using m [of 48] m [of 40] m [of 32] m [of 24] m [of 16] m [of 8] m [of 0] top
    by (simp add: be64_def of_be64_def d d0)
qed

lemma be64_less: "a < 2 ^ 64 \<Longrightarrow> b < 2 ^ 64 \<Longrightarrow> be64 (of_nat a) < be64 (of_nat b) \<longleftrightarrow> a < b"
  by (simp add: be64_order of_be64_be64)

lemma be64_inj: "a < 2 ^ 64 \<Longrightarrow> b < 2 ^ 64 \<Longrightarrow> be64 (of_nat a) = be64 (of_nat b) \<longleftrightarrow> a = b"
  by (metis of_be64_be64 unat_of_nat_u64)

end
