(* ===== verification/Raftstore.thy ===== *)
theory Raftstore
  imports Kv Raft
begin

text \<open>
  Raft's durable state on the storage (\<open>pkg/raftstore\<close>): \<open>Save\<close> as the writes it makes, in order, and
  \<open>Load\<close>, for any storage that keeps the promises of \<open>kv\<close>. The JSON encodings of the two records are
  parameters with the round trip of \<open>encoding/json\<close> as law; indices are below the range of \<open>uint64\<close>.
\<close>

datatype rs_err = RsDb db_err | RsMeta | RsShortKey | RsGap nat nat | RsEntry nat

record raft_json =
  jmeta :: "nat \<times> string \<Rightarrow> bytes"
  unmeta :: "bytes \<Rightarrow> (nat \<times> string) option"
  jentry :: "bytes entry \<Rightarrow> bytes"
  unentry :: "bytes \<Rightarrow> bytes entry option"

definition json_roundtrip :: "raft_json \<Rightarrow> bool" where
  "json_roundtrip J \<longleftrightarrow> (\<forall>m. unmeta J (jmeta J m) = Some m) \<and> (\<forall>e. unentry J (jentry J e) = Some e)"

definition metaKey :: bytes where "metaKey = string_bytes ''m''"
definition entryPrefix :: bytes where "entryPrefix = string_bytes ''e/''"

definition entryKey :: "nat \<Rightarrow> bytes" where
  "entryKey i = entryPrefix @ be64 (of_nat i)"

record 's rstore =
  rdb :: 's
  persisted :: "bytes entry list"

datatype kv_write = Put bytes bytes | Del bytes

fun kv_do :: "'s kv_ops \<Rightarrow> kv_write \<Rightarrow> 's \<Rightarrow> db_err option \<times> 's" where
  "kv_do K (Put k v) s = kput K s k v"
| "kv_do K (Del k) s = kdel K s k"

fun kv_exec :: "'s kv_ops \<Rightarrow> kv_write list \<Rightarrow> 's \<Rightarrow> db_err option \<times> 's" where
  "kv_exec K [] s = (None, s)"
| "kv_exec K (w # ws) s = (case kv_do K w s of (None, s1) \<Rightarrow> kv_exec K ws s1 | (Some e, s1) \<Rightarrow> (Some e, s1))"

fun first_diff :: "bytes entry list \<Rightarrow> bytes entry list \<Rightarrow> nat" where
  "first_diff (a # xs) (b # ys) = (if eterm a \<noteq> eterm b \<or> ecmd a \<noteq> ecmd b then 0 else Suc (first_diff xs ys))"
| "first_diff _ _ = 0"

definition save_writes :: "raft_json \<Rightarrow> bytes entry list \<Rightarrow> bytes HardState \<Rightarrow> kv_write list" where
  "save_writes J old hs =
     map (\<lambda>i. Del (entryKey (i + 1))) [length (hsLog hs)..<length old]
     @ map (\<lambda>i. Put (entryKey (i + 1)) (jentry J (hsLog hs ! i))) [first_diff old (hsLog hs)..<length (hsLog hs)]
     @ [Put metaKey (jmeta J (hsTerm hs, hsVotedFor hs))]"

definition rs_save :: "'s kv_ops \<Rightarrow> raft_json \<Rightarrow> bytes HardState \<Rightarrow> 's rstore \<Rightarrow> db_err option \<times> 's rstore" where
  "rs_save K J hs st =
     (case kv_exec K (save_writes J (persisted st) hs) (rdb st) of
        (Some e, s) \<Rightarrow> (Some e, st\<lparr>rdb := s\<rparr>)
      | (None, s) \<Rightarrow> (None, st\<lparr>rdb := s, persisted := hsLog hs\<rparr>))"

fun load_loop :: "raft_json \<Rightarrow> (bytes \<times> bytes) list \<Rightarrow> bytes entry list \<Rightarrow> rs_err + bytes entry list" where
  "load_loop J [] log = Inr log"
| "load_loop J ((k, v) # xs) log =
     (if take (length entryPrefix) k \<noteq> entryPrefix then Inr log
      else if length k \<noteq> length entryPrefix + 8 then Inl RsShortKey
      else let idx = of_be64 (drop (length entryPrefix) k) in
        if idx \<noteq> length log + 1 then Inl (RsGap idx (length log))
        else (case unentry J v of None \<Rightarrow> Inl (RsEntry idx) | Some e \<Rightarrow> load_loop J xs (log @ [e])))"

definition rs_load :: "'s kv_ops \<Rightarrow> raft_json \<Rightarrow> 's \<Rightarrow> rs_err + bytes HardState" where
  "rs_load K J s =
     (let hs = (case kget K s metaKey of
            Inr val \<Rightarrow> (case unmeta J val of None \<Rightarrow> Inl RsMeta | Some m \<Rightarrow> Inr m)
          | Inl e \<Rightarrow> if e = ErrNotFound then Inr (0, []) else Inl (RsDb e))
      in case hs of
           Inl e \<Rightarrow> Inl e
         | Inr (t, v) \<Rightarrow> (case kscan K s entryPrefix of
               Inl e \<Rightarrow> Inl (RsDb e)
             | Inr xs \<Rightarrow> (case load_loop J xs [] of
                   Inl e \<Rightarrow> Inl e | Inr log \<Rightarrow> Inr \<lparr>hsTerm = t, hsVotedFor = v, hsLog = log\<rparr>)))"

definition rs_open :: "'s kv_ops \<Rightarrow> raft_json \<Rightarrow> 's \<Rightarrow> rs_err + 's rstore" where
  "rs_open K J s = (case rs_load K J s of Inl e \<Rightarrow> Inl e | Inr hs \<Rightarrow> Inr \<lparr>rdb = s, persisted = hsLog hs\<rparr>)"

section \<open>What the database holds\<close>

text \<open>The pairs of a log and, once it has been saved, the term and vote; sorted as the storage sorts.\<close>

definition rs_listing :: "raft_json \<Rightarrow> (nat \<times> string) option \<Rightarrow> bytes entry list \<Rightarrow> (bytes \<times> bytes) list" where
  "rs_listing J mo log = map (\<lambda>i. (entryKey (i + 1), jentry J (log ! i))) [0..<length log]
     @ (case mo of None \<Rightarrow> [] | Some m \<Rightarrow> [(metaKey, jmeta J m)])"

lemma prefix_bytes: "entryPrefix = [101, 47]" "metaKey = [109]"
  by (simp_all add: entryPrefix_def metaKey_def string_bytes_def)

lemma entryKey_less: "a < 2 ^ 64 \<Longrightarrow> b < 2 ^ 64 \<Longrightarrow> entryKey a < entryKey b \<longleftrightarrow> a < b"
  using be64_less by (simp add: entryKey_def prefix_bytes)

lemma entryKey_inj: "a < 2 ^ 64 \<Longrightarrow> b < 2 ^ 64 \<Longrightarrow> entryKey a = entryKey b \<longleftrightarrow> a = b"
  using be64_inj by (simp add: entryKey_def)

lemma entryKey_meta: "entryKey a < metaKey" "entryKey a \<noteq> metaKey" "entryPrefix \<le> entryKey a" "entryPrefix \<le> metaKey"
  by (simp_all add: entryKey_def prefix_bytes)

lemma rs_listing_sorted: "length log < 2 ^ 64 - 1 \<Longrightarrow> sorted_wrt (<) (map fst (rs_listing J mo log))"
proof -
  assume n: "length log < 2 ^ 64 - 1"
  have "sorted_wrt (<) (map (\<lambda>i. entryKey (i + 1)) [0..<length log])"
    unfolding sorted_wrt_map
    by (rule sorted_wrt_mono_rel [OF _ sorted_wrt_upt]) (use n entryKey_less in auto)
  then show ?thesis
    by (cases mo) (auto simp: rs_listing_def comp_def sorted_wrt_append entryKey_meta)
qed

text \<open>Looking a key up: by the index an entry's key spells.\<close>

definition rs_map :: "raft_json \<Rightarrow> (nat \<times> string) option \<Rightarrow> bytes entry list \<Rightarrow> bytes \<Rightarrow> bytes option" where
  "rs_map J mo log = map_of (rs_listing J mo log)"

lemma rs_map_meta: "rs_map J mo log metaKey = map_option (jmeta J) mo"
proof -
  have "map_of (map (\<lambda>i. (entryKey (i + 1), jentry J (log ! i))) is) metaKey = None" for "is"
    by (induction "is") (simp_all add: entryKey_meta not_sym)
  then show ?thesis by (cases mo) (simp_all add: rs_map_def rs_listing_def map_add_def)
qed

lemma rs_map_entry:
  assumes "length log < 2 ^ 64 - 1" "j < 2 ^ 64 - 1"
  shows "rs_map J mo log (entryKey (j + 1)) = (if j < length log then Some (jentry J (log ! j)) else None)"
proof -
  have inj: "entryKey (i + 1) = entryKey (j + 1) \<longleftrightarrow> i = j" if "i < length log" for i
    using entryKey_inj [of "i + 1" "j + 1"] that assms by simp
  have l: "map_of (map (\<lambda>i. (entryKey (i + 1), jentry J (log ! i))) [0..<n]) (entryKey (j + 1))
      = (if j < n then Some (jentry J (log ! j)) else None)" if "n \<le> length log" for n
    using that
  proof (induction n)
    case (Suc n)
    then show ?case using inj [of n] by (auto simp: map_add_def less_Suc_eq)
  qed simp
  show ?thesis
    using l [of "length log"] by (cases mo) (simp_all add: rs_map_def rs_listing_def map_add_def entryKey_meta split: option.splits)
qed

lemma rs_map_other: "k \<noteq> metaKey \<Longrightarrow> \<forall>i. k \<noteq> entryKey (i + 1) \<Longrightarrow> rs_map J mo log k = None"
  by (cases mo) (auto simp: rs_map_def rs_listing_def map_add_def map_of_eq_None_iff image_iff split: option.splits)

fun kv_effect :: "kv_write \<Rightarrow> (bytes \<Rightarrow> bytes option) \<Rightarrow> (bytes \<Rightarrow> bytes option)" where
  "kv_effect (Put k v) m = m(k \<mapsto> v)"
| "kv_effect (Del k) m = m(k := None)"

lemma effect_dels: "fold kv_effect (map (\<lambda>i. Del (f i)) is) m k = (if k \<in> f ` set is then None else m k)"
  by (induction "is" arbitrary: m) auto

lemma effect_puts_other: "k \<notin> f ` set is \<Longrightarrow> fold kv_effect (map (\<lambda>i. Put (f i) (g i)) is) m k = m k"
  by (induction "is" arbitrary: m) auto

lemma effect_puts: "inj_on f (set is) \<Longrightarrow> distinct is \<Longrightarrow> i \<in> set is
   \<Longrightarrow> fold kv_effect (map (\<lambda>i. Put (f i) (g i)) is) m (f i) = Some (g i)"
proof (induction "is" arbitrary: m)
  case (Cons a "is")
  show ?case
  proof (cases "i = a")
    case True
    have "f a \<notin> f ` set is" using Cons.prems by (auto simp: inj_on_def image_iff)
    then show ?thesis using True by (simp add: effect_puts_other)
  next
    case False
    then show ?thesis using Cons by (simp add: inj_on_def)
  qed
qed simp

lemma first_diff_same: "first_diff xs ys \<le> length xs \<and> first_diff xs ys \<le> length ys
   \<and> (\<forall>i < first_diff xs ys. xs ! i = ys ! i)"
proof (induction xs ys rule: first_diff.induct)
  case (1 a xs b ys)
  have "a = b" if "eterm a = eterm b" "ecmd a = ecmd b" using that by (cases a; cases b) simp
  then show ?case using 1 by (auto simp: nth_Cons split: nat.splits)
qed simp_all

lemma save_writes_effect:
  assumes n: "length old < 2 ^ 64 - 1" "length (hsLog hs) < 2 ^ 64 - 1"
  shows "fold kv_effect (save_writes J old hs) (rs_map J mo old) = rs_map J (Some (hsTerm hs, hsVotedFor hs)) (hsLog hs)"
proof
  fix k
  let ?new = "hsLog hs" and ?d = "first_diff old (hsLog hs)" and ?m = "rs_map J mo old"
  let ?dels = "map (\<lambda>i. Del (entryKey (i + 1))) [length ?new..<length old]"
  let ?puts = "map (\<lambda>i. Put (entryKey (i + 1)) (jentry J (?new ! i))) [?d..<length ?new]"
  have d: "?d \<le> length old" "?d \<le> length ?new" "\<And>i. i < ?d \<Longrightarrow> old ! i = ?new ! i" using first_diff_same by blast+
  have inj: "inj_on (\<lambda>i. entryKey (i + 1)) (set [?d..<length ?new])"
    using n entryKey_inj by (auto simp: inj_on_def)
  have e: "fold kv_effect (save_writes J old hs) ?m k
    = (if k = metaKey then Some (jmeta J (hsTerm hs, hsVotedFor hs)) else fold kv_effect ?puts (fold kv_effect ?dels ?m) k)"
    by (simp add: save_writes_def)
  consider "k = metaKey" | "k \<noteq> metaKey" "\<forall>i. k \<noteq> entryKey (i + 1)" | j where "k = entryKey (j + 1)" "k \<noteq> metaKey" "j < 2 ^ 64 - 1"
    | "k \<noteq> metaKey" "\<exists>j. k = entryKey (j + 1)" "\<forall>j < 2 ^ 64 - 1. k \<noteq> entryKey (j + 1)"
    by blast
  then show "fold kv_effect (save_writes J old hs) ?m k = rs_map J (Some (hsTerm hs, hsVotedFor hs)) ?new k"
  proof cases
    case 1
    then show ?thesis unfolding e by (simp add: rs_map_meta)
  next
    case 2
    then have "fold kv_effect ?puts (fold kv_effect ?dels ?m) k = ?m k"
      by (subst effect_puts_other) (auto simp: effect_dels)
    then show ?thesis unfolding e using 2 by (simp add: rs_map_other)
  next
    case (3 j)
    have kk: "entryKey (i + 1) = k \<longleftrightarrow> i = j" if "i < 2 ^ 64 - 1" for i
      using entryKey_inj [of "i + 1" "j + 1"] that 3 by simp
    have mem: "k \<in> (\<lambda>i. entryKey (i + 1)) ` {a..<b} \<longleftrightarrow> a \<le> j \<and> j < b" if "b < 2 ^ 64 - 1" for a b
    proof -
      have "k \<in> (\<lambda>i. entryKey (i + 1)) ` {a..<b} \<longleftrightarrow> (\<exists>i\<in>{a..<b}. entryKey (i + 1) = k)" by (auto simp: image_iff)
      also have "\<dots> \<longleftrightarrow> (\<exists>i\<in>{a..<b}. i = j)" using kk that by (intro bex_cong refl) auto
      finally show ?thesis by auto
    qed
    have "fold kv_effect ?puts (fold kv_effect ?dels ?m) k = (if j < length ?new then Some (jentry J (?new ! j)) else None)"
    proof (cases "?d \<le> j \<and> j < length ?new")
      case True
      then show ?thesis using effect_puts [OF inj, of j] 3(1) by simp
    next
      case False
      then have "fold kv_effect ?puts (fold kv_effect ?dels ?m) k = fold kv_effect ?dels ?m k"
        using mem [OF n(2), of ?d] by (intro effect_puts_other) simp
      also have "\<dots> = (if length ?new \<le> j \<and> j < length old then None else ?m k)"
        using mem [OF n(1), of "length ?new"] by (simp add: effect_dels)
      also have "?m k = (if j < length old then Some (jentry J (old ! j)) else None)"
        using rs_map_entry [OF n(1) 3(3)] 3(1) by simp
      finally show ?thesis using False d by auto
    qed
    then show ?thesis unfolding e using rs_map_entry [OF n(2) 3(3)] 3 by simp
  next
    case 4
    have no: "k \<notin> (\<lambda>i. entryKey (i + 1)) ` {a..<b}" if "b < 2 ^ 64 - 1" for a b
    proof
      assume "k \<in> (\<lambda>i. entryKey (i + 1)) ` {a..<b}"
      then obtain i where "i < b" "k = entryKey (i + 1)" by auto
      moreover from \<open>i < b\<close> that have "i < 2 ^ 64 - 1" by (rule less_trans)
      ultimately show False using 4(3) by blast
    qed
    have "fold kv_effect ?puts (fold kv_effect ?dels ?m) k = ?m k"
      using no [OF n(1)] no [OF n(2)] by (subst effect_puts_other) (simp_all add: effect_dels)
    moreover have "rs_map J mo' log k = None" if "length log < 2 ^ 64 - 1" for mo' log
      using 4 that by (cases mo') (auto simp: rs_map_def rs_listing_def map_add_def map_of_eq_None_iff image_iff split: option.splits)
    ultimately show ?thesis unfolding e using 4 n by simp
  qed
qed

section \<open>Save, then load\<close>

fun write_rec :: "kv_write \<Rightarrow> rec" where
  "write_rec (Put k v) = \<lparr>rkey = k, rval = v, rtomb = False\<rparr>"
| "write_rec (Del k) = \<lparr>rkey = k, rval = [], rtomb = True\<rparr>"

fun exec_fits :: "'s kv_ops \<Rightarrow> ('s \<Rightarrow> rec \<Rightarrow> bool) \<Rightarrow> kv_write list \<Rightarrow> 's \<Rightarrow> bool" where
  "exec_fits K fits [] s = True"
| "exec_fits K fits (w # ws) s = (fits s (write_rec w) \<and> exec_fits K fits ws (snd (kv_do K w s)))"

lemma save_writes_keys: "w \<in> set (save_writes J old hs) \<Longrightarrow> rkey (write_rec w) \<noteq> []"
  by (auto simp: save_writes_def entryKey_def prefix_bytes)

lemma rs_listing_from: "map_of (rs_listing J mo log) k = (if entryPrefix \<le> k then rs_map J mo log k else None)"
proof (cases "entryPrefix \<le> k")
  case False
  then have "k \<noteq> metaKey" "\<forall>i. k \<noteq> entryKey (i + 1)" using entryKey_meta(3,4) by blast+
  then show ?thesis using rs_map_other False by (simp add: rs_map_def)
qed (simp add: rs_map_def)

lemma load_loop_listing:
  assumes J: "json_roundtrip J" and n: "length log < 2 ^ 64 - 1"
  shows "load_loop J (rs_listing J mo log) [] = Inr log"
proof -
  let ?tail = "case mo of None \<Rightarrow> [] | Some m \<Rightarrow> [(metaKey, jmeta J m)]"
  have "load_loop J (map (\<lambda>i. (entryKey (i + 1), jentry J (log ! i))) [k..<length log] @ ?tail) (take k log) = Inr log"
    if "k \<le> length log" for k
    using that
  proof (induction "length log - k" arbitrary: k)
    case 0
    then show ?case by (cases mo) (simp_all add: prefix_bytes)
  next
    case (Suc d)
    then have k: "k < length log" by simp
    then have "[k..<length log] = k # [Suc k..<length log]" by (simp add: upt_conv_Cons)
    moreover have "unentry J (jentry J (log ! k)) = Some (log ! k)" using J by (simp add: json_roundtrip_def)
    moreover have "of_be64 (be64 (of_nat (k + 1))) = k + 1" using k n by (simp add: of_be64_be64 del: of_nat_Suc of_nat_add)
    moreover have "load_loop J (map (\<lambda>i. (entryKey (i + 1), jentry J (log ! i))) [Suc k..<length log] @ ?tail) (take (Suc k) log) = Inr log"
      using Suc by simp
    ultimately show ?case using k by (simp add: entryKey_def take_Suc_conv_app_nth)
  qed
  from this [of 0] show ?thesis by (simp add: rs_listing_def)
qed

context kv
begin

lemma exec_content:
  "ok s \<Longrightarrow> exec_fits K fits ws s \<Longrightarrow> \<forall>w\<in>set ws. rkey (write_rec w) \<noteq> []
   \<Longrightarrow> \<exists>s'. kv_exec K ws s = (None, s') \<and> ok s' \<and> content s' = fold kv_effect ws (content s)"
proof (induction ws arbitrary: s)
  case (Cons w ws)
  have "\<exists>s1. kv_do K w s = (None, s1) \<and> ok s1 \<and> content s1 = kv_effect w (content s)"
    using put [of s] del [of s] Cons.prems by (cases w) auto
  then obtain s1 where s1: "kv_do K w s = (None, s1)" "ok s1" "content s1 = kv_effect w (content s)" by blast
  then show ?case using Cons.IH [of s1] Cons.prems by simp
qed simp

lemma load_listing:
  assumes "ok s" "json_roundtrip J" "length log < 2 ^ 64 - 1" "content s = rs_map J mo log"
  shows "rs_load K J s = Inr \<lparr>hsTerm = (case mo of None \<Rightarrow> 0 | Some (t, v) \<Rightarrow> t),
    hsVotedFor = (case mo of None \<Rightarrow> [] | Some (t, v) \<Rightarrow> v), hsLog = log\<rparr>"
proof -
  have g: "kget K s metaKey = (case map_option (jmeta J) mo of None \<Rightarrow> Inl ErrNotFound | Some v \<Rightarrow> Inr v)"
    using get [OF assms(1)] assms(4) by (simp add: rs_map_meta)
  have "kscan K s entryPrefix = Inr (rs_listing J mo log)"
    using scan_listing [OF assms(1) rs_listing_sorted [OF assms(3)]] rs_listing_from assms(4) by simp
  moreover have "\<forall>m. unmeta J (jmeta J m) = Some m" using assms(2) by (simp add: json_roundtrip_def)
  ultimately show ?thesis using g load_loop_listing [OF assms(2,3)] by (cases mo) (auto simp: rs_load_def)
qed

lemma save_load:
  assumes "ok (rdb st)" "json_roundtrip J" "content (rdb st) = rs_map J mo (persisted st)"
    and "length (persisted st) < 2 ^ 64 - 1" "length (hsLog hs) < 2 ^ 64 - 1"
    and "exec_fits K fits (save_writes J (persisted st) hs) (rdb st)"
  shows "\<exists>st'. rs_save K J hs st = (None, st') \<and> ok (rdb st') \<and> persisted st' = hsLog hs
    \<and> content (rdb st') = rs_map J (Some (hsTerm hs, hsVotedFor hs)) (hsLog hs) \<and> rs_load K J (rdb st') = Inr hs"
proof -
  obtain s' where s': "kv_exec K (save_writes J (persisted st) hs) (rdb st) = (None, s')" "ok s'"
    "content s' = rs_map J (Some (hsTerm hs, hsVotedFor hs)) (hsLog hs)"
    using exec_content [OF assms(1,6)] save_writes_keys save_writes_effect [OF assms(4,5)] assms(3) by metis
  then have "rs_load K J s' = Inr hs" using load_listing [OF s'(2) assms(2,5) s'(3)] by simp
  then show ?thesis using s' by (simp add: rs_save_def)
qed

end

text \<open>The states a store runs through: the saves, each within the sizes.\<close>

fun rs_saves :: "'s kv_ops \<Rightarrow> raft_json \<Rightarrow> bytes HardState list \<Rightarrow> 's rstore \<Rightarrow> db_err option \<times> 's rstore" where
  "rs_saves K J [] st = (None, st)"
| "rs_saves K J (hs # hss) st = (case rs_save K J hs st of (None, st1) \<Rightarrow> rs_saves K J hss st1 | (Some e, st1) \<Rightarrow> (Some e, st1))"

fun saves_fit :: "'s kv_ops \<Rightarrow> ('s \<Rightarrow> rec \<Rightarrow> bool) \<Rightarrow> raft_json \<Rightarrow> bytes HardState list \<Rightarrow> 's rstore \<Rightarrow> bool" where
  "saves_fit K fits J [] st = True"
| "saves_fit K fits J (hs # hss) st = (length (hsLog hs) < 2 ^ 64 - 1 \<and> exec_fits K fits (save_writes J (persisted st) hs) (rdb st)
     \<and> saves_fit K fits J hss (snd (rs_save K J hs st)))"

lemma rs_saves_snoc: "rs_saves K J (hss @ [hs]) st
   = (case rs_saves K J hss st of (None, st1) \<Rightarrow> rs_save K J hs st1 | (Some e, st1) \<Rightarrow> (Some e, st1))"
  by (induction hss arbitrary: st) (auto split: prod.splits option.splits)

text \<open>\<^bold>\<open>C18\<close> Raft's hard state survives: on a fresh database, after any sequence of \<open>Save\<close>s, of logs that
  grow, are truncated or rewritten, the store holds exactly the last state: \<open>Load\<close> returns its term, vote
  and log, and reopening rebuilds the mirror \<open>Save\<close> computes its changes from.\<close>

theorem raft_state_durable:
  assumes "db_live s" "db_abs s = Map.empty" "json_roundtrip J"
    and "saves_fit (db_ops rnd) write_room J (hss @ [hs]) \<lparr>rdb = s, persisted = []\<rparr>"
  shows "\<exists>st. rs_saves (db_ops rnd) J (hss @ [hs]) \<lparr>rdb = s, persisted = []\<rparr> = (None, st)
    \<and> rs_load (db_ops rnd) J (rdb st) = Inr hs \<and> rs_open (db_ops rnd) J (rdb st) = Inr st"
proof -
  have run: "\<exists>st'. rs_saves (db_ops rnd) J (hss @ [hs]) st = (None, st') \<and> rs_load (db_ops rnd) J (rdb st') = Inr hs
      \<and> persisted st' = hsLog hs"
    if "db_live (rdb st)" "db_abs (rdb st) = rs_map J mo (persisted st)" "length (persisted st) < 2 ^ 64 - 1"
      "saves_fit (db_ops rnd) write_room J (hss @ [hs]) st" for hss st mo
    using that
  proof (induction hss arbitrary: st mo)
    case Nil
    then show ?case using db.save_load [OF Nil.prems(1) assms(3) Nil.prems(2,3), of hs rnd] by auto
  next
    case (Cons h hss)
    then obtain st1 where st1: "rs_save (db_ops rnd) J h st = (None, st1)" "db_live (rdb st1)" "persisted st1 = hsLog h"
      "db_abs (rdb st1) = rs_map J (Some (hsTerm h, hsVotedFor h)) (hsLog h)"
      using db.save_load [OF Cons.prems(1) assms(3) Cons.prems(2,3), of h rnd] by auto
    then show ?case using Cons.IH [of st1 "Some (hsTerm h, hsVotedFor h)"] Cons.prems by simp
  qed
  have "rs_map J None [] = Map.empty" by (simp add: rs_map_def rs_listing_def)
  then obtain st where "rs_saves (db_ops rnd) J (hss @ [hs]) \<lparr>rdb = s, persisted = []\<rparr> = (None, st)"
    "rs_load (db_ops rnd) J (rdb st) = Inr hs" "persisted st = hsLog hs"
    using run [of "\<lparr>rdb = s, persisted = []\<rparr>" None hss] assms by auto
  then show ?thesis by (intro exI [of _ st]) (simp add: rs_open_def)
qed

definition sample_json :: raft_json where
  "sample_json = \<lparr>jmeta = (\<lambda>(t, v). replicate t 1 @ 0 # string_bytes v),
     unmeta = (\<lambda>bs. Some (length (takeWhile ((=) 1) bs), bytes_string (tl (dropWhile ((=) 1) bs)))),
     jentry = (\<lambda>e. replicate (eterm e) 1 @ 0 # ecmd e),
     unentry = (\<lambda>bs. Some \<lparr>eterm = length (takeWhile ((=) 1) bs), ecmd = tl (dropWhile ((=) 1) bs)\<rparr>)\<rparr>"

lemma sample_json_roundtrip: "json_roundtrip sample_json"
  by (auto simp: json_roundtrip_def sample_json_def takeWhile_append dropWhile_append)

theorem raft_state_durable_witness:
  "\<exists>st. rs_saves (db_ops (\<lambda>_. 1)) sample_json [\<lparr>hsTerm = 1, hsVotedFor = ''a'', hsLog = []\<rparr>] \<lparr>rdb = fresh_db, persisted = []\<rparr> = (None, st)
    \<and> rs_load (db_ops (\<lambda>_. 1)) sample_json (rdb st) = Inr \<lparr>hsTerm = 1, hsVotedFor = ''a'', hsLog = []\<rparr>"
proof -
  let ?hs = "\<lparr>hsTerm = 1, hsVotedFor = ''a'', hsLog = []\<rparr> :: bytes HardState"
  let ?r = "\<lparr>rkey = [109], rval = [1, 0, 97], rtomb = False\<rparr>"
  have "table_fits [?r] 10"
    by (simp add: table_fits_def rec_fits_def bloom_nbits_def sparse_def index_bytes_def wal_bytes_def
        encodeRec_def payload_of_def put_uvarint.simps Let_def)
  then have "write_room fresh_db ?r"
    by (simp add: write_room_def room_def fresh_db_def newMemtable_ok live_records_def merged_def rupsert_def
        withDefaults_def zero_opts_def)
  moreover have "save_writes sample_json [] ?hs = [Put [109] [1, 0, 97]]"
    by (simp add: save_writes_def sample_json_def prefix_bytes string_bytes_def)
  ultimately have "saves_fit (db_ops (\<lambda>_. 1)) write_room sample_json ([] @ [?hs]) \<lparr>rdb = fresh_db, persisted = []\<rparr>" by simp
  moreover have "db_live fresh_db" by (simp add: db_live_def db_ok_def fresh_db_def newMemtable_ok)
  moreover have "db_abs fresh_db = Map.empty"
    by (rule ext) (simp add: db_abs_def layers_def fresh_db_def newMemtable_ok live_val_def)
  ultimately show ?thesis using raft_state_durable [of fresh_db sample_json "\<lambda>_. 1" "[]" ?hs] sample_json_roundtrip by auto
qed

section \<open>A crash inside Save\<close>

text \<open>\<open>Save\<close> is several writes, and a crash between two of them leaves a prefix. Truncating a log by more
  than one entry deletes in ascending order: after a crash between two deletions the log has a gap and
  \<open>Load\<close>, and with it the node, fails for good.\<close>

lemma torn_truncation:
  fixes a b c d e :: "bytes entry"
  assumes "json_roundtrip J" "db_live s"
    and "db_abs s = fold kv_effect (take 1 (save_writes J [a, b, c] \<lparr>hsTerm = t, hsVotedFor = v, hsLog = [a]\<rparr>)) (rs_map J (Some m) [a, b, c])"
  shows "rs_load (db_ops rnd) J s = Inl (RsGap 3 1)"
proof -
  let ?xs = "[(entryKey 1, jentry J a), (entryKey 3, jentry J c), (metaKey, jmeta J m)]"
  have k: "entryKey 1 < entryKey 3" "entryKey 1 < entryKey 2" "entryKey 2 < entryKey 3" using entryKey_less by simp_all
  then have ne: "entryKey 1 \<noteq> entryKey 3" "entryKey 1 \<noteq> entryKey 2" "entryKey 2 \<noteq> entryKey 3" "entryKey 3 \<noteq> entryKey 2" by auto
  have w: "take 1 (save_writes J [a, b, c] \<lparr>hsTerm = t, hsVotedFor = v, hsLog = [a]\<rparr>) = [Del (entryKey 2)]"
    by (simp add: save_writes_def upt_rec numeral_2_eq_2)
  have m: "rs_map J (Some m) [a, b, c] = map_of [(entryKey 1, jentry J a), (entryKey 2, jentry J b), (entryKey 3, jentry J c), (metaKey, jmeta J m)]"
    by (simp add: rs_map_def rs_listing_def upt_rec numeral_3_eq_3 numeral_2_eq_2)
  have abs: "db_abs s = map_of ?xs"
    unfolding assms(3) w m by (rule ext) (use ne in \<open>auto simp: entryKey_meta\<close>)
  have "kscan (db_ops rnd) s entryPrefix = Inr ?xs"
    using k by (intro db.scan_listing [OF assms(2)]) (auto simp: abs entryKey_meta)
  moreover have "kget (db_ops rnd) s metaKey = Inr (jmeta J m)"
    using db.get [OF assms(2), of rnd metaKey] abs by (simp add: entryKey_meta entryKey_meta(2) [symmetric])
  moreover have "of_be64 (be64 (of_nat 1)) = 1" "of_be64 (be64 (of_nat 3)) = 3" by (simp_all only: of_be64_be64) simp_all
  ultimately show ?thesis using assms(1)
    by (cases m) (simp add: rs_load_def json_roundtrip_def entryKey_def)
qed

text \<open>Rewriting more than one entry puts them one by one: after a crash in between, the log continues a new
  entry with an old one. The entry at position 3 then has the index and term of the old log's, but
  another predecessor: what log matching excludes, and the consistency check of \<open>AppendEntries\<close>, that
  looks at one entry only, relies on.\<close>

lemma torn_rewrite:
  fixes a b c d e :: "bytes entry"
  assumes "json_roundtrip J" "db_live s" and "eterm b \<noteq> eterm d"
    and "db_abs s = fold kv_effect (take 1 (save_writes J [a, b, c] \<lparr>hsTerm = t, hsVotedFor = v, hsLog = [a, d, e]\<rparr>)) (rs_map J (Some m) [a, b, c])"
  shows "rs_load (db_ops rnd) J s = Inr \<lparr>hsTerm = fst m, hsVotedFor = snd m, hsLog = [a, d, c]\<rparr>"
proof -
  have "take 1 (save_writes J [a, b, c] \<lparr>hsTerm = t, hsVotedFor = v, hsLog = [a, d, e]\<rparr>) = [Put (entryKey 2) (jentry J d)]"
    using assms(3) by (simp add: save_writes_def upt_rec numeral_2_eq_2)
  moreover have m: "rs_map J (Some m) [a, x, c] = map_of [(entryKey 1, jentry J a), (entryKey 2, jentry J x), (entryKey 3, jentry J c), (metaKey, jmeta J m)]" for x
    by (simp add: rs_map_def rs_listing_def upt_rec numeral_3_eq_3 numeral_2_eq_2)
  moreover have "entryKey 1 < entryKey 2" "entryKey 2 < entryKey 3" using entryKey_less by simp_all
  then have "entryKey 1 \<noteq> entryKey 2" "entryKey 2 \<noteq> entryKey 1" by auto
  ultimately have "db_abs s = rs_map J (Some m) [a, d, c]"
    unfolding assms(4) by (intro ext) simp
  from db.load_listing [OF assms(2,1) _ this] show ?thesis by (cases m) simp
qed

end
