(* ===== verification/Es.thy ===== *)
theory Es
  imports Kv Sample
begin

text \<open>
  The event store (\<open>pkg/es\<close>): append-only streams in one global log over the storage interface of \<open>Kv\<close>,
  with an in-memory index rebuilt from the log, subscriptions and the projection loop. The JSON encoding
  of a batch is a parameter with its round trip as law. Global numbers are below the range of \<open>uint64\<close>.
  Operations are atomic: an append holds the lock, and a read that overlaps one sees a log that only grows.
\<close>

datatype es_err = ErrVersionConflict | ErrNoStream | ErrNoEvents | EsDb db_err | EsDecode | EsPanic

record EventData =
  edType :: string
  edData :: bytes

record Event =
  evGlobal :: nat
  evStream :: string
  evSeq :: nat
  evType :: string
  evData :: bytes
  evAt :: int

record batchEvent =
  beType :: string
  beData :: bytes

record batchRecord =
  bStream :: string
  bAt :: int
  bFirstSeq :: nat
  bFirstGlobal :: nat
  bEvents :: "batchEvent list"

record es_json =
  jbatch :: "batchRecord \<Rightarrow> bytes"
  unbatch :: "bytes \<Rightarrow> batchRecord option"

definition es_roundtrip :: "es_json \<Rightarrow> bool" where
  "es_roundtrip J \<longleftrightarrow> (\<forall>b. unbatch J (jbatch J b) = Some b)"

record 's estore =
  edb :: 's
  eglobal :: nat
  eversions :: "string \<Rightarrow> nat"
  eidx :: "string \<Rightarrow> nat list"
  estarts :: "nat list"
  esubs :: "(nat \<times> bool) list"
  enextSub :: nat

definition gkey :: "nat \<Rightarrow> bytes" where
  "gkey g = string_bytes ''g/'' @ be64 (of_nat g)"

text \<open>The loop that counts a batch's events into the index.\<close>

fun bump :: "string \<Rightarrow> nat \<Rightarrow> 's estore \<Rightarrow> 's estore" where
  "bump stream 0 st = st"
| "bump stream (Suc n) st = bump stream n
     (st\<lparr>eglobal := eglobal st + 1,
         eversions := (eversions st)(stream := eversions st stream + 1),
         eidx := (eidx st)(stream := eidx st stream @ [eglobal st + 1])\<rparr>)"

definition index_batch :: "batchRecord \<Rightarrow> 's estore \<Rightarrow> 's estore" where
  "index_batch b st = bump (bStream b) (length (bEvents b)) (st\<lparr>estarts := estarts st @ [bFirstGlobal b]\<rparr>)"

text \<open>The callback of the opening scan. Where it stops early, the error it puts into \<open>err\<close> is overwritten
  by the scan's own result, which is none.\<close>

fun index_scan :: "es_json \<Rightarrow> (bytes \<times> bytes) list \<Rightarrow> 's estore \<Rightarrow> 's estore" where
  "index_scan J [] st = st"
| "index_scan J ((k, v) # xs) st =
     (if take 2 k \<noteq> string_bytes ''g/'' then st
      else case unbatch J v of
          None \<Rightarrow> st
        | Some b \<Rightarrow>
            if bFirstGlobal b \<noteq> eglobal st + 1 \<or> bFirstSeq b \<noteq> eversions st (bStream b) + 1 then st
            else index_scan J xs (index_batch b st))"

definition es_open :: "'s kv_ops \<Rightarrow> es_json \<Rightarrow> 's \<Rightarrow> es_err + 's estore" where
  "es_open K J s =
     (case kscan K s [] of
        Inl e \<Rightarrow> Inl (EsDb e)
      | Inr xs \<Rightarrow> Inr (index_scan J xs \<lparr>edb = s, eglobal = 0, eversions = (\<lambda>_. 0), eidx = (\<lambda>_. []),
                       estarts = [], esubs = [], enextSub = 0\<rparr>))"

definition notifyAll :: "'s estore \<Rightarrow> 's estore" where
  "notifyAll st = st\<lparr>esubs := map (\<lambda>(i, _). (i, True)) (esubs st)\<rparr>"

definition event_at :: "batchRecord \<Rightarrow> nat \<Rightarrow> batchEvent \<Rightarrow> Event" where
  "event_at b i e = \<lparr>evGlobal = bFirstGlobal b + i, evStream = bStream b, evSeq = bFirstSeq b + i,
     evType = beType e, evData = beData e, evAt = bAt b\<rparr>"

definition batch_events :: "batchRecord \<Rightarrow> Event list" where
  "batch_events b = map (\<lambda>i. event_at b i (bEvents b ! i)) [0..<length (bEvents b)]"

definition es_append :: "'s kv_ops \<Rightarrow> es_json \<Rightarrow> int \<Rightarrow> string \<Rightarrow> int \<Rightarrow> EventData list \<Rightarrow> 's estore
    \<Rightarrow> 's estore \<times> (es_err + Event list)" where
  "es_append K J now stream expected events st =
     (if stream = [] then (st, Inl ErrNoStream)
      else if events = [] then (st, Inl ErrNoEvents)
      else let cur = eversions st stream in
        if expected \<ge> 0 \<and> nat expected \<noteq> cur then (st, Inl ErrVersionConflict)
        else let b = \<lparr>bStream = stream, bAt = now, bFirstSeq = cur + 1, bFirstGlobal = eglobal st + 1,
                      bEvents = map (\<lambda>e. \<lparr>beType = edType e, beData = edData e\<rparr>) events\<rparr> in
          (case kput K (edb st) (gkey (bFirstGlobal b)) (jbatch J b) of
             (Some e, s) \<Rightarrow> (st\<lparr>edb := s\<rparr>, Inl (EsDb e))
           | (None, s) \<Rightarrow> (notifyAll (index_batch b (st\<lparr>edb := s\<rparr>)), Inr (batch_events b))))"

definition batchStartFor :: "nat \<Rightarrow> 's estore \<Rightarrow> nat" where
  "batchStartFor g st =
     (if estarts st = [] then 0
      else let i = length (takeWhile (\<lambda>x. \<not> x > g) (estarts st))
           in if i = 0 then estarts st ! 0 else estarts st ! (i - 1))"

text \<open>The flag: the scan goes on.\<close>

fun read_events :: "nat \<Rightarrow> int \<Rightarrow> batchRecord \<Rightarrow> nat \<Rightarrow> batchEvent list \<Rightarrow> Event list \<Rightarrow> Event list \<times> bool" where
  "read_events lo limit b i [] out = (out, True)"
| "read_events lo limit b i (e # es) out =
     (if bFirstGlobal b + i < lo then read_events lo limit b (i + 1) es out
      else let out1 = out @ [event_at b i e] in
        if limit > 0 \<and> int (length out1) \<ge> limit then (out1, False)
        else read_events lo limit b (i + 1) es out1)"

fun read_batches :: "es_json \<Rightarrow> nat \<Rightarrow> int \<Rightarrow> (bytes \<times> bytes) list \<Rightarrow> Event list \<Rightarrow> es_err + Event list" where
  "read_batches J lo limit [] out = Inr out"
| "read_batches J lo limit ((k, v) # xs) out =
     (case unbatch J v of
        None \<Rightarrow> Inl EsDecode
      | Some b \<Rightarrow> (case read_events lo limit b 0 (bEvents b) out of
            (out1, True) \<Rightarrow> read_batches J lo limit xs out1
          | (out1, False) \<Rightarrow> Inr out1))"

definition ReadAll :: "'s kv_ops \<Rightarrow> es_json \<Rightarrow> nat \<Rightarrow> int \<Rightarrow> 's estore \<Rightarrow> es_err + Event list" where
  "ReadAll K J from0 limit st =
     (let lo = (if from0 = 0 then 1 else from0); start = batchStartFor lo st in
      if start = 0 then Inr []
      else case kscan K (edb st) (gkey start) of
          Inl e \<Rightarrow> Inl (EsDb e)
        | Inr xs \<Rightarrow> read_batches J lo limit xs [])"

definition no_batch :: batchRecord where
  "no_batch = \<lparr>bStream = [], bAt = 0, bFirstSeq = 0, bFirstGlobal = 0, bEvents = []\<rparr>"

fun stream_loop :: "'s kv_ops \<Rightarrow> es_json \<Rightarrow> 's estore \<Rightarrow> string \<Rightarrow> nat \<Rightarrow> nat list \<Rightarrow> batchRecord \<Rightarrow> nat \<Rightarrow> Event list
    \<Rightarrow> es_err + Event list" where
  "stream_loop K J st stream seq [] cached cachedStart out = Inr out"
| "stream_loop K J st stream seq (g # gs) cached cachedStart out =
     (let start = batchStartFor g st in
      case (if start = cachedStart then Inr cached
            else case kget K (edb st) (gkey start) of
                Inl e \<Rightarrow> Inl (EsDb e)
              | Inr val \<Rightarrow> (case unbatch J val of None \<Rightarrow> Inl EsDecode | Some b \<Rightarrow> Inr b)) of
        Inl e \<Rightarrow> Inl e
      | Inr b \<Rightarrow>
          if g < bFirstGlobal b \<or> g - bFirstGlobal b \<ge> length (bEvents b) then Inl EsPanic
          else let e = bEvents b ! (g - bFirstGlobal b) in
            stream_loop K J st stream (seq + 1) gs b start
              (out @ [\<lparr>evGlobal = g, evStream = stream, evSeq = seq, evType = beType e, evData = beData e, evAt = bAt b\<rparr>]))"

definition ReadStream :: "'s kv_ops \<Rightarrow> es_json \<Rightarrow> string \<Rightarrow> nat \<Rightarrow> int \<Rightarrow> 's estore \<Rightarrow> es_err + Event list" where
  "ReadStream K J stream fromSeq limit st =
     (let lo = (if fromSeq = 0 then 1 else fromSeq); idx = eidx st stream in
      if lo > length idx then Inr []
      else let globals = drop (lo - 1) idx;
               globals1 = (if limit > 0 \<and> int (length globals) > limit then take (nat limit) globals else globals)
           in stream_loop K J st stream lo globals1 no_batch 0 [])"

definition es_version :: "string \<Rightarrow> 's estore \<Rightarrow> nat" where
  "es_version stream st = eversions st stream"

definition LastGlobal :: "'s estore \<Rightarrow> nat" where
  "LastGlobal st = eglobal st"

text \<open>A subscription is the id of a channel of capacity one; the flag is the signal waiting in it.\<close>

definition Subscribe :: "'s estore \<Rightarrow> 's estore \<times> nat" where
  "Subscribe st = (st\<lparr>esubs := esubs st @ [(enextSub st, False)], enextSub := enextSub st + 1\<rparr>, enextSub st)"

definition Unsubscribe :: "nat \<Rightarrow> 's estore \<Rightarrow> 's estore" where
  "Unsubscribe i st = st\<lparr>esubs := filter (\<lambda>(j, _). j \<noteq> i) (esubs st)\<rparr>"

text \<open>One turn of a projection: what it has after reading on from its checkpoint; \<open>False\<close>: it waits.\<close>

definition project_turn :: "'s kv_ops \<Rightarrow> es_json \<Rightarrow> (Event list \<Rightarrow> 'm \<Rightarrow> 'm) \<Rightarrow> 's estore \<Rightarrow> nat \<times> 'm \<Rightarrow> (nat \<times> 'm) \<times> bool" where
  "project_turn K J app st cm =
     (case ReadAll K J (fst cm + 1) 256 st of
        Inr evs \<Rightarrow> if evs \<noteq> [] then ((evGlobal (last evs), app evs (snd cm)), True) else (cm, False)
      | Inl e \<Rightarrow> (cm, False))"

fun project :: "nat \<Rightarrow> 's kv_ops \<Rightarrow> es_json \<Rightarrow> (Event list \<Rightarrow> 'm \<Rightarrow> 'm) \<Rightarrow> 's estore \<Rightarrow> nat \<times> 'm \<Rightarrow> (nat \<times> 'm) option" where
  "project 0 K J app st cm = None"
| "project (Suc n) K J app st cm =
     (case project_turn K J app st cm of (cm1, True) \<Rightarrow> project n K J app st cm1 | (cm1, False) \<Rightarrow> Some cm1)"

section \<open>The log the batches spell\<close>

definition es_log :: "batchRecord list \<Rightarrow> Event list" where
  "es_log bs = concat (map batch_events bs)"

definition of_stream :: "string \<Rightarrow> Event list \<Rightarrow> Event list" where
  "of_stream s evs = filter (\<lambda>e. evStream e = s) evs"

text \<open>Each batch continues the log and its stream, and none is empty.\<close>

definition chained :: "batchRecord list \<Rightarrow> bool" where
  "chained bs \<longleftrightarrow> (\<forall>i < length bs. bEvents (bs ! i) \<noteq> [] \<and> bFirstGlobal (bs ! i) = length (es_log (take i bs)) + 1
     \<and> bFirstSeq (bs ! i) = length (of_stream (bStream (bs ! i)) (es_log (take i bs))) + 1)"

lemma es_log_append [simp]: "es_log [] = []" "es_log (as @ bs) = es_log as @ es_log bs" "es_log [b] = batch_events b"
  by (simp_all add: es_log_def)

lemma of_stream_append [simp]: "of_stream s [] = []" "of_stream s (xs @ ys) = of_stream s xs @ of_stream s ys"
  by (simp_all add: of_stream_def)

lemma chained_snoc: "chained (bs @ [b]) \<longleftrightarrow> chained bs \<and> bEvents b \<noteq> [] \<and> bFirstGlobal b = length (es_log bs) + 1
   \<and> bFirstSeq b = length (of_stream (bStream b) (es_log bs)) + 1"
  by (auto simp: chained_def nth_append less_Suc_eq)

lemma chained_prefix: "chained (xs @ ys) \<Longrightarrow> chained xs"
  by (induction ys rule: rev_induct) (simp_all add: chained_snoc flip: append_assoc)

lemma length_batch_events [simp]: "length (batch_events b) = length (bEvents b)"
  by (simp add: batch_events_def)

lemma nth_batch_events: "i < length (bEvents b) \<Longrightarrow> batch_events b ! i = event_at b i (bEvents b ! i)"
  by (simp add: batch_events_def)

lemma of_stream_batch: "of_stream s (batch_events b) = (if s = bStream b then batch_events b else [])"
  by (auto simp: of_stream_def batch_events_def event_at_def filter_empty_conv filter_id_conv)

lemma map_add_upt_Suc: "map (\<lambda>i. Suc (n + i)) [0..<k] = [Suc n..<Suc (n + k)]"
  by (intro nth_equalityI) (simp_all del: upt_Suc)

lemma batch_globals: "map evGlobal (batch_events b) = map (\<lambda>i. bFirstGlobal b + i) [0..<length (bEvents b)]"
  by (simp add: batch_events_def event_at_def)

lemma batch_seqs: "map evSeq (batch_events b) = map (\<lambda>i. bFirstSeq b + i) [0..<length (bEvents b)]"
  by (simp add: batch_events_def event_at_def)

text \<open>Global numbers are the positions in the log, sequence numbers the positions in the stream.\<close>

lemma log_numbers:
  "chained bs \<Longrightarrow> map evGlobal (es_log bs) = [1..<Suc (length (es_log bs))]
   \<and> map evSeq (of_stream s (es_log bs)) = [1..<Suc (length (of_stream s (es_log bs)))]"
proof (induction bs rule: rev_induct)
  case (snoc b bs)
  then have c: "chained bs" "bFirstGlobal b = Suc (length (es_log bs))" "bFirstSeq b = Suc (length (of_stream (bStream b) (es_log bs)))"
    by (simp_all add: chained_snoc)
  have u: "[1..<Suc (n + k)] = [1..<Suc n] @ [Suc n..<Suc (n + k)]" for n k :: nat
    using upt_add_eq_append [of 1 "Suc n" k] by simp
  show ?case using snoc.IH [OF c(1)] u
    by (auto simp: batch_globals batch_seqs of_stream_batch c(2,3) map_add_upt_Suc simp del: upt_Suc)
qed simp

definition es_pairs :: "es_json \<Rightarrow> batchRecord list \<Rightarrow> (bytes \<times> bytes) list" where
  "es_pairs J bs = map (\<lambda>b. (gkey (bFirstGlobal b), jbatch J b)) bs"

text \<open>The index is a function of the log.\<close>

definition indexed :: "batchRecord list \<Rightarrow> 's estore \<Rightarrow> bool" where
  "indexed bs st \<longleftrightarrow> eglobal st = length (es_log bs) \<and> estarts st = map bFirstGlobal bs
     \<and> (\<forall>s. eversions st s = length (of_stream s (es_log bs)))
     \<and> (\<forall>s. eidx st s = map evGlobal (of_stream s (es_log bs)))"

definition es_inv :: "('s \<Rightarrow> bool) \<Rightarrow> ('s \<Rightarrow> bytes \<Rightarrow> bytes option) \<Rightarrow> es_json \<Rightarrow> batchRecord list \<Rightarrow> 's estore \<Rightarrow> bool" where
  "es_inv ok cont J bs st \<longleftrightarrow> ok (edb st) \<and> cont (edb st) = map_of (es_pairs J bs)
     \<and> chained bs \<and> length (es_log bs) < 2 ^ 64 - 1 \<and> indexed bs st"

lemma bump_fields:
  "eglobal (bump s n st) = eglobal st + n" "estarts (bump s n st) = estarts st" "edb (bump s n st) = edb st"
  "eversions (bump s n st) t = (if t = s then eversions st t + n else eversions st t)"
  "eidx (bump s n st) t = (if t = s then eidx st t @ [Suc (eglobal st)..<Suc (eglobal st + n)] else eidx st t)"
  "esubs (bump s n st) = esubs st"
  by (induction s n st rule: bump.induct) (auto simp: upt_conv_Cons simp del: upt_Suc)

lemma indexed_batch:
  assumes "indexed bs st" "chained (bs @ [b])"
  shows "indexed (bs @ [b]) (index_batch b st)"
proof -
  have "map evGlobal (batch_events b) = [Suc (eglobal st)..<Suc (eglobal st + length (bEvents b))]"
    using assms by (simp add: chained_snoc indexed_def batch_globals map_add_upt_Suc del: upt_Suc)
  then show ?thesis using assms
    by (auto simp: indexed_def index_batch_def bump_fields of_stream_batch simp del: upt_Suc)
qed

lemma gkey_less: "a < 2 ^ 64 \<Longrightarrow> b < 2 ^ 64 \<Longrightarrow> gkey a < gkey b \<longleftrightarrow> a < b"
  using be64_less by (simp add: gkey_def string_bytes_def)

lemma gkey_prefix: "take 2 (gkey g) = string_bytes ''g/''"
  by (simp add: gkey_def string_bytes_def)

lemma chained_bounds:
  assumes "chained bs" "i < length bs"
  shows "bFirstGlobal (bs ! i) + length (bEvents (bs ! i)) \<le> length (es_log bs) + 1" "0 < bFirstGlobal (bs ! i)"
    "\<And>j. i < j \<Longrightarrow> j < length bs \<Longrightarrow> bFirstGlobal (bs ! i) + length (bEvents (bs ! i)) \<le> bFirstGlobal (bs ! j)"
proof -
  have s: "es_log (take (Suc i) bs) = es_log (take i bs) @ batch_events (bs ! i)"
    using assms(2) by (simp add: take_Suc_conv_app_nth)
  have p: "length (es_log (take m bs)) \<le> length (es_log (take n bs))" if "m \<le> n" for m n
    using that by (metis append_take_drop_id es_log_append(2) le_add1 length_append min.absorb1 take_take)
  have f: "bFirstGlobal (bs ! j) = length (es_log (take j bs)) + 1" if "j < length bs" for j
    using assms(1) that by (simp add: chained_def)
  show "bFirstGlobal (bs ! i) + length (bEvents (bs ! i)) \<le> length (es_log bs) + 1"
    using f [OF assms(2)] s p [of "Suc i" "length bs"] assms(2) by simp
  show "0 < bFirstGlobal (bs ! i)" using f [OF assms(2)] by simp
  show "bFirstGlobal (bs ! i) + length (bEvents (bs ! i)) \<le> bFirstGlobal (bs ! j)" if "i < j" "j < length bs" for j
    using f [OF assms(2)] f [OF that(2)] s p [of "Suc i" j] that(1) by simp
qed

lemma firsts_sorted: "chained bs \<Longrightarrow> sorted_wrt (<) (map bFirstGlobal bs)"
proof -
  assume c: "chained bs"
  have "bFirstGlobal (bs ! i) < bFirstGlobal (bs ! j)" if "i < j" "j < length bs" for i j
  proof -
    have "bEvents (bs ! i) \<noteq> []" using c that by (simp add: chained_def)
    then show ?thesis using chained_bounds(3) [OF c, of i j] that by (cases "bEvents (bs ! i)") auto
  qed
  then show ?thesis by (auto simp: sorted_wrt_iff_nth_less)
qed

lemma es_pairs_sorted:
  assumes "chained bs" "length (es_log bs) < 2 ^ 64 - 1"
  shows "sorted_wrt (<) (map fst (es_pairs J bs))"
proof -
  have "bFirstGlobal b < 2 ^ 64" if b: "b \<in> set bs" for b
  proof -
    obtain i where i: "i < length bs" "b = bs ! i" using b by (auto simp: in_set_conv_nth)
    then show ?thesis using chained_bounds(1) [OF assms(1) i(1)] assms(2) by simp
  qed
  note bound = this
  have "sorted_wrt (\<lambda>a b. bFirstGlobal a < bFirstGlobal b) bs" using firsts_sorted [OF assms(1)] by (simp add: sorted_wrt_map)
  then have "sorted_wrt (\<lambda>a b. gkey (bFirstGlobal a) < gkey (bFirstGlobal b)) bs"
    by (rule sorted_wrt_mono_rel [rotated]) (use bound gkey_less in auto)
  then show ?thesis by (simp add: es_pairs_def sorted_wrt_map)
qed

section \<open>Opening and appending\<close>

lemma index_scan_pairs:
  assumes J: "es_roundtrip J"
  shows "chained (done @ bs) \<Longrightarrow> indexed done st \<Longrightarrow> indexed (done @ bs) (index_scan J (es_pairs J bs) st)
    \<and> edb (index_scan J (es_pairs J bs) st) = edb st \<and> esubs (index_scan J (es_pairs J bs) st) = esubs st"
proof (induction bs arbitrary: "done" st)
  case Nil
  then show ?case by (simp add: es_pairs_def)
next
  case (Cons b bs)
  have "chained ((done @ [b]) @ bs)" using Cons.prems(1) by simp
  then have c: "chained (done @ [b])" by (rule chained_prefix)
  then have b: "bFirstGlobal b = eglobal st + 1" "bFirstSeq b = eversions st (bStream b) + 1"
    using Cons.prems(2) by (simp_all add: chained_snoc indexed_def)
  have s: "index_scan J (es_pairs J (b # bs)) st = index_scan J (es_pairs J bs) (index_batch b st)"
    using J b by (simp add: es_pairs_def gkey_prefix es_roundtrip_def)
  have "edb (index_batch b st) = edb st" "esubs (index_batch b st) = esubs st" by (simp_all add: index_batch_def bump_fields)
  then show ?case using Cons.IH [of "done @ [b]" "index_batch b st"] indexed_batch [OF Cons.prems(2) c] Cons.prems(1) s
    by simp
qed

lemma notifyAll_fields:
  "indexed bs (notifyAll st) = indexed bs st" "edb (notifyAll st) = edb st" "es_inv ok cont J bs (notifyAll st) = es_inv ok cont J bs st"
  by (simp_all add: notifyAll_def indexed_def es_inv_def)

lemma es_pairs_snoc:
  assumes "chained (bs @ [b])" "length (es_log (bs @ [b])) < 2 ^ 64 - 1"
  shows "map_of (es_pairs J (bs @ [b])) = (map_of (es_pairs J bs))(gkey (bFirstGlobal b) \<mapsto> jbatch J b)"
proof -
  have "distinct (map fst (es_pairs J (bs @ [b])))"
    using es_pairs_sorted [OF assms] strict_sorted_iff by blast
  then have "gkey (bFirstGlobal b) \<notin> fst ` set (es_pairs J bs)" by (simp add: es_pairs_def image_image)
  then have "map_of (es_pairs J bs) (gkey (bFirstGlobal b)) = None" by (simp add: map_of_eq_None_iff)
  then show ?thesis by (auto simp: es_pairs_def map_add_def fun_eq_iff split: option.splits)
qed

definition new_batch :: "int \<Rightarrow> string \<Rightarrow> EventData list \<Rightarrow> 's estore \<Rightarrow> batchRecord" where
  "new_batch now stream events st = \<lparr>bStream = stream, bAt = now, bFirstSeq = eversions st stream + 1,
     bFirstGlobal = eglobal st + 1, bEvents = map (\<lambda>e. \<lparr>beType = edType e, beData = edData e\<rparr>) events\<rparr>"

definition append_rec :: "es_json \<Rightarrow> batchRecord \<Rightarrow> rec" where
  "append_rec J b = \<lparr>rkey = gkey (bFirstGlobal b), rval = jbatch J b, rtomb = False\<rparr>"

lemma es_append_cases:
  "es_append K J now stream expected events st =
     (if stream = [] then (st, Inl ErrNoStream)
      else if events = [] then (st, Inl ErrNoEvents)
      else if expected \<ge> 0 \<and> nat expected \<noteq> eversions st stream then (st, Inl ErrVersionConflict)
      else let b = new_batch now stream events st in
          (case kput K (edb st) (gkey (bFirstGlobal b)) (jbatch J b) of
             (Some e, s) \<Rightarrow> (st\<lparr>edb := s\<rparr>, Inl (EsDb e))
           | (None, s) \<Rightarrow> (notifyAll (index_batch b (st\<lparr>edb := s\<rparr>)), Inr (batch_events b))))"
  by (simp add: es_append_def new_batch_def Let_def)

lemma new_batch_chained:
  assumes "chained bs" "indexed bs st" "events \<noteq> []"
  shows "chained (bs @ [new_batch now stream events st])"
  using assms by (simp add: chained_snoc new_batch_def indexed_def)

context kv
begin

lemma es_open_inv:
  assumes "es_inv ok content J bs st" "es_roundtrip J"
  shows "\<exists>st0. es_open K J (edb st) = Inr st0 \<and> es_inv ok content J bs st0"
proof -
  have i: "ok (edb st)" "content (edb st) = map_of (es_pairs J bs)" "chained bs" "length (es_log bs) < 2 ^ 64 - 1"
    using assms(1) by (simp_all add: es_inv_def)
  have "kscan K (edb st) [] = Inr (es_pairs J bs)"
    using scan_listing [OF i(1) es_pairs_sorted [OF i(3,4)], of J "[]"] i(2) by simp
  moreover have e: "indexed [] \<lparr>edb = edb st, eglobal = 0, eversions = (\<lambda>_. 0), eidx = (\<lambda>_. []), estarts = [], esubs = [], enextSub = 0\<rparr>"
    by (simp add: indexed_def)
  ultimately show ?thesis using index_scan_pairs [OF assms(2) _ e, of bs] i by (simp add: es_open_def es_inv_def)
qed

lemma es_append_inv:
  assumes inv: "es_inv ok content J bs st" and ne: "stream \<noteq> []" "events \<noteq> []"
    and v: "expected < 0 \<or> nat expected = eversions st stream"
    and room: "length (es_log bs) + length events < 2 ^ 64 - 1"
    and fit: "fits (edb st) (append_rec J (new_batch now stream events st))"
  shows "\<exists>st'. es_append K J now stream expected events st = (st', Inr (batch_events (new_batch now stream events st)))
    \<and> es_inv ok content J (bs @ [new_batch now stream events st]) st'"
proof -
  let ?b = "new_batch now stream events st"
  have i: "ok (edb st)" "content (edb st) = map_of (es_pairs J bs)" "chained bs" "indexed bs st"
    using inv by (simp_all add: es_inv_def)
  have c: "chained (bs @ [?b])" by (rule new_batch_chained [OF i(3,4) ne(2)])
  have l: "length (es_log (bs @ [?b])) < 2 ^ 64 - 1" using room by (simp add: new_batch_def)
  have "gkey (bFirstGlobal ?b) \<noteq> []" by (simp add: gkey_def string_bytes_def)
  then obtain s where s: "kput K (edb st) (gkey (bFirstGlobal ?b)) (jbatch J ?b) = (None, s)" "ok s"
    "content s = (content (edb st))(gkey (bFirstGlobal ?b) \<mapsto> jbatch J ?b)"
    using put [OF i(1)] fit unfolding append_rec_def by blast
  let ?st = "index_batch ?b (st\<lparr>edb := s\<rparr>)"
  have "indexed bs (st\<lparr>edb := s\<rparr>)" using i(4) by (simp add: indexed_def)
  then have "indexed (bs @ [?b]) ?st" using indexed_batch c by blast
  moreover have "edb ?st = s" by (simp add: index_batch_def bump_fields)
  moreover have "content s = map_of (es_pairs J (bs @ [?b]))" using s(3) i(2) es_pairs_snoc [OF c l, of J] by simp
  ultimately have "es_inv ok content J (bs @ [?b]) (notifyAll ?st)"
    unfolding notifyAll_fields using s(2) c l by (simp add: es_inv_def)
  moreover have "\<not> (expected \<ge> 0 \<and> nat expected \<noteq> eversions st stream)" using v by auto
  ultimately show ?thesis using s(1) ne unfolding es_append_cases Let_def by (simp del: notifyAll_fields)
qed

end

section \<open>Reading\<close>

definition upto_limit :: "int \<Rightarrow> 'a list \<Rightarrow> 'a list" where
  "upto_limit limit xs = (if limit > 0 then take (nat limit) xs else xs)"

lemma filter_from_nth:
  assumes "sorted_wrt (<) (map fst ys)" "i < length ys"
  shows "filter (\<lambda>(k, _). fst (ys ! i) \<le> (k :: bytes)) ys = drop i ys"
proof -
  have lt: "fst (ys ! a) < fst (ys ! b)" if "a < b" "b < length ys" for a b
    using assms(1) that by (simp add: sorted_wrt_iff_nth_less)
  have "filter (\<lambda>(k, _). fst (ys ! i) \<le> k) (take i ys) = []"
  proof (rule filter_False, rule ballI)
    fix x assume "x \<in> set (take i ys)"
    then obtain j where "j < i" "x = ys ! j" by (auto simp: in_set_conv_nth)
    then show "\<not> (case x of (k, _) \<Rightarrow> fst (ys ! i) \<le> k)" using lt [of j i] assms(2) by (simp add: split_def not_le)
  qed
  moreover have "filter (\<lambda>(k, _). fst (ys ! i) \<le> k) (drop i ys) = drop i ys"
  proof (rule filter_True, rule ballI)
    fix x assume "x \<in> set (drop i ys)"
    then obtain j where "j < length ys - i" "x = ys ! (i + j)" by (auto simp: in_set_conv_nth)
    then have "i + j < length ys" "x = ys ! (i + j)" by simp_all
    then show "case x of (k, _) \<Rightarrow> fst (ys ! i) \<le> k" using lt [of i "i + j"] by (cases "j = 0") (auto split: prod.splits)
  qed
  ultimately show ?thesis by (metis append_Nil append_take_drop_id filter_append)
qed

fun events_from :: "batchRecord \<Rightarrow> nat \<Rightarrow> batchEvent list \<Rightarrow> Event list" where
  "events_from b i [] = []"
| "events_from b i (e # es) = event_at b i e # events_from b (i + 1) es"

lemma events_from_batch: "events_from b 0 (bEvents b) = batch_events b"
proof -
  have "events_from b i es = map (\<lambda>j. event_at b (i + j) (es ! j)) [0..<length es]" for i es
  proof (induction es arbitrary: i)
    case (Cons e es)
    have "[0..<length (e # es)] = 0 # map Suc [0..<length es]" by (simp add: upt_conv_Cons map_Suc_upt del: upt_Suc)
    then show ?case using Cons [of "i + 1"] by (simp add: comp_def)
  qed simp
  from this [of 0 "bEvents b"] show ?thesis by (simp add: batch_events_def)
qed

lemma read_events_filter:
  "\<not> (limit > 0 \<and> int (length out) \<ge> limit) \<Longrightarrow>
   read_events lo limit b i es out =
     (let all = out @ filter (\<lambda>e. lo \<le> evGlobal e) (events_from b i es) in
      if limit > 0 \<and> int (length all) \<ge> limit then (take (nat limit) all, False) else (all, True))"
proof (induction es arbitrary: i out)
  case (Cons e es)
  have g: "evGlobal (event_at b i e) = bFirstGlobal b + i" by (simp add: event_at_def)
  show ?case
  proof (cases "bFirstGlobal b + i < lo")
    case True
    then show ?thesis using Cons.IH [OF Cons.prems, of "i + 1"] g by simp
  next
    case False
    show ?thesis
    proof (cases "limit > 0 \<and> int (length (out @ [event_at b i e])) \<ge> limit")
      case True
      then have "nat limit = length (out @ [event_at b i e])" using Cons.prems by auto
      then show ?thesis using False True g by (simp add: Let_def)
    next
      case small: False
      then show ?thesis using False Cons.IH [OF small, of "i + 1"] g by (simp add: Let_def)
    qed
  qed
qed (simp add: Let_def)

lemma read_batches_filter:
  assumes J: "es_roundtrip J"
  shows "\<not> (limit > 0 \<and> int (length out) \<ge> limit) \<Longrightarrow>
    read_batches J lo limit (es_pairs J bs) out = Inr (upto_limit limit (out @ filter (\<lambda>e. lo \<le> evGlobal e) (es_log bs)))"
proof (induction bs arbitrary: out)
  case Nil
  then show ?case by (auto simp: es_pairs_def upto_limit_def)
next
  case (Cons b bs)
  let ?all = "out @ filter (\<lambda>e. lo \<le> evGlobal e) (batch_events b)"
  have u: "unbatch J (jbatch J b) = Some b" using J by (simp add: es_roundtrip_def)
  have p: "es_pairs J (b # bs) = (gkey (bFirstGlobal b), jbatch J b) # es_pairs J bs" by (simp add: es_pairs_def)
  have l: "es_log (b # bs) = batch_events b @ es_log bs" by (simp add: es_log_def)
  note R = read_events_filter [OF Cons.prems, of lo b 0 "bEvents b", unfolded events_from_batch Let_def]
  show ?case
  proof (cases "limit > 0 \<and> int (length ?all) \<ge> limit")
    case True
    then have "nat limit \<le> length ?all" by (simp add: nat_le_iff)
    then have "take (nat limit) (?all @ xs) = take (nat limit) ?all" for xs by simp
    then show ?thesis using True R u by (simp add: p l upto_limit_def)
  next
    case False
    have r: "read_events lo limit b 0 (bEvents b) out = (?all, True)" using R False by argo
    show ?thesis using Cons.IH [OF False] r u by (simp add: p l)
  qed
qed

lemma log_globals: "chained bs \<Longrightarrow> i < length (es_log bs) \<Longrightarrow> evGlobal (es_log bs ! i) = i + 1"
  using log_numbers [of bs] by (metis add.commute diff_Suc_1 length_map length_upt nth_map nth_upt plus_1_eq_Suc add_less_mono1)

lemma filter_log_from:
  assumes "chained bs"
  shows "filter (\<lambda>e. lo \<le> evGlobal e) (es_log bs) = drop (lo - 1) (es_log bs)"
proof -
  let ?l = "es_log bs"
  have a: "filter (\<lambda>e. lo \<le> evGlobal e) (take (lo - 1) ?l) = []"
    using log_globals [OF assms] by (auto simp: filter_empty_conv in_set_conv_nth)
  have "filter (\<lambda>e. lo \<le> evGlobal e) (drop (lo - 1) ?l) = drop (lo - 1) ?l"
    using log_globals [OF assms] by (auto simp: filter_id_conv in_set_conv_nth)
  with a show ?thesis by (metis append_Nil append_take_drop_id filter_append)
qed

text \<open>The batch that \<open>batchStartFor\<close> finds.\<close>

lemma batchStart_last:
  assumes c: "chained bs" and ix: "indexed bs st" and g: "1 \<le> g" and ne: "bs \<noteq> []"
  obtains m where "m < length bs" "batchStartFor g st = bFirstGlobal (bs ! m)" "bFirstGlobal (bs ! m) \<le> g"
    "m + 1 < length bs \<Longrightarrow> g < bFirstGlobal (bs ! (m + 1))"
proof -
  let ?P = "\<lambda>x. \<not> x > g" and ?xs = "map bFirstGlobal bs"
  let ?n = "length (takeWhile ?P ?xs)"
  have st: "estarts st = ?xs" using ix by (simp add: indexed_def)
  have "bFirstGlobal (bs ! 0) = 1" using c ne by (simp add: chained_def)
  then have "?n \<noteq> 0" using ne g by (cases bs) auto
  moreover have n: "?n \<le> length bs" using length_takeWhile_le [of ?P ?xs] by simp
  moreover have "?xs ! (?n - 1) \<le> g" using calculation nth_mem [of "?n - 1" "takeWhile ?P ?xs"]
    by (auto dest!: set_takeWhileD simp: takeWhile_nth)
  moreover have "g < ?xs ! ?n" if "?n < length bs" using nth_length_takeWhile [of ?P ?xs] that by simp
  ultimately have *: "?n \<noteq> 0" "?n \<le> length bs" "?xs ! (?n - 1) \<le> g" "?n < length bs \<Longrightarrow> g < ?xs ! ?n" by blast+
  obtain k where k: "?n = Suc k" using *(1) by (cases ?n) auto
  show ?thesis
  proof (rule that [of k])
    show "k < length bs" using *(2) k by simp
    show "batchStartFor g st = bFirstGlobal (bs ! k)" using k *(2) ne by (simp add: batchStartFor_def st Let_def)
    show "bFirstGlobal (bs ! k) \<le> g" using k *(2,3) by simp
    show "g < bFirstGlobal (bs ! (k + 1))" if "k + 1 < length bs" using k *(4) that by simp
  qed
qed

lemma locate:
  assumes c: "chained bs" and ix: "indexed bs st" and e: "e \<in> set (es_log bs)"
  obtains m i where "m < length bs" "i < length (bEvents (bs ! m))" "e = event_at (bs ! m) i (bEvents (bs ! m) ! i)"
    "batchStartFor (evGlobal e) st = bFirstGlobal (bs ! m)"
proof -
  obtain b where b: "b \<in> set bs" "e \<in> set (batch_events b)" using e by (auto simp: es_log_def)
  obtain m where m: "m < length bs" "b = bs ! m" using b(1) by (auto simp: in_set_conv_nth)
  obtain i where i: "i < length (bEvents b)" "e = event_at b i (bEvents b ! i)" using b(2) by (auto simp: batch_events_def)
  have g: "evGlobal e = bFirstGlobal (bs ! m) + i" using i m by (simp add: event_at_def)
  have "1 \<le> evGlobal e" using g chained_bounds(2) [OF c m(1)] by simp
  moreover have "bs \<noteq> []" using m(1) by auto
  ultimately obtain m' where m': "m' < length bs"
    "batchStartFor (evGlobal e) st = bFirstGlobal (bs ! m')" "bFirstGlobal (bs ! m') \<le> evGlobal e"
    "m' + 1 < length bs \<Longrightarrow> evGlobal e < bFirstGlobal (bs ! (m' + 1))" by (rule batchStart_last [OF c ix]) blast
  have srt: "bFirstGlobal (bs ! x) \<le> bFirstGlobal (bs ! y)" if "x \<le> y" "y < length bs" for x y
    using firsts_sorted [OF c] that by (cases "x = y") (auto simp: sorted_wrt_iff_nth_less intro: less_imp_le)
  have "m' = m"
  proof (rule linorder_cases)
    assume "m' < m"
    then have "evGlobal e < bFirstGlobal (bs ! m)" using m'(4) srt [of "m' + 1" m] m(1) by fastforce
    then show ?thesis using g by simp
  next
    assume "m < m'"
    then have "evGlobal e < bFirstGlobal (bs ! m')" using chained_bounds(3) [OF c m(1), of m'] m'(1) g i(1) m(2) by simp
    then show ?thesis using m'(3) by simp
  qed
  then show ?thesis using that m i m'(2) by blast
qed

context kv
begin

lemma ReadAll_log:
  assumes inv: "es_inv ok content J bs st" and J: "es_roundtrip J"
  shows "ReadAll K J from0 limit st = Inr (upto_limit limit (drop (from0 - 1) (es_log bs)))"
proof -
  have i: "ok (edb st)" "content (edb st) = map_of (es_pairs J bs)" "chained bs" "length (es_log bs) < 2 ^ 64 - 1" "indexed bs st"
    using inv by (simp_all add: es_inv_def)
  let ?lo = "if from0 = 0 then 1 else from0"
  show ?thesis
  proof (cases "bs = []")
    case True
    then show ?thesis using i(5) by (simp add: ReadAll_def batchStartFor_def indexed_def upto_limit_def Let_def)
  next
    case False
    obtain m where m: "m < length bs" "batchStartFor ?lo st = bFirstGlobal (bs ! m)" "bFirstGlobal (bs ! m) \<le> ?lo"
    proof (rule batchStart_last [OF i(3,5) _ False, of ?lo])
      show "1 \<le> ?lo" by simp
    qed
    have s: "0 < bFirstGlobal (bs ! m)" by (rule chained_bounds(2) [OF i(3) m(1)])
    have "fst (es_pairs J bs ! m) = gkey (bFirstGlobal (bs ! m))" using m(1) by (simp add: es_pairs_def)
    then have d: "filter (\<lambda>(k, _). gkey (bFirstGlobal (bs ! m)) \<le> k) (es_pairs J bs) = es_pairs J (drop m bs)"
      using filter_from_nth [OF es_pairs_sorted [OF i(3,4)], of m J] m(1) by (simp add: es_pairs_def drop_map)
    have "kscan K (edb st) (gkey (bFirstGlobal (bs ! m))) = Inr (es_pairs J (drop m bs))"
    proof (rule scan_listing [OF i(1)])
      show "sorted_wrt (<) (map fst (es_pairs J (drop m bs)))"
        using es_pairs_sorted [OF i(3,4), of J] by (simp add: es_pairs_def sorted_wrt_drop flip: drop_map)
      show "\<forall>k. map_of (es_pairs J (drop m bs)) k = (if gkey (bFirstGlobal (bs ! m)) \<le> k then content (edb st) k else None)"
        unfolding d [symmetric] i(2) by (simp add: map_of_filter_fst)
    qed
    then have "ReadAll K J from0 limit st = Inr (upto_limit limit (filter (\<lambda>e. ?lo \<le> evGlobal e) (es_log (drop m bs))))"
      using read_batches_filter [OF J, of limit "[]" ?lo "drop m bs"] m(2) s by (auto simp: ReadAll_def Let_def)
    moreover have "filter (\<lambda>e. ?lo \<le> evGlobal e) (es_log (drop m bs)) = drop (from0 - 1) (es_log bs)"
    proof -
      have c: "chained (take m bs)" using i(3) by (metis append_take_drop_id chained_prefix)
      have "length (es_log (take m bs)) < ?lo" using i(3) m(1,3) by (simp add: chained_def)
      then have "filter (\<lambda>e. ?lo \<le> evGlobal e) (es_log (take m bs)) = []" using filter_log_from [OF c, of ?lo] by simp
      then have "filter (\<lambda>e. ?lo \<le> evGlobal e) (es_log bs) = filter (\<lambda>e. ?lo \<le> evGlobal e) (es_log (drop m bs))"
        by (metis append_Nil append_take_drop_id es_log_append(2) filter_append)
      then show ?thesis using filter_log_from [OF i(3), of ?lo] by auto
    qed
    ultimately show ?thesis by simp
  qed
qed

lemma stream_loop_log:
  assumes inv: "es_inv ok content J bs st" and J: "es_roundtrip J"
  shows "set es \<subseteq> set (es_log bs) \<Longrightarrow> \<forall>e\<in>set es. evStream e = stream \<Longrightarrow> map evSeq es = [seq..<seq + length es]
    \<Longrightarrow> cachedStart = 0 \<or> (cached \<in> set bs \<and> bFirstGlobal cached = cachedStart)
    \<Longrightarrow> stream_loop K J st stream seq (map evGlobal es) cached cachedStart out = Inr (out @ es)"
proof (induction es arbitrary: seq cached cachedStart out)
  case (Cons e es)
  have i: "ok (edb st)" "content (edb st) = map_of (es_pairs J bs)" "chained bs" "length (es_log bs) < 2 ^ 64 - 1" "indexed bs st"
    using inv by (simp_all add: es_inv_def)
  have "e \<in> set (es_log bs)" using Cons.prems(1) by simp
  then obtain m k where m: "m < length bs" "k < length (bEvents (bs ! m))" "e = event_at (bs ! m) k (bEvents (bs ! m) ! k)"
    "batchStartFor (evGlobal e) st = bFirstGlobal (bs ! m)" by (rule locate [OF i(3,5)])
  let ?b = "bs ! m"
  have pos: "0 < bFirstGlobal ?b" by (rule chained_bounds(2) [OF i(3) m(1)])
  have same: "b = ?b" if b: "b \<in> set bs" "bFirstGlobal b = bFirstGlobal ?b" for b
  proof -
    have "distinct (map bFirstGlobal bs)" using firsts_sorted [OF i(3)] strict_sorted_iff by blast
    then show ?thesis using b m(1) by (metis distinct_map inj_onD nth_mem)
  qed
  have "map_of (es_pairs J bs) (gkey (bFirstGlobal ?b)) = Some (jbatch J ?b)"
    using es_pairs_sorted [OF i(3,4), of J] m(1) by (intro map_of_is_SomeI) (auto simp: strict_sorted_iff es_pairs_def)
  then have "kget K (edb st) (gkey (bFirstGlobal ?b)) = Inr (jbatch J ?b)" using get [OF i(1)] i(2) by simp
  moreover have "unbatch J (jbatch J ?b) = Some ?b" using J by (simp add: es_roundtrip_def)
  moreover have "cached = ?b" if "bFirstGlobal ?b = cachedStart" using same Cons.prems(4) pos that by auto
  moreover have g: "evGlobal e = bFirstGlobal ?b + k" "evType e = beType (bEvents ?b ! k)" "evData e = beData (bEvents ?b ! k)"
    "evAt e = bAt ?b" using m(3) by (simp_all add: event_at_def)
  moreover have q: "evStream e = stream" "evSeq e = seq" "map evSeq es = [seq + 1..<seq + 1 + length es]"
  proof -
    have "[seq..<seq + length (e # es)] = seq # [seq + 1..<seq + 1 + length es]" by (simp add: upt_conv_Cons del: upt_Suc)
    then show "evStream e = stream" "evSeq e = seq" "map evSeq es = [seq + 1..<seq + 1 + length es]"
      using Cons.prems(2,3) by simp_all
  qed
  moreover have "e = \<lparr>evGlobal = bFirstGlobal ?b + k, evStream = stream, evSeq = seq, evType = beType (bEvents ?b ! k),
      evData = beData (bEvents ?b ! k), evAt = bAt ?b\<rparr>" using g q by simp
  moreover have "stream_loop K J st stream (seq + 1) (map evGlobal es) ?b (bFirstGlobal ?b) (out @ [e]) = Inr (out @ e # es)"
    using Cons.IH [of "seq + 1" "bFirstGlobal ?b" ?b "out @ [e]"] Cons.prems(1,2) q(3) m(1) by simp
  ultimately show ?case using m(2,4) by (simp add: Let_def) metis
qed simp

lemma ReadStream_log:
  assumes inv: "es_inv ok content J bs st" and J: "es_roundtrip J"
  shows "ReadStream K J stream fromSeq limit st = Inr (upto_limit limit (drop (fromSeq - 1) (of_stream stream (es_log bs))))"
proof -
  have i: "chained bs" "indexed bs st" using inv by (simp_all add: es_inv_def)
  let ?lo = "if fromSeq = 0 then 1 else fromSeq" and ?s = "of_stream stream (es_log bs)"
  let ?out = "upto_limit limit (drop (fromSeq - 1) ?s)"
  have idx: "eidx st stream = map evGlobal ?s" using i(2) by (simp add: indexed_def)
  show ?thesis
  proof (cases "?lo > length ?s")
    case True
    then show ?thesis by (auto simp: ReadStream_def idx upto_limit_def Let_def split: if_splits)
  next
    case False
    have d: "drop (?lo - 1) (map evGlobal ?s) = map evGlobal (drop (fromSeq - 1) ?s)" by (simp add: drop_map)
    have g: "(if limit > 0 \<and> int (length (drop (?lo - 1) (map evGlobal ?s))) > limit
        then take (nat limit) (drop (?lo - 1) (map evGlobal ?s)) else drop (?lo - 1) (map evGlobal ?s)) = map evGlobal ?out"
      unfolding d upto_limit_def by (auto simp: take_map nat_le_iff)
    have "map evSeq ?s = [1..<Suc (length ?s)]" using log_numbers [OF i(1)] by blast
    then have "map evSeq (drop (fromSeq - 1) ?s) = [?lo..<Suc (length ?s)]"
      by (auto simp: drop_map [symmetric] drop_upt simp del: upt_Suc)
    then have q: "map evSeq ?out = [?lo..<?lo + length ?out]"
      using False by (auto simp: upto_limit_def take_map [symmetric] take_upt min_def simp del: upt_Suc)
    have "set ?out \<subseteq> set ?s" by (auto simp: upto_limit_def dest: in_set_takeD in_set_dropD)
    then have "set ?out \<subseteq> set (es_log bs)" "\<forall>e\<in>set ?out. evStream e = stream" by (auto simp: of_stream_def)
    from stream_loop_log [OF inv J this q, of 0 no_batch "[]"]
    have l: "stream_loop K J st stream ?lo (map evGlobal ?out) no_batch 0 [] = Inr ?out" by simp
    show ?thesis unfolding ReadStream_def Let_def idx by (simp only: length_map False if_False g l)
  qed
qed

lemma project_log:
  assumes inv: "es_inv ok content J bs st" and J: "es_roundtrip J"
  shows "cp \<le> length (es_log bs) \<Longrightarrow> length (es_log bs) - cp < n \<Longrightarrow>
    project n K J (fold f) st (cp, fold f (take cp (es_log bs)) m) = Some (length (es_log bs), fold f (es_log bs) m)"
proof (induction n arbitrary: cp)
  case (Suc n)
  let ?l = "es_log bs" and ?evs = "take 256 (drop cp (es_log bs))"
  have c: "chained bs" using inv by (simp add: es_inv_def)
  have r: "ReadAll K J (cp + 1) 256 st = Inr ?evs" using ReadAll_log [OF inv J, of "cp + 1" 256] by (simp add: upto_limit_def)
  show ?case
  proof (cases "?evs = []")
    case True
    then have "cp = length ?l" using Suc.prems(1) by simp
    then show ?thesis using r by (simp add: project_turn_def)
  next
    case False
    then have len: "0 < length ?evs" "cp + length ?evs \<le> length ?l" by (auto simp: min_def)
    have "last ?evs = ?l ! (cp + length ?evs - 1)" using False len by (simp add: last_conv_nth)
    then have g: "evGlobal (last ?evs) = cp + length ?evs"
      using log_globals [OF c, of "cp + length ?evs - 1"] len by simp
    have "take (cp + length ?evs) ?l = take cp ?l @ ?evs" by (simp add: take_add min_def)
    then have "fold f ?evs (fold f (take cp ?l) m) = fold f (take (cp + length ?evs) ?l) m" by simp
    then have "project (Suc n) K J (fold f) st (cp, fold f (take cp ?l) m)
      = project n K J (fold f) st (cp + length ?evs, fold f (take (cp + length ?evs) ?l) m)"
      using r g False by (simp add: project_turn_def del: fold_append)
    then show ?thesis using Suc.IH [of "cp + length ?evs"] len Suc.prems by simp
  qed
qed simp

end

section \<open>The event store on the database\<close>

type_synonym append_cmd = "int \<times> string \<times> int \<times> EventData list"

fun es_run :: "'s kv_ops \<Rightarrow> es_json \<Rightarrow> append_cmd list \<Rightarrow> 's estore \<Rightarrow> 's estore \<times> (es_err + Event list) list" where
  "es_run K J [] st = (st, [])"
| "es_run K J ((now, stream, expected, events) # cs) st =
     (case es_append K J now stream expected events st of
        (st1, r) \<Rightarrow> (case es_run K J cs st1 of (st2, rs) \<Rightarrow> (st2, r # rs)))"

text \<open>Each append that gets past its checks fits the tables and the numbers.\<close>

fun es_fits :: "'s kv_ops \<Rightarrow> ('s \<Rightarrow> rec \<Rightarrow> bool) \<Rightarrow> es_json \<Rightarrow> append_cmd list \<Rightarrow> 's estore \<Rightarrow> bool" where
  "es_fits K fits J [] st = True"
| "es_fits K fits J ((now, stream, expected, events) # cs) st =
     (eglobal st + length events < 2 ^ 64 - 1
      \<and> (stream \<noteq> [] \<and> events \<noteq> [] \<and> (expected < 0 \<or> nat expected = eversions st stream)
          \<longrightarrow> fits (edb st) (append_rec J (new_batch now stream events st)))
      \<and> es_fits K fits J cs (fst (es_append K J now stream expected events st)))"

fun appended :: "(es_err + Event list) list \<Rightarrow> Event list" where
  "appended [] = []"
| "appended (Inr evs # rs) = evs @ appended rs"
| "appended (Inl e # rs) = appended rs"

context kv
begin

lemma es_run_inv:
  "es_inv ok content J bs st \<Longrightarrow> es_fits K fits J cs st \<Longrightarrow> es_run K J cs st = (st', rs)
   \<Longrightarrow> \<exists>bs'. es_inv ok content J bs' st' \<and> es_log bs' = es_log bs @ appended rs"
proof (induction cs arbitrary: bs st rs)
  case (Cons c cs)
  obtain now stream expected events where c: "c = (now, stream, expected, events)" by (cases c)
  obtain st1 r where a: "es_append K J now stream expected events st = (st1, r)" by fastforce
  obtain rs' where r: "es_run K J cs st1 = (st', rs')" "rs = r # rs'" using Cons.prems(3) a by (auto simp: c split: prod.splits)
  have fit: "es_fits K fits J cs st1" using Cons.prems(2) a by (simp add: c)
  show ?case
  proof (cases "stream \<noteq> [] \<and> events \<noteq> [] \<and> (expected < 0 \<or> nat expected = eversions st stream)")
    case True
    have g: "eglobal st = length (es_log bs)" using Cons.prems(1) by (simp add: es_inv_def indexed_def)
    let ?b = "new_batch now stream events st"
    have "st1 = st1 \<and> r = Inr (batch_events ?b) \<and> es_inv ok content J (bs @ [?b]) st1"
      using es_append_inv [OF Cons.prems(1), of stream events expected now] True Cons.prems(2) a g by (auto simp: c)
    then show ?thesis using Cons.IH [of "bs @ [?b]" st1 rs'] fit r by fastforce
  next
    case False
    then have "\<exists>e. (st1, r) = (st, Inl e)" unfolding a [symmetric] es_append_cases by auto
    then show ?thesis using Cons.IH [of bs st rs'] Cons.prems(1) fit r by auto
  qed
qed auto

end

lemma es_open_empty:
  assumes "db_live s" "db_abs s = Map.empty" "es_roundtrip J"
  obtains st0 where "es_open (db_ops rnd) J s = Inr st0" "es_inv db_live db_abs J [] st0"
proof -
  let ?st = "\<lparr>edb = s, eglobal = 0, eversions = (\<lambda>_. 0), eidx = (\<lambda>_. []), estarts = [], esubs = [], enextSub = 0\<rparr>"
  have "es_inv db_live db_abs J [] ?st" using assms(1,2) by (simp add: es_inv_def es_pairs_def chained_def indexed_def)
  from db.es_open_inv [OF this assms(3), of rnd] show ?thesis using that by auto
qed

text \<open>\<^bold>\<open>C15\<close> The event store is its log: on a fresh database, after any appends, to any streams and with
  any expected versions, the log is exactly the events the successful appends returned, in order,
  numbered from one without gaps, globally and in each stream; \<open>ReadAll\<close> and \<open>ReadStream\<close> return its
  events from any position up to any limit; and all this holds as well after closing and reopening.\<close>

theorem event_store_log:
  assumes "db_live s" "db_abs s = Map.empty" "es_roundtrip J" and "es_open (db_ops rnd) J s = Inr st0"
    and "es_fits (db_ops rnd) write_room J cs st0" and "es_run (db_ops rnd) J cs st0 = (st, rs)"
  shows "map evGlobal (appended rs) = [1..<Suc (length (appended rs))]
    \<and> (\<forall>stream. map evSeq (of_stream stream (appended rs)) = [1..<Suc (length (of_stream stream (appended rs)))])
    \<and> (\<exists>st1. es_open (db_ops rnd) J (edb st) = Inr st1 \<and> (\<forall>x \<in> {st, st1}.
        (\<forall>lo limit. ReadAll (db_ops rnd) J lo limit x = Inr (upto_limit limit (drop (lo - 1) (appended rs))))
      \<and> (\<forall>stream lo limit. ReadStream (db_ops rnd) J stream lo limit x
           = Inr (upto_limit limit (drop (lo - 1) (of_stream stream (appended rs)))))
      \<and> LastGlobal x = length (appended rs) \<and> (\<forall>stream. es_version stream x = length (of_stream stream (appended rs)))))"
proof -
  have "es_inv db_live db_abs J [] st0" using es_open_empty [OF assms(1-3), of rnd] assms(4) by auto
  from db.es_run_inv [OF this assms(5,6)] obtain bs where bs: "es_inv db_live db_abs J bs st" "es_log bs = appended rs" by auto
  obtain st1 where st1: "es_open (db_ops rnd) J (edb st) = Inr st1" "es_inv db_live db_abs J bs st1"
    using db.es_open_inv [OF bs(1) assms(3)] by blast
  have c: "chained bs" using bs(1) by (simp add: es_inv_def)
  have ix: "LastGlobal x = length (appended rs) \<and> es_version stream x = length (of_stream stream (appended rs))"
    if "es_inv db_live db_abs J bs x" for x stream
    using that bs(2) by (simp add: es_inv_def indexed_def LastGlobal_def es_version_def)
  show ?thesis
    using log_numbers [OF c] st1 db.ReadAll_log [OF bs(1) assms(3)] db.ReadAll_log [OF st1(2) assms(3)]
      db.ReadStream_log [OF bs(1) assms(3)] db.ReadStream_log [OF st1(2) assms(3)] ix [OF bs(1)] ix [OF st1(2)]
    unfolding bs(2) by blast
qed

text \<open>\<^bold>\<open>C20\<close> A projection sees every event exactly once, in order: run to its end on a store with any history
  of appends, in turns of up to 256 events, the loop ends within one turn per event, has applied the
  whole log and has its length as checkpoint.\<close>

theorem projection_exactly_once:
  assumes "db_live s" "db_abs s = Map.empty" "es_roundtrip J" and "es_open (db_ops rnd) J s = Inr st0"
    and "es_fits (db_ops rnd) write_room J cs st0" and "es_run (db_ops rnd) J cs st0 = (st, rs)"
  shows "project (Suc (length (appended rs))) (db_ops rnd) J (fold f) st (0, m) = Some (length (appended rs), fold f (appended rs) m)"
proof -
  have "es_inv db_live db_abs J [] st0" using es_open_empty [OF assms(1-3), of rnd] assms(4) by auto
  from db.es_run_inv [OF this assms(5,6)] obtain bs where bs: "es_inv db_live db_abs J bs st" "es_log bs = appended rs" by auto
  show ?thesis using db.project_log [OF bs(1) assms(3), of 0 "Suc (length (appended rs))" rnd f m] bs(2) by simp
qed

section \<open>A codec and a run\<close>

fun dec_events :: "nat \<Rightarrow> bytes \<Rightarrow> batchEvent list" where
  "dec_events 0 r = []"
| "dec_events (Suc n) r =
     (case dec_bytes r of (t, r1) \<Rightarrow> case dec_bytes r1 of (d, r2) \<Rightarrow> \<lparr>beType = bytes_string t, beData = d\<rparr> # dec_events n r2)"

lemma dec_events_enc: "dec_events (length es) (concat (map (\<lambda>e. enc_bytes (string_bytes (beType e)) @ enc_bytes (beData e)) es)) = es"
  by (induction es) (simp_all add: codec_simps)

definition plain_json :: es_json where
  "plain_json = \<lparr>jbatch = (\<lambda>b. enc_bytes (string_bytes (bStream b)) @ enc_nat (nat (bAt b)) @ enc_nat (nat (- bAt b))
       @ enc_nat (bFirstSeq b) @ enc_nat (bFirstGlobal b) @ enc_nat (length (bEvents b))
       @ concat (map (\<lambda>e. enc_bytes (string_bytes (beType e)) @ enc_bytes (beData e)) (bEvents b))),
     unbatch = (\<lambda>r. case dec_bytes r of (s, r) \<Rightarrow> case dec_nat r of (p, r) \<Rightarrow> case dec_nat r of (m, r) \<Rightarrow>
       case dec_nat r of (fs, r) \<Rightarrow> case dec_nat r of (fg, r) \<Rightarrow> case dec_nat r of (n, r) \<Rightarrow>
       Some \<lparr>bStream = bytes_string s, bAt = int p - int m, bFirstSeq = fs, bFirstGlobal = fg, bEvents = dec_events n r\<rparr>)\<rparr>"

lemma plain_json_roundtrip: "es_roundtrip plain_json"
  by (simp add: es_roundtrip_def plain_json_def codec_simps dec_events_enc)

definition sample_append :: append_cmd where
  "sample_append = (0, ''s'', 0, [\<lparr>edType = ''t'', edData = []\<rparr>])"

lemma sample_es_run:
  obtains st0 st evs where "db_live fresh_db" "db_abs fresh_db = Map.empty" "es_open (db_ops (\<lambda>_. 1)) plain_json fresh_db = Inr st0"
    "es_fits (db_ops (\<lambda>_. 1)) write_room plain_json [sample_append] st0"
    "es_run (db_ops (\<lambda>_. 1)) plain_json [sample_append] st0 = (st, [Inr evs])"
    "evs = [\<lparr>evGlobal = 1, evStream = ''s'', evSeq = 1, evType = ''t'', evData = [], evAt = 0\<rparr>]"
proof -
  have l: "db_live fresh_db" by (simp add: db_live_def db_ok_def fresh_db_def newMemtable_ok)
  have e: "db_abs fresh_db = Map.empty"
    by (rule ext) (simp add: db_abs_def layers_def fresh_db_def newMemtable_ok live_val_def)
  let ?st = "\<lparr>edb = fresh_db, eglobal = 0, eversions = (\<lambda>_. 0), eidx = (\<lambda>_. []), estarts = [], esubs = [], enextSub = 0\<rparr>"
  have "kscan (db_ops (\<lambda>_. 1)) fresh_db [] = Inr []" by (rule db.scan_listing [OF l]) (simp_all add: e)
  then have o': "es_open (db_ops (\<lambda>_. 1)) plain_json fresh_db = Inr ?st" by (simp add: es_open_def)
  have inv: "es_inv db_live db_abs plain_json [] ?st" using l e by (simp add: es_inv_def es_pairs_def chained_def indexed_def)
  let ?b = "new_batch 0 ''s'' [\<lparr>edType = ''t'', edData = []\<rparr>] ?st"
  have r: "append_rec plain_json ?b = \<lparr>rkey = [103, 47, 0, 0, 0, 0, 0, 0, 0, 1],
     rval = [1, 0, 115, 0, 0, 1, 0, 1, 0, 1, 0, 1, 0, 116, 0], rtomb = False\<rparr>"
    by (simp add: append_rec_def new_batch_def gkey_def string_bytes_def be64_def plain_json_def enc_bytes_def enc_nat_def)
  have "table_fits [append_rec plain_json ?b] 10" unfolding r
    by (simp add: table_fits_def rec_fits_def bloom_nbits_def sparse_def index_bytes_def wal_bytes_def
        encodeRec_def payload_of_def put_uvarint.simps Let_def)
  then have w: "write_room fresh_db (append_rec plain_json ?b)"
    by (simp add: write_room_def room_def fresh_db_def newMemtable_ok live_records_def merged_def rupsert_def
        withDefaults_def zero_opts_def append_rec_def)
  have f: "es_fits (db_ops (\<lambda>_. 1)) write_room plain_json [sample_append] ?st" using w by (simp add: sample_append_def)
  obtain st where "es_append (db_ops (\<lambda>_. 1)) plain_json 0 ''s'' 0 [\<lparr>edType = ''t'', edData = []\<rparr>] ?st = (st, Inr (batch_events ?b))"
    using db.es_append_inv [OF inv, of "''s''" "[\<lparr>edType = ''t'', edData = []\<rparr>]" 0 0 "\<lambda>_. 1"] w by auto
  then have "es_run (db_ops (\<lambda>_. 1)) plain_json [sample_append] ?st = (st, [Inr (batch_events ?b)])" by (simp add: sample_append_def)
  moreover have "batch_events ?b = [\<lparr>evGlobal = 1, evStream = ''s'', evSeq = 1, evType = ''t'', evData = [], evAt = 0\<rparr>]"
    by (simp add: batch_events_def new_batch_def event_at_def)
  ultimately show ?thesis using that l e o' f by blast
qed

theorem event_store_log_witness:
  "\<exists>st. ReadAll (db_ops (\<lambda>_. 1)) plain_json 0 0 st
     = Inr [\<lparr>evGlobal = 1, evStream = ''s'', evSeq = 1, evType = ''t'', evData = [], evAt = 0\<rparr>] \<and> LastGlobal st = 1"
proof -
  obtain st0 st evs where r: "db_live fresh_db" "db_abs fresh_db = Map.empty" "es_open (db_ops (\<lambda>_. 1)) plain_json fresh_db = Inr st0"
    "es_fits (db_ops (\<lambda>_. 1)) write_room plain_json [sample_append] st0"
    "es_run (db_ops (\<lambda>_. 1)) plain_json [sample_append] st0 = (st, [Inr evs])"
    "evs = [\<lparr>evGlobal = 1, evStream = ''s'', evSeq = 1, evType = ''t'', evData = [], evAt = 0\<rparr>]" by (rule sample_es_run)
  note L = event_store_log [OF r(1,2) plain_json_roundtrip r(3-5)]
  then have "ReadAll (db_ops (\<lambda>_. 1)) plain_json 0 0 st = Inr (upto_limit 0 (drop (0 - 1) (appended [Inr evs])))"
    "LastGlobal st = length (appended [Inr evs])" by blast+
  then show ?thesis by (intro exI [of _ st]) (simp add: upto_limit_def r(6))
qed

theorem projection_exactly_once_witness:
  "\<exists>st. project 2 (db_ops (\<lambda>_. 1)) plain_json (fold (\<lambda>e n. n + evSeq e)) st (0, 0) = Some (1, 1)"
proof -
  obtain st0 st evs where r: "db_live fresh_db" "db_abs fresh_db = Map.empty" "es_open (db_ops (\<lambda>_. 1)) plain_json fresh_db = Inr st0"
    "es_fits (db_ops (\<lambda>_. 1)) write_room plain_json [sample_append] st0"
    "es_run (db_ops (\<lambda>_. 1)) plain_json [sample_append] st0 = (st, [Inr evs])"
    "evs = [\<lparr>evGlobal = 1, evStream = ''s'', evSeq = 1, evType = ''t'', evData = [], evAt = 0\<rparr>]" by (rule sample_es_run)
  have "project (Suc (length (appended [Inr evs]))) (db_ops (\<lambda>_. 1)) plain_json (fold (\<lambda>e n. n + evSeq e)) st (0, 0)
      = Some (length (appended [Inr evs]), fold (\<lambda>e n. n + evSeq e) (appended [Inr evs]) 0)"
    by (rule projection_exactly_once [OF r(1,2) plain_json_roundtrip r(3-5)])
  then have "project 2 (db_ops (\<lambda>_. 1)) plain_json (fold (\<lambda>e n. n + evSeq e)) st (0, 0) = Some (1, 1)"
    by (simp add: r(6) numeral_2_eq_2)
  then show ?thesis by blast
qed

section \<open>A damaged log\<close>

text \<open>A batch that does not continue the log ends the opening scan, and the error the callback notes is
  lost: the store opens without it and all that follows, and the next append takes a number whose key
  is in use.\<close>

lemma open_hides_gap:
  assumes "db_live s" "es_roundtrip J" and "bFirstGlobal b = 2"
    and "db_abs s = map_of [(gkey 2, jbatch J b)]"
  shows "\<exists>st. es_open (db_ops rnd) J s = Inr st \<and> LastGlobal st = 0"
proof -
  have "kscan (db_ops rnd) s [] = Inr [(gkey 2, jbatch J b)]" by (rule db.scan_listing [OF assms(1)]) (simp_all add: assms(4))
  then show ?thesis using assms(2,3) by (simp add: es_open_def gkey_prefix es_roundtrip_def LastGlobal_def)
qed

end
