(* ===== verification/Elog.thy ===== *)
theory Elog
  imports Es
begin

text \<open>
  The event store as the services see it. A service operation is a program over the store's calls:
  what it does between two calls is its own, and what other goroutines do to the store happens between
  its calls. The specification of the store is the log alone; the interface is a locale, and the event
  store on a storage (\<open>Es\<close>) interprets it. Two ways to reason: \<open>run_prog\<close> for an operation alone with
  failing calls, and \<open>rg\<close>, rely and guarantee, for any interleaving of any operations.
\<close>

datatype es_call = ReadCall string nat int | ReadAllCall nat int | AppendCall string int "EventData list"

type_synonym reply = "es_err + Event list"

datatype 'a prog = Return 'a | Call es_call "reply \<Rightarrow> 'a prog"

primrec bind_prog :: "'a prog \<Rightarrow> ('a \<Rightarrow> 'b prog) \<Rightarrow> 'b prog" where
  "bind_prog (Return a) f = f a"
| "bind_prog (Call c k) f = Call c (\<lambda>r. bind_prog (k r) f)"

text \<open>A call answers at a time, and may fail in the storage below.\<close>

type_synonym circumstance = "int \<times> db_err option"

type_synonym 's call_exec = "int \<Rightarrow> es_call \<Rightarrow> 's \<Rightarrow> 's \<times> reply"

fun step_prog :: "'s call_exec \<Rightarrow> circumstance \<Rightarrow> 'a prog \<Rightarrow> 's \<Rightarrow> 'a prog \<times> 's" where
  "step_prog X w (Return a) s = (Return a, s)"
| "step_prog X (now, Some e) (Call c k) s = (k (Inl (EsDb e)), s)"
| "step_prog X (now, None) (Call c k) s = (case X now c s of (s', r) \<Rightarrow> (k r, s'))"

text \<open>Goroutines take turns, one call each, in any order. One that gets no more turns has crashed.\<close>

fun sched :: "'s call_exec \<Rightarrow> (nat \<times> circumstance) list \<Rightarrow> 'a prog list \<times> 's \<Rightarrow> 'a prog list \<times> 's" where
  "sched X [] (ps, s) = (ps, s)"
| "sched X ((i, w) # ts) (ps, s) =
     (if i < length ps then case step_prog X w (ps ! i) s of (p, s') \<Rightarrow> sched X ts (ps[i := p], s')
      else sched X ts (ps, s))"

text \<open>One program alone, to its end.\<close>

primrec run_prog :: "'s call_exec \<Rightarrow> 'a prog \<Rightarrow> (nat \<Rightarrow> circumstance) \<Rightarrow> 's \<Rightarrow> 's \<times> 'a" where
  "run_prog X (Return a) ws s = (s, a)"
| "run_prog X (Call c k) ws s =
     (case ws 0 of (now, Some e) \<Rightarrow> run_prog X (k (Inl (EsDb e))) (\<lambda>i. ws (Suc i)) s
      | (now, None) \<Rightarrow> (case X now c s of (s', r) \<Rightarrow> run_prog X (k r) (\<lambda>i. ws (Suc i)) s'))"

section \<open>The log\<close>

definition stamp :: "int \<Rightarrow> string \<Rightarrow> EventData list \<Rightarrow> Event list \<Rightarrow> Event list" where
  "stamp now stream events l =
     map (\<lambda>i. \<lparr>evGlobal = length l + 1 + i, evStream = stream, evSeq = length (of_stream stream l) + 1 + i,
               evType = edType (events ! i), evData = edData (events ! i), evAt = now\<rparr>) [0..<length events]"

fun log_call :: "Event list call_exec" where
  "log_call now (ReadCall stream lo limit) l = (l, Inr (upto_limit limit (drop (lo - 1) (of_stream stream l))))"
| "log_call now (ReadAllCall lo limit) l = (l, Inr (upto_limit limit (drop (lo - 1) l)))"
| "log_call now (AppendCall stream expected events) l =
     (if stream = [] then (l, Inl ErrNoStream)
      else if events = [] then (l, Inl ErrNoEvents)
      else if expected \<ge> 0 \<and> nat expected \<noteq> length (of_stream stream l) then (l, Inl ErrVersionConflict)
      else (l @ stamp now stream events l, Inr (stamp now stream events l)))"

lemma stamp_one: "stamp now stream [e] l = [\<lparr>evGlobal = length l + 1, evStream = stream,
   evSeq = length (of_stream stream l) + 1, evType = edType e, evData = edData e, evAt = now\<rparr>]"
  by (simp add: stamp_def)

lemma stamp_stream: "of_stream t (stamp now stream events l) = (if t = stream then stamp now stream events l else [])"
  by (auto simp: of_stream_def stamp_def filter_empty_conv filter_id_conv)

lemma log_call_extends:
  obtains xs where "fst (log_call now c l) = l @ xs" "length xs \<le> (case c of AppendCall s e evs \<Rightarrow> length evs | _ \<Rightarrow> 0)"
proof (cases c)
  case (AppendCall s e evs)
  have "fst (log_call now c l) = l \<or> fst (log_call now c l) = l @ stamp now s evs l" unfolding AppendCall by simp
  then show ?thesis
  proof
    assume "fst (log_call now c l) = l @ stamp now s evs l"
    then show ?thesis by (rule that) (simp add: AppendCall stamp_def)
  qed (use that [of "[]"] in simp)
qed (use that [of "[]"] in auto)

section \<open>The interface\<close>

locale event_log =
  fixes X :: "'s call_exec"
    and logs :: "'s \<Rightarrow> Event list \<Rightarrow> bool"
    and roomy :: "int \<Rightarrow> es_call \<Rightarrow> 's \<Rightarrow> bool"
  assumes call: "logs s l \<Longrightarrow> roomy now c s \<Longrightarrow>
    \<exists>s'. X now c s = (s', snd (log_call now c l)) \<and> logs s' (fst (log_call now c l))"

text \<open>What the turns ask of the store has room.\<close>

fun turn_room :: "(int \<Rightarrow> es_call \<Rightarrow> 's \<Rightarrow> bool) \<Rightarrow> circumstance \<Rightarrow> 'a prog \<Rightarrow> 's \<Rightarrow> bool" where
  "turn_room roomy (now, None) (Call c k) s \<longleftrightarrow> roomy now c s"
| "turn_room roomy w p s \<longleftrightarrow> True"

fun sched_room :: "'s call_exec \<Rightarrow> (int \<Rightarrow> es_call \<Rightarrow> 's \<Rightarrow> bool) \<Rightarrow> (nat \<times> circumstance) list \<Rightarrow> 'a prog list \<times> 's \<Rightarrow> bool" where
  "sched_room X roomy [] (ps, s) = True"
| "sched_room X roomy ((i, w) # ts) (ps, s) =
     (if i < length ps then turn_room roomy w (ps ! i) s
        \<and> (case step_prog X w (ps ! i) s of (p, s') \<Rightarrow> sched_room X roomy ts (ps[i := p], s'))
      else sched_room X roomy ts (ps, s))"

context event_log
begin

lemma step_sim:
  assumes "logs s l" "turn_room roomy w p s"
  obtains s' where "step_prog X w p s = (fst (step_prog log_call w p l), s')" "logs s' (snd (step_prog log_call w p l))"
proof (cases p)
  case (Call c k)
  obtain now f where w: "w = (now, f)" by (cases w)
  show ?thesis
  proof (cases f)
    case None
    obtain l' r where c: "log_call now c l = (l', r)" by fastforce
    obtain s' where "X now c s = (s', r)" "logs s' l'" using call [OF assms(1), of now c] assms(2) c by (auto simp: Call w None)
    then show ?thesis using that c by (simp add: Call w None)
  qed (use assms(1) that Call w in simp)
qed (use assms(1) that in simp)

text \<open>Any interleaving of any programs on the store does what it does on the log.\<close>

lemma sched_sim:
  "logs s l \<Longrightarrow> sched_room X roomy ts (ps, s) \<Longrightarrow>
   \<exists>s'. sched X ts (ps, s) = (fst (sched log_call ts (ps, l)), s') \<and> logs s' (snd (sched log_call ts (ps, l)))"
proof (induction ts arbitrary: ps s l)
  case (Cons t ts)
  obtain i w where t: "t = (i, w)" by (cases t)
  show ?case
  proof (cases "i < length ps")
    case True
    then have r: "turn_room roomy w (ps ! i) s" using Cons.prems(2) by (simp add: t)
    obtain p l' where p: "step_prog log_call w (ps ! i) l = (p, l')" by fastforce
    obtain s' where s: "step_prog X w (ps ! i) s = (p, s')" "logs s' l'"
      using step_sim [OF Cons.prems(1) r] p by (metis fst_conv snd_conv)
    have "sched_room X roomy ts (ps[i := p], s')" using Cons.prems(2) True s(1) by (simp add: t)
    from Cons.IH [OF s(2) this] show ?thesis using True s(1) p by (simp add: t)
  qed (use Cons.IH [OF Cons.prems(1)] Cons.prems(2) in \<open>simp add: t\<close>)
qed simp

end

text \<open>The event store's calls.\<close>

fun es_call_exec :: "'s kv_ops \<Rightarrow> es_json \<Rightarrow> 's estore call_exec" where
  "es_call_exec K J now (ReadCall stream lo limit) st = (st, ReadStream K J stream lo limit st)"
| "es_call_exec K J now (ReadAllCall lo limit) st = (st, Es.ReadAll K J lo limit st)"
| "es_call_exec K J now (AppendCall stream expected events) st = es_append K J now stream expected events st"

fun es_call_room :: "('s \<Rightarrow> rec \<Rightarrow> bool) \<Rightarrow> es_json \<Rightarrow> int \<Rightarrow> es_call \<Rightarrow> 's estore \<Rightarrow> bool" where
  "es_call_room fits J now (AppendCall stream expected events) st \<longleftrightarrow>
     eglobal st + length events < 2 ^ 64 - 1
     \<and> (stream \<noteq> [] \<and> events \<noteq> [] \<and> (expected < 0 \<or> nat expected = eversions st stream)
         \<longrightarrow> fits (edb st) (append_rec J (new_batch now stream events st)))"
| "es_call_room fits J now c st \<longleftrightarrow> True"

definition es_logs :: "('s \<Rightarrow> bool) \<Rightarrow> ('s \<Rightarrow> bytes \<Rightarrow> bytes option) \<Rightarrow> es_json \<Rightarrow> 's estore \<Rightarrow> Event list \<Rightarrow> bool" where
  "es_logs ok cont J st l \<longleftrightarrow> es_roundtrip J \<and> (\<exists>bs. es_inv ok cont J bs st \<and> es_log bs = l)"

lemma new_batch_stamp:
  assumes "indexed bs st"
  shows "batch_events (new_batch now stream events st) = stamp now stream events (es_log bs)"
  using assms by (simp add: batch_events_def new_batch_def stamp_def event_at_def indexed_def)

context kv
begin

lemma es_call_log:
  assumes "es_logs ok content J st l" "es_call_room fits J now c st"
  shows "\<exists>st'. es_call_exec K J now c st = (st', snd (log_call now c l)) \<and> es_logs ok content J st' (fst (log_call now c l))"
proof -
  obtain bs where bs: "es_roundtrip J" "es_inv ok content J bs st" "es_log bs = l" using assms(1) by (auto simp: es_logs_def)
  have ix: "indexed bs st" using bs(2) by (simp add: es_inv_def)
  show ?thesis
  proof (cases c)
    case (AppendCall stream expected events)
    show ?thesis
    proof (cases "stream \<noteq> [] \<and> events \<noteq> [] \<and> (expected < 0 \<or> nat expected = eversions st stream)")
      case True
      then have g: "length (es_log bs) + length events < 2 ^ 64 - 1" "fits (edb st) (append_rec J (new_batch now stream events st))"
        using assms(2) ix AppendCall by (auto simp: indexed_def)
      obtain st' where st': "es_append K J now stream expected events st = (st', Inr (batch_events (new_batch now stream events st)))"
        "es_inv ok content J (bs @ [new_batch now stream events st]) st'"
        using es_append_inv [OF bs(2) _ _ _ g] True by blast
      have "es_logs ok content J st' (l @ stamp now stream events l)"
        using st'(2) bs(1,3) new_batch_stamp [OF ix] by (auto simp: es_logs_def)
      then show ?thesis using st'(1) True ix bs(3) new_batch_stamp [OF ix] by (auto simp: AppendCall indexed_def)
    next
      case False
      then show ?thesis unfolding AppendCall es_call_exec.simps es_append_cases
        using ix assms(1) bs(3) by (auto simp: indexed_def)
    qed
  qed (use assms(1) bs(3) ReadAll_log [OF bs(2,1)] ReadStream_log [OF bs(2,1)] in auto)
qed

end

section \<open>Interleavings\<close>

text \<open>From a log \<open>l\<close>, if all that happens to the log between its calls is within \<open>R\<close>, the program keeps each
  of its calls within \<open>G\<close> and ends with a result and a log in \<open>Q\<close>, whichever calls fail with an error in \<open>F\<close>.\<close>

primrec rg :: "(db_err \<Rightarrow> bool) \<Rightarrow> (Event list \<Rightarrow> Event list \<Rightarrow> bool) \<Rightarrow> (Event list \<Rightarrow> Event list \<Rightarrow> bool)
    \<Rightarrow> ('a \<Rightarrow> Event list \<Rightarrow> bool) \<Rightarrow> 'a prog \<Rightarrow> Event list \<Rightarrow> bool" where
  "rg F R G Q (Return a) l = (\<forall>l'. R l l' \<longrightarrow> Q a l')"
| "rg F R G Q (Call c k) l = (\<forall>l'. R l l' \<longrightarrow> (\<forall>e. F e \<longrightarrow> rg F R G Q (k (Inl (EsDb e))) l')
     \<and> (\<forall>now. G l' (fst (log_call now c l')) \<and> rg F R G Q (k (snd (log_call now c l'))) (fst (log_call now c l'))))"

lemma rg_rely: "rg F R G Q p l \<Longrightarrow> R l l' \<Longrightarrow> transp R \<Longrightarrow> rg F R G Q p l'"
  by (cases p) (auto dest: transpD)

lemma rg_weaken:
  "rg F R G Q p l \<Longrightarrow> (\<And>l l'. R' l l' \<Longrightarrow> R l l') \<Longrightarrow> (\<And>l l'. G l l' \<Longrightarrow> G' l l') \<Longrightarrow> (\<And>a l. Q a l \<Longrightarrow> Q' a l) \<Longrightarrow> rg F R' G' Q' p l"
  by (induction p arbitrary: l) (fastforce simp: rangeI)+

lemma rg_bind: "rg F R G (\<lambda>a. rg F R G Q (f a)) p l \<Longrightarrow> reflp R \<Longrightarrow> rg F R G Q (bind_prog p f) l"
  by (induction p arbitrary: l) (auto dest: reflpD simp: rangeI)

lemma rg_seq:
  assumes "rg F R G Q1 p l" "\<And>a l. Q1 a l \<Longrightarrow> rg F R G Q (f a) l" "reflp R"
  shows "rg F R G Q (bind_prog p f) l"
  by (rule rg_bind [OF rg_weaken [OF assms(1)] assms(3)]) (use assms(2) in auto)

text \<open>What neither the others nor the program itself disturb stays.\<close>

lemma rg_frame:
  "rg F R G Q p l \<Longrightarrow> P l \<Longrightarrow> (\<And>l l'. R l l' \<Longrightarrow> P l \<Longrightarrow> P l') \<Longrightarrow> (\<And>l l'. G l l' \<Longrightarrow> P l \<Longrightarrow> P l')
   \<Longrightarrow> rg F R G (\<lambda>a l. Q a l \<and> P l) p l"
proof (induction p arbitrary: l)
  case (Call c k)
  have "rg F R G (\<lambda>a l. Q a l \<and> P l) (k r) l'" if "rg F R G Q (k r) l'" "P l'" for r l'
    by (rule Call.IH [OF rangeI that]) (use Call.prems(3,4) in blast)+
  moreover have "\<And>l'. R l l' \<Longrightarrow> P l'" using Call.prems(2,3) by blast
  ultimately show ?case using Call.prems(1,4) by (simp only: rg.simps) blast
qed auto

lemma rg_ReturnD: "rg F R G Q (Return a) l \<Longrightarrow> reflp R \<Longrightarrow> Q a l"
  by (auto dest: reflpD)

lemma rg_step:
  assumes "rg F R G Q p l" "reflp R" "step_prog log_call (now, f) p l = (p', l')" "\<And>e. f = Some e \<Longrightarrow> F e"
  shows "rg F R G Q p' l' \<and> (G l l' \<or> l' = l)"
proof (cases p)
  case (Call c k)
  have c: "\<forall>e. F e \<longrightarrow> rg F R G Q (k (Inl (EsDb e))) l"
    "G l (fst (log_call now c l)) \<and> rg F R G Q (k (snd (log_call now c l))) (fst (log_call now c l))"
    using assms(1,2) unfolding Call by (auto dest: reflpD)
  show ?thesis using c assms(3,4) unfolding Call by (cases f) (auto split: prod.splits)
qed (use assms in auto)

text \<open>Programs that tolerate each other's steps keep their promises in every interleaving.\<close>

lemma rg_sched:
  assumes "\<forall>i < length ps. rg F (R i) (G i) (Q i) (ps ! i) l"
    and "\<forall>i < length ps. reflp (R i) \<and> transp (R i)"
    and "\<forall>i j x y. i < length ps \<longrightarrow> j < length ps \<longrightarrow> i \<noteq> j \<longrightarrow> G j x y \<longrightarrow> R i x y"
    and "\<And>i x y. i < length ps \<Longrightarrow> G i x y \<Longrightarrow> I x \<Longrightarrow> I y" and "I l"
    and "\<forall>(i, now, f) \<in> set ts. \<forall>e. f = Some e \<longrightarrow> F e"
    and "sched log_call ts (ps, l) = (ps', l')"
  shows "length ps' = length ps \<and> I l' \<and> (\<forall>i < length ps. rg F (R i) (G i) (Q i) (ps' ! i) l')"
  using assms
proof (induction ts arbitrary: ps l)
  case (Cons t ts)
  obtain i now f where t: "t = (i, now, f)" by (cases t) auto
  show ?case
  proof (cases "i < length ps")
    case True
    obtain p l1 where s: "step_prog log_call (now, f) (ps ! i) l = (p, l1)" by fastforce
    have p: "rg F (R i) (G i) (Q i) p l1" "G i l l1 \<or> l1 = l"
      using rg_step [of F "R i" "G i" "Q i", OF _ _ s] Cons.prems(1,2,6) True by (auto simp: t)
    have "rg F (R j) (G j) (Q j) (ps[i := p] ! j) l1" if "j < length ps" for j
    proof (cases "j = i")
      case False
      then have "R j l l1" using p(2) Cons.prems(2,3) True that by (auto dest: reflpD)
      then show ?thesis using rg_rely [of F "R j" "G j" "Q j" "ps ! j" l l1] Cons.prems(1,2) that False by simp
    qed (use p(1) True in simp)
    moreover have "I l1" using p(2) Cons.prems(4) [OF True] Cons.prems(5) by auto
    ultimately show ?thesis using Cons.IH [of "ps[i := p]" l1] Cons.prems True s by (simp add: t)
  qed (use Cons in \<open>auto simp: t\<close>)
qed simp

text \<open>A program alone.\<close>

lemma rg_alone:
  "rg (\<lambda>_. True) (=) G Q p l \<Longrightarrow> Q (snd (run_prog log_call p ws l)) (fst (run_prog log_call p ws l))"
proof (induction p arbitrary: ws l)
  case (Call c k)
  obtain now f where w: "ws 0 = (now, f)" by (cases "ws 0")
  obtain l' r where c: "log_call now c l = (l', r)" by fastforce
  have p: "\<forall>e. rg (\<lambda>_. True) (=) G Q (k (Inl (EsDb e))) l" "rg (\<lambda>_. True) (=) G Q (k r) l'"
    using Call.prems c by (auto dest: spec [of _ now])
  show ?case
  proof (cases f)
    case None
    then show ?thesis using Call.IH [OF rangeI p(2)] w c by simp
  next
    case (Some e)
    then show ?thesis using Call.IH [OF rangeI p(1) [rule_format]] w by simp
  qed
qed simp

section \<open>The store on the database\<close>

interpretation pure: event_log log_call "(=)" "\<lambda>_ _ _. True"
  by unfold_locales auto

interpretation store: event_log "es_call_exec (db_ops rnd) J" "es_logs db_live db_abs J" "es_call_room write_room J" for rnd J
  by unfold_locales (rule db.es_call_log)

text \<open>\<^bold>\<open>C12\<close> Whatever goroutines work on one event store over the database, in whatever order their calls come
  and whichever of them fail, they get the answers a bare list of events would give them, and the store
  stays that list.\<close>

theorem clients_see_the_log:
  assumes "db_live s" "db_abs s = Map.empty" "es_roundtrip J" and "es_open (db_ops rnd) J s = Inr st0"
    and "sched_room (es_call_exec (db_ops rnd) J) (es_call_room write_room J) ts (ps, st0)"
  shows "\<exists>st. sched (es_call_exec (db_ops rnd) J) ts (ps, st0) = (fst (sched log_call ts (ps, [])), st)
    \<and> Es.ReadAll (db_ops rnd) J 0 0 st = Inr (snd (sched log_call ts (ps, [])))"
proof -
  have "es_inv db_live db_abs J [] st0" using es_open_empty [OF assms(1-3), of rnd] assms(4) by auto
  then have "es_logs db_live db_abs J st0 []" using assms(3) by (auto simp: es_logs_def)
  from store.sched_sim [OF this assms(5)] obtain st where st:
    "sched (es_call_exec (db_ops rnd) J) ts (ps, st0) = (fst (sched log_call ts (ps, [])), st)"
    "es_logs db_live db_abs J st (snd (sched log_call ts (ps, [])))" by blast
  obtain bs where "es_inv db_live db_abs J bs st" "es_log bs = snd (sched log_call ts (ps, []))"
    using st(2) by (auto simp: es_logs_def)
  then show ?thesis using st(1) db.ReadAll_log [OF _ assms(3), of bs st rnd 0 0] by (simp add: upto_limit_def)
qed

text \<open>Two goroutines race for the first version of a stream: one wins, the other gets the conflict.\<close>

definition racer :: "reply prog" where
  "racer = Call (AppendCall ''s'' 0 [\<lparr>edType = ''t'', edData = []\<rparr>]) Return"

theorem clients_see_the_log_witness:
  "\<exists>st0 st e. sched (es_call_exec (db_ops (\<lambda>_. 1)) plain_json) [(0, 0, None), (1, 0, None)] ([racer, racer], st0)
     = ([Return (Inr [e]), Return (Inl ErrVersionConflict)], st) \<and> evStream e = ''s''"
proof -
  obtain st0 st evs where r: "db_live fresh_db" "db_abs fresh_db = Map.empty" "es_open (db_ops (\<lambda>_. 1)) plain_json fresh_db = Inr st0"
    "es_fits (db_ops (\<lambda>_. 1)) write_room plain_json [sample_append] st0"
    "es_run (db_ops (\<lambda>_. 1)) plain_json [sample_append] st0 = (st, [Inr evs])"
    "evs = [\<lparr>evGlobal = 1, evStream = ''s'', evSeq = 1, evType = ''t'', evData = [], evAt = 0\<rparr>]" by (rule sample_es_run)
  have "es_inv db_live db_abs plain_json [] st0" using es_open_empty [OF r(1,2) plain_json_roundtrip, of "\<lambda>_. 1"] r(3) by auto
  from db.es_run_inv [OF this r(4,5)] obtain bs where "es_inv db_live db_abs plain_json bs st" "es_log bs = evs" by auto
  then have v: "eglobal st = 1" "eversions st ''s'' = 1" by (simp_all add: es_inv_def indexed_def r(6) of_stream_def)
  have a: "es_append (db_ops (\<lambda>_. 1)) plain_json 0 ''s'' 0 [\<lparr>edType = ''t'', edData = []\<rparr>] st0 = (st, Inr evs)"
    using r(5) by (simp add: sample_append_def split: prod.splits)
  let ?ts = "[(0, 0, None), (1, 0, None)] :: (nat \<times> circumstance) list"
  have roomy: "sched_room (es_call_exec (db_ops (\<lambda>_. 1)) plain_json) (es_call_room write_room plain_json) ?ts ([racer, racer], st0)"
    using r(4) v by (simp add: racer_def sample_append_def a del: One_nat_def)
  have "\<exists>st. sched (es_call_exec (db_ops (\<lambda>_. 1)) plain_json) ?ts ([racer, racer], st0) = (fst (sched log_call ?ts ([racer, racer], [])), st)"
    using clients_see_the_log [OF r(1,2) plain_json_roundtrip r(3) roomy] by blast
  moreover have "fst (sched log_call ?ts ([racer, racer], []))
      = [Return (Inr [\<lparr>evGlobal = 1, evStream = ''s'', evSeq = 1, evType = ''t'', evData = [], evAt = 0\<rparr>]), Return (Inl ErrVersionConflict)]"
    by (simp add: racer_def stamp_one of_stream_def)
  ultimately show ?thesis by (metis Event.select_convs(2))
qed

end
