(* ===== verification/Inventory.thy ===== *)
theory Inventory
  imports Elog
begin

text \<open>
  The inventory (\<open>services/inventory\<close>): a player's goods are the events of the player's stream; the
  balance is their fold, in goods that can be spent and goods held for a trade. The command side
  (\<open>ops.go\<close>) are programs over the event store, \<open>Reserve\<close> with optimistic concurrency; the read model
  (\<open>inventory.go\<close>) applies the events one by one.
\<close>

section \<open>Events and balances\<close>

definition EventGathered :: string where "EventGathered = ''ResourceGathered''"
definition EventReserved :: string where "EventReserved = ''ResourceReserved''"
definition EventReleased :: string where "EventReleased = ''ResourceReleased''"
definition EventCommitted :: string where "EventCommitted = ''ResourceCommitted''"
definition EventReceived :: string where "EventReceived = ''ResourceReceived''"

lemmas move_types = EventGathered_def EventReserved_def EventReleased_def EventCommitted_def EventReceived_def

definition inv_stream :: "string \<Rightarrow> string" where
  "inv_stream playerID = ''inv-'' @ playerID"

record Gathered =
  gPlayer :: string
  gName :: string
  gNode :: string
  gKind :: string
  gAmount :: int

record Move =
  mPlayer :: string
  mTrade :: string
  mKind :: string
  mAmount :: int

text \<open>JSON, a parameter.\<close>

record inv_json =
  jgathered :: "Gathered \<Rightarrow> bytes"
  ungathered :: "bytes \<Rightarrow> Gathered option"
  jmove :: "Move \<Rightarrow> bytes"
  unmove :: "bytes \<Rightarrow> Move option"

definition inv_roundtrip :: "inv_json \<Rightarrow> bool" where
  "inv_roundtrip J \<longleftrightarrow> (\<forall>g. ungathered J (jgathered J g) = Some g) \<and> (\<forall>m. unmove J (jmove J m) = Some m)"

type_synonym goods = "string \<rightharpoonup> int"

record Balance =
  Available :: goods
  Reserved :: goods

definition newBalance :: Balance where
  "newBalance = \<lparr>Available = Map.empty, Reserved = Map.empty\<rparr>"

definition amount_of :: "goods \<Rightarrow> string \<Rightarrow> int" where
  "amount_of m kind = (case m kind of None \<Rightarrow> 0 | Some n \<Rightarrow> n)"

definition adj :: "string \<Rightarrow> int \<Rightarrow> goods \<Rightarrow> goods" where
  "adj kind delta m =
     (let m1 = m(kind \<mapsto> i64 (amount_of m kind + delta)) in if amount_of m1 kind = 0 then m1(kind := None) else m1)"

definition move :: "inv_json \<Rightarrow> Event \<Rightarrow> Move option" where
  "move J e = unmove J (evData e)"

definition applyTo :: "inv_json \<Rightarrow> Event \<Rightarrow> Balance \<Rightarrow> Balance" where
  "applyTo J e b =
     (if evType e = EventGathered then
        (case ungathered J (evData e) of Some g \<Rightarrow> b\<lparr>Available := adj (gKind g) (gAmount g) (Available b)\<rparr> | None \<Rightarrow> b)
      else if evType e = EventReserved then
        (case move J e of None \<Rightarrow> b
         | Some m \<Rightarrow> b\<lparr>Available := adj (mKind m) (- mAmount m) (Available b), Reserved := adj (mKind m) (mAmount m) (Reserved b)\<rparr>)
      else if evType e = EventReleased then
        (case move J e of None \<Rightarrow> b
         | Some m \<Rightarrow> b\<lparr>Reserved := adj (mKind m) (- mAmount m) (Reserved b), Available := adj (mKind m) (mAmount m) (Available b)\<rparr>)
      else if evType e = EventCommitted then
        (case move J e of None \<Rightarrow> b | Some m \<Rightarrow> b\<lparr>Reserved := adj (mKind m) (- mAmount m) (Reserved b)\<rparr>)
      else if evType e = EventReceived then
        (case move J e of None \<Rightarrow> b | Some m \<Rightarrow> b\<lparr>Available := adj (mKind m) (mAmount m) (Available b)\<rparr>)
      else b)"

definition inv_fold :: "inv_json \<Rightarrow> Event list \<Rightarrow> Balance" where
  "inv_fold J events = fold (applyTo J) events newBalance"

section \<open>Commands\<close>

datatype inv_err = InvAmount | InvStore es_err | ErrInsufficient | InvContention

fun hasMove :: "inv_json \<Rightarrow> string \<Rightarrow> string \<Rightarrow> Event list \<Rightarrow> bool" where
  "hasMove J tradeID typ [] = False"
| "hasMove J tradeID typ (e # es) =
     (if evType e \<noteq> typ then hasMove J tradeID typ es
      else case move J e of Some m \<Rightarrow> mTrade m = tradeID \<or> hasMove J tradeID typ es | None \<Rightarrow> hasMove J tradeID typ es)"

definition appendMove :: "inv_json \<Rightarrow> string \<Rightarrow> string \<Rightarrow> string \<Rightarrow> int \<Rightarrow> string \<Rightarrow> int \<Rightarrow> (reply \<Rightarrow> 'a prog) \<Rightarrow> 'a prog" where
  "appendMove J playerID tradeID kind amount typ expected k =
     Call (AppendCall (inv_stream playerID) expected
       [\<lparr>edType = typ, edData = jmove J \<lparr>mPlayer = playerID, mTrade = tradeID, mKind = kind, mAmount = amount\<rparr>\<rparr>]) k"

fun reserve_try :: "nat \<Rightarrow> inv_json \<Rightarrow> string \<Rightarrow> string \<Rightarrow> string \<Rightarrow> int \<Rightarrow> inv_err option prog" where
  "reserve_try 0 J playerID tradeID kind amount = Return (Some InvContention)"
| "reserve_try (Suc n) J playerID tradeID kind amount =
     Call (ReadCall (inv_stream playerID) 0 0) (\<lambda>r. case r of
       Inl e \<Rightarrow> Return (Some (InvStore e))
     | Inr evs \<Rightarrow>
         if hasMove J tradeID EventReserved evs then Return None
         else if amount_of (Available (inv_fold J evs)) kind < amount then Return (Some ErrInsufficient)
         else appendMove J playerID tradeID kind amount EventReserved (int (length evs)) (\<lambda>r. case r of
             Inl e \<Rightarrow> if e = ErrVersionConflict then reserve_try n J playerID tradeID kind amount
                      else Return (Some (InvStore e))
           | Inr _ \<Rightarrow> Return None))"

definition maxReserveRetries :: nat where
  "maxReserveRetries = 8"

definition Reserve :: "inv_json \<Rightarrow> string \<Rightarrow> string \<Rightarrow> string \<Rightarrow> int \<Rightarrow> inv_err option prog" where
  "Reserve J playerID tradeID kind amount =
     (if amount \<le> 0 then Return (Some InvAmount) else reserve_try maxReserveRetries J playerID tradeID kind amount)"

definition idempotentMove :: "inv_json \<Rightarrow> string \<Rightarrow> string \<Rightarrow> string \<Rightarrow> int \<Rightarrow> string \<Rightarrow> inv_err option prog" where
  "idempotentMove J playerID tradeID kind amount typ =
     Call (ReadCall (inv_stream playerID) 0 0) (\<lambda>r. case r of
       Inl e \<Rightarrow> Return (Some (InvStore e))
     | Inr evs \<Rightarrow>
         if hasMove J tradeID typ evs then Return None
         else appendMove J playerID tradeID kind amount typ (- 1) (\<lambda>r. case r of
             Inl e \<Rightarrow> Return (Some (InvStore e)) | Inr _ \<Rightarrow> Return None))"

definition Release :: "inv_json \<Rightarrow> string \<Rightarrow> string \<Rightarrow> string \<Rightarrow> int \<Rightarrow> inv_err option prog" where
  "Release J playerID tradeID kind amount = idempotentMove J playerID tradeID kind amount EventReleased"

definition Commit :: "inv_json \<Rightarrow> string \<Rightarrow> string \<Rightarrow> string \<Rightarrow> int \<Rightarrow> inv_err option prog" where
  "Commit J playerID tradeID kind amount = idempotentMove J playerID tradeID kind amount EventCommitted"

definition Receive :: "inv_json \<Rightarrow> string \<Rightarrow> string \<Rightarrow> string \<Rightarrow> int \<Rightarrow> inv_err option prog" where
  "Receive J playerID tradeID kind amount = idempotentMove J playerID tradeID kind amount EventReceived"

section \<open>The read model\<close>

type_synonym Inventory = "string \<rightharpoonup> Balance"

definition inv_apply :: "inv_json \<Rightarrow> Event \<Rightarrow> Inventory \<Rightarrow> Inventory" where
  "inv_apply J e bals =
     (if take 4 (evStream e) \<noteq> ''inv-'' then bals
      else let playerID = drop 4 (evStream e);
               b = (case bals playerID of None \<Rightarrow> newBalance | Some b \<Rightarrow> b)
           in bals(playerID \<mapsto> applyTo J e b))"

definition nonzero :: "goods \<Rightarrow> goods" where
  "nonzero m = (\<lambda>kind. case m kind of Some n \<Rightarrow> if n \<noteq> 0 then Some n else None | None \<Rightarrow> None)"

definition inv_get :: "string \<Rightarrow> Inventory \<Rightarrow> goods" where
  "inv_get playerID bals = (case bals playerID of None \<Rightarrow> Map.empty | Some b \<Rightarrow> nonzero (Available b))"

definition inv_reserved :: "string \<Rightarrow> Inventory \<Rightarrow> goods" where
  "inv_reserved playerID bals = (case bals playerID of None \<Rightarrow> Map.empty | Some b \<Rightarrow> nonzero (Reserved b))"

section \<open>What the events amount to\<close>

text \<open>The exact change of one event to a kind of goods: to what is available, and to what is held.\<close>

definition avail_of :: "inv_json \<Rightarrow> string \<Rightarrow> Event \<Rightarrow> int" where
  "avail_of J kind e =
     (if evType e = EventGathered then (case ungathered J (evData e) of Some g \<Rightarrow> if gKind g = kind then gAmount g else 0 | None \<Rightarrow> 0)
      else case move J e of None \<Rightarrow> 0
        | Some m \<Rightarrow> if mKind m \<noteq> kind then 0
            else if evType e = EventReserved then - mAmount m
            else if evType e \<in> {EventReleased, EventReceived} then mAmount m else 0)"

definition held_of :: "inv_json \<Rightarrow> string \<Rightarrow> Event \<Rightarrow> int" where
  "held_of J kind e =
     (case move J e of None \<Rightarrow> 0
      | Some m \<Rightarrow> if mKind m \<noteq> kind then 0
          else if evType e = EventReserved then mAmount m
          else if evType e \<in> {EventReleased, EventCommitted} then - mAmount m else 0)"

definition avail :: "inv_json \<Rightarrow> string \<Rightarrow> Event list \<Rightarrow> int" where
  "avail J kind evs = sum_list (map (avail_of J kind) evs)"

definition held :: "inv_json \<Rightarrow> string \<Rightarrow> Event list \<Rightarrow> int" where
  "held J kind evs = sum_list (map (held_of J kind) evs)"

lemma avail_append [simp]: "avail J kind [] = 0" "avail J kind (xs @ ys) = avail J kind xs + avail J kind ys"
  "avail J kind (e # es) = avail_of J kind e + avail J kind es"
  by (simp_all add: avail_def)

lemma held_append [simp]: "held J kind [] = 0" "held J kind (xs @ ys) = held J kind xs + held J kind ys"
  "held J kind (e # es) = held_of J kind e + held J kind es"
  by (simp_all add: held_def)

lemma amount_adj: "amount_of (adj k d m) kind = (if k = kind then i64 (amount_of m kind + d) else amount_of m kind)"
  by (simp add: adj_def amount_of_def Let_def)

lemma amount_applyTo:
  "amount_of (Available (applyTo J e b)) kind = (if avail_of J kind e = 0 \<and> amount_of (Available (applyTo J e b)) kind = amount_of (Available b) kind
     then amount_of (Available b) kind else i64 (amount_of (Available b) kind + avail_of J kind e))"
  "amount_of (Reserved (applyTo J e b)) kind = (if held_of J kind e = 0 \<and> amount_of (Reserved (applyTo J e b)) kind = amount_of (Reserved b) kind
     then amount_of (Reserved b) kind else i64 (amount_of (Reserved b) kind + held_of J kind e))"
  by (auto simp: applyTo_def avail_of_def held_of_def amount_adj move_types split: option.splits)

lemma fold_applyTo:
  "amount_of (Available b) kind = i64 a \<Longrightarrow> amount_of (Reserved b) kind = i64 h \<Longrightarrow>
   amount_of (Available (fold (applyTo J) evs b)) kind = i64 (a + avail J kind evs)
   \<and> amount_of (Reserved (fold (applyTo J) evs b)) kind = i64 (h + held J kind evs)"
proof (induction evs arbitrary: b a h)
  case (Cons e evs)
  have "amount_of (Available (applyTo J e b)) kind = i64 (a + avail_of J kind e)"
    "amount_of (Reserved (applyTo J e b)) kind = i64 (h + held_of J kind e)"
    using amount_applyTo [of J e b kind] Cons.prems by (auto split: if_splits)
  from Cons.IH [OF this] show ?case by (simp add: add.assoc)
qed simp

lemma fold_amounts:
  "amount_of (Available (inv_fold J evs)) kind = i64 (avail J kind evs)"
  "amount_of (Reserved (inv_fold J evs)) kind = i64 (held J kind evs)"
  using fold_applyTo [of newBalance kind 0 0 J evs] by (simp_all add: inv_fold_def newBalance_def amount_of_def)

lemma hasMove_append [simp]: "hasMove J t typ (xs @ ys) \<longleftrightarrow> hasMove J t typ xs \<or> hasMove J t typ ys"
  by (induction xs) (auto split: option.splits)

lemma adj_nonzero: "\<forall>k. m k \<noteq> Some 0 \<Longrightarrow> adj kind d m k \<noteq> Some 0"
  by (simp add: adj_def amount_of_def Let_def)

lemma applyTo_nonzero:
  "\<forall>k. Available b k \<noteq> Some 0 \<and> Reserved b k \<noteq> Some 0 \<Longrightarrow> \<forall>k. Available (applyTo J e b) k \<noteq> Some 0 \<and> Reserved (applyTo J e b) k \<noteq> Some 0"
  by (auto simp: applyTo_def adj_nonzero split: option.splits)

section \<open>The read model is the fold\<close>

lemma inv_stream_iff: "s = inv_stream p \<longleftrightarrow> take 4 s = ''inv-'' \<and> drop 4 s = p"
proof
  assume "take 4 s = ''inv-'' \<and> drop 4 s = p"
  then show "s = inv_stream p" using append_take_drop_id [of 4 s] by (simp only: inv_stream_def)
qed (simp add: inv_stream_def)

lemma inv_apply_fold:
  "fold (inv_apply J) l bals p = (if of_stream (inv_stream p) l = [] then bals p
     else Some (fold (applyTo J) (of_stream (inv_stream p) l) (case bals p of None \<Rightarrow> newBalance | Some b \<Rightarrow> b)))"
proof (induction l arbitrary: bals)
  case (Cons e l)
  show ?case using Cons.IH by (auto simp: of_stream_def inv_apply_def inv_stream_iff Let_def)
qed (simp add: of_stream_def)

text \<open>\<^bold>\<open>C39\<close> The read model shows the write model: fed the whole log in order, it answers for each player with
  the fold of the player's own stream, the very balance \<open>Reserve\<close> decides by, never listing a kind the
  player has none of.\<close>

theorem read_model_is_fold:
  "inv_get p (fold (inv_apply J) l Map.empty) = Available (inv_fold J (of_stream (inv_stream p) l))
   \<and> inv_reserved p (fold (inv_apply J) l Map.empty) = Reserved (inv_fold J (of_stream (inv_stream p) l))
   \<and> amount_of (inv_get p (fold (inv_apply J) l Map.empty)) kind = i64 (avail J kind (of_stream (inv_stream p) l))"
proof -
  have nz: "(\<forall>k. Available (fold (applyTo J) es b) k \<noteq> Some 0 \<and> Reserved (fold (applyTo J) es b) k \<noteq> Some 0)"
    if "\<forall>k. Available b k \<noteq> Some 0 \<and> Reserved b k \<noteq> Some 0" for es b
    using that by (induction es arbitrary: b) (auto dest: applyTo_nonzero)
  have keep: "nonzero m = m" if "\<forall>k. m k \<noteq> Some 0" for m :: goods
    using that by (auto simp: nonzero_def split: option.splits)
  have n: "\<forall>k. Available newBalance k \<noteq> Some 0 \<and> Reserved newBalance k \<noteq> Some 0" by (simp add: newBalance_def)
  have "inv_get p (fold (inv_apply J) l Map.empty) = Available (inv_fold J (of_stream (inv_stream p) l))"
    "inv_reserved p (fold (inv_apply J) l Map.empty) = Reserved (inv_fold J (of_stream (inv_stream p) l))"
    using nz [OF n] by (auto simp: inv_get_def inv_reserved_def inv_apply_fold inv_fold_def keep)
      (simp_all add: newBalance_def)
  then show ?thesis by (simp add: fold_amounts)
qed

section \<open>No good is spent twice\<close>

text \<open>The operations of the goroutines: gathering is an append of the world's region.\<close>

datatype inv_op =
    OpGather Gathered
  | OpReserve string string string int
  | OpMove string string string string int

fun op_prog :: "inv_json \<Rightarrow> inv_op \<Rightarrow> inv_err option prog" where
  "op_prog J (OpGather g) = Call (AppendCall (inv_stream (gPlayer g)) (- 1) [\<lparr>edType = EventGathered, edData = jgathered J g\<rparr>])
     (\<lambda>r. case r of Inl e \<Rightarrow> Return (Some (InvStore e)) | Inr _ \<Rightarrow> Return None)"
| "op_prog J (OpReserve p t kind amount) = Reserve J p t kind amount"
| "op_prog J (OpMove typ p t kind amount) = idempotentMove J p t kind amount typ"

fun op_fair :: "inv_op \<Rightarrow> bool" where
  "op_fair (OpGather g) \<longleftrightarrow> gAmount g \<ge> 0"
| "op_fair (OpReserve p t kind amount) \<longleftrightarrow> True"
| "op_fair (OpMove typ p t kind amount) \<longleftrightarrow> typ \<in> {EventReleased, EventCommitted, EventReceived} \<and> amount \<ge> 0"

text \<open>All that ever came in.\<close>

definition inflow :: "inv_json \<Rightarrow> string \<Rightarrow> Event list \<Rightarrow> int" where
  "inflow J kind evs = sum_list (map (\<lambda>e. max 0 (avail_of J kind e)) evs)"

definition reservations :: "inv_json \<Rightarrow> string \<Rightarrow> Event list \<Rightarrow> nat" where
  "reservations J t evs = length (filter (\<lambda>e. hasMove J t EventReserved [e]) evs)"

definition solvent :: "inv_json \<Rightarrow> Event list \<Rightarrow> bool" where
  "solvent J l \<longleftrightarrow> (\<forall>p. let evs = of_stream (inv_stream p) l in
     (\<forall>kind. inflow J kind evs < 2 ^ 63 \<longrightarrow> 0 \<le> avail J kind evs \<and> avail J kind evs \<le> inflow J kind evs)
     \<and> (\<forall>t. reservations J t evs \<le> 1))"

lemma solventD:
  assumes "solvent J l" "inflow J kind (of_stream (inv_stream p) l) < 2 ^ 63"
  shows "0 \<le> avail J kind (of_stream (inv_stream p) l)" "avail J kind (of_stream (inv_stream p) l) < 2 ^ 63"
  using assms unfolding solvent_def Let_def by fastforce+

definition grows :: "(Event list \<Rightarrow> bool) \<Rightarrow> Event list \<Rightarrow> Event list \<Rightarrow> bool" where
  "grows I l l' \<longleftrightarrow> (\<exists>xs. l' = l @ xs) \<and> (I l \<longrightarrow> I l')"

lemma grows_order [simp]: "reflp (grows I)" "transp (grows I)"
  by (auto simp: grows_def reflp_def transp_def)

lemma of_stream_inv: "of_stream (inv_stream p) (stamp now (inv_stream q) events l) = (if p = q then stamp now (inv_stream q) events l else [])"
  by (simp add: stamp_stream inv_stream_def)

text \<open>One more event in one stream.\<close>

lemma reservations_snoc:
  "reservations J t (xs @ [e]) = reservations J t xs + (if hasMove J t EventReserved [e] then 1 else 0)"
  by (simp add: reservations_def del: hasMove.simps)

lemma reservations_none: "\<not> hasMove J t EventReserved xs \<Longrightarrow> reservations J t xs = 0"
proof (induction xs)
  case (Cons e xs)
  have "hasMove J t EventReserved (e # xs) \<longleftrightarrow> hasMove J t EventReserved [e] \<or> hasMove J t EventReserved xs"
    using hasMove_append [of J t EventReserved "[e]" xs] by simp
  then show ?case using Cons by (simp add: reservations_def del: hasMove.simps)
qed (simp add: reservations_def)

lemma solvent_snoc:
  assumes s: "solvent J l" and e: "stamp now (inv_stream q) events l = [e]"
    and a: "\<And>kind. avail_of J kind e < 0 \<Longrightarrow> inflow J kind (of_stream (inv_stream q) l) < 2 ^ 63 \<Longrightarrow>
      - avail_of J kind e \<le> avail J kind (of_stream (inv_stream q) l)"
    and r: "\<And>t. hasMove J t EventReserved [e] \<Longrightarrow> \<not> hasMove J t EventReserved (of_stream (inv_stream q) l)"
  shows "solvent J (l @ stamp now (inv_stream q) events l)"
  unfolding solvent_def Let_def
proof (intro allI conjI impI)
  fix p kind t
  let ?s = "of_stream (inv_stream p) l"
  let ?s1 = "of_stream (inv_stream p) (l @ stamp now (inv_stream q) events l)"
  have new: "?s1 = (if p = q then ?s @ [e] else ?s)" using of_stream_inv [of p now q events l] e by simp
  have I: "inflow J kind ?s < 2 ^ 63 \<longrightarrow> 0 \<le> avail J kind ?s \<and> avail J kind ?s \<le> inflow J kind ?s" "reservations J t ?s \<le> 1"
    using s by (simp_all add: solvent_def Let_def)
  show "reservations J t ?s1 \<le> 1"
    unfolding new using I(2) reservations_none [of J t ?s] r by (auto simp: reservations_snoc simp del: hasMove.simps)
  have f: "inflow J kind (?s @ [e]) = inflow J kind ?s + max 0 (avail_of J kind e)" by (simp add: inflow_def)
  assume lim: "inflow J kind ?s1 < 2 ^ 63"
  then have l0: "inflow J kind ?s < 2 ^ 63" using f unfolding new by (cases "p = q") simp_all
  have b: "0 \<le> avail J kind ?s" "avail J kind ?s \<le> inflow J kind ?s" using I(1) l0 by auto
  show "0 \<le> avail J kind ?s1" "avail J kind ?s1 \<le> inflow J kind ?s1"
    unfolding new using b a [of kind] l0 f by (cases "p = q"; cases "avail_of J kind e < 0"; simp)+
qed

section \<open>The events of one trade\<close>

definition of_trade :: "inv_json \<Rightarrow> string \<Rightarrow> Event \<Rightarrow> bool" where
  "of_trade J t e \<longleftrightarrow> evType e \<in> {EventReserved, EventReleased, EventCommitted, EventReceived}
     \<and> (case move J e of Some m \<Rightarrow> mTrade m = t | None \<Rightarrow> False)"

type_synonym tmove = "string \<times> string \<times> int"

definition tmoves :: "inv_json \<Rightarrow> string \<Rightarrow> string \<Rightarrow> Event list \<Rightarrow> tmove list" where
  "tmoves J t p l = map (\<lambda>e. (evType e, mKind (the (move J e)), mAmount (the (move J e))))
     (filter (of_trade J t) (of_stream (inv_stream p) l))"

lemma tmoves_append [simp]: "tmoves J t p (l @ xs) = tmoves J t p l @ tmoves J t p xs" "tmoves J t p [] = []"
  by (simp_all add: tmoves_def)

lemma hasMove_tmoves:
  assumes "typ \<in> {EventReserved, EventReleased, EventCommitted, EventReceived}"
  shows "hasMove J t typ (of_stream (inv_stream p) l) \<longleftrightarrow> typ \<in> fst ` set (tmoves J t p l)"
proof -
  have "hasMove J t typ evs \<longleftrightarrow> (\<exists>e \<in> set evs. of_trade J t e \<and> evType e = typ)" for evs
    using assms by (induction evs) (auto simp: of_trade_def split: option.splits)
  then show ?thesis by (force simp: tmoves_def)
qed

text \<open>What an operation may change: the events of the trades in \<open>T\<close> and the streams in \<open>S\<close>, never a player's solvency.\<close>

definition own :: "inv_json \<Rightarrow> string set \<Rightarrow> string set \<Rightarrow> Event list \<Rightarrow> Event list \<Rightarrow> bool" where
  "own J T S l l' \<longleftrightarrow> grows (solvent J) l l' \<and> (\<forall>t p. t \<notin> T \<longrightarrow> tmoves J t p l' = tmoves J t p l)
     \<and> (\<forall>s. s \<notin> S \<longrightarrow> s \<notin> range inv_stream \<longrightarrow> of_stream s l' = of_stream s l)"

lemma own_grows: "own J T S l l' \<Longrightarrow> grows (solvent J) l l'"
  by (simp add: own_def)

lemma own_mono: "own J T S l l' \<Longrightarrow> T \<subseteq> T' \<Longrightarrow> S \<subseteq> S' \<Longrightarrow> own J T' S' l l'"
  by (auto simp: own_def)

lemma own_refl [simp]: "own J T S l l"
  by (auto simp: own_def grows_def)

abbreviation move_data :: "inv_json \<Rightarrow> string \<Rightarrow> string \<Rightarrow> string \<Rightarrow> int \<Rightarrow> string \<Rightarrow> EventData" where
  "move_data J p t kind amount typ \<equiv> \<lparr>edType = typ, edData = jmove J \<lparr>mPlayer = p, mTrade = t, mKind = kind, mAmount = amount\<rparr>\<rparr>"

lemma move_event:
  assumes "inv_roundtrip J" "typ \<in> {EventReserved, EventReleased, EventCommitted, EventReceived}"
  obtains e where "stamp now s [move_data J p t kind amount typ] l = [e]" "evType e = typ"
    "\<And>k. avail_of J k e = (if k \<noteq> kind then 0 else if typ = EventReserved then - amount else if typ = EventCommitted then 0 else amount)"
    "\<And>k. held_of J k e = (if k \<noteq> kind then 0 else if typ = EventReserved then amount else if typ = EventReceived then 0 else - amount)"
    "\<And>t' typ'. hasMove J t' typ' [e] \<longleftrightarrow> t' = t \<and> typ' = typ"
proof (rule that)
  let ?m = "\<lparr>mPlayer = p, mTrade = t, mKind = kind, mAmount = amount\<rparr>"
  let ?e = "\<lparr>evGlobal = length l + 1, evStream = s, evSeq = length (of_stream s l) + 1, evType = typ, evData = jmove J ?m, evAt = now\<rparr>"
  show "stamp now s [move_data J p t kind amount typ] l = [?e]" "evType ?e = typ" by (simp_all add: stamp_one)
  have m: "move J ?e = Some ?m" using assms(1) by (simp add: move_def inv_roundtrip_def)
  show "avail_of J k ?e = (if k \<noteq> kind then 0 else if typ = EventReserved then - amount else if typ = EventCommitted then 0 else amount)" for k
    unfolding avail_of_def m using assms(2) by (auto simp: move_types)
  show "held_of J k ?e = (if k \<noteq> kind then 0 else if typ = EventReserved then amount else if typ = EventReceived then 0 else - amount)" for k
    unfolding held_of_def m using assms(2) by (auto simp: move_types)
  show "hasMove J t' typ' [?e] \<longleftrightarrow> t' = t \<and> typ' = typ" for t' typ'
    using m by auto
qed

lemma grows_refl [simp]: "grows I l l"
  by (auto simp: grows_def)

lemma growsD: "grows I l l' \<Longrightarrow> I l \<Longrightarrow> I l'" "grows I l l' \<Longrightarrow> hasMove J t typ (of_stream s l) \<Longrightarrow> hasMove J t typ (of_stream s l')"
  by (auto simp: grows_def)

lemma grows_same_length:
  "grows I l l' \<Longrightarrow> length (of_stream s l') = length (of_stream s l) \<Longrightarrow> of_stream s l' = of_stream s l"
  by (auto simp: grows_def)

lemma move_event_shape:
  assumes "inv_roundtrip J" "typ \<in> {EventReserved, EventReleased, EventCommitted, EventReceived}"
  shows "tmoves J t' q (stamp now (inv_stream p) [move_data J p t kind amount typ] l) = (if q = p \<and> t' = t then [(typ, kind, amount)] else [])"
  using assms by (auto simp: tmoves_def of_stream_inv) (auto simp: stamp_one of_trade_def move_def inv_roundtrip_def)

section \<open>Operations among others\<close>

text \<open>Each operation keeps every player solvent whatever the others do. The lemmas are stated for any rely
  that lets logs grow and keeps players solvent, any stable \<open>P\<close> that holds until the event is there, and any
  stable \<open>Q\<close> for the end.\<close>

definition tolerant :: "inv_json \<Rightarrow> (Event list \<Rightarrow> Event list \<Rightarrow> bool) \<Rightarrow> (Event list \<Rightarrow> bool) \<Rightarrow> ('a \<Rightarrow> Event list \<Rightarrow> bool) \<Rightarrow> bool" where
  "tolerant J R P Q \<longleftrightarrow> (\<forall>l l'. R l l' \<longrightarrow> grows (solvent J) l l' \<and> (P l \<longrightarrow> P l') \<and> (\<forall>a. Q a l \<longrightarrow> Q a l'))"

lemma tolerantD:
  "tolerant J R P Q \<Longrightarrow> R l l' \<Longrightarrow> grows (solvent J) l l'" "tolerant J R P Q \<Longrightarrow> R l l' \<Longrightarrow> P l \<Longrightarrow> P l'"
  "tolerant J R P Q \<Longrightarrow> R l l' \<Longrightarrow> Q a l \<Longrightarrow> Q a l'" "tolerant J R P Q \<Longrightarrow> R l l' \<Longrightarrow> solvent J l \<Longrightarrow> solvent J l'"
  by (auto simp: tolerant_def grows_def)

text \<open>One move more.\<close>

definition moved :: "inv_json \<Rightarrow> string \<Rightarrow> string \<Rightarrow> tmove \<Rightarrow> Event list \<Rightarrow> Event list \<Rightarrow> bool" where
  "moved J t p m l l' \<longleftrightarrow> solvent J l' \<and> (\<forall>q. tmoves J t q l' = (if q = p then tmoves J t p l @ [m] else tmoves J t q l))
     \<and> (\<forall>s. s \<notin> range inv_stream \<longrightarrow> of_stream s l' = of_stream s l)"

lemma rg_appendMove:
  assumes tol: "tolerant J R P Q'" and P: "P l" "solvent J l" and rt: "inv_roundtrip J"
    and ty: "typ \<in> {EventReserved, EventReleased, EventCommitted, EventReceived}"
    and res: "\<And>l'. R l l' \<Longrightarrow> solvent J l' \<Longrightarrow> typ = EventReserved \<Longrightarrow> nat expected = length (of_stream (inv_stream p) l') \<Longrightarrow>
      \<not> hasMove J t EventReserved (of_stream (inv_stream p) l')
      \<and> (inflow J kind (of_stream (inv_stream p) l') < 2 ^ 63 \<longrightarrow> amount \<le> avail J kind (of_stream (inv_stream p) l'))"
    and pos: "typ = EventReserved \<Longrightarrow> expected \<ge> 0" "amount \<ge> 0"
    and fail: "\<And>l' d. P l' \<Longrightarrow> solvent J l' \<Longrightarrow> F d \<Longrightarrow> rg F R (own J {t} S) Q (k (Inl (EsDb d))) l'"
    and conflict: "\<And>l'. P l' \<Longrightarrow> solvent J l' \<Longrightarrow> expected \<ge> 0 \<Longrightarrow> rg F R (own J {t} S) Q (k (Inl ErrVersionConflict)) l'"
    and done1: "\<And>l' l'' r. P l' \<Longrightarrow> R l l' \<Longrightarrow> moved J t p (typ, kind, amount) l' l'' \<Longrightarrow> rg F R (own J {t} S) Q (k (Inr r)) l''"
  shows "rg F R (own J {t} S) Q (appendMove J p t kind amount typ expected k) l"
  unfolding appendMove_def rg.simps
proof (intro allI impI conjI)
  fix l' d now assume g: "R l l'"
  have s: "solvent J l'" "P l'" using tolerantD [OF tol g] P by auto
  then show "F d \<Longrightarrow> rg F R (own J {t} S) Q (k (Inl (EsDb d))) l'" by (intro fail)
  let ?d = "move_data J p t kind amount typ"
  let ?c = "AppendCall (inv_stream p) expected [?d]"
  obtain e where "stamp now (inv_stream p) [?d] l' = [e]" "evType e = typ"
    "\<And>k. avail_of J k e = (if k \<noteq> kind then 0 else if typ = EventReserved then - amount else if typ = EventCommitted then 0 else amount)"
    "\<And>k. held_of J k e = (if k \<noteq> kind then 0 else if typ = EventReserved then amount else if typ = EventReceived then 0 else - amount)"
    "\<And>t' typ'. hasMove J t' typ' [e] \<longleftrightarrow> t' = t \<and> typ' = typ"
    by (rule move_event [OF rt ty, where now = now and s = "inv_stream p" and p = p and t = t and kind = kind and amount = amount and l = l']) (rule that)
  note e = this(1,3,5)
  show "own J {t} S l' (fst (log_call now ?c l'))"
    and "rg F R (own J {t} S) Q (k (snd (log_call now ?c l'))) (fst (log_call now ?c l'))"
  proof (atomize (full), cases "expected \<ge> 0 \<and> nat expected \<noteq> length (of_stream (inv_stream p) l')")
    case False
    let ?l = "l' @ stamp now (inv_stream p) [?d] l'"
    have sv: "solvent J ?l"
    proof (rule solvent_snoc [OF s(1) e(1)])
      show "- avail_of J k e \<le> avail J k (of_stream (inv_stream p) l')"
        if "avail_of J k e < 0" "inflow J k (of_stream (inv_stream p) l') < 2 ^ 63" for k
      proof -
        have k: "k = kind \<and> typ = EventReserved"
          using that(1) pos(2) e(2) [of k] by (cases "k = kind"; cases "typ = EventReserved"; cases "typ = EventCommitted") simp_all
        then have v: "avail_of J k e = - amount" by (simp add: e(2))
        have "nat expected = length (of_stream (inv_stream p) l')" using False pos(1) k by blast
        then have "amount \<le> avail J kind (of_stream (inv_stream p) l')" using res [OF g s(1)] k that(2) by blast
        then show ?thesis using k unfolding v by simp
      qed
      show "\<not> hasMove J t' EventReserved (of_stream (inv_stream p) l')" if "hasMove J t' EventReserved [e]" for t'
        using that res [OF g s(1)] pos(1) False unfolding e(3) by metis
    qed
    have str: "of_stream s ?l = of_stream s l'" if "s \<notin> range inv_stream" for s
      using that stamp_stream [of s now "inv_stream p" "[?d]" l'] by auto
    have "moved J t p (typ, kind, amount) l' ?l" using sv str by (simp add: moved_def move_event_shape [OF rt ty])
    from done1 [OF s(2) g this] have "rg F R (own J {t} S) Q (k (Inr (stamp now (inv_stream p) [?d] l'))) ?l" .
    moreover have "own J {t} S l' ?l" using sv str by (simp add: own_def grows_def move_event_shape [OF rt ty])
    moreover have "log_call now ?c l' = (?l, Inr (stamp now (inv_stream p) [?d] l'))" using False by (auto simp: inv_stream_def)
    ultimately show "own J {t} S l' (fst (log_call now ?c l')) \<and> rg F R (own J {t} S) Q (k (snd (log_call now ?c l'))) (fst (log_call now ?c l'))"
      by simp
  next
    case True
    then have "log_call now ?c l' = (l', Inl ErrVersionConflict)" by (simp add: inv_stream_def)
    then show "own J {t} S l' (fst (log_call now ?c l')) \<and> rg F R (own J {t} S) Q (k (snd (log_call now ?c l'))) (fst (log_call now ?c l'))"
      using conflict [OF s(2,1)] True by simp
  qed
qed

lemma read_stream_all: "log_call now (ReadCall s 0 0) l = (l, Inr (of_stream s l))"
  by (simp add: upto_limit_def)

lemma rg_reserve_try:
  assumes rt: "inv_roundtrip J" and pos: "amount > 0" and tol: "tolerant J R P Q"
    and err: "\<And>l e. P l \<Longrightarrow> Q (Some e) l"
    and found: "\<And>l. P l \<Longrightarrow> hasMove J t EventReserved (of_stream (inv_stream p) l) \<Longrightarrow> Q None l"
    and ok: "\<And>l l'. P l \<Longrightarrow> moved J t p (EventReserved, kind, amount) l l' \<Longrightarrow> Q None l'"
  shows "P l \<Longrightarrow> solvent J l \<Longrightarrow> rg F R (own J {t} S) Q (reserve_try n J p t kind amount) l"
proof (induction n arbitrary: l)
  case (Suc n)
  let ?S = "\<lambda>l. of_stream (inv_stream p) l"
  let ?k = "\<lambda>r :: reply. case r of Inl e \<Rightarrow> if e = ErrVersionConflict then reserve_try n J p t kind amount else Return (Some (InvStore e))
    | Inr x \<Rightarrow> Return None"
  have tried: "rg F R (own J {t} S) Q (appendMove J p t kind amount EventReserved (int (length (?S l1))) ?k) l1"
    if l1: "P l1" "solvent J l1" and r: "\<not> hasMove J t EventReserved (?S l1)" "\<not> amount_of (Available (inv_fold J (?S l1))) kind < amount" for l1
  proof (rule rg_appendMove [OF tol l1 rt])
    fix l' assume l': "R l1 l'" "solvent J l'" "nat (int (length (?S l1))) = length (?S l')"
    have same: "?S l' = ?S l1" using grows_same_length [OF tolerantD(1) [OF tol l'(1)]] l'(3) by simp
    show "\<not> hasMove J t EventReserved (?S l') \<and> (inflow J kind (?S l') < 2 ^ 63 \<longrightarrow> amount \<le> avail J kind (?S l'))"
    proof (intro conjI impI)
      assume "inflow J kind (?S l') < 2 ^ 63"
      then have "0 \<le> avail J kind (?S l1)" "avail J kind (?S l1) < 2 ^ 63" using solventD [OF l'(2), of kind p] same by simp_all
      then show "amount \<le> avail J kind (?S l')" using r(2) same by (simp add: fold_amounts i64_id)
    qed (use r(1) same in simp)
  next
    fix l' l'' r assume "P l'" "moved J t p (EventReserved, kind, amount) l' l''"
    then show "rg F R (own J {t} S) Q (?k (Inr r)) l''" using ok tolerantD(3) [OF tol] by auto
  qed (use pos err tolerantD(3) [OF tol] Suc.IH in auto)
  have step: "own J {t} S l' l' \<and> rg F R (own J {t} S) Q (if hasMove J t EventReserved (?S l') then Return None
        else if amount_of (Available (inv_fold J (?S l'))) kind < amount then Return (Some ErrInsufficient)
        else appendMove J p t kind amount EventReserved (int (length (?S l'))) ?k) l'" if "P l'" "solvent J l'" for l'
    using tried [OF that] found [OF that(1)] err [OF that(1)] tolerantD(3) [OF tol] by auto
  show ?case unfolding reserve_try.simps rg.simps read_stream_all fst_conv snd_conv sum.case
  proof (intro allI impI conjI)
    fix l' assume "R l l'"
    then have l': "P l'" "solvent J l'" using tolerantD [OF tol] Suc.prems by blast+
    show "\<And>l''. R l' l'' \<Longrightarrow> Q (Some (InvStore (EsDb e))) l''" for e using err [OF l'(1)] tolerantD(3) [OF tol] by blast
    show "own J {t} S l' l'" by simp
    show "rg F R (own J {t} S) Q (if hasMove J t EventReserved (?S l') then Return None
        else if amount_of (Available (inv_fold J (?S l'))) kind < amount then Return (Some ErrInsufficient)
        else appendMove J p t kind amount EventReserved (int (length (?S l'))) ?k) l'" using step [OF l'] by blast
  qed
qed (use err tolerantD(3) [OF tol] in auto)

lemma rg_Reserve:
  assumes "inv_roundtrip J" "tolerant J R P Q" "P l" "solvent J l"
    and "\<And>l e. P l \<Longrightarrow> Q (Some e) l"
    and "\<And>l. P l \<Longrightarrow> hasMove J t EventReserved (of_stream (inv_stream p) l) \<Longrightarrow> Q None l"
    and "\<And>l l'. P l \<Longrightarrow> moved J t p (EventReserved, kind, amount) l l' \<Longrightarrow> Q None l'"
  shows "rg F R (own J {t} S) Q (Reserve J p t kind amount) l"
proof (cases "amount \<le> 0")
  case True
  then show ?thesis using assms(3,5) tolerantD(3) [OF assms(2)] by (auto simp: Reserve_def)
next
  case False
  then show ?thesis using rg_reserve_try [OF assms(1) _ assms(2,5,6,7,3,4), where amount = amount and t = t and p = p and kind = kind]
    by (simp add: Reserve_def)
qed

lemma rg_idempotentMove:
  assumes rt: "inv_roundtrip J" and tol: "tolerant J R P Q" and l: "P l" "solvent J l"
    and ty: "typ \<in> {EventReleased, EventCommitted, EventReceived}" and pos: "amount \<ge> 0"
    and err: "\<And>l d. P l \<Longrightarrow> F d \<Longrightarrow> Q (Some (InvStore (EsDb d))) l"
    and found: "\<And>l. P l \<Longrightarrow> hasMove J t typ (of_stream (inv_stream p) l) \<Longrightarrow> Q None l"
    and ok: "\<And>l l'. P l \<Longrightarrow> moved J t p (typ, kind, amount) l l' \<Longrightarrow> Q None l'"
  shows "rg F R (own J {t} S) Q (idempotentMove J p t kind amount typ) l"
proof -
  let ?k = "\<lambda>r :: reply. case r of Inl e \<Rightarrow> Return (Some (InvStore e)) | Inr x \<Rightarrow> Return None"
  have app: "rg F R (own J {t} S) Q (appendMove J p t kind amount typ (- 1) ?k) l1" if "P l1" "solvent J l1" for l1
  proof (rule rg_appendMove [OF tol that rt])
    fix l' l'' r assume "P l'" "moved J t p (typ, kind, amount) l' l''"
    then show "rg F R (own J {t} S) Q (?k (Inr r)) l''" using ok tolerantD(3) [OF tol] by auto
  qed (use ty pos err tolerantD(3) [OF tol] in \<open>auto simp: move_types\<close>)
  show ?thesis unfolding idempotentMove_def rg.simps read_stream_all fst_conv snd_conv sum.case
  proof (intro allI impI conjI)
    fix l' assume "R l l'"
    then have l': "P l'" "solvent J l'" using tolerantD [OF tol] l by blast+
    show "\<And>l''. F e \<Longrightarrow> R l' l'' \<Longrightarrow> Q (Some (InvStore (EsDb e))) l''" for e using err [OF l'(1)] tolerantD(3) [OF tol] by blast
    show "own J {t} S l' l'" by simp
    show "rg F R (own J {t} S) Q (if hasMove J t typ (of_stream (inv_stream p) l') then Return None
        else appendMove J p t kind amount typ (- 1) ?k) l'"
      using app [OF l'] found [OF l'(1)] tolerantD(3) [OF tol] by auto
  qed
qed

section \<open>All operations together\<close>

fun op_trades :: "inv_op \<Rightarrow> string set" where
  "op_trades (OpGather g) = {}"
| "op_trades (OpReserve p t kind amount) = {t}"
| "op_trades (OpMove typ p t kind amount) = {t}"

fun op_done :: "inv_json \<Rightarrow> inv_op \<Rightarrow> Event list \<Rightarrow> bool" where
  "op_done J (OpGather g) l \<longleftrightarrow> True"
| "op_done J (OpReserve p t kind amount) l \<longleftrightarrow> hasMove J t EventReserved (of_stream (inv_stream p) l)"
| "op_done J (OpMove typ p t kind amount) l \<longleftrightarrow> hasMove J t typ (of_stream (inv_stream p) l)"

lemma rg_gather:
  assumes "inv_roundtrip J" "solvent J l" "gAmount g \<ge> 0"
  shows "rg F (grows (solvent J)) (own J {} S) (\<lambda>a l. True) (op_prog J (OpGather g)) l"
proof -
  let ?d = "\<lparr>edType = EventGathered, edData = jgathered J g\<rparr>"
  let ?s = "inv_stream (gPlayer g)"
  have "own J {} S l' (l' @ stamp now ?s [?d] l')" if "solvent J l'" for l' now
  proof -
    have "solvent J (l' @ stamp now ?s [?d] l')"
      using assms(1,3) by (intro solvent_snoc [OF that stamp_one]) (auto simp: avail_of_def inv_roundtrip_def move_types)
    moreover have "tmoves J t p (stamp now ?s [?d] l') = []" for t p
      by (auto simp: tmoves_def of_stream_inv) (simp add: stamp_one of_trade_def move_types)
    moreover have "of_stream s (stamp now ?s [?d] l') = []" if "s \<notin> range inv_stream" for s
      using that stamp_stream [of s now ?s "[?d]" l'] by auto
    ultimately show ?thesis by (simp add: own_def grows_def)
  qed
  then show ?thesis using assms(2) by (auto simp: inv_stream_def dest: growsD(1))
qed

lemma rg_op:
  assumes "inv_roundtrip J" "solvent J l" "op_fair a"
  shows "rg F (grows (solvent J)) (own J (op_trades a) S) (\<lambda>r l. r = None \<longrightarrow> op_done J a l) (op_prog J a) l"
proof -
  have tol: "tolerant J (grows (solvent J)) (\<lambda>_. True) (\<lambda>r l. r = None \<longrightarrow> hasMove J t y (of_stream s l))" for t y s
    by (auto simp: tolerant_def dest: growsD(2))
  have had: "hasMove J t y (of_stream (inv_stream p) l')"
    if "moved J t p (y, kind, amount) l0 l'" "y \<in> {EventReserved, EventReleased, EventCommitted, EventReceived}" for t p y kind amount l0 l'
    using that by (simp add: hasMove_tmoves moved_def)
  show ?thesis
  proof (cases a)
    case (OpGather g)
    then show ?thesis using rg_gather [OF assms(1,2)] assms(3) by simp
  next
    case (OpReserve p t kind amount)
    then show ?thesis using had by (auto intro!: rg_Reserve [OF assms(1) tol _ assms(2)])
  next
    case (OpMove y p t kind amount)
    then show ?thesis using had assms(3) by (auto intro!: rg_idempotentMove [OF assms(1) tol _ assms(2)])
  qed
qed


definition plain_inv :: inv_json where
  "plain_inv = \<lparr>jgathered = (\<lambda>g. enc_string (gPlayer g) @ enc_string (gName g) @ enc_string (gNode g) @ enc_string (gKind g) @ enc_int (gAmount g)),
     ungathered = (\<lambda>r. case dec_string r of (p, r) \<Rightarrow> case dec_string r of (n, r) \<Rightarrow> case dec_string r of (d, r) \<Rightarrow>
       case dec_string r of (k, r) \<Rightarrow> case dec_int r of (a, r) \<Rightarrow> Some \<lparr>gPlayer = p, gName = n, gNode = d, gKind = k, gAmount = a\<rparr>),
     jmove = (\<lambda>m. enc_string (mPlayer m) @ enc_string (mTrade m) @ enc_string (mKind m) @ enc_int (mAmount m)),
     unmove = (\<lambda>r. case dec_string r of (p, r) \<Rightarrow> case dec_string r of (t, r) \<Rightarrow> case dec_string r of (k, r) \<Rightarrow>
       case dec_int r of (a, r) \<Rightarrow> Some \<lparr>mPlayer = p, mTrade = t, mKind = k, mAmount = a\<rparr>)\<rparr>"

lemma plain_inv_roundtrip: "inv_roundtrip plain_inv"
  by (simp add: inv_roundtrip_def plain_inv_def codec_simps)

text \<open>One log of wood, two trades after it: the second finds the version taken, reads again and gives up.\<close>

definition race_ops :: "inv_op list" where
  "race_ops = [OpGather \<lparr>gPlayer = ''p'', gName = ''n'', gNode = ''o'', gKind = ''w'', gAmount = 1\<rparr>,
     OpReserve ''p'' ''t'' ''w'' 1, OpReserve ''p'' ''u'' ''w'' 1]"

lemma plain_inv_simps [simp]: "unmove plain_inv (jmove plain_inv m) = Some m" "ungathered plain_inv (jgathered plain_inv g) = Some g"
  using plain_inv_roundtrip by (simp_all add: inv_roundtrip_def)


end
