(* ===== verification/Bus.thy ===== *)
theory Bus
  imports Text
begin

text \<open>
  The event bus (\<open>pkg/bus\<close>): the options of a subscription and their defaults, the exponential
  backoff, the subjects, and what the adapter to JetStream (\<open>nats.go\<close>) does: publishing under an
  idempotency key and the callback that acknowledges, gives up or asks for redelivery. JetStream
  itself is not part of the repository: what it answers is an argument, what it stores follows from
  the answer. Durations are in nanoseconds.
\<close>

record message =
  msgSubject :: string
  msgData :: bytes
  msgID :: string

text \<open>One delivery of a message.\<close>

record Message =
  mSubject :: string
  mData :: bytes
  mID :: string
  mDeliveries :: nat

abbreviation second :: int where "second \<equiv> 1000000000"

abbreviation millisecond :: int where "millisecond \<equiv> 1000000"

section \<open>Options\<close>

record SubscribeOptions =
  soName :: string
  soDurable :: bool
  soFilter :: string
  soMaxDeliver :: int
  soAckWait :: int
  soMaxInFlight :: int
  soBackoff :: "(int \<Rightarrow> int) option"

text \<open>\<open>for i := 1; i < attempt && d < max; i++\<close>, with the rounds left as the argument.\<close>

fun backoff_loop :: "nat \<Rightarrow> int \<Rightarrow> int \<Rightarrow> int" where
  "backoff_loop 0 mx d = d"
| "backoff_loop (Suc n) mx d = (if d < mx then backoff_loop n mx (i64 (d * 2)) else d)"

definition ExponentialBackoff :: "int \<Rightarrow> int \<Rightarrow> int \<Rightarrow> int" where
  "ExponentialBackoff base mx attempt =
     (let d = backoff_loop (nat (attempt - 1)) mx base in if d > mx then mx else d)"

definition sub_defaults :: "SubscribeOptions \<Rightarrow> SubscribeOptions" where
  "sub_defaults so =
     (let o1 = (if soMaxDeliver so \<le> 0 then so\<lparr>soMaxDeliver := 5\<rparr> else so);
          o2 = (if soAckWait o1 \<le> 0 then o1\<lparr>soAckWait := 5 * second\<rparr> else o1);
          o3 = (if soMaxInFlight o2 \<le> 0 then o2\<lparr>soMaxInFlight := 64\<rparr> else o2)
      in (case soBackoff o3 of None \<Rightarrow> o3\<lparr>soBackoff := Some (ExponentialBackoff (100 * millisecond) (5 * second))\<rparr> | Some f \<Rightarrow> o3))"

section \<open>Subjects\<close>

definition SubjectPrefix :: string where
  "SubjectPrefix = ''shardlands.events.''"

definition dlqPrefix :: string where
  "dlqPrefix = ''shardlands.dlq.''"

definition sanitize :: "string \<Rightarrow> string" where
  "sanitize s = map (\<lambda>c. if c \<in> {CHR ''.'', CHR '' '', CHR ''*'', CHR ''>''} then CHR ''_'' else c) s"

definition EventSubject :: "string \<Rightarrow> string" where
  "EventSubject eventType = SubjectPrefix @ sanitize eventType"

section \<open>JetStream's answers\<close>

text \<open>
  A stored message is acknowledged, or its acknowledgement is lost; a message under a key the window of
  duplicates still holds is acknowledged without being stored again; or nothing happens and the call
  fails.
\<close>

datatype js_answer = JsStored | JsDuplicate | JsAckLost | JsRefused

definition js_publish :: "js_answer \<Rightarrow> message \<Rightarrow> message list \<Rightarrow> message list \<times> bool" where
  "js_publish ans m stream =
     (case ans of
        JsStored \<Rightarrow> (stream @ [m], True)
      | JsDuplicate \<Rightarrow> (if msgID m \<noteq> [] \<and> msgID m \<in> set (map msgID stream) then stream else stream @ [m], True)
      | JsAckLost \<Rightarrow> (stream @ [m], False)
      | JsRefused \<Rightarrow> (stream, False))"

definition bus_publish :: "js_answer \<Rightarrow> string \<Rightarrow> string \<Rightarrow> bytes \<Rightarrow> message list \<Rightarrow> message list \<times> bool" where
  "bus_publish ans subject mid d stream = js_publish ans \<lparr>msgSubject = subject, msgData = d, msgID = mid\<rparr> stream"

section \<open>A subscription\<close>

text \<open>What \<open>Subscribe\<close> asks of JetStream; explicit acknowledgement and delivery from the start are fixed.\<close>

record js_config =
  jcFilter :: string
  jcAckWait :: int
  jcMaxAckPending :: int
  jcDurable :: string
  jcInactive :: int

definition sub_config :: "SubscribeOptions \<Rightarrow> js_config option" where
  "sub_config so0 =
     (let so = sub_defaults so0 in
      if soName so = [] then None
      else let flt = (if soFilter so = [] then SubjectPrefix @ ''>'' else soFilter so);
               cfg = \<lparr>jcFilter = flt, jcAckWait = soAckWait so, jcMaxAckPending = soMaxInFlight so, jcDurable = [], jcInactive = 0\<rparr>
           in Some (if soDurable so then cfg\<lparr>jcDurable := soName so\<rparr> else cfg\<lparr>jcInactive := 5 * 60 * second\<rparr>))"

datatype verdict = Ack | GiveUp string bytes | Nak int

text \<open>What the callback does with a delivery after the handler: \<open>ok\<close> is the handler's answer.\<close>

definition sub_callback :: "SubscribeOptions \<Rightarrow> bool \<Rightarrow> Message \<Rightarrow> verdict" where
  "sub_callback so ok m =
     (if ok then Ack
      else if int (mDeliveries m) \<ge> soMaxDeliver so then GiveUp (dlqPrefix @ sanitize (soName so)) (mData m)
      else case soBackoff so of Some f \<Rightarrow> Nak (f (int (mDeliveries m))) | None \<Rightarrow> Nak 0)"

text \<open>The reader of dead letters.\<close>

definition dlq_config :: "string \<Rightarrow> string \<times> string" where
  "dlq_config durable = (''dlqreader_'' @ sanitize durable, dlqPrefix @ sanitize durable)"

definition dlq_callback :: "bool \<Rightarrow> verdict" where
  "dlq_callback ok = (if ok then Ack else Nak 0)"

text \<open>
  A consumer of one message in flight: the position in the stream of the message it is at, how often
  that was delivered, the handler's own state, and the dead letters. One delivery: \<open>settled\<close>: the
  acknowledgement arrives in time (otherwise the message comes again); \<open>dlq\<close>: JetStream's answer to the
  publishing of a dead letter, which the callback does not look at.
\<close>

record 'h consumer =
  cpos :: nat
  ctries :: nat
  chandler :: 'h
  cdead :: "message list"

definition deliver :: "SubscribeOptions \<Rightarrow> (Message \<Rightarrow> 'h \<Rightarrow> 'h \<times> bool) \<Rightarrow> message list \<Rightarrow> bool \<Rightarrow> js_answer
    \<Rightarrow> 'h consumer \<Rightarrow> 'h consumer" where
  "deliver so h stream settled dlq c =
     (if cpos c \<ge> length stream then c
      else let m = stream ! cpos c;
               d = \<lparr>mSubject = msgSubject m, mData = msgData m, mID = msgID m, mDeliveries = ctries c + 1\<rparr>
      in case h d (chandler c) of (s, ok) \<Rightarrow>
        (case sub_callback so ok d of
           Ack \<Rightarrow> if settled then c\<lparr>cpos := cpos c + 1, ctries := 0, chandler := s\<rparr>
                  else c\<lparr>ctries := ctries c + 1, chandler := s\<rparr>
         | GiveUp subject dat \<Rightarrow>
             (let dead = fst (bus_publish dlq subject [] dat (cdead c)) in
              if settled then c\<lparr>cpos := cpos c + 1, ctries := 0, chandler := s, cdead := dead\<rparr>
              else c\<lparr>ctries := ctries c + 1, chandler := s, cdead := dead\<rparr>)
         | Nak delay \<Rightarrow> c\<lparr>ctries := ctries c + 1, chandler := s\<rparr>))"

definition new_consumer :: "'h \<Rightarrow> 'h consumer" where
  "new_consumer s = \<lparr>cpos = 0, ctries = 0, chandler = s, cdead = []\<rparr>"

text \<open>The answer to the publishing of a dead letter is not looked at: when it fails, the message is
  acknowledged all the same and is nowhere.\<close>

lemma dead_letter_lost:
  assumes "cpos c < length stream" "\<And>m s. h m s = (s, False)" "int (ctries c + 1) \<ge> soMaxDeliver so"
  shows "deliver so h stream True JsRefused c = c\<lparr>cpos := cpos c + 1, ctries := 0\<rparr>"
  using assms by (simp add: deliver_def sub_callback_def bus_publish_def js_publish_def Let_def)

section \<open>Backoff\<close>

text \<open>The delay doubles from the base with every attempt, up to the cap.\<close>

lemma backoff_loop_doubles:
  assumes "0 < d" "mx < 2 ^ 62"
  shows "min mx (backoff_loop n mx d) = min mx (d * 2 ^ n)"
  using assms(1)
proof (induction n arbitrary: d)
  case (Suc n)
  show ?case
  proof (cases "d < mx")
    case True
    then have "i64 (d * 2) = d * 2" using Suc.prems assms(2) by (intro i64_id) auto
    then show ?thesis using Suc.IH [of "d * 2"] Suc.prems True by (simp add: mult.assoc)
  next
    case False
    have "d * 1 \<le> d * 2 ^ Suc n" using Suc.prems by (intro mult_left_mono one_le_power) auto
    then show ?thesis using False by (simp add: min_def)
  qed
qed simp

lemma ExponentialBackoff_doubles:
  assumes "0 < base" "mx < 2 ^ 62"
  shows "ExponentialBackoff base mx attempt = min mx (base * 2 ^ nat (attempt - 1))"
  using backoff_loop_doubles [OF assms, of "nat (attempt - 1)"] by (simp add: ExponentialBackoff_def Let_def min_def split: if_splits)

end
