(* ===== verification/Outbox.thy ===== *)
theory Outbox
  imports Elog Bus
begin

text \<open>
  The outbox (\<open>services/outbox\<close>): the relay follows the event log from a checkpoint it keeps in a
  storage of its own and publishes the events on the bus; \<open>Consume\<close> applies what the bus delivers to a
  read model, each event once. Relay and consumer may crash between any two of their steps, publishing
  may fail with the message stored or not, and deliveries may repeat.
\<close>

section \<open>Envelopes\<close>

record Envelope =
  envGlobal :: nat
  envStream :: string
  envSeq :: nat
  envType :: string
  envData :: bytes
  envAt :: int

definition ToEvent :: "Envelope \<Rightarrow> Event" where
  "ToEvent e = \<lparr>evGlobal = envGlobal e, evStream = envStream e, evSeq = envSeq e, evType = envType e,
     evData = envData e, evAt = envAt e\<rparr>"

definition envelope :: "Event \<Rightarrow> Envelope" where
  "envelope e = \<lparr>envGlobal = evGlobal e, envStream = evStream e, envSeq = evSeq e, envType = evType e,
     envData = evData e, envAt = evAt e\<rparr>"

text \<open>JSON, a parameter; \<open>unenv\<close> is \<open>Decode\<close>.\<close>

record out_json =
  jenv :: "Envelope \<Rightarrow> bytes"
  unenv :: "bytes \<Rightarrow> Envelope option"

definition out_roundtrip :: "out_json \<Rightarrow> bool" where
  "out_roundtrip J \<longleftrightarrow> (\<forall>e. unenv J (jenv J e) = Some e)"

section \<open>The relay\<close>

definition checkpointKey :: bytes where
  "checkpointKey = string_bytes ''outbox/checkpoint''"

record 's Relay =
  rdb :: 's
  rbatch :: int
  rcheck :: nat
  rpublished :: nat

definition relay_open :: "'s kv_ops \<Rightarrow> 's \<Rightarrow> db_err + 's Relay" where
  "relay_open K s =
     (let r = \<lparr>rdb = s, rbatch = 256, rcheck = 0, rpublished = 0\<rparr> in
      case kget K s checkpointKey of
        Inr v \<Rightarrow> Inr (if length v = 8 then r\<lparr>rcheck := of_be64 v\<rparr> else r)
      | Inl e \<Rightarrow> if e = ErrNotFound then Inr r else Inl e)"

definition saveCheckpoint :: "'s kv_ops \<Rightarrow> nat \<Rightarrow> 's Relay \<Rightarrow> 's Relay \<times> bool" where
  "saveCheckpoint K v r = (case kput K (rdb r) checkpointKey (be64 (of_nat v)) of (e, s) \<Rightarrow> (r\<lparr>rdb := s\<rparr>, e = None))"

text \<open>The answers of the bus, one for each event of the batch.\<close>

fun publish_events :: "out_json \<Rightarrow> (nat \<Rightarrow> js_answer) \<Rightarrow> Event list \<Rightarrow> 's Relay \<Rightarrow> message list \<Rightarrow> 's Relay \<times> message list \<times> bool" where
  "publish_events J ans [] r bus = (r, bus, True)"
| "publish_events J ans (e # es) r bus =
     (case bus_publish (ans 0) (EventSubject (evType e)) (dec (evGlobal e)) (jenv J (envelope e)) bus of
        (bus1, False) \<Rightarrow> (r, bus1, False)
      | (bus1, True) \<Rightarrow> publish_events J (\<lambda>i. ans (Suc i)) es (r\<lparr>rpublished := rpublished r + 1\<rparr>) bus1)"

definition publishBatch :: "'s kv_ops \<Rightarrow> out_json \<Rightarrow> (nat \<Rightarrow> js_answer) \<Rightarrow> Event list \<Rightarrow> 's Relay \<Rightarrow> message list
    \<Rightarrow> 's Relay \<times> message list \<times> bool" where
  "publishBatch K J ans evs r bus =
     (case publish_events J ans evs r bus of
        (r1, bus1, False) \<Rightarrow> (r1, bus1, False)
      | (r1, bus1, True) \<Rightarrow>
          let v = evGlobal (last evs) in
          (case saveCheckpoint K v r1 of
             (r2, False) \<Rightarrow> (r2, bus1, False)
           | (r2, True) \<Rightarrow> (r2\<lparr>rcheck := v\<rparr>, bus1, True)))"

datatype relay_next = ReadOn | RetryLater | AwaitSignal

text \<open>One round of \<open>run\<close> on what \<open>ReadAll\<close> answered.\<close>

definition relay_turn :: "'s kv_ops \<Rightarrow> out_json \<Rightarrow> (nat \<Rightarrow> js_answer) \<Rightarrow> reply \<Rightarrow> 's Relay \<Rightarrow> message list
    \<Rightarrow> 's Relay \<times> message list \<times> relay_next" where
  "relay_turn K J ans reply r bus =
     (case (case reply of Inl e \<Rightarrow> [] | Inr evs \<Rightarrow> evs) of
        [] \<Rightarrow> (r, bus, AwaitSignal)
      | e # es \<Rightarrow> (case publishBatch K J ans (e # es) r bus of
            (r1, bus1, ok) \<Rightarrow> (r1, bus1, if ok then ReadOn else RetryLater)))"

definition caught_up :: "'s Relay \<Rightarrow> nat \<Rightarrow> bool" where
  "caught_up r lastGlobal \<longleftrightarrow> rcheck r \<ge> lastGlobal"

section \<open>The consumer\<close>

record 'm dedupe =
  lastApplied :: nat
  cmodel :: 'm

text \<open>\<open>apply\<close> changes the model and reports an error or not.\<close>

definition consume_handler :: "out_json \<Rightarrow> (Event \<Rightarrow> 'm \<Rightarrow> 'm \<times> bool) \<Rightarrow> Message \<Rightarrow> 'm dedupe \<Rightarrow> 'm dedupe \<times> bool" where
  "consume_handler J app m st =
     (case unenv J (mData m) of
        None \<Rightarrow> (st, False)
      | Some env \<Rightarrow>
          if envGlobal env \<le> lastApplied st then (st, True)
          else case app (ToEvent env) (cmodel st) of
              (m1, False) \<Rightarrow> (st\<lparr>cmodel := m1\<rparr>, False)
            | (m1, True) \<Rightarrow> (let st1 = st\<lparr>cmodel := m1\<rparr> in
                (if envGlobal env > lastApplied st1 then st1\<lparr>lastApplied := envGlobal env\<rparr> else st1, True)))"

definition consume_options :: "string \<Rightarrow> SubscribeOptions" where
  "consume_options name = sub_defaults \<lparr>soName = name, soDurable = False, soFilter = [], soMaxDeliver = 0, soAckWait = 0,
     soMaxInFlight = 1, soBackoff = None\<rparr>"

text \<open>One message in flight, everything from the start: deliveries are in the order of the stream.\<close>

lemma consume_in_order:
  "name \<noteq> [] \<Longrightarrow> map_option jcMaxAckPending (sub_config (consume_options name)) = Some 1
   \<and> map_option jcDurable (sub_config (consume_options name)) = Some []"
  by (simp add: sub_config_def consume_options_def sub_defaults_def Let_def)

definition Consume :: "string \<Rightarrow> 'm \<Rightarrow> 'm dedupe consumer option" where
  "Consume name m0 = (if name = [] then None else Some (new_consumer \<lparr>lastApplied = 0, cmodel = m0\<rparr>))"

section \<open>The pipeline\<close>

text \<open>Log, bus, relay and one consumer; a relay that crashes opens again from its storage, a consumer
  that crashes starts over.\<close>

record ('s, 'm) pipeline =
  olog :: "Event list"
  obus :: "message list"
  orelay :: "'s Relay"
  ocons :: "'m dedupe consumer"

datatype out_step =
    AppendLog int string int "EventData list"
  | RelayTurn "nat \<Rightarrow> js_answer"
  | RelayCrash
  | Deliver bool js_answer
  | ConsumerCrash

fun pipeline_step :: "'s kv_ops \<Rightarrow> out_json \<Rightarrow> (Event \<Rightarrow> 'm \<Rightarrow> 'm \<times> bool) \<Rightarrow> 'm \<Rightarrow> out_step \<Rightarrow> ('s, 'm) pipeline \<Rightarrow> ('s, 'm) pipeline" where
  "pipeline_step K J app m0 (AppendLog now stream expected events) p =
     p\<lparr>olog := fst (log_call now (AppendCall stream expected events) (olog p))\<rparr>"
| "pipeline_step K J app m0 (RelayTurn ans) p =
     (case relay_turn K J ans (snd (log_call 0 (ReadAllCall (rcheck (orelay p) + 1) (rbatch (orelay p))) (olog p))) (orelay p) (obus p) of
        (r, bus, nxt) \<Rightarrow> p\<lparr>orelay := r, obus := bus\<rparr>)"
| "pipeline_step K J app m0 RelayCrash p =
     (case relay_open K (rdb (orelay p)) of Inl e \<Rightarrow> p | Inr r \<Rightarrow> p\<lparr>orelay := r\<rparr>)"
| "pipeline_step K J app m0 (Deliver settled dlq) p =
     p\<lparr>ocons := deliver (consume_options ''c'') (consume_handler J app) (obus p) settled dlq (ocons p)\<rparr>"
| "pipeline_step K J app m0 ConsumerCrash p =
     p\<lparr>ocons := new_consumer \<lparr>lastApplied = 0, cmodel = m0\<rparr>\<rparr>"

section \<open>What the bus holds\<close>

definition pub_msg :: "out_json \<Rightarrow> Event \<Rightarrow> message" where
  "pub_msg J e = \<lparr>msgSubject = EventSubject (evType e), msgData = jenv J (envelope e), msgID = dec (evGlobal e)\<rparr>"

text \<open>The stream of the bus, by the global numbers of its messages.\<close>

definition bus_of :: "out_json \<Rightarrow> Event list \<Rightarrow> nat list \<Rightarrow> message list" where
  "bus_of J l gs = map (\<lambda>g. pub_msg J (l ! (g - 1))) gs"

definition top_of :: "nat list \<Rightarrow> nat" where
  "top_of gs = fold max gs 0"

text \<open>A number comes only after all smaller ones.\<close>

definition stair :: "nat list \<Rightarrow> bool" where
  "stair gs \<longleftrightarrow> (\<forall>i < length gs. 1 \<le> gs ! i \<and> gs ! i \<le> Suc (top_of (take i gs)))"

definition numbered :: "Event list \<Rightarrow> bool" where
  "numbered l \<longleftrightarrow> (\<forall>i < length l. evGlobal (l ! i) = i + 1)"

lemma top_of_snoc [simp]: "top_of [] = 0" "top_of (gs @ [g]) = max (top_of gs) g"
  by (simp_all add: top_of_def max.commute)

lemma top_of_append: "top_of gs \<le> top_of (gs @ hs)"
  by (induction hs rule: rev_induct) (simp_all flip: append_assoc)

lemma top_of_take: "top_of (take i gs) \<le> top_of gs"
  using top_of_append [of "take i gs" "drop i gs"] by simp

lemma top_of_mem: "g \<in> set gs \<Longrightarrow> g \<le> top_of gs"
  by (induction gs rule: rev_induct) auto

lemma stair_snoc: "stair (gs @ [g]) \<longleftrightarrow> stair gs \<and> 1 \<le> g \<and> g \<le> Suc (top_of gs)"
  by (auto simp: stair_def nth_append less_Suc_eq)

lemma bus_of_snoc: "bus_of J l (gs @ [g]) = bus_of J l gs @ [pub_msg J (l ! (g - 1))]"
  by (simp add: bus_of_def)

lemma bus_of_longer: "top_of gs \<le> length l \<Longrightarrow> stair gs \<Longrightarrow> bus_of J (l @ xs) gs = bus_of J l gs"
  by (auto simp: bus_of_def nth_append stair_def in_set_conv_nth) (metis Suc_le_eq Suc_pred le_trans not_less_eq_eq nth_mem top_of_mem)

lemma numbered_append: "numbered l \<Longrightarrow> numbered (fst (log_call now (AppendCall stream expected events) l))"
  by (auto simp: numbered_def stamp_def nth_append)

lemma bus_publish_stair:
  assumes "stair gs" "top_of gs \<le> length l" "numbered l" "n < length l" "n \<le> top_of gs"
    and "bus_publish ans (EventSubject (evType (l ! n))) (dec (evGlobal (l ! n))) (jenv J (envelope (l ! n))) (bus_of J l gs) = (bus1, ok)"
  shows "\<exists>hs. bus1 = bus_of J l (gs @ hs) \<and> stair (gs @ hs) \<and> top_of (gs @ hs) \<le> length l \<and> (ok \<longrightarrow> Suc n \<le> top_of (gs @ hs))"
proof -
  let ?m = "pub_msg J (l ! n)"
  have m: "js_publish ans ?m (bus_of J l gs) = (bus1, ok)" using assms(6) by (simp add: bus_publish_def pub_msg_def)
  have new: "bus_of J l (gs @ [Suc n]) = bus_of J l gs @ [?m]" "stair (gs @ [Suc n])" "top_of (gs @ [Suc n]) \<le> length l"
    using assms(1,2,4,5) by (simp_all add: bus_of_snoc stair_snoc)
  have dup: "Suc n \<le> top_of gs" if h: "msgID ?m \<in> set (map msgID (bus_of J l gs))"
  proof -
    obtain g where g: "g \<in> set gs" "evGlobal (l ! n) = evGlobal (l ! (g - 1))"
      using h by (auto simp: bus_of_def pub_msg_def dec_inj)
    have "1 \<le> g" "g \<le> length l" using assms(1,2) g(1) top_of_mem [OF g(1)] by (auto simp: stair_def in_set_conv_nth)
    then have "g = Suc n" using g(2) assms(3,4) by (auto simp: numbered_def)
    then show ?thesis using top_of_mem [OF g(1)] by simp
  qed
  have "bus1 = bus_of J l gs @ [?m] \<or> bus1 = bus_of J l gs \<and> (ok \<longrightarrow> Suc n \<le> top_of gs)"
    using m dup by (auto simp: js_publish_def split: js_answer.splits if_splits)
  then show ?thesis
  proof
    assume "bus1 = bus_of J l gs @ [?m]"
    then show ?thesis using new by (intro exI [of _ "[Suc n]"]) simp
  next
    assume "bus1 = bus_of J l gs \<and> (ok \<longrightarrow> Suc n \<le> top_of gs)"
    then show ?thesis using assms(1,2) by (intro exI [of _ "[]"]) simp
  qed
qed

lemma publish_events_stair:
  assumes "numbered l"
  shows "stair gs \<Longrightarrow> top_of gs \<le> length l \<Longrightarrow> evs = take (length evs) (drop n l) \<Longrightarrow> n \<le> top_of gs
    \<Longrightarrow> publish_events J ans evs r (bus_of J l gs) = (r1, bus1, ok)
    \<Longrightarrow> \<exists>hs. bus1 = bus_of J l (gs @ hs) \<and> stair (gs @ hs) \<and> top_of (gs @ hs) \<le> length l
      \<and> (ok \<longrightarrow> n + length evs \<le> top_of (gs @ hs)) \<and> (\<exists>k. r1 = r\<lparr>rpublished := k\<rparr>)"
proof (induction evs arbitrary: n gs ans r)
  case Nil
  then show ?case by (intro exI [of _ "[]"]) (auto intro: exI [of _ "rpublished r"])
next
  case (Cons e es)
  have "drop n l \<noteq> []" using Cons.prems(3) by auto
  then have d: "n < length l" by simp
  then have c: "drop n l = l ! n # drop (Suc n) l" by (simp add: Cons_nth_drop_Suc)
  have e: "e = l ! n" and es: "es = take (length es) (drop (Suc n) l)" using Cons.prems(3) unfolding c by simp_all
  obtain b okb where b: "bus_publish (ans 0) (EventSubject (evType e)) (dec (evGlobal e)) (jenv J (envelope e)) (bus_of J l gs) = (b, okb)"
    by fastforce
  obtain hs where hs: "b = bus_of J l (gs @ hs)" "stair (gs @ hs)" "top_of (gs @ hs) \<le> length l" "okb \<longrightarrow> Suc n \<le> top_of (gs @ hs)"
    using bus_publish_stair [OF Cons.prems(1,2) assms d Cons.prems(4) b [unfolded e]] by blast
  show ?case
  proof (cases okb)
    case True
    then have "publish_events J (\<lambda>i. ans (Suc i)) es (r\<lparr>rpublished := rpublished r + 1\<rparr>) (bus_of J l (gs @ hs)) = (r1, bus1, ok)"
      using Cons.prems(5) b hs(1) by simp
    from Cons.IH [OF hs(2,3) es _ this] obtain hs' k where "bus1 = bus_of J l ((gs @ hs) @ hs')" "stair ((gs @ hs) @ hs')"
      "top_of ((gs @ hs) @ hs') \<le> length l" "ok \<longrightarrow> Suc n + length es \<le> top_of ((gs @ hs) @ hs')" "r1 = r\<lparr>rpublished := k\<rparr>"
      using hs(4) True by auto
    then show ?thesis by (intro exI [of _ "hs @ hs'"]) auto
  next
    case False
    then show ?thesis using Cons.prems(5) b hs by (intro exI [of _ hs]) (auto intro: exI [of _ "rpublished r"])
  qed
qed

section \<open>The invariant of the pipeline\<close>

definition checkpoint_rec :: "nat \<Rightarrow> rec" where
  "checkpoint_rec v = \<lparr>rkey = checkpointKey, rval = be64 (of_nat v), rtomb = False\<rparr>"

definition relay_inv :: "('s \<Rightarrow> bool) \<Rightarrow> ('s \<Rightarrow> bytes \<Rightarrow> bytes option) \<Rightarrow> nat \<Rightarrow> 's Relay \<Rightarrow> bool" where
  "relay_inv ok cont published r \<longleftrightarrow> ok (rdb r) \<and> rbatch r = 256 \<and> rcheck r \<le> published
     \<and> (cont (rdb r) checkpointKey = None
        \<or> (\<exists>c < 2 ^ 64. c \<le> published \<and> cont (rdb r) checkpointKey = Some (be64 (of_nat c))))"

definition consumer_inv :: "Event list \<Rightarrow> (Event \<Rightarrow> 'm \<Rightarrow> 'm) \<Rightarrow> 'm \<Rightarrow> nat list \<Rightarrow> 'm dedupe consumer \<Rightarrow> bool" where
  "consumer_inv l f m0 gs c \<longleftrightarrow> cpos c \<le> length gs \<and> cdead c = []
     \<and> top_of (take (cpos c) gs) \<le> lastApplied (chandler c) \<and> lastApplied (chandler c) \<le> top_of gs
     \<and> cmodel (chandler c) = fold f (take (lastApplied (chandler c)) l) m0"

definition pipe_inv :: "('s \<Rightarrow> bool) \<Rightarrow> ('s \<Rightarrow> bytes \<Rightarrow> bytes option) \<Rightarrow> out_json \<Rightarrow> (Event \<Rightarrow> 'm \<Rightarrow> 'm) \<Rightarrow> 'm
    \<Rightarrow> ('s, 'm) pipeline \<Rightarrow> bool" where
  "pipe_inv ok cont J f m0 p \<longleftrightarrow> numbered (olog p) \<and> length (olog p) < 2 ^ 64
     \<and> (\<exists>gs. obus p = bus_of J (olog p) gs \<and> stair gs \<and> top_of gs \<le> length (olog p)
        \<and> relay_inv ok cont (top_of gs) (orelay p) \<and> consumer_inv (olog p) f m0 gs (ocons p))"

text \<open>The tables take the checkpoints a step saves, and the numbers the events it appends.\<close>

fun pipe_room :: "('s \<Rightarrow> rec \<Rightarrow> bool) \<Rightarrow> out_step \<Rightarrow> ('s, 'm) pipeline \<Rightarrow> bool" where
  "pipe_room fits (AppendLog now stream expected events) p \<longleftrightarrow> length (olog p) + length events < 2 ^ 64"
| "pipe_room fits (RelayTurn ans) p \<longleftrightarrow> (\<forall>v \<le> length (olog p). fits (rdb (orelay p)) (checkpoint_rec v))"
| "pipe_room fits a p \<longleftrightarrow> True"

text \<open>A delivery of a message the stream holds.\<close>

lemma deliver_inv:
  assumes "out_roundtrip J" and c: "consumer_inv l f m0 gs c" and gs: "stair gs" "top_of gs \<le> length l" "numbered l"
  shows "consumer_inv l f m0 gs (deliver so (consume_handler J (\<lambda>e m. (f e m, True))) (bus_of J l gs) settled dlq c)
    \<and> (settled \<and> cpos c < length gs \<longrightarrow>
        cpos (deliver so (consume_handler J (\<lambda>e m. (f e m, True))) (bus_of J l gs) settled dlq c) = cpos c + 1)"
proof (cases "cpos c < length gs")
  case True
  let ?g = "gs ! cpos c" and ?n = "lastApplied (chandler c)"
  have ci: "top_of (take (cpos c) gs) \<le> ?n" "?n \<le> top_of gs" "cmodel (chandler c) = fold f (take ?n l) m0" "cdead c = []"
    using c by (simp_all add: consumer_inv_def)
  have g: "1 \<le> ?g" "?g \<le> Suc ?n" "?g \<le> top_of gs"
    using gs(1) True ci(1) top_of_mem [of ?g gs] by (auto simp: stair_def intro: le_trans)
  have glob: "evGlobal (l ! (?g - 1)) = ?g" using gs(2,3) g by (simp add: numbered_def)
  have top: "top_of (take (Suc (cpos c)) gs) = max (top_of (take (cpos c) gs)) ?g" using True by (simp add: take_Suc_conv_app_nth)
  have ev: "ToEvent (envelope e) = e" "envGlobal (envelope e) = evGlobal e" for e by (simp_all add: ToEvent_def envelope_def)
  have m: "bus_of J l gs ! cpos c = pub_msg J (l ! (?g - 1))" "cpos c < length (bus_of J l gs)" using True by (simp_all add: bus_of_def)
  have un: "unenv J (msgData (pub_msg J e)) = Some (envelope e)" for e using assms(1) by (simp add: out_roundtrip_def pub_msg_def)
  show ?thesis
  proof (cases "?g \<le> ?n")
    case True
    then show ?thesis using ci g top m glob un \<open>cpos c < length gs\<close>
      by (simp add: deliver_def consume_handler_def consumer_inv_def sub_callback_def ev Let_def max_def)
  next
    case False
    then have eq: "?g = Suc ?n" using g(2) by simp
    have "?n < length l" using g(3) gs(2) eq by simp
    then have nxt: "fold f (take (Suc ?n) l) m0 = f (l ! ?n) (cmodel (chandler c))" by (simp add: ci(3) take_Suc_conv_app_nth)
    show ?thesis using ci g top m glob un nxt \<open>cpos c < length gs\<close> gs(1) unfolding eq
      by (auto simp: deliver_def consume_handler_def consumer_inv_def sub_callback_def ev Let_def max_def)
  qed
next
  case False
  then show ?thesis using c by (simp add: deliver_def bus_of_def)
qed

context kv
begin

lemma relay_turn_inv:
  assumes r: "relay_inv ok content (top_of gs) r" and gs: "stair gs" "top_of gs \<le> length l" and l: "numbered l" "length l < 2 ^ 64"
    and fit: "\<forall>v \<le> length l. fits (rdb r) (checkpoint_rec v)"
    and t: "relay_turn K J ans (snd (log_call 0 (ReadAllCall (rcheck r + 1) (rbatch r)) l)) r (bus_of J l gs) = (r', bus', nxt)"
  shows "\<exists>hs. bus' = bus_of J l (gs @ hs) \<and> stair (gs @ hs) \<and> top_of (gs @ hs) \<le> length l \<and> relay_inv ok content (top_of (gs @ hs)) r'
    \<and> (nxt = ReadOn \<longrightarrow> rcheck r' = min (rcheck r + 256) (length l)) \<and> (nxt = AwaitSignal \<longrightarrow> rcheck r' = rcheck r \<and> length l \<le> rcheck r)
    \<and> (ans = (\<lambda>_. JsStored) \<longrightarrow> nxt \<noteq> RetryLater)"
proof -
  let ?evs = "take 256 (drop (rcheck r) l)"
  have batch: "snd (log_call 0 (ReadAllCall (rcheck r + 1) (rbatch r)) l) = Inr ?evs" using r by (simp add: relay_inv_def upto_limit_def)
  show ?thesis
  proof (cases "?evs = []")
    case True
    then show ?thesis using t r gs unfolding batch by (intro exI [of _ "[]"]) (auto simp: relay_turn_def)
  next
    case False
    then have n: "rcheck r < length l" by simp
    have whole: "?evs = take (length ?evs) (drop (rcheck r) l)"
      by (cases "256 \<le> length (drop (rcheck r) l)") simp_all
    obtain r1 bus1 ok1 where p: "publish_events J ans ?evs r (bus_of J l gs) = (r1, bus1, ok1)" by (metis prod_cases3)
    obtain hs k where hs: "bus1 = bus_of J l (gs @ hs)" "stair (gs @ hs)" "top_of (gs @ hs) \<le> length l"
      "ok1 \<longrightarrow> rcheck r + length ?evs \<le> top_of (gs @ hs)" "r1 = r\<lparr>rpublished := k\<rparr>"
      using publish_events_stair [OF l(1) gs whole _ p] r unfolding relay_inv_def by blast
    have good: "ok1" if "ans = (\<lambda>_. JsStored)"
    proof -
      have "snd (snd (publish_events J (\<lambda>_. JsStored) es r b))" for es r b
        by (induction es arbitrary: r b) (simp_all add: bus_publish_def js_publish_def)
      then show ?thesis using p that by (metis snd_conv)
    qed
    have top: "top_of gs \<le> top_of (gs @ hs)" by (rule top_of_append)
    have v: "evGlobal (last ?evs) = min (rcheck r + 256) (length l)"
      using n l(1) False by (auto simp: last_conv_nth numbered_def min_def)
    have turn: "relay_turn K J ans (Inr ?evs) r (bus_of J l gs) = (case publishBatch K J ans ?evs r (bus_of J l gs) of
        (r1, bus1, ok) \<Rightarrow> (r1, bus1, if ok then ReadOn else RetryLater))"
      using False by (cases ?evs) (simp_all add: relay_turn_def)
    show ?thesis
    proof (cases ok1)
      case True
      let ?v = "min (rcheck r + 256) (length l)"
      have "?v \<le> length l" by simp
      then obtain s where s: "kput K (rdb r) checkpointKey (be64 (of_nat ?v)) = (None, s)" "ok s" "content s = (content (rdb r))(checkpointKey \<mapsto> be64 (of_nat ?v))"
        using put [of "rdb r" checkpointKey "be64 (of_nat ?v)"] fit r by (auto simp: relay_inv_def checkpoint_rec_def checkpointKey_def string_bytes_def)
      have "publishBatch K J ans ?evs r (bus_of J l gs) = (r1\<lparr>rdb := s, rcheck := ?v\<rparr>, bus1, True)"
        using p True s(1) hs(5) unfolding publishBatch_def saveCheckpoint_def v by (simp add: Let_def)
      then have res: "r' = r1\<lparr>rdb := s, rcheck := ?v\<rparr>" "bus' = bus1" "nxt = ReadOn" using t unfolding batch turn by simp_all
      have "?v \<le> top_of (gs @ hs)" "?v < 2 ^ 64" using hs(4) True n l(2) by (simp_all add: min_def split: if_splits)
      then have "relay_inv ok content (top_of (gs @ hs)) r'"
        using r s hs(5) unfolding relay_inv_def res(1) by (auto intro!: exI [of _ ?v])
      then show ?thesis using hs res good by (intro exI [of _ hs]) simp
    next
      case False
      then have "publishBatch K J ans ?evs r (bus_of J l gs) = (r1, bus1, False)" using p by (simp add: publishBatch_def)
      then have res: "r' = r1" "bus' = bus1" "nxt = RetryLater" using t unfolding batch turn by simp_all
      have "relay_inv ok content (top_of (gs @ hs)) r'" using r hs(5) top unfolding relay_inv_def res(1) by (auto intro: le_trans)
      then show ?thesis using hs res good False by (intro exI [of _ hs]) auto
    qed
  qed
qed

lemma pipeline_step_inv:
  assumes "pipe_inv ok content J f m0 p" "pipe_room fits a p" "out_roundtrip J"
  shows "pipe_inv ok content J f m0 (pipeline_step K J (\<lambda>e m. (f e m, True)) m0 a p)"
proof -
  obtain gs where gs: "obus p = bus_of J (olog p) gs" "stair gs" "top_of gs \<le> length (olog p)"
    "relay_inv ok content (top_of gs) (orelay p)" "consumer_inv (olog p) f m0 gs (ocons p)"
    and l: "numbered (olog p)" "length (olog p) < 2 ^ 64" using assms(1) by (auto simp: pipe_inv_def)
  show ?thesis
  proof (cases a)
    case (AppendLog now stream expected events)
    obtain xs where xs: "fst (log_call now (AppendCall stream expected events) (olog p)) = olog p @ xs" "length xs \<le> length events"
      using log_call_extends [of now "AppendCall stream expected events" "olog p"] by auto
    have "consumer_inv (olog p @ xs) f m0 gs (ocons p)" using gs(3,5) by (simp add: consumer_inv_def)
    then show ?thesis using gs l xs numbered_append [OF l(1), of now stream expected events] bus_of_longer [OF gs(3,2), of J xs] assms(2)
      unfolding pipe_inv_def AppendLog pipeline_step.simps xs(1) by (auto intro!: exI [of _ gs])
  next
    case (RelayTurn ans)
    obtain r bus nxt where t: "relay_turn K J ans (snd (log_call 0 (ReadAllCall (rcheck (orelay p) + 1) (rbatch (orelay p))) (olog p)))
        (orelay p) (obus p) = (r, bus, nxt)" by (metis prod_cases3)
    obtain hs where hs: "bus = bus_of J (olog p) (gs @ hs)" "stair (gs @ hs)" "top_of (gs @ hs) \<le> length (olog p)"
      "relay_inv ok content (top_of (gs @ hs)) r"
      using relay_turn_inv [OF gs(4,2,3) l _ t [unfolded gs(1)]] assms(2) by (auto simp: RelayTurn)
    have "consumer_inv (olog p) f m0 (gs @ hs) (ocons p)" using gs(5) top_of_append [of gs hs] by (auto simp: consumer_inv_def)
    then show ?thesis using hs l unfolding pipe_inv_def RelayTurn pipeline_step.simps t by auto
  next
    case RelayCrash
    have "kget K (rdb (orelay p)) checkpointKey = (case content (rdb (orelay p)) checkpointKey of None \<Rightarrow> Inl ErrNotFound | Some v \<Rightarrow> Inr v)"
      using gs(4) by (intro get) (simp add: relay_inv_def)
    then obtain r where r: "relay_open K (rdb (orelay p)) = Inr r" "relay_inv ok content (top_of gs) r"
      using gs(4) by (cases "content (rdb (orelay p)) checkpointKey")
        (force simp: relay_open_def relay_inv_def Let_def codec_simps)+
    then show ?thesis using gs l unfolding pipe_inv_def RelayCrash pipeline_step.simps by (auto intro!: exI [of _ gs])
  next
    case (Deliver settled dlq)
    show ?thesis using gs l deliver_inv [OF assms(3) gs(5,2,3) l(1)] unfolding pipe_inv_def Deliver pipeline_step.simps
      by (auto intro!: exI [of _ gs])
  next
    case ConsumerCrash
    have "consumer_inv (olog p) f m0 gs (new_consumer \<lparr>lastApplied = 0, cmodel = m0\<rparr>)" by (simp add: consumer_inv_def new_consumer_def)
    then show ?thesis using gs l unfolding pipe_inv_def ConsumerCrash pipeline_step.simps by (auto intro!: exI [of _ gs])
  qed
qed

end

lemma stair_covers: "stair gs \<Longrightarrow> 1 \<le> g \<Longrightarrow> g \<le> top_of gs \<Longrightarrow> g \<in> set gs"
proof (induction gs rule: rev_induct)
  case (snoc x xs)
  then show ?case by (cases "g \<le> top_of xs") (auto simp: stair_snoc)
qed simp

fun pipes_room :: "'s kv_ops \<Rightarrow> out_json \<Rightarrow> (Event \<Rightarrow> 'm \<Rightarrow> 'm \<times> bool) \<Rightarrow> 'm \<Rightarrow> ('s \<Rightarrow> rec \<Rightarrow> bool) \<Rightarrow> out_step list \<Rightarrow> ('s, 'm) pipeline \<Rightarrow> bool" where
  "pipes_room K J app m0 fits [] p \<longleftrightarrow> True"
| "pipes_room K J app m0 fits (a # steps) p \<longleftrightarrow> pipe_room fits a p \<and> pipes_room K J app m0 fits steps (pipeline_step K J app m0 a p)"

lemma pipes_room_append:
  "pipes_room K J app m0 fits (xs @ ys) p \<longleftrightarrow> pipes_room K J app m0 fits xs p \<and> pipes_room K J app m0 fits ys (fold (pipeline_step K J app m0) xs p)"
  by (induction xs arbitrary: p) auto

context kv
begin

lemma pipeline_inv:
  "pipe_inv ok content J f m0 p \<Longrightarrow> out_roundtrip J \<Longrightarrow> pipes_room K J (\<lambda>e m. (f e m, True)) m0 fits steps p
   \<Longrightarrow> pipe_inv ok content J f m0 (fold (pipeline_step K J (\<lambda>e m. (f e m, True)) m0) steps p)"
proof (induction steps arbitrary: p)
  case (Cons a steps)
  then show ?case using pipeline_step_inv [OF Cons.prems(1) _ Cons.prems(2), of a] by simp
qed simp

text \<open>Turns that the bus accepts bring the checkpoint to the end of the log, deliveries that are settled the
  consumer to the end of the stream.\<close>

lemma good_turns:
  "pipe_inv ok content J f m0 p \<Longrightarrow> out_roundtrip J
   \<Longrightarrow> pipes_room K J (\<lambda>e m. (f e m, True)) m0 fits (replicate n (RelayTurn (\<lambda>_. JsStored))) p
   \<Longrightarrow> q = fold (pipeline_step K J (\<lambda>e m. (f e m, True)) m0) (replicate n (RelayTurn (\<lambda>_. JsStored))) p
   \<Longrightarrow> min (rcheck (orelay p) + n) (length (olog p)) \<le> rcheck (orelay q) \<and> olog q = olog p"
proof (induction n arbitrary: p)
  case (Suc n)
  let ?ans = "\<lambda>_ :: nat. JsStored"
  let ?p1 = "pipeline_step K J (\<lambda>e m. (f e m, True)) m0 (RelayTurn ?ans) p"
  obtain gs where gs: "obus p = bus_of J (olog p) gs" "stair gs" "top_of gs \<le> length (olog p)"
    "relay_inv ok content (top_of gs) (orelay p)" "numbered (olog p)" "length (olog p) < 2 ^ 64"
    using Suc.prems(1) by (auto simp: pipe_inv_def)
  obtain r bus nxt where t: "relay_turn K J ?ans (snd (log_call 0 (ReadAllCall (rcheck (orelay p) + 1) (rbatch (orelay p))) (olog p)))
      (orelay p) (obus p) = (r, bus, nxt)" by (metis prod_cases3)
  have room: "pipe_room fits (RelayTurn ?ans) p" "pipes_room K J (\<lambda>e m. (f e m, True)) m0 fits (replicate n (RelayTurn ?ans)) ?p1"
    using Suc.prems(3) by simp_all
  have step: "(nxt = ReadOn \<longrightarrow> rcheck r = min (rcheck (orelay p) + 256) (length (olog p))) \<and> (nxt = AwaitSignal \<longrightarrow> rcheck r = rcheck (orelay p)
      \<and> length (olog p) \<le> rcheck (orelay p)) \<and> nxt \<noteq> RetryLater"
    using relay_turn_inv [OF gs(4,2,3,5,6) _ t [unfolded gs(1)]] room(1) by auto
  have one: "min (rcheck (orelay p) + 1) (length (olog p)) \<le> rcheck r" using step by (cases nxt) auto
  have p1: "olog ?p1 = olog p" "orelay ?p1 = r" unfolding pipeline_step.simps t by simp_all
  have q: "q = fold (pipeline_step K J (\<lambda>e m. (f e m, True)) m0) (replicate n (RelayTurn ?ans)) ?p1" using Suc.prems(4) by simp
  show ?case using Suc.IH [OF pipeline_step_inv [OF Suc.prems(1) room(1) Suc.prems(2)] Suc.prems(2) room(2) q] one unfolding p1 by linarith
qed simp

lemma good_deliveries:
  "pipe_inv ok content J f m0 p \<Longrightarrow> out_roundtrip J
   \<Longrightarrow> q = fold (pipeline_step K J (\<lambda>e m. (f e m, True)) m0) (replicate k (Deliver True dlq)) p
   \<Longrightarrow> min (cpos (ocons p) + k) (length (obus p)) \<le> cpos (ocons q) \<and> olog q = olog p \<and> obus q = obus p \<and> orelay q = orelay p"
proof (induction k arbitrary: p)
  case (Suc k)
  let ?p1 = "pipeline_step K J (\<lambda>e m. (f e m, True)) m0 (Deliver True dlq) p"
  obtain gs where gs: "obus p = bus_of J (olog p) gs" "stair gs" "top_of gs \<le> length (olog p)"
    "consumer_inv (olog p) f m0 gs (ocons p)" "numbered (olog p)" using Suc.prems(1) by (auto simp: pipe_inv_def)
  have p1: "olog ?p1 = olog p" "obus ?p1 = obus p" "orelay ?p1 = orelay p" by simp_all
  have c: "min (cpos (ocons p) + 1) (length (obus p)) \<le> cpos (ocons ?p1)"
    using deliver_inv [OF Suc.prems(2) gs(4,2,3,5), of "consume_options ''c''" True dlq] gs(1)
    by (cases "cpos (ocons p) < length gs") (auto simp: deliver_def bus_of_def consumer_inv_def)
  have q: "q = fold (pipeline_step K J (\<lambda>e m. (f e m, True)) m0) (replicate k (Deliver True dlq)) ?p1" using Suc.prems(3) by simp
  have "min (cpos (ocons ?p1) + k) (length (obus p)) \<le> cpos (ocons q) \<and> olog q = olog p \<and> obus q = obus p \<and> orelay q = orelay p"
    using Suc.IH [OF pipeline_step_inv [OF Suc.prems(1) _ Suc.prems(2)] Suc.prems(2) q] unfolding p1 by simp
  then show ?case using c by linarith
qed simp

end

section \<open>The pipeline on the database\<close>

definition new_pipeline :: "'s Relay \<Rightarrow> 'm \<Rightarrow> ('s, 'm) pipeline" where
  "new_pipeline r m0 = \<lparr>olog = [], obus = [], orelay = r, ocons = new_consumer \<lparr>lastApplied = 0, cmodel = m0\<rparr>\<rparr>"

lemma new_pipeline_inv:
  assumes "db_live s" "db_abs s checkpointKey = None" "relay_open (db_ops rnd) s = Inr r"
  shows "pipe_inv db_live db_abs J f m0 (new_pipeline r m0)"
proof -
  have "kget (db_ops rnd) s checkpointKey = Inl ErrNotFound" using db.get [OF assms(1), of rnd checkpointKey] assms(2) by simp
  then have "r = \<lparr>rdb = s, rbatch = 256, rcheck = 0, rpublished = 0\<rparr>" using assms(3) by (simp add: relay_open_def)
  then show ?thesis using assms(1,2)
    by (auto simp: pipe_inv_def new_pipeline_def numbered_def bus_of_def stair_def relay_inv_def consumer_inv_def new_consumer_def
        intro!: exI [of _ "[]"])
qed

text \<open>\<^bold>\<open>C6\<close> Nothing is published or applied but the log, in order and without gaps: whatever is appended,
  wherever relay and consumer crash, whichever publishings fail, arrive twice or are taken for duplicates
  and however often deliveries repeat, the consumer has applied each of the first events of the log exactly
  once in their order, every event up to the relay's checkpoint is on the bus, and nothing is a dead letter.\<close>

theorem outbox_exactly_once:
  assumes "db_live s" "db_abs s checkpointKey = None" "relay_open (db_ops rnd) s = Inr r" "out_roundtrip J"
    and "pipes_room (db_ops rnd) J (\<lambda>e m. (f e m, True)) m0 write_room steps (new_pipeline r m0)"
    and "p = fold (pipeline_step (db_ops rnd) J (\<lambda>e m. (f e m, True)) m0) steps (new_pipeline r m0)"
  shows "lastApplied (chandler (ocons p)) \<le> length (olog p)
    \<and> cmodel (chandler (ocons p)) = fold f (take (lastApplied (chandler (ocons p))) (olog p)) m0
    \<and> (\<forall>i < rcheck (orelay p). pub_msg J (olog p ! i) \<in> set (obus p))
    \<and> set (obus p) \<subseteq> pub_msg J ` set (olog p) \<and> cdead (ocons p) = []"
proof -
  have "pipe_inv db_live db_abs J f m0 p"
    unfolding assms(6) by (rule db.pipeline_inv [OF new_pipeline_inv [OF assms(1-3)] assms(4,5)])
  then obtain gs where gs: "obus p = bus_of J (olog p) gs" "stair gs" "top_of gs \<le> length (olog p)"
    "relay_inv db_live db_abs (top_of gs) (orelay p)" "consumer_inv (olog p) f m0 gs (ocons p)" by (auto simp: pipe_inv_def)
  have "pub_msg J (olog p ! i) \<in> set (obus p)" if "i < rcheck (orelay p)" for i
  proof -
    have "Suc i \<in> set gs" using stair_covers [OF gs(2), of "Suc i"] that gs(4) by (simp add: relay_inv_def)
    then show ?thesis unfolding gs(1) bus_of_def by force
  qed
  moreover have "set (obus p) \<subseteq> pub_msg J ` set (olog p)"
  proof -
    have "olog p ! (g - 1) \<in> set (olog p)" if "g \<in> set gs" for g
    proof (rule nth_mem)
      have "1 \<le> g" using gs(2) that by (auto simp: stair_def in_set_conv_nth)
      then show "g - 1 < length (olog p)" using top_of_mem [OF that] gs(3) by simp
    qed
    then show ?thesis unfolding gs(1) bus_of_def by auto
  qed
  ultimately show ?thesis using gs(3,5) by (auto simp: consumer_inv_def)
qed

text \<open>\<^bold>\<open>C21\<close> The read side catches up: after any such history, as many turns of the relay that the bus accepts
  as the log has events, and then as many settled deliveries as the bus has messages, bring the checkpoint
  to the end of the log and the read model to the fold of all of it.\<close>

theorem outbox_catches_up:
  assumes "db_live s" "db_abs s checkpointKey = None" "relay_open (db_ops rnd) s = Inr r" "out_roundtrip J"
    and "p = fold (pipeline_step (db_ops rnd) J (\<lambda>e m. (f e m, True)) m0) steps (new_pipeline r m0)"
    and "q = fold (pipeline_step (db_ops rnd) J (\<lambda>e m. (f e m, True)) m0) (replicate (length (olog p)) (RelayTurn (\<lambda>_. JsStored))) p"
    and "pipes_room (db_ops rnd) J (\<lambda>e m. (f e m, True)) m0 write_room (steps @ replicate (length (olog p)) (RelayTurn (\<lambda>_. JsStored))) (new_pipeline r m0)"
    and "w = fold (pipeline_step (db_ops rnd) J (\<lambda>e m. (f e m, True)) m0) (replicate (length (obus q)) (Deliver True dlq)) q"
  shows "caught_up (orelay w) (length (olog w)) \<and> olog w = olog p \<and> cmodel (chandler (ocons w)) = fold f (olog p) m0"
proof -
  let ?step = "pipeline_step (db_ops rnd) J (\<lambda>e m. (f e m, True)) m0"
  note room = assms(7) [unfolded pipes_room_append, folded assms(5)]
  have ip: "pipe_inv db_live db_abs J f m0 p"
    unfolding assms(5) by (rule db.pipeline_inv [OF new_pipeline_inv [OF assms(1-3)] assms(4)]) (use room in simp)
  have q: "length (olog p) \<le> rcheck (orelay q)" "olog q = olog p"
    using db.good_turns [OF ip assms(4) _ assms(6)] room by simp_all
  have iq: "pipe_inv db_live db_abs J f m0 q" unfolding assms(6) by (rule db.pipeline_inv [OF ip assms(4)]) (use room in simp)
  have w: "length (obus q) \<le> cpos (ocons w)" "olog w = olog p" "obus w = obus q" "orelay w = orelay q"
    using db.good_deliveries [OF iq assms(4,8)] q(2) by simp_all
  have "pipes_room (db_ops rnd) J (\<lambda>e m. (f e m, True)) m0 write_room (replicate n (Deliver True dlq)) x" for n and x :: "(db, 'a) pipeline"
    by (induction n arbitrary: x) simp_all
  from db.pipeline_inv [OF iq assms(4) this] have iw: "pipe_inv db_live db_abs J f m0 w" unfolding assms(8) by simp
  then obtain gs where gs: "obus w = bus_of J (olog w) gs" "top_of gs \<le> length (olog w)"
    "relay_inv db_live db_abs (top_of gs) (orelay w)" "consumer_inv (olog w) f m0 gs (ocons w)" by (auto simp: pipe_inv_def)
  have "length (olog p) \<le> top_of gs" using q(1) w(4) gs(3) by (simp add: relay_inv_def)
  moreover have "length (obus q) = length gs" unfolding w(3) [symmetric] gs(1) bus_of_def by simp
  then have "cpos (ocons w) = length gs" using w(1) gs(4) by (simp add: consumer_inv_def)
  ultimately have "lastApplied (chandler (ocons w)) = length (olog p)" using gs(2,4) w(2) by (simp add: consumer_inv_def)
  then show ?thesis using gs(4) w q(1) by (simp add: consumer_inv_def caught_up_def)
qed

definition plain_out :: out_json where
  "plain_out = \<lparr>jenv = (\<lambda>e. enc_nat (envGlobal e) @ enc_string (envStream e) @ enc_nat (envSeq e) @ enc_string (envType e)
       @ enc_bytes (envData e) @ enc_int (envAt e)),
     unenv = (\<lambda>r. case dec_nat r of (g, r) \<Rightarrow> case dec_string r of (s, r) \<Rightarrow> case dec_nat r of (q, r) \<Rightarrow> case dec_string r of (t, r) \<Rightarrow>
       case dec_bytes r of (d, r) \<Rightarrow> case dec_int r of (a, r) \<Rightarrow>
       Some \<lparr>envGlobal = g, envStream = s, envSeq = q, envType = t, envData = d, envAt = a\<rparr>)\<rparr>"

lemma plain_out_roundtrip: "out_roundtrip plain_out"
  by (simp add: out_roundtrip_def plain_out_def codec_simps)

lemma fresh_relay:
  obtains r where "db_live fresh_db" "db_abs fresh_db checkpointKey = None" "relay_open (db_ops (\<lambda>_. 1)) fresh_db = Inr r"
    "r = \<lparr>rdb = fresh_db, rbatch = 256, rcheck = 0, rpublished = 0\<rparr>"
    "\<And>v. v \<le> 1 \<Longrightarrow> write_room fresh_db (checkpoint_rec v)"
proof -
  have l: "db_live fresh_db" by (simp add: db_live_def db_ok_def fresh_db_def newMemtable_ok)
  have e: "db_abs fresh_db = Map.empty"
    by (rule ext) (simp add: db_abs_def layers_def fresh_db_def newMemtable_ok live_val_def)
  have "kget (db_ops (\<lambda>_. 1)) fresh_db checkpointKey = Inl ErrNotFound" using db.get [OF l, of "\<lambda>_. 1" checkpointKey] e by simp
  then have r: "relay_open (db_ops (\<lambda>_. 1)) fresh_db = Inr \<lparr>rdb = fresh_db, rbatch = 256, rcheck = 0, rpublished = 0\<rparr>"
    by (simp add: relay_open_def)
  have t: "table_fits [checkpoint_rec v] 10" if "v = 0 \<or> v = 1" for v
    using that by (auto simp: table_fits_def rec_fits_def bloom_nbits_def sparse_def index_bytes_def wal_bytes_def checkpoint_rec_def
        checkpointKey_def string_bytes_def be64_def encodeRec_def payload_of_def put_uvarint.simps Let_def)
  have w: "write_room fresh_db (checkpoint_rec v)" if "v \<le> 1" for v
    using t [of v] that by (simp add: write_room_def room_def fresh_db_def newMemtable_ok live_records_def merged_def rupsert_def
        withDefaults_def zero_opts_def checkpoint_rec_def le_Suc_eq)
  show ?thesis by (rule that [OF l _ r refl w]) (simp_all add: e)
qed

definition count_events :: "Event \<Rightarrow> nat \<Rightarrow> nat" where
  "count_events e n = n + evSeq e"

definition said :: "EventData list" where
  "said = [\<lparr>edType = ''t'', edData = []\<rparr>]"

text \<open>The answer to the first publishing is lost, the relay crashes and publishes again; the consumer applies
  the event once.\<close>

theorem outbox_exactly_once_witness:
  "\<exists>p :: (db, nat) pipeline. length (obus p) = 2 \<and> cpos (ocons p) = 2 \<and> cmodel (chandler (ocons p)) = 1"
proof -
  obtain r where r: "db_live fresh_db" "db_abs fresh_db checkpointKey = None" "relay_open (db_ops (\<lambda>_. 1)) fresh_db = Inr r"
    "r = \<lparr>rdb = fresh_db, rbatch = 256, rcheck = 0, rpublished = 0\<rparr>" "\<And>v. v \<le> 1 \<Longrightarrow> write_room fresh_db (checkpoint_rec v)"
    by (rule fresh_relay) (rule that)
  let ?steps = "[AppendLog 0 ''s'' (- 1) said, RelayTurn (\<lambda>_. JsAckLost), RelayCrash, RelayTurn (\<lambda>_. JsStored), Deliver True JsStored, Deliver True JsStored]"
  let ?step = "pipeline_step (db_ops (\<lambda>_. 1)) plain_out (\<lambda>e m. (count_events e m, True)) 0"
  let ?e = "\<lparr>evGlobal = 1, evStream = ''s'', evSeq = 1, evType = ''t'', evData = [], evAt = 0\<rparr>"
  obtain s where s: "kput (db_ops (\<lambda>_. 1)) fresh_db checkpointKey (be64 (of_nat 1)) = (None, s)"
    using db.put [OF r(1), of checkpointKey "be64 (of_nat 1)" "\<lambda>_. 1"] r(5) [of 1]
    by (auto simp: checkpoint_rec_def checkpointKey_def string_bytes_def)
  have st: "stamp 0 ''s'' said [] = [?e]" by (simp add: said_def stamp_one)
  let ?p1 = "(new_pipeline r 0)\<lparr>olog := [?e]\<rparr> :: (db, nat) pipeline"
  have 1: "?step (AppendLog 0 ''s'' (- 1) said) (new_pipeline r 0) = ?p1" by (simp add: new_pipeline_def st) (simp add: said_def)
  let ?p2 = "?p1\<lparr>obus := [pub_msg plain_out ?e]\<rparr>"
  have 2: "?step (RelayTurn (\<lambda>_. JsAckLost)) ?p1 = ?p2"
    by (simp add: new_pipeline_def r(4) relay_turn_def upto_limit_def publishBatch_def bus_publish_def js_publish_def pub_msg_def)
  have 3: "?step RelayCrash ?p2 = ?p2" using r(3,4) by (simp add: new_pipeline_def)
  let ?p4 = "?p2\<lparr>obus := [pub_msg plain_out ?e, pub_msg plain_out ?e],
    orelay := \<lparr>rdb = s, rbatch = 256, rcheck = 1, rpublished = 1\<rparr>\<rparr>"
  have 4: "?step (RelayTurn (\<lambda>_. JsStored)) ?p2 = ?p4"
    using s by (simp add: new_pipeline_def r(4) relay_turn_def upto_limit_def publishBatch_def bus_publish_def js_publish_def pub_msg_def
        saveCheckpoint_def Let_def)
  have room: "pipes_room (db_ops (\<lambda>_. 1)) plain_out (\<lambda>e m. (count_events e m, True)) 0 write_room ?steps (new_pipeline r 0)"
    unfolding pipes_room.simps 1 2 3 4 using r(5) by (simp add: new_pipeline_def r(4) said_def)
  define p where "p = fold ?step ?steps (new_pipeline r 0)"
  have p: "p = ?step (Deliver True JsStored) (?step (Deliver True JsStored) ?p4)"
    unfolding p_def fold_simps comp_apply 1 2 3 4 by simp
  have b: "olog p = [?e]" "obus p = [pub_msg plain_out ?e, pub_msg plain_out ?e]" unfolding p by simp_all
  have ev: "unenv plain_out (msgData (pub_msg plain_out e)) = Some (envelope e)" for e
    using plain_out_roundtrip by (simp add: out_roundtrip_def pub_msg_def)
  have c: "cpos (ocons p) = 2 \<and> lastApplied (chandler (ocons p)) = 1"
    unfolding p by (simp add: new_pipeline_def new_consumer_def deliver_def consume_handler_def ev sub_callback_def envelope_def ToEvent_def Let_def)
  have "cmodel (chandler (ocons p)) = fold count_events (take (lastApplied (chandler (ocons p))) (olog p)) 0"
    using outbox_exactly_once [OF r(1-3) plain_out_roundtrip room p_def] by blast
  then show ?thesis using b c by (intro exI [of _ p]) (simp add: count_events_def)
qed

theorem outbox_catches_up_witness:
  "\<exists>w :: (db, nat) pipeline. cmodel (chandler (ocons w)) = 1 \<and> caught_up (orelay w) 1"
proof -
  obtain r where r: "db_live fresh_db" "db_abs fresh_db checkpointKey = None" "relay_open (db_ops (\<lambda>_. 1)) fresh_db = Inr r"
    "r = \<lparr>rdb = fresh_db, rbatch = 256, rcheck = 0, rpublished = 0\<rparr>" "\<And>v. v \<le> 1 \<Longrightarrow> write_room fresh_db (checkpoint_rec v)"
    by (rule fresh_relay) (rule that)
  let ?step = "pipeline_step (db_ops (\<lambda>_. 1)) plain_out (\<lambda>e m. (count_events e m, True)) 0"
  let ?e = "\<lparr>evGlobal = 1, evStream = ''s'', evSeq = 1, evType = ''t'', evData = [], evAt = 0\<rparr>"
  define p where "p = fold ?step [AppendLog 0 ''s'' (- 1) said] (new_pipeline r 0)"
  have p: "p = (new_pipeline r 0)\<lparr>olog := [?e]\<rparr>" by (simp add: p_def new_pipeline_def said_def stamp_one)
  then have l: "length (olog p) = 1" by simp
  have "pipes_room (db_ops (\<lambda>_. 1)) plain_out (\<lambda>e m. (count_events e m, True)) 0 write_room
      ([AppendLog 0 ''s'' (- 1) said] @ replicate (length (olog p)) (RelayTurn (\<lambda>_. JsStored))) (new_pipeline r 0)"
    using r(5) unfolding pipes_room_append p_def [symmetric] l by (simp add: p new_pipeline_def said_def r(4))
  from outbox_catches_up [OF r(1-3) plain_out_roundtrip p_def refl this refl, of JsStored] obtain w :: "(db, nat) pipeline" where
    "caught_up (orelay w) (length (olog w))" "olog w = olog p" "cmodel (chandler (ocons w)) = fold count_events (olog p) 0" by blast
  then show ?thesis using l by (intro exI [of _ w]) (simp add: p count_events_def)
qed

end
