(* ===== verification/Trade.thy ===== *)
theory Trade
  imports Inventory
begin

text \<open>
  The marketplace (\<open>services/trade\<close>): a trade of two players as a saga over the event store, coordinated
  in two styles: the orchestrator drives all steps in one program, the choreographer reacts to the
  trade's own events. Both use the inventory's commands as steps and compensate by releasing what was
  reserved.
\<close>

section \<open>Trades (\<open>trade.go\<close>)\<close>

record Item =
  itKind :: string
  itAmount :: int

record Offer =
  oID :: string
  oProposer :: string
  oCounterparty :: string
  oGive :: Item
  oWant :: Item

definition EventProposed :: string where "EventProposed = ''TradeProposed''"
definition EventProposerReserved :: string where "EventProposerReserved = ''TradeProposerReserved''"
definition EventAccepted :: string where "EventAccepted = ''TradeAccepted''"
definition EventRejected :: string where "EventRejected = ''TradeRejected''"
definition EventExpired :: string where "EventExpired = ''TradeExpired''"
definition EventCounterpartyReserved :: string where "EventCounterpartyReserved = ''TradeCounterpartyReserved''"
definition EventSettled :: string where "EventSettled = ''TradeSettled''"
definition EventCancelled :: string where "EventCancelled = ''TradeCancelled''"

lemmas trade_types = EventProposed_def EventProposerReserved_def EventAccepted_def EventRejected_def EventExpired_def
  EventCounterpartyReserved_def EventSettled_def EventCancelled_def

definition trade_stream :: "string \<Rightarrow> string" where
  "trade_stream tid = ''trade-'' @ tid"

datatype Phase = PhaseNone | PhaseProposed | PhaseProposerReserved | PhaseCounterpartyReserved | PhaseSettled | PhaseCancelled

definition Terminal :: "Phase \<Rightarrow> bool" where
  "Terminal p \<longleftrightarrow> p = PhaseSettled \<or> p = PhaseCancelled"

fun phase_string :: "Phase \<Rightarrow> string" where
  "phase_string PhaseProposed = ''proposed''"
| "phase_string PhaseProposerReserved = ''proposer-reserved''"
| "phase_string PhaseCounterpartyReserved = ''counterparty-reserved''"
| "phase_string PhaseSettled = ''settled''"
| "phase_string PhaseCancelled = ''cancelled''"
| "phase_string PhaseNone = ''none''"

record TState =
  stOffer :: Offer
  stPhase :: Phase
  stReason :: string

definition no_item :: Item where
  "no_item = \<lparr>itKind = [], itAmount = 0\<rparr>"

definition no_state :: TState where
  "no_state = \<lparr>stOffer = \<lparr>oID = [], oProposer = [], oCounterparty = [], oGive = no_item, oWant = no_item\<rparr>,
     stPhase = PhaseNone, stReason = []\<rparr>"

text \<open>JSON and the texts of errors, parameters. \<open>unoffer\<close> decodes into an offer that is there already.\<close>

record trade_json =
  joffer :: "Offer \<Rightarrow> bytes"
  unoffer :: "bytes \<Rightarrow> Offer \<Rightarrow> Offer"
  jreason :: "string \<Rightarrow> bytes"
  unreason :: "bytes \<Rightarrow> string option"
  err_text :: "inv_err \<Rightarrow> string"

definition trade_roundtrip :: "trade_json \<Rightarrow> bool" where
  "trade_roundtrip T \<longleftrightarrow> (\<forall>x y. unoffer T (joffer T x) y = x) \<and> (\<forall>s. unreason T (jreason T s) = Some s)"

definition trade_apply :: "trade_json \<Rightarrow> Event \<Rightarrow> TState \<Rightarrow> TState" where
  "trade_apply T e st =
     (if evType e = EventProposed then st\<lparr>stOffer := unoffer T (evData e) (stOffer st), stPhase := PhaseProposed\<rparr>
      else if evType e = EventProposerReserved then st\<lparr>stPhase := PhaseProposerReserved\<rparr>
      else if evType e = EventCounterpartyReserved then st\<lparr>stPhase := PhaseCounterpartyReserved\<rparr>
      else if evType e = EventSettled then st\<lparr>stPhase := PhaseSettled\<rparr>
      else if evType e = EventCancelled then
        (let st1 = st\<lparr>stPhase := PhaseCancelled\<rparr> in
         case unreason T (evData e) of Some r \<Rightarrow> st1\<lparr>stReason := r\<rparr> | None \<Rightarrow> st1)
      else st)"

definition trade_fold :: "trade_json \<Rightarrow> Event list \<Rightarrow> TState" where
  "trade_fold T events = fold (trade_apply T) events no_state"

definition Status :: "trade_json \<Rightarrow> string \<Rightarrow> (es_err + TState) prog" where
  "Status T tradeID = Call (ReadCall (trade_stream tradeID) 0 0) (\<lambda>r. case r of
     Inl e \<Rightarrow> Return (Inl e) | Inr evs \<Rightarrow> Return (Inr (trade_fold T evs)))"

section \<open>The steps (\<open>steps.go\<close>)\<close>

definition reserveProposer :: "inv_json \<Rightarrow> Offer \<Rightarrow> inv_err option prog" where
  "reserveProposer J x = Reserve J (oProposer x) (oID x) (itKind (oGive x)) (itAmount (oGive x))"

definition reserveCounterparty :: "inv_json \<Rightarrow> Offer \<Rightarrow> inv_err option prog" where
  "reserveCounterparty J x = Reserve J (oCounterparty x) (oID x) (itKind (oWant x)) (itAmount (oWant x))"

text \<open>One step after another while they succeed.\<close>

fun all_of :: "inv_err option prog list \<Rightarrow> inv_err option prog" where
  "all_of [] = Return None"
| "all_of (p # ps) = bind_prog p (\<lambda>r. case r of Some e \<Rightarrow> Return (Some e) | None \<Rightarrow> all_of ps)"

definition crossTransfer :: "inv_json \<Rightarrow> Offer \<Rightarrow> inv_err option prog" where
  "crossTransfer J x = all_of
     [Commit J (oProposer x) (oID x) (itKind (oGive x)) (itAmount (oGive x)),
      Receive J (oCounterparty x) (oID x) (itKind (oGive x)) (itAmount (oGive x)),
      Commit J (oCounterparty x) (oID x) (itKind (oWant x)) (itAmount (oWant x)),
      Receive J (oProposer x) (oID x) (itKind (oWant x)) (itAmount (oWant x))]"

definition releaseProposer :: "inv_json \<Rightarrow> Offer \<Rightarrow> inv_err option prog" where
  "releaseProposer J x = Release J (oProposer x) (oID x) (itKind (oGive x)) (itAmount (oGive x))"

definition releaseCounterparty :: "inv_json \<Rightarrow> Offer \<Rightarrow> inv_err option prog" where
  "releaseCounterparty J x = Release J (oCounterparty x) (oID x) (itKind (oWant x)) (itAmount (oWant x))"

definition append_trade :: "string \<Rightarrow> string \<Rightarrow> bytes \<Rightarrow> es_err option prog" where
  "append_trade tradeID ty d = Call (AppendCall (trade_stream tradeID) (- 1) [\<lparr>edType = ty, edData = d\<rparr>])
     (\<lambda>r. case r of Inl e \<Rightarrow> Return (Some e) | Inr _ \<Rightarrow> Return None)"

definition appendPhase :: "string \<Rightarrow> string \<Rightarrow> es_err option prog" where
  "appendPhase tradeID ty = append_trade tradeID ty []"

definition appendProposed :: "trade_json \<Rightarrow> Offer \<Rightarrow> es_err option prog" where
  "appendProposed T x = append_trade (oID x) EventProposed (joffer T x)"

definition appendCancelled :: "trade_json \<Rightarrow> string \<Rightarrow> string \<Rightarrow> es_err option prog" where
  "appendCancelled T tradeID reason = append_trade tradeID EventCancelled (jreason T reason)"

section \<open>Orchestration (\<open>orchestrator.go\<close>)\<close>

datatype Decision = Accept | Reject | Timeout

definition AutoAccept :: "Offer \<Rightarrow> string + Decision" where
  "AutoAccept x = Inr Accept"

definition saga_cancel :: "trade_json \<Rightarrow> Offer \<Rightarrow> string \<Rightarrow> (es_err + TState) prog" where
  "saga_cancel T x reason = bind_prog (appendCancelled T (oID x) reason) (\<lambda>r. case r of
     Some e \<Rightarrow> Return (Inl e)
   | None \<Rightarrow> Return (Inr \<lparr>stOffer = x, stPhase = PhaseCancelled, stReason = reason\<rparr>))"

text \<open>After a step of the saga's own stream: go on, or return its error.\<close>

definition or_fail :: "es_err option prog \<Rightarrow> (es_err + TState) prog \<Rightarrow> (es_err + TState) prog" where
  "or_fail p q = bind_prog p (\<lambda>r. case r of Some e \<Rightarrow> Return (Inl e) | None \<Rightarrow> q)"

text \<open>The decider's answer may be an error of its own (\<open>Inl\<close>).\<close>

definition settle_step :: "inv_json \<Rightarrow> trade_json \<Rightarrow> (Offer \<Rightarrow> inv_err option prog) \<Rightarrow> Offer \<Rightarrow> (es_err + TState) prog" where
  "settle_step J T settle x = bind_prog (settle x) (\<lambda>r. case r of
     Some e \<Rightarrow> bind_prog (releaseProposer J x) (\<lambda>_. bind_prog (releaseCounterparty J x)
       (\<lambda>_. saga_cancel T x (''settle: '' @ err_text T e)))
   | None \<Rightarrow> or_fail (appendPhase (oID x) EventSettled) (Return (Inr \<lparr>stOffer = x, stPhase = PhaseSettled, stReason = []\<rparr>)))"

definition accept_step :: "inv_json \<Rightarrow> trade_json \<Rightarrow> (Offer \<Rightarrow> inv_err option prog) \<Rightarrow> Offer \<Rightarrow> (es_err + TState) prog" where
  "accept_step J T settle x = bind_prog (reserveCounterparty J x) (\<lambda>r. case r of
     Some e \<Rightarrow> bind_prog (releaseProposer J x) (\<lambda>_. saga_cancel T x (''counterparty reserve: '' @ err_text T e))
   | None \<Rightarrow> or_fail (appendPhase (oID x) EventCounterpartyReserved) (settle_step J T settle x))"

definition decide_step :: "inv_json \<Rightarrow> trade_json \<Rightarrow> (Offer \<Rightarrow> inv_err option prog) \<Rightarrow> (Offer \<Rightarrow> string + Decision) \<Rightarrow> Offer
    \<Rightarrow> (es_err + TState) prog" where
  "decide_step J T settle decide x = (case decide x of
     Inl err \<Rightarrow> bind_prog (releaseProposer J x) (\<lambda>_. saga_cancel T x (''decider error: '' @ err))
   | Inr Reject \<Rightarrow> bind_prog (releaseProposer J x) (\<lambda>_. saga_cancel T x ''rejected by counterparty'')
   | Inr Timeout \<Rightarrow> bind_prog (releaseProposer J x) (\<lambda>_. saga_cancel T x ''timed out awaiting counterparty'')
   | Inr Accept \<Rightarrow> accept_step J T settle x)"

definition Execute :: "inv_json \<Rightarrow> trade_json \<Rightarrow> (Offer \<Rightarrow> inv_err option prog) \<Rightarrow> (Offer \<Rightarrow> string + Decision) \<Rightarrow> Offer
    \<Rightarrow> (es_err + TState) prog" where
  "Execute J T settle decide x = or_fail (appendProposed T x)
     (bind_prog (reserveProposer J x) (\<lambda>r. case r of
        Some e \<Rightarrow> saga_cancel T x (''proposer reserve: '' @ err_text T e)
      | None \<Rightarrow> or_fail (appendPhase (oID x) EventProposerReserved) (decide_step J T settle decide x)))"

section \<open>Choreography (\<open>choreographer.go\<close>)\<close>

definition then_unit :: "'a prog \<Rightarrow> unit prog \<Rightarrow> unit prog" where
  "then_unit p q = bind_prog p (\<lambda>_. q)"

text \<open>A reading that fails is logged and answers the zero state.\<close>

definition trade_state :: "trade_json \<Rightarrow> string \<Rightarrow> TState prog" where
  "trade_state T tid = bind_prog (Status T tid) (\<lambda>r. case r of Inl e \<Rightarrow> Return no_state | Inr st \<Rightarrow> Return st)"

definition onProposed :: "inv_json \<Rightarrow> trade_json \<Rightarrow> string \<Rightarrow> unit prog" where
  "onProposed J T tid = bind_prog (trade_state T tid) (\<lambda>st.
     if stPhase st \<noteq> PhaseProposed then Return ()
     else bind_prog (reserveProposer J (stOffer st)) (\<lambda>r. case r of
        Some e \<Rightarrow> then_unit (appendCancelled T tid (''proposer reserve: '' @ err_text T e)) (Return ())
      | None \<Rightarrow> then_unit (appendPhase tid EventProposerReserved) (Return ())))"

definition onAccepted :: "inv_json \<Rightarrow> trade_json \<Rightarrow> string \<Rightarrow> unit prog" where
  "onAccepted J T tid = bind_prog (trade_state T tid) (\<lambda>st.
     if stPhase st \<noteq> PhaseProposerReserved then Return ()
     else bind_prog (reserveCounterparty J (stOffer st)) (\<lambda>r. case r of
        Some e \<Rightarrow> then_unit (releaseProposer J (stOffer st))
          (then_unit (appendCancelled T tid (''counterparty reserve: '' @ err_text T e)) (Return ()))
      | None \<Rightarrow> then_unit (appendPhase tid EventCounterpartyReserved) (Return ())))"

definition onCounterpartyReserved :: "inv_json \<Rightarrow> trade_json \<Rightarrow> (Offer \<Rightarrow> inv_err option prog) \<Rightarrow> string \<Rightarrow> unit prog" where
  "onCounterpartyReserved J T settle tid = bind_prog (trade_state T tid) (\<lambda>st.
     if stPhase st \<noteq> PhaseCounterpartyReserved then Return ()
     else bind_prog (settle (stOffer st)) (\<lambda>r. case r of
        Some e \<Rightarrow> then_unit (releaseProposer J (stOffer st)) (then_unit (releaseCounterparty J (stOffer st))
          (then_unit (appendCancelled T tid (''settle: '' @ err_text T e)) (Return ())))
      | None \<Rightarrow> then_unit (appendPhase tid EventSettled) (Return ())))"

definition onAbort :: "inv_json \<Rightarrow> trade_json \<Rightarrow> string \<Rightarrow> string \<Rightarrow> unit prog" where
  "onAbort J T tid cause = bind_prog (trade_state T tid) (\<lambda>st.
     if stPhase st \<noteq> PhaseProposerReserved then Return ()
     else then_unit (releaseProposer J (stOffer st))
       (then_unit (appendCancelled T tid
          (if cause = EventExpired then ''timed out awaiting counterparty'' else ''rejected by counterparty'')) (Return ())))"

definition choreo_react :: "inv_json \<Rightarrow> trade_json \<Rightarrow> (Offer \<Rightarrow> inv_err option prog) \<Rightarrow> Event \<Rightarrow> unit prog" where
  "choreo_react J T settle e =
     (if take 6 (evStream e) \<noteq> ''trade-'' then Return ()
      else let tid = drop 6 (evStream e) in
        if evType e = EventProposed then onProposed J T tid
        else if evType e = EventAccepted then onAccepted J T tid
        else if evType e = EventCounterpartyReserved then onCounterpartyReserved J T settle tid
        else if evType e \<in> {EventRejected, EventExpired} then onAbort J T tid (evType e)
        else Return ())"

fun choreo_apply :: "inv_json \<Rightarrow> trade_json \<Rightarrow> (Offer \<Rightarrow> inv_err option prog) \<Rightarrow> Event list \<Rightarrow> unit prog" where
  "choreo_apply J T settle [] = Return ()"
| "choreo_apply J T settle (e # es) = bind_prog (choreo_react J T settle e) (\<lambda>_. choreo_apply J T settle es)"

text \<open>The rounds of \<open>es.Project\<close> from a checkpoint, each with up to 256 events; the fuel bounds the rounds.\<close>

fun choreographer :: "nat \<Rightarrow> inv_json \<Rightarrow> trade_json \<Rightarrow> (Offer \<Rightarrow> inv_err option prog) \<Rightarrow> nat \<Rightarrow> nat option prog" where
  "choreographer 0 J T settle checkpoint = Return None"
| "choreographer (Suc n) J T settle checkpoint = Call (ReadAllCall (checkpoint + 1) 256) (\<lambda>r.
     let evs = (case r of Inl e \<Rightarrow> [] | Inr evs \<Rightarrow> evs) in
     if evs = [] then Return (Some checkpoint)
     else bind_prog (choreo_apply J T settle evs) (\<lambda>_. choreographer n J T settle (evGlobal (last evs))))"

definition Propose :: "trade_json \<Rightarrow> Offer \<Rightarrow> es_err option prog" where
  "Propose T x = appendProposed T x"

definition choreo_Accept :: "string \<Rightarrow> es_err option prog" where
  "choreo_Accept tradeID = appendPhase tradeID EventAccepted"

definition choreo_Reject :: "string \<Rightarrow> es_err option prog" where
  "choreo_Reject tradeID = appendPhase tradeID EventRejected"

definition choreo_Expire :: "string \<Rightarrow> es_err option prog" where
  "choreo_Expire tradeID = appendPhase tradeID EventExpired"

section \<open>Orchestrated trades are atomic\<close>

text \<open>What others leave alone: the events of the trade.\<close>

definition state_of :: "trade_json \<Rightarrow> string \<Rightarrow> Event list \<Rightarrow> Offer \<times> Phase" where
  "state_of T t l = (let st = trade_fold T (of_stream (trade_stream t) l) in (stOffer st, stPhase st))"

definition leave :: "inv_json \<Rightarrow> trade_json \<Rightarrow> string \<Rightarrow> Event list \<Rightarrow> Event list \<Rightarrow> bool" where
  "leave J T t l l' \<longleftrightarrow> grows (solvent J) l l' \<and> (\<forall>p. tmoves J t p l' = tmoves J t p l) \<and> state_of T t l' = state_of T t l"

lemma leave_order [simp]: "reflp (leave J T t)" "transp (leave J T t)"
  by (auto simp: leave_def reflp_def transp_def) (meson grows_order(2) transpD)

lemma trade_stream_not_inv [simp]: "trade_stream t \<notin> range inv_stream" "trade_stream t \<noteq> inv_stream p"
  by (auto simp: trade_stream_def inv_stream_def)

lemma trade_stream_inj [simp]: "trade_stream s = trade_stream t \<longleftrightarrow> s = t"
  by (simp add: trade_stream_def)

lemma own_leave: "own J U (trade_stream ` U) l l' \<Longrightarrow> t \<notin> U \<Longrightarrow> leave J T t l l'"
  unfolding own_def leave_def state_of_def by (metis image_iff trade_stream_inj trade_stream_not_inv(1))

text \<open>What the trade has done: its moves in each player's stream, and the phase of its own stream.\<close>

definition sview :: "inv_json \<Rightarrow> trade_json \<Rightarrow> string \<Rightarrow> (string \<Rightarrow> tmove list) \<Rightarrow> Offer \<times> Phase \<Rightarrow> Event list \<Rightarrow> bool" where
  "sview J T t m ph l \<longleftrightarrow> solvent J l \<and> (\<forall>p. tmoves J t p l = m p) \<and> state_of T t l = ph"

abbreviation add_move :: "(string \<Rightarrow> tmove list) \<Rightarrow> string \<Rightarrow> tmove \<Rightarrow> string \<Rightarrow> tmove list" where
  "add_move m p v \<equiv> m(p := m p @ [v])"

abbreviation calm :: "db_err \<Rightarrow> bool" where
  "calm \<equiv> \<lambda>_. False"

lemma sview_solvent: "sview J T t m ph l \<Longrightarrow> solvent J l"
  by (simp add: sview_def)

lemma sview_leave: "sview J T t m ph l \<Longrightarrow> leave J T t l l' \<Longrightarrow> sview J T t m ph l'"
  by (auto simp: sview_def leave_def grows_def)

lemma sview_moved: "sview J T t m ph l \<Longrightarrow> moved J t p v l l' \<Longrightarrow> sview J T t (add_move m p v) ph l'"
  by (auto simp: sview_def moved_def state_of_def)

lemma tolerant_sview:
  assumes "\<And>a l l'. leave J T t l l' \<Longrightarrow> Q a l \<Longrightarrow> Q a l'"
  shows "tolerant J (leave J T t) (sview J T t m ph) Q"
  using assms sview_leave unfolding tolerant_def by (metis leave_def)

lemma rg_move:
  assumes "inv_roundtrip J" and v: "sview J T t m ph l" and ty: "ty \<in> {EventReleased, EventCommitted, EventReceived}" "amount \<ge> 0"
    and new: "ty \<notin> fst ` set (m p)"
  shows "rg calm (leave J T t) (own J {t} S) (\<lambda>a l. a = None \<and> sview J T t (add_move m p (ty, kind, amount)) ph l)
    (idempotentMove J p t kind amount ty) l"
proof (rule rg_idempotentMove [where P = "sview J T t m ph", OF assms(1) _ v _ ty])
  show "tolerant J (leave J T t) (sview J T t m ph) (\<lambda>a l. a = None \<and> sview J T t (add_move m p (ty, kind, amount)) ph l)"
    by (rule tolerant_sview) (auto intro: sview_leave)
  fix l assume "sview J T t m ph l" "hasMove J t ty (of_stream (inv_stream p) l)"
  then have "ty \<in> fst ` set (m p)" using ty(1) hasMove_tmoves [of ty J t p l] by (auto simp: sview_def)
  then show "None = None \<and> sview J T t (add_move m p (ty, kind, amount)) ph l" using new by simp
qed (use v in \<open>auto intro: sview_moved sview_solvent\<close>)

lemma rg_hold:
  assumes "inv_roundtrip J" and v: "sview J T t m ph l" and new: "EventReserved \<notin> fst ` set (m p)"
  shows "rg calm (leave J T t) (own J {t} S)
    (\<lambda>a l. if a = None then amount > 0 \<and> sview J T t (add_move m p (EventReserved, kind, amount)) ph l else sview J T t m ph l)
    (Reserve J p t kind amount) l"
proof (cases "amount \<le> 0")
  case True
  then show ?thesis using v sview_leave by (auto simp: Reserve_def)
next
  case False
  show ?thesis
  proof (rule rg_Reserve [where P = "sview J T t m ph", OF assms(1) _ v])
    show "tolerant J (leave J T t) (sview J T t m ph) (\<lambda>a l. if a = None then amount > 0 \<and>
        sview J T t (add_move m p (EventReserved, kind, amount)) ph l else sview J T t m ph l)"
      by (rule tolerant_sview) (auto intro: sview_leave split: if_splits)
    fix l assume "sview J T t m ph l" "hasMove J t EventReserved (of_stream (inv_stream p) l)"
    then have "EventReserved \<in> fst ` set (m p)" using hasMove_tmoves [of EventReserved J t p l] by (auto simp: sview_def)
    then show "if None = None then amount > 0 \<and> sview J T t (add_move m p (EventReserved, kind, amount)) ph l else sview J T t m ph l"
      using new by simp
  qed (use v False in \<open>auto intro: sview_moved sview_solvent\<close>)
qed

text \<open>The state after one event more.\<close>

definition next_state :: "trade_json \<Rightarrow> string \<Rightarrow> bytes \<Rightarrow> Offer \<times> Phase \<Rightarrow> Offer \<times> Phase" where
  "next_state T ty d st = (if ty = EventProposed then unoffer T d (fst st) else fst st,
     if ty = EventProposed then PhaseProposed else if ty = EventProposerReserved then PhaseProposerReserved
     else if ty = EventCounterpartyReserved then PhaseCounterpartyReserved else if ty = EventSettled then PhaseSettled
     else if ty = EventCancelled then PhaseCancelled else snd st)"

lemma next_state_simps [simp]:
  "next_state T EventProposerReserved d st = (fst st, PhaseProposerReserved)"
  "next_state T EventCounterpartyReserved d st = (fst st, PhaseCounterpartyReserved)"
  "next_state T EventSettled d st = (fst st, PhaseSettled)" "next_state T EventCancelled d st = (fst st, PhaseCancelled)"
  "next_state T EventProposed d st = (unoffer T d (fst st), PhaseProposed)"
  "next_state T EventAccepted d st = st" "next_state T EventRejected d st = st" "next_state T EventExpired d st = st"
  by (simp_all add: next_state_def trade_types)

lemma state_of_stamp:
  "state_of T t (l @ stamp now (trade_stream t) [\<lparr>edType = ty, edData = d\<rparr>] l) = next_state T ty d (state_of T t l)"
proof -
  have "trade_fold T (evs @ [e]) = trade_apply T e (trade_fold T evs)" for evs e by (simp add: trade_fold_def)
  then show ?thesis
    by (simp add: state_of_def Let_def stamp_stream)
      (simp add: stamp_one next_state_def trade_apply_def Let_def split: option.splits)
qed

lemma append_trade_view:
  assumes "sview J T t m st l"
  shows "own J {t} {trade_stream t} l (l @ stamp now (trade_stream t) [\<lparr>edType = ty, edData = d\<rparr>] l)
    \<and> sview J T t m (next_state T ty d st) (l @ stamp now (trade_stream t) [\<lparr>edType = ty, edData = d\<rparr>] l)"
proof -
  let ?s = "stamp now (trade_stream t) [\<lparr>edType = ty, edData = d\<rparr>] l"
  have i: "of_stream (inv_stream p) ?s = []" for p by (simp add: stamp_stream trade_stream_not_inv(2) [symmetric])
  then have "tmoves J u p ?s = []" for u p by (simp add: tmoves_def)
  moreover have "solvent J (l @ ?s) = solvent J l" by (simp add: solvent_def i)
  moreover have "of_stream s ?s = []" if "s \<noteq> trade_stream t" for s using that by (simp add: stamp_stream)
  ultimately show ?thesis using assms by (simp add: sview_def own_def grows_def state_of_stamp)
qed

lemma rg_append_trade:
  assumes "sview J T t m st l"
  shows "rg calm (leave J T t) (own J {t} {trade_stream t}) (\<lambda>a l. a = None \<and> sview J T t m (next_state T ty d st) l) (append_trade t ty d) l"
proof -
  have "sview J T t m (next_state T ty d st) l''"
    if "leave J T t l l'" "leave J T t (l' @ stamp now (trade_stream t) [\<lparr>edType = ty, edData = d\<rparr>] l') l''" for l' l'' now
    using append_trade_view [OF sview_leave [OF assms that(1)], of now ty d] sview_leave [OF _ that(2)] by blast
  moreover have "own J {t} {trade_stream t} l' (l' @ stamp now (trade_stream t) [\<lparr>edType = ty, edData = d\<rparr>] l')" if "leave J T t l l'" for l' now
    using append_trade_view [OF sview_leave [OF assms that]] by blast
  ultimately show ?thesis by (auto simp: append_trade_def trade_stream_def)
qed

subsection \<open>The steps of a saga\<close>

text \<open>The moves of a trade at its end: settled, or compensated before or after the first reservation.\<close>

abbreviation give_move :: "string \<Rightarrow> Offer \<Rightarrow> tmove" where
  "give_move ty x \<equiv> (ty, itKind (oGive x), itAmount (oGive x))"

abbreviation want_move :: "string \<Rightarrow> Offer \<Rightarrow> tmove" where
  "want_move ty x \<equiv> (ty, itKind (oWant x), itAmount (oWant x))"

definition settled_moves :: "Offer \<Rightarrow> string \<Rightarrow> tmove list" where
  "settled_moves x = (\<lambda>_. [])
     (oProposer x := [give_move EventReserved x, give_move EventCommitted x, want_move EventReceived x],
      oCounterparty x := [want_move EventReserved x, give_move EventReceived x, want_move EventCommitted x])"

definition released_moves :: "Offer \<Rightarrow> string \<Rightarrow> tmove list" where
  "released_moves x = (\<lambda>_. [])(oProposer x := [give_move EventReserved x, give_move EventReleased x])"

definition trade_end :: "inv_json \<Rightarrow> trade_json \<Rightarrow> Offer \<Rightarrow> es_err + TState \<Rightarrow> Event list \<Rightarrow> bool" where
  "trade_end J T x r l \<longleftrightarrow> (\<exists>st. r = Inr st \<and> stOffer st = x
     \<and> (stPhase st = PhaseSettled \<and> sview J T (oID x) (settled_moves x) (x, PhaseSettled) l
        \<or> stPhase st = PhaseCancelled \<and> (sview J T (oID x) (\<lambda>_. []) (x, PhaseCancelled) l
            \<or> sview J T (oID x) (released_moves x) (x, PhaseCancelled) l)))"

lemma trade_end_leave: "trade_end J T x r l \<Longrightarrow> leave J T (oID x) l l' \<Longrightarrow> trade_end J T x r l'"
  unfolding trade_end_def using sview_leave by blast

text \<open>A saga's program, from a view of the log.\<close>

definition saga :: "inv_json \<Rightarrow> trade_json \<Rightarrow> Offer \<Rightarrow> (es_err + TState) prog \<Rightarrow> Event list \<Rightarrow> bool" where
  "saga J T x p l \<longleftrightarrow> rg calm (leave J T (oID x)) (own J {oID x} {trade_stream (oID x)}) (trade_end J T x) p l"

lemma saga_bind:
  assumes "rg calm (leave J T (oID x)) (own J {oID x} {trade_stream (oID x)}) Q1 p l" "\<And>a l. Q1 a l \<Longrightarrow> saga J T x (f a) l"
  shows "saga J T x (bind_prog p f) l"
  unfolding saga_def by (rule rg_seq [OF assms(1)]) (use assms(2) in \<open>simp_all add: saga_def\<close>)

lemma saga_return: "trade_end J T x r l \<Longrightarrow> saga J T x (Return r) l"
  by (auto simp: saga_def intro: trade_end_leave)

lemma saga_or_fail:
  assumes "sview J T (oID x) m st l" "\<And>l. sview J T (oID x) m (next_state T ty d st) l \<Longrightarrow> saga J T x q l"
  shows "saga J T x (or_fail (append_trade (oID x) ty d) q) l"
  unfolding or_fail_def by (rule saga_bind [OF rg_append_trade [OF assms(1)]]) (use assms(2) in auto)

lemma saga_cancel_end:
  assumes "sview J T (oID x) m (x, ph) l" "m = (\<lambda>_. []) \<or> m = released_moves x"
  shows "saga J T x (saga_cancel T x reason) l"
  unfolding saga_cancel_def appendCancelled_def
  by (rule saga_bind [OF rg_append_trade [OF assms(1)]])
    (use assms(2) in \<open>auto intro!: saga_return simp: trade_end_def\<close>)

lemma moves_fst:
  "EventReserved \<noteq> EventReleased" "EventReserved \<noteq> EventCommitted" "EventReserved \<noteq> EventReceived"
  "EventReleased \<noteq> EventCommitted" "EventReleased \<noteq> EventReceived" "EventCommitted \<noteq> EventReceived"
  by (simp_all add: move_types)

lemma saga_release:
  assumes "inv_roundtrip J" "sview J T (oID x) ((\<lambda>_. [])(oProposer x := [give_move EventReserved x])) (x, ph) l" "itAmount (oGive x) \<ge> 0"
  shows "saga J T x (bind_prog (releaseProposer J x) (\<lambda>_. saga_cancel T x reason)) l"
  unfolding releaseProposer_def Release_def
  by (rule saga_bind [OF rg_move [OF assms(1,2) _ assms(3)]])
    (auto simp: moves_fst moves_fst [symmetric] released_moves_def intro!: saga_cancel_end)

lemma rg_all_of_move:
  assumes "inv_roundtrip J" "sview J T t m ph l" "ty \<in> {EventReleased, EventCommitted, EventReceived}" "amount \<ge> 0" "ty \<notin> fst ` set (m p)"
    and "\<And>l. sview J T t (add_move m p (ty, kind, amount)) ph l \<Longrightarrow> rg calm (leave J T t) (own J {t} S) Q (all_of ps) l"
  shows "rg calm (leave J T t) (own J {t} S) Q (all_of (idempotentMove J p t kind amount ty # ps)) l"
  unfolding all_of.simps by (rule rg_seq [OF rg_move [OF assms(1-5)]]) (use assms(6) in auto)

lemma rg_crossTransfer:
  assumes "inv_roundtrip J" "oProposer x \<noteq> oCounterparty x" "itAmount (oGive x) \<ge> 0" "itAmount (oWant x) \<ge> 0"
    and v: "sview J T (oID x) ((\<lambda>_. [])(oProposer x := [give_move EventReserved x], oCounterparty x := [want_move EventReserved x])) ph l"
  shows "rg calm (leave J T (oID x)) (own J {oID x} S) (\<lambda>a l. a = None \<and> sview J T (oID x) (settled_moves x) ph l) (crossTransfer J x) l"
proof -
  let ?P = "oProposer x" and ?C = "oCounterparty x"
  let ?m = "(\<lambda>_. [])(?P := [give_move EventReserved x], ?C := [want_move EventReserved x])"
  let ?m3 = "add_move (add_move (add_move ?m ?P (give_move EventCommitted x)) ?C (give_move EventReceived x)) ?C (want_move EventCommitted x)"
  have m: "add_move ?m3 ?P (want_move EventReceived x) = settled_moves x" using assms(2) by (auto simp: settled_moves_def)
  note one = rg_all_of_move [OF assms(1)] and sym = moves_fst moves_fst [symmetric]
  have 4: "rg calm (leave J T (oID x)) (own J {oID x} S) (\<lambda>a l. a = None \<and> sview J T (oID x) (settled_moves x) ph l)
      (all_of [idempotentMove J ?P (oID x) (itKind (oWant x)) (itAmount (oWant x)) EventReceived]) l" if "sview J T (oID x) ?m3 ph l" for l
    by (rule one [OF that]) (use assms(2-4) m in \<open>auto simp: sym intro: sview_leave\<close>)
  note side = sym assms(2-4) assms(2) [symmetric]
  show ?thesis unfolding crossTransfer_def Commit_def Receive_def
    by (rule one [OF v], simp add: side, simp add: side, simp add: side,
        rule one, assumption, simp add: side, simp add: side, simp add: side,
        rule one, assumption, simp add: side, simp add: side, simp add: side, rule 4)
qed

lemma saga_settle:
  assumes "inv_roundtrip J" "oProposer x \<noteq> oCounterparty x" "itAmount (oGive x) \<ge> 0" "itAmount (oWant x) \<ge> 0"
    and "sview J T (oID x) ((\<lambda>_. [])(oProposer x := [give_move EventReserved x], oCounterparty x := [want_move EventReserved x])) (x, ph) l"
  shows "saga J T x (settle_step J T (crossTransfer J) x) l"
  unfolding settle_step_def appendPhase_def
  by (rule saga_bind [OF rg_crossTransfer [OF assms]])
    (auto intro!: saga_or_fail [of J T x "settled_moves x" "(x, ph)"] saga_return simp: trade_end_def)

lemma saga_accept:
  assumes "inv_roundtrip J" "oProposer x \<noteq> oCounterparty x" "itAmount (oGive x) \<ge> 0"
    and v: "sview J T (oID x) ((\<lambda>_. [])(oProposer x := [give_move EventReserved x])) (x, ph) l"
  shows "saga J T x (accept_step J T (crossTransfer J) x) l"
  unfolding accept_step_def reserveCounterparty_def
proof (rule saga_bind [OF rg_hold [OF assms(1) v]])
  show "EventReserved \<notin> fst ` set (((\<lambda>_. [])(oProposer x := [give_move EventReserved x])) (oCounterparty x))" using assms(2) by simp
  fix a :: "inv_err option" and l
  assume a: "if a = None then 0 < itAmount (oWant x) \<and> sview J T (oID x) (add_move ((\<lambda>_. [])(oProposer x := [give_move EventReserved x]))
      (oCounterparty x) (want_move EventReserved x)) (x, ph) l else sview J T (oID x) ((\<lambda>_. [])(oProposer x := [give_move EventReserved x])) (x, ph) l"
  show "saga J T x (case a of None \<Rightarrow> or_fail (appendPhase (oID x) EventCounterpartyReserved) (settle_step J T (crossTransfer J) x)
      | Some e \<Rightarrow> bind_prog (releaseProposer J x) (\<lambda>_. saga_cancel T x (''counterparty reserve: '' @ err_text T e))) l"
  proof (cases a)
    case None
    then have v1: "sview J T (oID x) ((\<lambda>_. [])(oProposer x := [give_move EventReserved x], oCounterparty x := [want_move EventReserved x])) (x, ph) l"
      and pos: "itAmount (oWant x) \<ge> 0" using a assms(2) by (auto simp: fun_upd_twist)
    show ?thesis unfolding None option.case appendPhase_def
      by (rule saga_or_fail [OF v1]) (simp add: saga_settle [OF assms(1-3) pos])
  next
    case (Some e)
    then show ?thesis using a assms(3) by (simp add: saga_release [OF assms(1)])
  qed
qed

lemma saga_execute:
  assumes "inv_roundtrip J" "oProposer x \<noteq> oCounterparty x" "sview J T (oID x) (\<lambda>_. []) st l" "trade_roundtrip T"
  shows "saga J T x (Execute J T (crossTransfer J) decide x) l"
  unfolding Execute_def appendProposed_def
proof (rule saga_or_fail [OF assms(3)])
  fix l assume "sview J T (oID x) (\<lambda>_. []) (next_state T EventProposed (joffer T x) st) l"
  then have v: "sview J T (oID x) (\<lambda>_. []) (x, PhaseProposed) l" using assms(4) by (simp add: trade_roundtrip_def)
  show "saga J T x (bind_prog (reserveProposer J x) (\<lambda>r. case r of Some e \<Rightarrow> saga_cancel T x (''proposer reserve: '' @ err_text T e)
      | None \<Rightarrow> or_fail (appendPhase (oID x) EventProposerReserved) (decide_step J T (crossTransfer J) decide x))) l"
    unfolding reserveProposer_def
  proof (rule saga_bind [OF rg_hold [OF assms(1) v]])
    fix a :: "inv_err option" and l
    assume a: "if a = None then 0 < itAmount (oGive x) \<and> sview J T (oID x) (add_move (\<lambda>_. []) (oProposer x) (give_move EventReserved x))
        (x, PhaseProposed) l else sview J T (oID x) (\<lambda>_. []) (x, PhaseProposed) l"
    show "saga J T x (case a of None \<Rightarrow> or_fail (appendPhase (oID x) EventProposerReserved) (decide_step J T (crossTransfer J) decide x)
        | Some e \<Rightarrow> saga_cancel T x (''proposer reserve: '' @ err_text T e)) l"
    proof (cases a)
      case None
      then have v1: "sview J T (oID x) ((\<lambda>_. [])(oProposer x := [give_move EventReserved x])) (x, PhaseProposed) l"
        and pos: "itAmount (oGive x) \<ge> 0" using a by simp_all
      show ?thesis unfolding None option.case appendPhase_def
        by (rule saga_or_fail [OF v1]) (auto simp: decide_step_def saga_release [OF assms(1) _ pos] saga_accept [OF assms(1,2) pos]
            split: sum.splits Decision.splits)
    next
      case (Some e)
      then show ?thesis using a by (simp add: saga_cancel_end)
    qed
  qed simp
qed

subsection \<open>Many trades\<close>

text \<open>The events of a trade in a player's inventory; their sums are the trade's part of the balance.\<close>

definition trade_events :: "inv_json \<Rightarrow> string \<Rightarrow> string \<Rightarrow> Event list \<Rightarrow> Event list" where
  "trade_events J t p l = filter (of_trade J t) (of_stream (inv_stream p) l)"

definition net_avail :: "string \<Rightarrow> tmove list \<Rightarrow> int" where
  "net_avail k ms = sum_list (map (\<lambda>(ty, kind, a). if kind \<noteq> k then 0 else if ty = EventReserved then - a
     else if ty \<in> {EventReleased, EventReceived} then a else 0) ms)"

definition net_held :: "string \<Rightarrow> tmove list \<Rightarrow> int" where
  "net_held k ms = sum_list (map (\<lambda>(ty, kind, a). if kind \<noteq> k then 0 else if ty = EventReserved then a
     else if ty \<in> {EventReleased, EventCommitted} then - a else 0) ms)"

lemma trade_events_net:
  "avail J k (trade_events J t p l) = net_avail k (tmoves J t p l)"
  "held J k (trade_events J t p l) = net_held k (tmoves J t p l)"
proof -
  have "avail J k (filter (of_trade J t) evs) = net_avail k (map (\<lambda>e. (evType e, mKind (the (move J e)), mAmount (the (move J e)))) (filter (of_trade J t) evs))
    \<and> held J k (filter (of_trade J t) evs) = net_held k (map (\<lambda>e. (evType e, mKind (the (move J e)), mAmount (the (move J e)))) (filter (of_trade J t) evs))" for evs
    by (induction evs) (auto simp: net_avail_def net_held_def avail_of_def held_of_def of_trade_def move_types split: option.splits)
  then show "avail J k (trade_events J t p l) = net_avail k (tmoves J t p l)" "held J k (trade_events J t p l) = net_held k (tmoves J t p l)"
    by (simp_all add: trade_events_def tmoves_def)
qed

text \<open>What a player gains by a settled trade.\<close>

definition swap_gain :: "Offer \<Rightarrow> string \<Rightarrow> string \<Rightarrow> int" where
  "swap_gain x p k =
     (let g = (if itKind (oGive x) = k then itAmount (oGive x) else 0);
          w = (if itKind (oWant x) = k then itAmount (oWant x) else 0)
      in if p = oProposer x then w - g else if p = oCounterparty x then g - w else 0)"

lemma settled_net:
  "oProposer x \<noteq> oCounterparty x \<Longrightarrow> net_held k (settled_moves x p) = 0 \<and> net_avail k (settled_moves x p) = swap_gain x p k"
  by (auto simp: settled_moves_def net_held_def net_avail_def swap_gain_def Let_def moves_fst moves_fst [symmetric])

lemma released_net: "net_held k (released_moves x p) = 0 \<and> net_avail k (released_moves x p) = 0"
  by (auto simp: released_moves_def net_held_def net_avail_def moves_fst moves_fst [symmetric])

lemma nothing_net: "net_held k [] = 0 \<and> net_avail k [] = 0"
  by (simp add: net_held_def net_avail_def)

lemma trade_end_net:
  assumes "trade_end J T x r l" "oProposer x \<noteq> oCounterparty x"
  shows "\<exists>st. r = Inr st \<and> (stPhase st = PhaseSettled \<or> stPhase st = PhaseCancelled)
    \<and> stPhase (trade_fold T (of_stream (trade_stream (oID x)) l)) = stPhase st
    \<and> (\<forall>p k. held J k (trade_events J (oID x) p l) = 0
        \<and> avail J k (trade_events J (oID x) p l) = (if stPhase st = PhaseSettled then swap_gain x p k else 0))"
proof -
  obtain st where st: "r = Inr st" "stPhase st = PhaseSettled \<and> sview J T (oID x) (settled_moves x) (x, PhaseSettled) l
      \<or> stPhase st = PhaseCancelled \<and> (sview J T (oID x) (\<lambda>_. []) (x, PhaseCancelled) l
          \<or> sview J T (oID x) (released_moves x) (x, PhaseCancelled) l)"
    using assms(1) unfolding trade_end_def by blast
  show ?thesis using st settled_net [OF assms(2)] released_net nothing_net by (intro exI [of _ st]) (auto simp: trade_events_net sview_def state_of_def Let_def)
qed

type_synonym market_result = "(es_err + TState) + inv_err option"

definition trader :: "inv_json \<Rightarrow> trade_json \<Rightarrow> (Offer \<Rightarrow> string + Decision) \<Rightarrow> Offer \<Rightarrow> market_result prog" where
  "trader J T decide x = bind_prog (Execute J T (crossTransfer J) decide x) (\<lambda>r. Return (Inl r))"

definition other_op :: "inv_json \<Rightarrow> inv_op \<Rightarrow> market_result prog" where
  "other_op J a = bind_prog (op_prog J a) (\<lambda>r. Return (Inr r))"

lemma rg_trader:
  assumes "inv_roundtrip J" "oProposer x \<noteq> oCounterparty x" "sview J T (oID x) (\<lambda>_. []) st l" "trade_roundtrip T"
  shows "rg calm (leave J T (oID x)) (own J {oID x} {trade_stream (oID x)}) (\<lambda>r l. \<exists>r0. r = Inl r0 \<and> trade_end J T x r0 l) (trader J T decide x) l"
  unfolding trader_def
  by (rule rg_seq [OF saga_execute [OF assms, unfolded saga_def]]) (auto intro: trade_end_leave)

lemma rg_other_op:
  assumes "inv_roundtrip J" "solvent J l" "op_fair a"
  shows "rg calm (grows (solvent J)) (own J (op_trades a) {}) (\<lambda>r l. True) (other_op J a) l"
  unfolding other_op_def by (rule rg_seq [OF rg_op [OF assms]]) simp_all


subsection \<open>A trade\<close>

definition enc_item :: "Item \<Rightarrow> bytes" where
  "enc_item i = enc_string (itKind i) @ enc_int (itAmount i)"

definition dec_item :: "bytes \<Rightarrow> Item \<times> bytes" where
  "dec_item r = (case dec_string r of (k, r) \<Rightarrow> case dec_int r of (a, r) \<Rightarrow> (\<lparr>itKind = k, itAmount = a\<rparr>, r))"

definition plain_trade :: trade_json where
  "plain_trade = \<lparr>joffer = (\<lambda>x. enc_string (oID x) @ enc_string (oProposer x) @ enc_string (oCounterparty x) @ enc_item (oGive x) @ enc_item (oWant x)),
     unoffer = (\<lambda>r _. case dec_string r of (i, r) \<Rightarrow> case dec_string r of (p, r) \<Rightarrow> case dec_string r of (c, r) \<Rightarrow>
       case dec_item r of (g, r) \<Rightarrow> case dec_item r of (w, r) \<Rightarrow> \<lparr>oID = i, oProposer = p, oCounterparty = c, oGive = g, oWant = w\<rparr>),
     jreason = string_bytes, unreason = (\<lambda>b. Some (bytes_string b)), err_text = (\<lambda>_. ''error'')\<rparr>"

lemma plain_trade_roundtrip: "trade_roundtrip plain_trade"
  by (simp add: trade_roundtrip_def plain_trade_def enc_item_def dec_item_def codec_simps)

definition barter :: Offer where
  "barter = \<lparr>oID = ''t'', oProposer = ''a'', oCounterparty = ''b'', oGive = \<lparr>itKind = ''w'', itAmount = 1\<rparr>, oWant = \<lparr>itKind = ''s'', itAmount = 1\<rparr>\<rparr>"

definition harvest :: "inv_op list" where
  "harvest = [OpGather \<lparr>gPlayer = ''a'', gName = [], gNode = [], gKind = ''w'', gAmount = 1\<rparr>,
     OpGather \<lparr>gPlayer = ''b'', gName = [], gNode = [], gKind = ''s'', gAmount = 1\<rparr>]"

fun has_settled :: "market_result prog \<Rightarrow> bool" where
  "has_settled (Return (Inl (Inr st))) \<longleftrightarrow> stPhase st = PhaseSettled"
| "has_settled _ \<longleftrightarrow> False"

definition barter_turns :: "(nat \<times> circumstance) list" where
  "barter_turns = (1, 0, None) # (2, 0, None) # replicate 16 (0, 0, None)"

lemma plain_trade_simps [simp]: "unoffer plain_trade (joffer plain_trade x) y = x" "unreason plain_trade (jreason plain_trade s) = Some s"
  using plain_trade_roundtrip by (simp_all add: trade_roundtrip_def)

lemmas saga_run = trader_def other_op_def Execute_def or_fail_def appendProposed_def appendPhase_def appendCancelled_def append_trade_def
  reserveProposer_def reserveCounterparty_def releaseProposer_def releaseCounterparty_def decide_step_def accept_step_def settle_step_def
  AutoAccept_def crossTransfer_def Commit_def Receive_def Release_def idempotentMove_def Reserve_def maxReserveRetries_def appendMove_def
  stamp_one of_stream_def inv_stream_def trade_stream_def upto_limit_def move_types trade_types move_def inv_fold_def newBalance_def
  applyTo_def adj_def amount_of_def i64_id saga_cancel_def

lemma barter_settles:
  "has_settled (fst (sched log_call barter_turns (map (trader plain_inv plain_trade AutoAccept) [barter] @ map (other_op plain_inv) harvest, [])) ! 0)"
  by (simp add: barter_turns_def barter_def harvest_def saga_run eval_nat_numeral)


section \<open>Choreographed trades stay coherent\<close>

text \<open>Between two reactions of the choreographer the moves of a trade are those of its phase.\<close>

definition coherent :: "inv_json \<Rightarrow> trade_json \<Rightarrow> Offer \<Rightarrow> Event list \<Rightarrow> bool" where
  "coherent J T x l \<longleftrightarrow>
     sview J T (oID x) (\<lambda>_. []) (x, PhaseProposed) l
   \<or> itAmount (oGive x) > 0 \<and> sview J T (oID x) ((\<lambda>_. [])(oProposer x := [give_move EventReserved x])) (x, PhaseProposerReserved) l
   \<or> itAmount (oGive x) > 0 \<and> itAmount (oWant x) > 0 \<and> sview J T (oID x) ((\<lambda>_. [])(oProposer x := [give_move EventReserved x],
       oCounterparty x := [want_move EventReserved x])) (x, PhaseCounterpartyReserved) l
   \<or> sview J T (oID x) (settled_moves x) (x, PhaseSettled) l
   \<or> sview J T (oID x) (\<lambda>_. []) (x, PhaseCancelled) l \<or> sview J T (oID x) (released_moves x) (x, PhaseCancelled) l"

lemma coherent_leave: "coherent J T x l \<Longrightarrow> leave J T (oID x) l l' \<Longrightarrow> coherent J T x l'"
  unfolding coherent_def using sview_leave by blast

text \<open>A reaction's program, from a view of the log.\<close>

definition reaction :: "inv_json \<Rightarrow> trade_json \<Rightarrow> Offer \<Rightarrow> unit prog \<Rightarrow> Event list \<Rightarrow> bool" where
  "reaction J T x p l \<longleftrightarrow> rg calm (leave J T (oID x)) (own J {oID x} {trade_stream (oID x)}) (\<lambda>_ l. coherent J T x l) p l"

lemma reaction_bind:
  assumes "rg calm (leave J T (oID x)) (own J {oID x} {trade_stream (oID x)}) Q1 p l" "\<And>a l. Q1 a l \<Longrightarrow> reaction J T x (f a) l"
  shows "reaction J T x (bind_prog p f) l"
  unfolding reaction_def by (rule rg_seq [OF assms(1)]) (use assms(2) in \<open>simp_all add: reaction_def\<close>)

lemma reaction_return: "coherent J T x l \<Longrightarrow> reaction J T x (Return ()) l"
  by (auto simp: reaction_def intro: coherent_leave)

lemma reaction_append:
  assumes "sview J T (oID x) m st l" "\<And>l. sview J T (oID x) m (next_state T ty d st) l \<Longrightarrow> coherent J T x l"
  shows "reaction J T x (then_unit (append_trade (oID x) ty d) (Return ())) l"
  unfolding then_unit_def by (rule reaction_bind [OF rg_append_trade [OF assms(1)]]) (use assms(2) reaction_return in auto)

lemma reaction_release:
  assumes "inv_roundtrip J" "sview J T (oID x) ((\<lambda>_. [])(oProposer x := [give_move EventReserved x])) (x, ph) l" "itAmount (oGive x) > 0"
  shows "reaction J T x (then_unit (releaseProposer J x) (then_unit (appendCancelled T (oID x) reason) (Return ()))) l"
  unfolding releaseProposer_def Release_def then_unit_def appendCancelled_def
  by (rule reaction_bind [OF rg_move [OF assms(1,2)]])
    (use assms(3) in \<open>auto simp: moves_fst moves_fst [symmetric] released_moves_def [symmetric] coherent_def
        intro!: reaction_append [unfolded then_unit_def]\<close>)

text \<open>A reaction reads the state first; what it then does depends on the state at that moment.\<close>

lemma reaction_state:
  assumes "coherent J T x l"
    and "\<And>l st. coherent J T x l \<Longrightarrow> (stOffer st, stPhase st) = state_of T (oID x) l \<Longrightarrow> reaction J T x (f st) l"
  shows "reaction J T x (bind_prog (trade_state T (oID x)) f) l"
proof -
  have "reaction J T x (f (trade_fold T (of_stream (trade_stream (oID x)) l'))) l'" if "leave J T (oID x) l l'" for l'
    using assms(2) [OF coherent_leave [OF assms(1) that]] by (simp add: state_of_def Let_def)
  then show ?thesis by (simp add: reaction_def trade_state_def Status_def upto_limit_def)
qed

lemma coherent_state: "coherent J T x l \<Longrightarrow> fst (state_of T (oID x) l) = x"
  by (auto simp: coherent_def sview_def)

lemma coherent_phase:
  assumes "coherent J T x l"
  shows "state_of T (oID x) l = (x, PhaseProposed) \<Longrightarrow> sview J T (oID x) (\<lambda>_. []) (x, PhaseProposed) l"
    and "state_of T (oID x) l = (x, PhaseProposerReserved) \<Longrightarrow> itAmount (oGive x) > 0
      \<and> sview J T (oID x) ((\<lambda>_. [])(oProposer x := [give_move EventReserved x])) (x, PhaseProposerReserved) l"
    and "state_of T (oID x) l = (x, PhaseCounterpartyReserved) \<Longrightarrow> itAmount (oGive x) > 0 \<and> itAmount (oWant x) > 0
      \<and> sview J T (oID x) ((\<lambda>_. [])(oProposer x := [give_move EventReserved x], oCounterparty x := [want_move EventReserved x]))
          (x, PhaseCounterpartyReserved) l"
  using assms by (auto simp: coherent_def sview_def)

lemma reaction_onProposed:
  assumes "inv_roundtrip J" "coherent J T x l"
  shows "reaction J T x (onProposed J T (oID x)) l"
  unfolding onProposed_def
proof (rule reaction_state [OF assms(2)])
  fix l st assume c: "coherent J T x l" and st: "(stOffer st, stPhase st) = state_of T (oID x) l"
  have x: "stOffer st = x" using coherent_state [OF c] st by (metis fst_conv)
  show "reaction J T x (if stPhase st \<noteq> PhaseProposed then Return () else bind_prog (reserveProposer J (stOffer st))
      (\<lambda>r. case r of None \<Rightarrow> then_unit (appendPhase (oID x) EventProposerReserved) (Return ())
        | Some e \<Rightarrow> then_unit (appendCancelled T (oID x) (''proposer reserve: '' @ err_text T e)) (Return ()))) l"
  proof (cases "stPhase st = PhaseProposed")
    case True
    then have v: "sview J T (oID x) (\<lambda>_. []) (x, PhaseProposed) l" using coherent_phase(1) [OF c] st x by simp
    show ?thesis unfolding x reserveProposer_def appendPhase_def appendCancelled_def using True
      by simp (rule reaction_bind [OF rg_hold [OF assms(1) v]],
        auto simp: coherent_def intro!: reaction_append split: option.splits if_splits)
  qed (use c reaction_return in auto)
qed

lemma reaction_onAccepted:
  assumes "inv_roundtrip J" "oProposer x \<noteq> oCounterparty x" "coherent J T x l"
  shows "reaction J T x (onAccepted J T (oID x)) l"
  unfolding onAccepted_def
proof (rule reaction_state [OF assms(3)])
  fix l st assume c: "coherent J T x l" and st: "(stOffer st, stPhase st) = state_of T (oID x) l"
  have x: "stOffer st = x" using coherent_state [OF c] st by (metis fst_conv)
  show "reaction J T x (if stPhase st \<noteq> PhaseProposerReserved then Return () else bind_prog (reserveCounterparty J (stOffer st))
      (\<lambda>r. case r of None \<Rightarrow> then_unit (appendPhase (oID x) EventCounterpartyReserved) (Return ())
        | Some e \<Rightarrow> then_unit (releaseProposer J (stOffer st))
            (then_unit (appendCancelled T (oID x) (''counterparty reserve: '' @ err_text T e)) (Return ())))) l"
  proof (cases "stPhase st = PhaseProposerReserved")
    case True
    then have v: "sview J T (oID x) ((\<lambda>_. [])(oProposer x := [give_move EventReserved x])) (x, PhaseProposerReserved) l"
      and pos: "itAmount (oGive x) > 0" using coherent_phase(2) [OF c] st x by simp_all
    have tw: "((\<lambda>_. [])(oProposer x := [give_move EventReserved x]))(oCounterparty x := [want_move EventReserved x])
      = (\<lambda>_. [])(oProposer x := [give_move EventReserved x], oCounterparty x := [want_move EventReserved x])" by simp
    show ?thesis unfolding x reserveCounterparty_def appendPhase_def using True
      by simp (rule reaction_bind [OF rg_hold [OF assms(1) v]],
        use assms(2) pos in \<open>auto simp: coherent_def intro!: reaction_append reaction_release [OF assms(1)] split: option.splits if_splits\<close>)
  qed (use c reaction_return in auto)
qed

lemma reaction_onCounterpartyReserved:
  assumes "inv_roundtrip J" "oProposer x \<noteq> oCounterparty x" "coherent J T x l"
  shows "reaction J T x (onCounterpartyReserved J T (crossTransfer J) (oID x)) l"
  unfolding onCounterpartyReserved_def
proof (rule reaction_state [OF assms(3)])
  fix l st assume c: "coherent J T x l" and st: "(stOffer st, stPhase st) = state_of T (oID x) l"
  have x: "stOffer st = x" using coherent_state [OF c] st by (metis fst_conv)
  show "reaction J T x (if stPhase st \<noteq> PhaseCounterpartyReserved then Return () else bind_prog (crossTransfer J (stOffer st))
      (\<lambda>r. case r of None \<Rightarrow> then_unit (appendPhase (oID x) EventSettled) (Return ())
        | Some e \<Rightarrow> then_unit (releaseProposer J (stOffer st)) (then_unit (releaseCounterparty J (stOffer st))
            (then_unit (appendCancelled T (oID x) (''settle: '' @ err_text T e)) (Return ()))))) l"
  proof (cases "stPhase st = PhaseCounterpartyReserved")
    case True
    then have v: "sview J T (oID x) ((\<lambda>_. [])(oProposer x := [give_move EventReserved x], oCounterparty x := [want_move EventReserved x]))
        (x, PhaseCounterpartyReserved) l"
      and pos: "itAmount (oGive x) \<ge> 0" "itAmount (oWant x) \<ge> 0" using coherent_phase(3) [OF c] st x by simp_all
    show ?thesis unfolding x appendPhase_def using True
      by simp (rule reaction_bind [OF rg_crossTransfer [OF assms(1,2) pos v]],
        auto simp: coherent_def intro!: reaction_append)
  qed (use c reaction_return in auto)
qed

lemma reaction_onAbort:
  assumes "inv_roundtrip J" "coherent J T x l"
  shows "reaction J T x (onAbort J T (oID x) cause) l"
  unfolding onAbort_def
proof (rule reaction_state [OF assms(2)])
  fix l st assume c: "coherent J T x l" and st: "(stOffer st, stPhase st) = state_of T (oID x) l"
  have x: "stOffer st = x" using coherent_state [OF c] st by (metis fst_conv)
  show "reaction J T x (if stPhase st \<noteq> PhaseProposerReserved then Return () else then_unit (releaseProposer J (stOffer st))
      (then_unit (appendCancelled T (oID x) (if cause = EventExpired then ''timed out awaiting counterparty'' else ''rejected by counterparty''))
        (Return ()))) l"
  proof (cases "stPhase st = PhaseProposerReserved")
    case True
    then have "sview J T (oID x) ((\<lambda>_. [])(oProposer x := [give_move EventReserved x])) (x, PhaseProposerReserved) l"
      "itAmount (oGive x) > 0" using coherent_phase(2) [OF c] st x by simp_all
    then show ?thesis unfolding x using True by (simp add: reaction_release [OF assms(1)])
  qed (use c reaction_return in auto)
qed

lemma reaction_react:
  assumes "inv_roundtrip J" "oProposer x \<noteq> oCounterparty x" "coherent J T x l" "evStream e = trade_stream (oID x)"
  shows "reaction J T x (choreo_react J T (crossTransfer J) e) l"
  using reaction_onProposed [OF assms(1,3)] reaction_onAccepted [OF assms(1-3)] reaction_onCounterpartyReserved [OF assms(1-3)]
    reaction_onAbort [OF assms(1,3)] reaction_return [OF assms(3)] assms(4)
  by (simp add: choreo_react_def trade_stream_def Let_def)

text \<open>One choreographer with all trades, among players who decide and use their inventories.\<close>

definition leaves :: "inv_json \<Rightarrow> trade_json \<Rightarrow> Offer set \<Rightarrow> Event list \<Rightarrow> Event list \<Rightarrow> bool" where
  "leaves J T X l l' \<longleftrightarrow> grows (solvent J) l l' \<and> (\<forall>x \<in> X. leave J T (oID x) l l')"

lemma leaves_order [simp]: "reflp (leaves J T X)" "transp (leaves J T X)"
proof -
  show "reflp (leaves J T X)" by (simp add: leaves_def leave_def reflp_def)
  show "transp (leaves J T X)" unfolding leaves_def using grows_order(2) [of "solvent J"] leave_order(2) [of J T]
    by (fast intro: transpI dest: transpD)
qed

lemma rg_choreo_apply:
  assumes rt: "inv_roundtrip J" and X: "inj_on oID X" "\<forall>x \<in> X. oProposer x \<noteq> oCounterparty x"
  shows "\<forall>x \<in> X. coherent J T x l \<Longrightarrow> \<forall>e \<in> set evs. take 6 (evStream e) = ''trade-'' \<longrightarrow> (\<exists>x \<in> X. evStream e = trade_stream (oID x))
    \<Longrightarrow> rg calm (leaves J T X) (own J (oID ` X) (trade_stream ` oID ` X)) (\<lambda>_ l. \<forall>x \<in> X. coherent J T x l)
      (choreo_apply J T (crossTransfer J) evs) l"
proof (induction evs arbitrary: l)
  case Nil
  then show ?case by (auto simp: leaves_def intro: coherent_leave)
next
  case (Cons e evs)
  let ?R = "leaves J T X" and ?G = "own J (oID ` X) (trade_stream ` oID ` X)" and ?all = "\<lambda>l. \<forall>x \<in> X. coherent J T x l"
  have stab: "?all l'" if "?R l l'" "?all l" for l l' using that by (auto simp: leaves_def intro: coherent_leave)
  have "rg calm ?R ?G (\<lambda>_ l. ?all l) (choreo_react J T (crossTransfer J) e) l"
  proof (cases "take 6 (evStream e) = ''trade-''")
    case True
    then obtain x where x: "x \<in> X" "evStream e = trade_stream (oID x)" using Cons.prems(2) by auto
    have "reaction J T x (choreo_react J T (crossTransfer J) e) l"
      using reaction_react [OF rt _ _ x(2)] X(2) x(1) Cons.prems(1) by blast
    then have "rg calm ?R (own J {oID x} {trade_stream (oID x)}) (\<lambda>_ l. coherent J T x l) (choreo_react J T (crossTransfer J) e) l"
      unfolding reaction_def by (rule rg_weaken) (use x(1) in \<open>auto simp: leaves_def\<close>)
    then have "rg calm ?R (own J {oID x} {trade_stream (oID x)}) (\<lambda>_ l. coherent J T x l \<and> (\<forall>y \<in> X - {x}. coherent J T y l))
        (choreo_react J T (crossTransfer J) e) l"
    proof (rule rg_frame)
      show "\<forall>y \<in> X - {x}. coherent J T y l" using Cons.prems(1) by blast
      show "\<forall>y \<in> X - {x}. coherent J T y l'" if "?R l l'" "\<forall>y \<in> X - {x}. coherent J T y l" for l l'
        using that by (auto simp: leaves_def intro: coherent_leave)
      show "\<forall>y \<in> X - {x}. coherent J T y l'" if o1: "own J {oID x} {trade_stream (oID x)} l l'" "\<forall>y \<in> X - {x}. coherent J T y l" for l l'
      proof
        fix y assume y: "y \<in> X - {x}"
        then have "oID y \<noteq> oID x" using X(1) x(1) by (auto dest: inj_onD)
        then have "leave J T (oID y) l l'" using own_leave [of J "{oID x}" l l' "oID y" T] o1(1) by simp
        then show "coherent J T y l'" using o1(2) y coherent_leave by blast
      qed
    qed
    then show ?thesis by (rule rg_weaken) (use x(1) in \<open>auto elim: own_mono\<close>)
  next
    case False
    then show ?thesis using Cons.prems(1) stab by (auto simp: choreo_react_def)
  qed
  then show ?case unfolding choreo_apply.simps by (rule rg_seq) (use Cons.IH Cons.prems(2) in auto)
qed

text \<open>The answers of the counterparties, in any number.\<close>

definition answer :: "string \<times> string \<Rightarrow> unit prog" where
  "answer d = then_unit (append_trade (fst d) (snd d) []) (Return ())"

lemma rg_answer:
  assumes "snd d \<in> {EventAccepted, EventRejected, EventExpired}"
  shows "rg calm (grows (solvent J)) (\<lambda>l l'. own J {} {trade_stream (fst d)} l l' \<and> (\<forall>t. state_of T t l' = state_of T t l)) (\<lambda>_ _. True) (answer d) l"
proof -
  obtain t ty where d: "d = (t, ty)" by (cases d)
  have "own J {} {trade_stream t} l (l @ stamp now (trade_stream t) [\<lparr>edType = ty, edData = []\<rparr>] l)
     \<and> (\<forall>u. state_of T u (l @ stamp now (trade_stream t) [\<lparr>edType = ty, edData = []\<rparr>] l) = state_of T u l)" for l now
  proof (intro conjI allI)
    let ?s = "stamp now (trade_stream t) [\<lparr>edType = ty, edData = []\<rparr>] l"
    have i: "of_stream (inv_stream p) ?s = []" for p by (simp add: stamp_stream trade_stream_not_inv(2) [symmetric])
    then have "tmoves J u p ?s = []" for u p by (simp add: tmoves_def)
    moreover have "solvent J (l @ ?s) = solvent J l" by (simp add: solvent_def i)
    ultimately show "own J {} {trade_stream t} l (l @ ?s)" by (simp add: own_def grows_def stamp_stream)
    show "state_of T u (l @ ?s) = state_of T u l" for u
    proof (cases "u = t")
      case True
      then show ?thesis using assms by (auto simp: d state_of_stamp)
    next
      case False
      then show ?thesis by (simp add: state_of_def stamp_stream)
    qed
  qed
  then show ?thesis by (simp add: answer_def then_unit_def append_trade_def d trade_stream_def)
qed


text \<open>Handed the proposal twice, then the acceptance and the second reservation, with both players gathering first.\<close>

definition barter_proposed :: "Event list" where
  "barter_proposed = stamp 0 (trade_stream ''t'') [\<lparr>edType = EventProposed, edData = joffer plain_trade barter\<rparr>] []"

definition barter_events :: "Event list" where
  "barter_events = map (\<lambda>y. (hd barter_proposed)\<lparr>evType := y\<rparr>) [EventProposed, EventProposed, EventAccepted, EventCounterpartyReserved]"

definition choreo_threads :: "unit prog list" where
  "choreo_threads = choreo_apply plain_inv plain_trade (crossTransfer plain_inv) barter_events # map answer []
     @ map (\<lambda>a. then_unit (op_prog plain_inv a) (Return ())) harvest"

definition choreo_turns :: "(nat \<times> circumstance) list" where
  "choreo_turns = (1, 0, None) # (2, 0, None) # replicate 24 (0, 0, None)"

lemmas choreo_run = then_unit_def Propose_def choreo_Accept_def choreo_react_def onProposed_def onAccepted_def
  onCounterpartyReserved_def onAbort_def trade_state_def Status_def Let_def trade_fold_def trade_apply_def no_state_def no_item_def

lemma barter_choreographed:
  "case sched log_call choreo_turns (choreo_threads, barter_proposed) of
     (ps, l) \<Rightarrow> ps ! 0 = Return () \<and> snd (state_of plain_trade ''t'' l) = PhaseSettled"
  by (simp add: choreo_turns_def choreo_threads_def barter_events_def barter_proposed_def barter_def harvest_def choreo_run saga_run
      state_of_def eval_nat_numeral)

lemma barter_proposed_start: "solvent plain_inv barter_proposed" "coherent plain_inv plain_trade barter barter_proposed"
proof -
  have "of_stream (inv_stream p) barter_proposed = []" for p
    by (simp add: barter_proposed_def stamp_one of_stream_def inv_stream_def trade_stream_def)
  then show s: "solvent plain_inv barter_proposed" and m: "coherent plain_inv plain_trade barter barter_proposed"
    by (simp_all add: solvent_def Let_def inflow_def reservations_def coherent_def sview_def tmoves_def)
      (simp_all add: barter_proposed_def barter_def stamp_one state_of_def of_stream_def trade_stream_def choreo_run trade_types)
qed


section \<open>Where trades are not atomic\<close>

text \<open>A call of the transfer fails after the counterparty has received: the compensation gives the goods back
  to the proposer all the same, and there are two logs where one was gathered.\<close>

lemma settle_failure_duplicates:
  "case sched log_call ((1, 0, None) # (2, 0, None) # replicate 11 (0, 0, None) @ (0, 0, Some ErrClosed) # replicate 5 (0, 0, None))
       (map (trader plain_inv plain_trade AutoAccept) [barter] @ map (other_op plain_inv) harvest, []) of
     (ps, l) \<Rightarrow> avail plain_inv ''w'' (of_stream (inv_stream ''a'') l) = 1 \<and> avail plain_inv ''w'' (of_stream (inv_stream ''b'') l) = 1
       \<and> stPhase (trade_fold plain_trade (of_stream (trade_stream ''t'') l)) = PhaseCancelled"
  by (simp add: barter_def harvest_def saga_run eval_nat_numeral avail_of_def trade_fold_def trade_apply_def no_state_def)

text \<open>The choreographer crashes between giving the proposer's goods back and noting the cancellation; when it
  runs again the counterparty has the goods it lacked, and the trade settles with goods already returned.\<close>

definition crash_threads :: "unit prog list" where
  "crash_threads = [then_unit (Propose plain_trade barter) (Return ()), then_unit (choreo_Accept ''t'') (Return ()),
     then_unit (choreographer 3 plain_inv plain_trade (crossTransfer plain_inv) 0) (Return ()),
     then_unit (op_prog plain_inv (harvest ! 0)) (Return ()), then_unit (op_prog plain_inv (harvest ! 1)) (Return ()),
     then_unit (choreographer 9 plain_inv plain_trade (crossTransfer plain_inv) 0) (Return ())]"

lemma choreographer_crash_duplicates:
  "case sched log_call (map (\<lambda>i. (i, 0, None)) ([3, 0, 1] @ replicate 9 2 @ [4] @ replicate 40 5)) (crash_threads, []) of
     (ps, l) \<Rightarrow> avail plain_inv ''w'' (of_stream (inv_stream ''a'') l) = 1 \<and> avail plain_inv ''w'' (of_stream (inv_stream ''b'') l) = 1
       \<and> stPhase (trade_fold plain_trade (of_stream (trade_stream ''t'') l)) = PhaseSettled"
  by (simp add: crash_threads_def barter_def harvest_def choreo_run saga_run eval_nat_numeral avail_of_def)

end
