(* ===== verification/Float64.thy ===== *)
theory Float64
  imports Complex_Main "HOL-Library.Log_Nat"
begin

text \<open>
  Go's \<open>float64\<close>: IEEE 754 double precision, rounding to the nearest value and to even on ties. A finite
  value is the rational it denotes; the two zeros are one value, since the programs divide by nothing that
  can be zero. Products are rounded before they are added, as on amd64 (elsewhere the compiler may fuse the
  two operations). \<open>fhypot\<close> is the algorithm of \<open>math.Hypot\<close>. What the components use of it: rounding
  keeps whole numbers, loses at most half a unit in the last place, and stays finite where nothing is large.
\<close>

datatype f64 = NaN | Inf bool | Fin rat

section \<open>Rounding\<close>

text \<open>The binary exponent of a positive number.\<close>

definition ilog2 :: "rat \<Rightarrow> int" where
  "ilog2 q = (let (a, b) = quotient_of q; k = int (floorlog 2 (nat a)) - int (floorlog 2 (nat b))
     in if 2 powi k \<le> q then k else k - 1)"

lemma ilog2_bounds:
  assumes "q > 0"
  shows "2 powi ilog2 q \<le> q" "q < 2 powi (ilog2 q + 1)"
proof -
  obtain a b where ab: "quotient_of q = (a, b)" by fastforce
  have b: "b > 0" and q: "q = of_int a / of_int b" using quotient_of_denom_pos [OF ab] quotient_of_div [OF ab] by auto
  then have a: "a > 0" using assms by (simp add: zero_less_divide_iff)
  let ?m = "floorlog 2 (nat a)" and ?n = "floorlog 2 (nat b)"
  have s: "2 ^ (?m - 1) \<le> nat a" "nat a < 2 ^ ?m" "2 ^ (?n - 1) \<le> nat b" "nat b < 2 ^ ?n"
    using floorlog_bounds [of "nat a" 2] floorlog_bounds [of "nat b" 2] a b by simp_all
  have pos: "?m > 0" "?n > 0" using a b by (simp_all add: floorlog_def)
  have up: "(2 :: rat) powi (int ?n) > of_int b" "(2 :: rat) powi (int ?m) > of_int a"
    using s(2,4) a b by (simp_all add: nat_less_iff flip: of_int_power)
  have lo: "(2 :: rat) powi (int ?n) \<le> 2 * of_int b" "(2 :: rat) powi (int ?m) \<le> 2 * of_int a"
  proof -
    have "2 ^ ?n \<le> 2 * b" "2 ^ ?m \<le> 2 * a"
      using s(1,3) pos a b by (cases ?n; cases ?m; simp add: le_nat_iff)+
    then show "(2 :: rat) powi (int ?n) \<le> 2 * of_int b" "(2 :: rat) powi (int ?m) \<le> 2 * of_int a"
      by (metis of_int_le_iff of_int_mult of_int_numeral of_int_power power_int_of_nat)+
  qed
  let ?k = "int ?m - int ?n"
  have k: "(2 :: rat) powi ?k = 2 powi (int ?m) / 2 powi (int ?n)" by (simp add: power_int_diff)
  have "q < 2 powi (?k + 1)"
  proof -
    have "q * 2 powi (int ?n) \<le> q * (2 * of_int b)" using lo(1) assms by (intro mult_left_mono) simp_all
    also have "\<dots> = 2 * of_int a" using b q by simp
    also have "\<dots> < 2 * 2 powi (int ?m)" using up(2) by simp
    finally have "q < 2 * 2 powi (int ?m) / 2 powi (int ?n)" by (simp add: pos_less_divide_eq)
    also have "\<dots> = 2 powi (?k + 1)" by (simp add: power_int_add k)
    finally show ?thesis .
  qed
  moreover have "2 powi (?k - 1) \<le> q"
  proof -
    have "(2 :: rat) powi (?k - 1) = 2 powi (int ?m) / 2 powi (int ?n) / 2" by (simp add: power_int_diff k)
    also have "\<dots> \<le> of_int a / 2 powi (int ?n)" using lo(2) by (simp add: field_simps)
    also have "\<dots> \<le> q" using up(1) a b q by (simp add: frac_le)
    finally show ?thesis .
  qed
  ultimately show "2 powi ilog2 q \<le> q" "q < 2 powi (ilog2 q + 1)" by (auto simp: ilog2_def ab Let_def)
qed

definition round_even :: "rat \<Rightarrow> int" where
  "round_even q = (let f = \<lfloor>q\<rfloor>; r = q - of_int f in
     if r < 1 / 2 then f else if r > 1 / 2 then f + 1 else if even f then f else f + 1)"

lemma round_even_near: "\<bar>of_int (round_even q) - q\<bar> \<le> 1 / 2"
proof -
  have "of_int \<lfloor>q\<rfloor> \<le> q" "q < of_int \<lfloor>q\<rfloor> + 1" by linarith+
  then show ?thesis by (auto simp: round_even_def Let_def abs_le_iff)
qed

lemma round_even_int [simp]: "round_even (of_int n) = n"
  by (simp add: round_even_def)

text \<open>The least positive double, the bound beyond which there is none, and the distance of neighbours
  around a positive number.\<close>

definition tiny :: rat where "tiny = 2 powi (- 1074)"

definition huge :: rat where "huge = 2 ^ 1024"

definition ulp :: "rat \<Rightarrow> rat" where
  "ulp a = 2 powi (max (ilog2 a) (- 1022) - 52)"

definition fround :: "rat \<Rightarrow> f64" where
  "fround q = (if q = 0 then Fin 0 else
     let a = \<bar>q\<bar>; v = of_int (round_even (a / ulp a)) * ulp a in
     if v \<ge> huge then Inf (q < 0) else Fin (if q < 0 then - v else v))"

lemma tiny_bounds: "0 < tiny" "tiny \<le> 2 powi (- 60)" and huge_bound: "2 ^ 70 \<le> huge"
  unfolding tiny_def huge_def by (simp, rule power_int_increasing, simp, simp, rule power_increasing) simp_all

lemma ulp_pos: "ulp a > 0"
  by (simp add: ulp_def)

lemma ulp_le:
  assumes "a > 0"
  shows "ulp a \<le> a / 2 ^ 52 + tiny"
proof (cases "ilog2 a \<ge> - 1022")
  case True
  have "(2 :: rat) powi (ilog2 a - 52) \<le> a / 2 ^ 52" using ilog2_bounds(1) [OF assms] by (simp add: power_int_diff divide_right_mono)
  then show ?thesis using True tiny_bounds(1) by (simp only: ulp_def max_absorb1)
next
  case False
  then have "ulp a = tiny" by (simp only: ulp_def max_absorb2) (simp add: tiny_def)
  then show ?thesis using assms by simp
qed

lemma fround_near:
  assumes "fround q = Fin r"
  shows "\<bar>r - q\<bar> \<le> \<bar>q\<bar> / 2 ^ 53 + tiny / 2"
proof (cases "q = 0")
  case False
  let ?u = "ulp \<bar>q\<bar>" and ?m = "of_int (round_even (\<bar>q\<bar> / ulp \<bar>q\<bar>)) :: rat"
  have "\<bar>?m * ?u - \<bar>q\<bar>\<bar> = \<bar>?m - \<bar>q\<bar> / ?u\<bar> * ?u"
  proof -
    have "?m * ?u - \<bar>q\<bar> = (?m - \<bar>q\<bar> / ?u) * ?u" using ulp_pos [of "\<bar>q\<bar>"] by (simp add: left_diff_distrib)
    then show ?thesis using ulp_pos [of "\<bar>q\<bar>"] by (simp only: abs_mult abs_of_pos)
  qed
  also have "\<dots> \<le> 1 / 2 * ?u" using round_even_near ulp_pos less_imp_le by (intro mult_right_mono) auto
  also have "\<dots> \<le> \<bar>q\<bar> / 2 ^ 53 + tiny / 2" using ulp_le [of "\<bar>q\<bar>"] False by simp
  finally show ?thesis using assms False by (auto simp: fround_def Let_def split: if_splits)
qed (use assms tiny_bounds(1) in \<open>simp add: fround_def\<close>)

lemma fround_finite:
  assumes "\<bar>q\<bar> \<le> 2 ^ 60"
  obtains r where "fround q = Fin r"
proof (cases "q = 0")
  case False
  let ?u = "ulp \<bar>q\<bar>" and ?m = "of_int (round_even (\<bar>q\<bar> / ulp \<bar>q\<bar>)) :: rat"
  have "?m \<le> \<bar>q\<bar> / ?u + 1 / 2" using round_even_near [of "\<bar>q\<bar> / ?u"] by linarith
  then have "?m * ?u \<le> (\<bar>q\<bar> / ?u + 1 / 2) * ?u" using ulp_pos less_imp_le by (intro mult_right_mono) auto
  also have "\<dots> = \<bar>q\<bar> + ?u / 2" using ulp_pos [of "\<bar>q\<bar>"] by (simp add: field_simps)
  also have "\<dots> < huge" using ulp_le [of "\<bar>q\<bar>"] tiny_bounds(2) huge_bound assms False by (simp add: power_int_minus)
  finally show ?thesis using that False by (auto simp: fround_def Let_def)
qed (use that in \<open>simp add: fround_def\<close>)

lemma powi2_less: "(2 :: rat) powi m < 2 powi n \<Longrightarrow> m < n"
  using power_int_increasing [of n m "2 :: rat"] by (cases "m < n") auto

lemma fround_int:
  assumes "\<bar>n\<bar> < 2 ^ 53"
  shows "fround (of_int n) = Fin (of_int n)"
proof (cases "n = 0")
  case False
  let ?q = "of_int \<bar>n\<bar> :: rat"
  have q: "?q > 0" "?q < 2 ^ 53" "1 \<le> ?q" using False assms by simp_all
  have "(2 :: rat) powi ilog2 ?q < 2 powi 53" using ilog2_bounds(1) [OF q(1)] q(2) by simp
  then have e: "ilog2 ?q \<le> 52" using powi2_less by fastforce
  have "(2 :: rat) powi 0 < 2 powi (ilog2 ?q + 1)" using ilog2_bounds(2) [OF q(1)] q(3) by simp
  then have e0: "ilog2 ?q \<ge> 0" using powi2_less by fastforce
  define k where "k = nat (52 - ilog2 ?q)"
  have "max (ilog2 ?q) (- 1022) - 52 = - int k" using e e0 by (simp add: k_def)
  then have u: "ulp ?q = 1 / 2 ^ k" by (simp only: ulp_def power_int_minus power_int_of_nat inverse_eq_divide)
  have "?q / ulp ?q = of_int (\<bar>n\<bar> * 2 ^ k)" unfolding u by simp
  then have "of_int (round_even (?q / ulp ?q)) * ulp ?q = of_int (\<bar>n\<bar> * 2 ^ k) * (1 / 2 ^ k)" by (simp only: round_even_int u)
  also have "\<dots> = ?q" by simp
  finally have v: "of_int (round_even (?q / ulp ?q)) * ulp ?q = ?q" .
  have "\<not> ?q \<ge> huge" using q(2) huge_bound by simp
  moreover have q': "\<bar>of_int n\<bar> = ?q" by simp
  have "fround (of_int n) = (if (of_int n :: rat) = 0 then Fin 0 else
      if ?q \<ge> huge then Inf ((of_int n :: rat) < 0) else Fin (if (of_int n :: rat) < 0 then - ?q else ?q))"
    unfolding fround_def Let_def q' v ..
  ultimately show ?thesis using False by (cases "n < 0") simp_all
qed (simp add: fround_def)

lemma fround_overflow:
  assumes "q \<ge> huge"
  shows "fround q = Inf False"
proof -
  have q: "q > 0" using assms huge_bound by (simp add: less_le_trans [of 0 "2 ^ 70"] order_trans)
  have "(2 :: rat) powi 1024 \<le> q" using assms by (simp only: huge_def power_int_numeral)
  then have "(2 :: rat) powi 1024 < 2 powi (ilog2 q + 1)" using ilog2_bounds(2) [OF q] by (rule le_less_trans)
  then have e: "ilog2 q \<ge> 1024" using powi2_less by fastforce
  then have u: "ulp q = 2 powi ilog2 q / 2 ^ 52" by (simp only: ulp_def) (simp add: power_int_diff)
  have "(2 :: rat) ^ 52 \<le> q / ulp q" using ilog2_bounds(1) [OF q] by (simp add: u le_divide_eq)
  then have "2 ^ 52 \<le> \<lfloor>q / ulp q\<rfloor>" by (simp add: le_floor_iff)
  then have "2 ^ 52 \<le> round_even (q / ulp q)" by (auto simp: round_even_def Let_def)
  then have "(2 ^ 52 :: rat) \<le> of_int (round_even (q / ulp q))" by (metis of_int_le_iff of_int_numeral of_int_power)
  then have "2 ^ 52 * ulp q \<le> of_int (round_even (q / ulp q)) * ulp q" using ulp_pos less_imp_le by (intro mult_right_mono) auto
  moreover have "(2 :: rat) powi 1024 \<le> 2 powi ilog2 q" using e by (intro power_int_increasing) simp_all
  then have "huge \<le> 2 ^ 52 * ulp q" by (simp only: huge_def u power_int_numeral) simp
  ultimately show ?thesis using q by (simp add: fround_def Let_def)
qed

lemma ilog2_eq: "2 powi k \<le> q \<Longrightarrow> q < 2 powi (k + 1) \<Longrightarrow> ilog2 q = k"
proof -
  assume q: "2 powi k \<le> q" "q < 2 powi (k + 1)"
  have "q > 0" using less_le_trans [OF _ q(1), of 0] by simp
  from ilog2_bounds [OF this] q have "(2 :: rat) powi k < 2 powi (ilog2 q + 1)" "(2 :: rat) powi ilog2 q < 2 powi (k + 1)" by linarith+
  then show ?thesis using powi2_less [of k "ilog2 q + 1"] powi2_less [of "ilog2 q" "k + 1"] by simp
qed

lemma round_even_eq: "2 * \<bar>x - of_int m\<bar> < 1 \<Longrightarrow> round_even x = m"
proof -
  assume "2 * \<bar>x - of_int m\<bar> < 1"
  then have "\<bar>x - of_int m\<bar> < 1 / 2" by (simp add: mult.commute)
  then have x: "of_int m - 1 / 2 < x" "x < of_int m + 1 / 2" unfolding abs_less_iff by linarith+
  show ?thesis
  proof (cases "x < of_int m")
    case True
    then have "\<lfloor>x\<rfloor> = m - 1" using x by (simp add: floor_eq_iff)
    then show ?thesis using x by (simp add: round_even_def Let_def)
  next
    case False
    then have "\<lfloor>x\<rfloor> = m" using x by (simp add: floor_eq_iff)
    then show ?thesis using x by (simp add: round_even_def Let_def)
  qed
qed

text \<open>Rounding one number: its binary exponent and the nearest whole number of units in the last place.\<close>

lemma fround_pos:
  assumes "2 powi k \<le> q" "q < 2 powi (k + 1)" "- 1022 \<le> k" "k \<le> 60" "2 * \<bar>q / 2 powi (k - 52) - of_int m\<bar> < 1"
  shows "fround q = Fin (of_int m * 2 powi (k - 52))" "fround (- q) = Fin (- (of_int m * 2 powi (k - 52)))"
proof -
  have q: "q > 0" using less_le_trans [OF _ assms(1), of 0] by simp
  have u: "ulp q = 2 powi (k - 52)" using ilog2_eq [OF assms(1,2)] assms(3) by (simp add: ulp_def)
  have r: "round_even (q / ulp q) = m" unfolding u by (rule round_even_eq [OF assms(5)])
  have "\<bar>q\<bar> \<le> 2 ^ 61"
  proof -
    have "q < 2 powi 61" using assms(2) power_int_increasing [of "k + 1" 61 "2 :: rat"] assms(4) by simp
    then show ?thesis using q by simp
  qed
  have "of_int m * 2 powi (k - 52) \<le> q + ulp q"
  proof -
    have "of_int m \<le> q / ulp q + 1"
    proof -
      have "\<bar>q / ulp q - of_int m\<bar> < 1 / 2" using assms(5) by (simp add: u mult.commute)
      then show ?thesis unfolding abs_less_iff by linarith
    qed
    then have "of_int m * ulp q \<le> (q / ulp q + 1) * ulp q" using ulp_pos less_imp_le by (intro mult_right_mono) auto
    then show ?thesis using ulp_pos [of q] by (simp add: u distrib_right)
  qed
  also have "\<dots> < huge" using ulp_le [OF q] tiny_bounds(2) huge_bound \<open>\<bar>q\<bar> \<le> 2 ^ 61\<close> q by (simp add: power_int_minus)
  finally have "\<not> of_int m * 2 powi (k - 52) \<ge> huge" by simp
  then show "fround q = Fin (of_int m * 2 powi (k - 52))" "fround (- q) = Fin (- (of_int m * 2 powi (k - 52)))"
    using q r by (simp_all add: fround_def Let_def u)
qed

lemma fround_numeral: "(numeral w :: int) < 2 ^ 53 \<Longrightarrow> fround (numeral w) = Fin (numeral w)"
  using fround_int [of "numeral w"] by simp

section \<open>Arithmetic\<close>

fun fneg :: "f64 \<Rightarrow> f64" where
  "fneg (Fin a) = Fin (- a)"
| "fneg (Inf s) = Inf (\<not> s)"
| "fneg NaN = NaN"

fun fabs :: "f64 \<Rightarrow> f64" where
  "fabs (Fin a) = Fin \<bar>a\<bar>"
| "fabs (Inf s) = Inf False"
| "fabs NaN = NaN"

fun fadd :: "f64 \<Rightarrow> f64 \<Rightarrow> f64" where
  "fadd (Fin a) (Fin b) = fround (a + b)"
| "fadd (Inf s) (Inf t) = (if s = t then Inf s else NaN)"
| "fadd (Inf s) (Fin b) = Inf s"
| "fadd (Fin a) (Inf t) = Inf t"
| "fadd _ _ = NaN"

definition fsub :: "f64 \<Rightarrow> f64 \<Rightarrow> f64" where
  "fsub x y = fadd x (fneg y)"

fun fmul :: "f64 \<Rightarrow> f64 \<Rightarrow> f64" where
  "fmul (Fin a) (Fin b) = fround (a * b)"
| "fmul (Inf s) (Inf t) = Inf (s \<noteq> t)"
| "fmul (Inf s) (Fin b) = (if b = 0 then NaN else Inf (s \<noteq> (b < 0)))"
| "fmul (Fin a) (Inf t) = (if a = 0 then NaN else Inf (t \<noteq> (a < 0)))"
| "fmul _ _ = NaN"

fun fdiv :: "f64 \<Rightarrow> f64 \<Rightarrow> f64" where
  "fdiv (Fin a) (Fin b) = (if b = 0 then if a = 0 then NaN else Inf (a < 0) else fround (a / b))"
| "fdiv (Inf s) (Fin b) = Inf (s \<noteq> (b < 0))"
| "fdiv (Fin a) (Inf t) = Fin 0"
| "fdiv _ _ = NaN"

fun flt :: "f64 \<Rightarrow> f64 \<Rightarrow> bool" where
  "flt (Fin a) (Fin b) \<longleftrightarrow> a < b"
| "flt (Inf s) (Inf t) \<longleftrightarrow> s \<and> \<not> t"
| "flt (Inf s) (Fin b) \<longleftrightarrow> s"
| "flt (Fin a) (Inf t) \<longleftrightarrow> \<not> t"
| "flt _ _ \<longleftrightarrow> False"

fun feq :: "f64 \<Rightarrow> f64 \<Rightarrow> bool" where
  "feq NaN _ \<longleftrightarrow> False"
| "feq x y \<longleftrightarrow> x = y"

definition fle :: "f64 \<Rightarrow> f64 \<Rightarrow> bool" where
  "fle x y \<longleftrightarrow> flt x y \<or> feq x y"

text \<open>Conversions: of a whole number, and \<open>int(x)\<close>, which drops the fraction; what does not fit has on amd64
  the least integer as its value.\<close>

definition fint :: "int \<Rightarrow> f64" where
  "fint n = fround (of_int n)"

fun ftrunc :: "f64 \<Rightarrow> int" where
  "ftrunc (Fin a) = (let n = (if a < 0 then - \<lfloor>- a\<rfloor> else \<lfloor>a\<rfloor>) in if - (2 ^ 63) \<le> n \<and> n < 2 ^ 63 then n else - (2 ^ 63))"
| "ftrunc _ = - (2 ^ 63)"

section \<open>Square root and hypotenuse\<close>

text \<open>The integer square root, bit by bit; the quotient's root has 53 bits before the rounding point.\<close>

fun isqrt_bits :: "nat \<Rightarrow> int \<Rightarrow> int \<Rightarrow> int" where
  "isqrt_bits 0 t r = r"
| "isqrt_bits (Suc k) t r = (let r' = r + 2 ^ k in isqrt_bits k t (if r' * r' \<le> t then r' else r))"

lemma isqrt_bits_root:
  "0 \<le> r \<Longrightarrow> r * r \<le> t \<Longrightarrow> t < (r + 2 ^ k) * (r + 2 ^ k) \<Longrightarrow>
   (let s = isqrt_bits k t r in r \<le> s \<and> s * s \<le> t \<and> t < (s + 1) * (s + 1))"
proof (induction k arbitrary: r)
  case (Suc k)
  show ?case
  proof (cases "(r + 2 ^ k) * (r + 2 ^ k) \<le> t")
    case True
    have "r + 2 ^ k + 2 ^ k = r + 2 ^ Suc k" by simp
    then show ?thesis using Suc.IH [of "r + 2 ^ k"] Suc.prems True by (simp add: Let_def) (smt (verit) zero_le_power)
  next
    case False
    then show ?thesis using Suc.IH [of r] Suc.prems by (simp add: Let_def)
  qed
qed (simp add: Let_def)

fun fsqrt :: "f64 \<Rightarrow> f64" where
  "fsqrt (Fin a) = (if a < 0 then NaN else if a = 0 then Fin 0 else
     let u = 2 powi (ilog2 a div 2 - 52); t = a / (u * u); m = isqrt_bits 54 \<lfloor>t\<rfloor> 0; h = (of_int m + 1 / 2) * (of_int m + 1 / 2)
     in Fin (of_int (if t < h then m else if t > h then m + 1 else if even m then m else m + 1) * u))"
| "fsqrt (Inf s) = (if s then NaN else Inf False)"
| "fsqrt NaN = NaN"

definition fhypot :: "f64 \<Rightarrow> f64 \<Rightarrow> f64" where
  "fhypot x y = (let p = fabs x; q = fabs y in
     if p = Inf False \<or> q = Inf False then Inf False
     else if p = NaN \<or> q = NaN then NaN
     else let (p, q) = (if flt p q then (q, p) else (p, q)) in
       if feq p (fint 0) then fint 0
       else let q = fdiv q p in fmul p (fsqrt (fadd (fint 1) (fmul q q))))"

section \<open>Comparisons\<close>

lemma flt_irrefl [simp]: "\<not> flt x x"
  by (cases x) auto

lemma flt_asym: "flt x y \<Longrightarrow> \<not> flt y x"
  by (cases x; cases y) auto

lemma fint_small [simp]: "\<bar>n\<bar> < 2 ^ 53 \<Longrightarrow> fint n = Fin (of_int n)"
  by (simp only: fint_def fround_int)

lemma fsqrt_2: "fsqrt (Fin 2) = Fin (6369051672525773 / 2 ^ 52)"
  by code_simp

text \<open>Both sides of a hypotenuse can be doubles although its length is beyond them.\<close>

definition far :: rat where "far = 3 / 4 * huge"

lemma fhypot_overflow: "fhypot (Fin far) (Fin far) = Inf False"
proof -
  have h: "far > 0" using less_le_trans [OF _ huge_bound, of 0] by (simp add: far_def)
  have "fdiv (Fin far) (Fin far) = Fin 1" using h fround_int [of 1] by simp
  moreover have "fmul (Fin 1) (Fin 1) = Fin 1" "fadd (Fin 1) (Fin 1) = Fin 2" using fround_int [of 1] fround_int [of 2] by simp_all
  moreover have "fmul (Fin far) (Fin (6369051672525773 / 2 ^ 52)) = Inf False"
  proof -
    have "huge \<le> far * (6369051672525773 / 2 ^ 52)" using h by (simp add: far_def)
    then show ?thesis by (simp only: fmul.simps fround_overflow)
  qed
  ultimately show ?thesis using h by (simp add: fhypot_def Let_def fsqrt_2 del: fdiv.simps fmul.simps fadd.simps fsqrt.simps)
qed

text \<open>\<open>clamp\<close>, which two packages write alike.\<close>

definition clamp :: "f64 \<Rightarrow> f64 \<Rightarrow> f64 \<Rightarrow> f64" where
  "clamp v lo hi = (if flt v lo then lo else if flt hi v then hi else v)"

lemma clamp_within: "flt hi lo = False \<Longrightarrow> \<not> flt (clamp v lo hi) lo \<and> \<not> flt hi (clamp v lo hi)"
  by (simp add: clamp_def)

lemma clamp_fin:
  assumes "lo \<le> hi"
  obtains c where "clamp (Fin v) (Fin lo) (Fin hi) = Fin c" "lo \<le> c" "c \<le> hi"
  using assms that [of lo] that [of hi] that [of v] by (cases "v < lo"; cases "hi < v") (auto simp: clamp_def)

end
