(* ===== verification/Arena.thy ===== *)
theory Arena
  imports Float64 Text
begin

text \<open>
  An arena (\<open>services/arena/arena.go\<close>): one match, a fixed-rate simulation that drains its command queue once a
  tick. The queue is the bounded FIFO queue \<open>Ringbuf\<close> refines. Players are a list in the order of their
  identifiers, \<open>byID\<close> gives a player's place in it. What the tick hands to the snapshot receivers and to
  \<open>OnEnd\<close> is kept in the state as what has been delivered. Shown: a match ends, once, within its ticks; its
  state stays well formed, its players inside the field; nobody fires faster than the cooldown allows.
\<close>

section \<open>Data\<close>

definition Width :: f64 where "Width = fint 600"
definition Height :: f64 where "Height = fint 400"
definition TickRate :: int where "TickRate = 30"
definition dt :: f64 where "dt = fround (1 / 30)"
definition Speed :: f64 where "Speed = fint 220"
definition MaxHealth :: int where "MaxHealth = 100"
definition ProjectileSpeed :: f64 where "ProjectileSpeed = fint 420"
definition ProjectileRadius :: int where "ProjectileRadius = 5"
definition PlayerRadius :: int where "PlayerRadius = 14"
definition ProjectileDamage :: int where "ProjectileDamage = 12"
definition FireCooldownTick :: int where "FireCooldownTick = 10"
definition MatchTicks :: u64 where "MatchTicks = 2700"
definition inputCapacity :: nat where "inputCapacity = 1024"
definition maxDrainPerTick :: nat where "maxDrainPerTick = 256"

definition Mode1v1 :: string where "Mode1v1 = ''1v1''"
definition Mode2v2 :: string where "Mode2v2 = ''2v2''"

definition TeamSize :: "string \<Rightarrow> nat" where
  "TeamSize m = (if m = Mode2v2 then 2 else 1)"

text \<open>\<open>CmdOther\<close> is any other byte, which no case of the switch takes.\<close>

datatype CmdKind = CmdMove | CmdFire | CmdLeave | CmdOther

record Command =
  cPlayerID :: string
  cKind :: CmdKind
  cUp :: bool
  cDown :: bool
  cLeft :: bool
  cRight :: bool
  cAimX :: f64
  cAimY :: f64

text \<open>A receiver of snapshots is known by a number.\<close>

record PlayerSpec =
  psID :: string
  psName :: string
  psTeam :: int
  psSink :: "nat option"

record PlayerState =
  pvID :: string
  pvName :: string
  pvTeam :: int
  pvX :: f64
  pvY :: f64
  pvHealth :: int
  pvAlive :: bool

record ProjectileState =
  jvID :: u64
  jvTeam :: int
  jvX :: f64
  jvY :: f64

record Snapshot =
  snArenaID :: string
  snTick :: u64
  snRemainingMs :: int
  snPlayers :: "PlayerState list"
  snProjectiles :: "ProjectileState list"
  snOver :: bool
  snWinnerTeam :: int

record Result =
  rsArenaID :: string
  rsMode :: string
  rsWinnerTeam :: int
  rsTicks :: u64
  rsDamage :: "string \<rightharpoonup> int"
  rsSurvivors :: "string list"

record player =
  plSpec :: PlayerSpec
  plX :: f64
  plY :: f64
  plHealth :: int
  plIn :: Command
  plCooldown :: int
  plDamage :: int

definition alive :: "player \<Rightarrow> bool" where
  "alive p \<longleftrightarrow> plHealth p > 0"

record projectile =
  pjID :: u64
  pjTeam :: int
  pjOwner :: string
  pjX :: f64
  pjY :: f64
  pjVX :: f64
  pjVY :: f64

record Arena =
  arID :: string
  arMode :: string
  arInputs :: "Command list"
  arPlayers :: "player list"
  arByID :: "string \<rightharpoonup> nat"
  arProjectiles :: "projectile list"
  arNextProjID :: u64
  arTick :: u64
  arSnapshot :: Snapshot
  arResult :: "Result option"
  arSinks :: "string \<rightharpoonup> nat"
  arDropped :: int
  arStopped :: bool
  arFrames :: "((string \<rightharpoonup> nat) \<times> Snapshot) list"
  arEnded :: "Result list"

section \<open>Setting up\<close>

definition spawnPos :: "int \<Rightarrow> nat \<Rightarrow> f64 \<times> f64" where
  "spawnPos team idx = (if team = 1 then fsub Width (fint 80) else fint 80,
     if idx > 0 then fadd (fdiv Height (fint 2)) (fint 90) else fdiv Height (fint 2))"

definition no_command :: Command where
  "no_command = \<lparr>cPlayerID = [], cKind = CmdMove, cUp = False, cDown = False, cLeft = False, cRight = False, cAimX = fint 0, cAimY = fint 0\<rparr>"

text \<open>Each player takes the next place of the team's side.\<close>

fun place_players :: "(int \<Rightarrow> nat) \<Rightarrow> PlayerSpec list \<Rightarrow> player list" where
  "place_players counts [] = []"
| "place_players counts (s # ss) = (case spawnPos (psTeam s) (counts (psTeam s)) of (x, y) \<Rightarrow>
     \<lparr>plSpec = s, plX = x, plY = y, plHealth = MaxHealth, plIn = no_command, plCooldown = 0, plDamage = 0\<rparr>
     # place_players (counts(psTeam s := counts (psTeam s) + 1)) ss)"

text \<open>The last entry of an identifier wins, as in a map built by assignments.\<close>

definition index_players :: "player list \<Rightarrow> string \<rightharpoonup> nat" where
  "index_players ps = map_of (rev (zip (map (psID \<circ> plSpec) ps) [0..<length ps]))"

definition remainingMs :: "u64 \<Rightarrow> int" where
  "remainingMs tick = (if tick \<ge> MatchTicks then 0
     else ftrunc (fmul (fdiv (fint (uint (MatchTicks - tick))) (fint TickRate)) (fint 1000)))"

definition snapshot_of :: "bool \<Rightarrow> int \<Rightarrow> Arena \<Rightarrow> Snapshot" where
  "snapshot_of over winner a = \<lparr>snArenaID = arID a, snTick = arTick a, snRemainingMs = remainingMs (arTick a),
     snPlayers = map (\<lambda>p. \<lparr>pvID = psID (plSpec p), pvName = psName (plSpec p), pvTeam = psTeam (plSpec p), pvX = plX p, pvY = plY p,
       pvHealth = plHealth p, pvAlive = alive p\<rparr>) (arPlayers a),
     snProjectiles = map (\<lambda>j. \<lparr>jvID = pjID j, jvTeam = pjTeam j, jvX = pjX j, jvY = pjY j\<rparr>) (arProjectiles a),
     snOver = over, snWinnerTeam = winner\<rparr>"

definition publishWith :: "bool \<Rightarrow> int \<Rightarrow> Arena \<Rightarrow> Arena" where
  "publishWith over winner a = (let s = snapshot_of over winner a in a\<lparr>arSnapshot := s, arFrames := arFrames a @ [(arSinks a, s)]\<rparr>)"

definition no_snapshot :: Snapshot where
  "no_snapshot = \<lparr>snArenaID = [], snTick = 0, snRemainingMs = 0, snPlayers = [], snProjectiles = [], snOver = False, snWinnerTeam = 0\<rparr>"

definition NewArena :: "string \<Rightarrow> string \<Rightarrow> PlayerSpec list \<Rightarrow> Arena" where
  "NewArena i mode specs = (let ps = sort_key (psID \<circ> plSpec) (place_players (\<lambda>_. 0) specs) in
     publishWith False (- 1) \<lparr>arID = i, arMode = mode, arInputs = [], arPlayers = ps, arByID = index_players ps, arProjectiles = [],
       arNextProjID = 0, arTick = 0, arSnapshot = no_snapshot, arResult = None,
       arSinks = fold (\<lambda>s f. case psSink s of None \<Rightarrow> f | Some k \<Rightarrow> f(psID s \<mapsto> k)) specs Map.empty,
       arDropped = 0, arStopped = False, arFrames = [], arEnded = []\<rparr>)"

section \<open>A tick\<close>

definition Push :: "Command \<Rightarrow> Arena \<Rightarrow> Arena \<times> bool" where
  "Push c a = (if length (arInputs a) < inputCapacity then (a\<lparr>arInputs := arInputs a @ [c]\<rparr>, True)
     else (a\<lparr>arDropped := i64 (arDropped a + 1)\<rparr>, False))"

definition arena_fire :: "nat \<Rightarrow> Command \<Rightarrow> Arena \<Rightarrow> Arena" where
  "arena_fire k c a = (let p = arPlayers a ! k in
     if \<not> alive p \<or> plCooldown p > 0 then a
     else let n = fhypot (cAimX c) (cAimY c) in
       if feq n (fint 0) then a
       else let dx = fdiv (cAimX c) n; dy = fdiv (cAimY c) n in
         a\<lparr>arPlayers := (arPlayers a)[k := p\<lparr>plCooldown := FireCooldownTick\<rparr>], arNextProjID := arNextProjID a + 1,
           arProjectiles := arProjectiles a @ [\<lparr>pjID = arNextProjID a + 1, pjTeam = psTeam (plSpec p), pjOwner = psID (plSpec p),
             pjX = plX p, pjY = plY p, pjVX = fmul dx ProjectileSpeed, pjVY = fmul dy ProjectileSpeed\<rparr>]\<rparr>)"

definition take_command :: "Command \<Rightarrow> Arena \<Rightarrow> Arena" where
  "take_command c a = (case arByID a (cPlayerID c) of
     None \<Rightarrow> a
   | Some k \<Rightarrow> (case cKind c of
       CmdMove \<Rightarrow> a\<lparr>arPlayers := (arPlayers a)[k := (arPlayers a ! k)\<lparr>plIn := c\<rparr>]\<rparr>
     | CmdFire \<Rightarrow> arena_fire k c a
     | CmdLeave \<Rightarrow> a\<lparr>arPlayers := (arPlayers a)[k := (arPlayers a ! k)\<lparr>plHealth := 0\<rparr>]\<rparr>
     | CmdOther \<Rightarrow> a))"

fun drainInputs :: "nat \<Rightarrow> Arena \<Rightarrow> Arena" where
  "drainInputs 0 a = a"
| "drainInputs (Suc n) a = (case arInputs a of [] \<Rightarrow> a | c # cs \<Rightarrow> drainInputs n (take_command c (a\<lparr>arInputs := cs\<rparr>)))"

definition velocity :: "bool \<Rightarrow> bool \<Rightarrow> f64" where
  "velocity less_key more_key = (let v = (if less_key then fsub (fint 0) Speed else fint 0) in if more_key then fadd v Speed else v)"

definition move_player :: "player \<Rightarrow> player" where
  "move_player p0 = (let p = (if plCooldown p0 > 0 then p0\<lparr>plCooldown := plCooldown p0 - 1\<rparr> else p0) in
     if \<not> alive p then p
     else p\<lparr>plX := clamp (fadd (plX p) (fmul (velocity (cLeft (plIn p)) (cRight (plIn p))) dt)) (fint PlayerRadius) (fint (600 - PlayerRadius)),
            plY := clamp (fadd (plY p) (fmul (velocity (cUp (plIn p)) (cDown (plIn p))) dt)) (fint PlayerRadius) (fint (400 - PlayerRadius))\<rparr>)"

definition hits :: "projectile \<Rightarrow> player \<Rightarrow> bool" where
  "hits j p \<longleftrightarrow> alive p \<and> psTeam (plSpec p) \<noteq> pjTeam j
     \<and> fle (fhypot (fsub (plX p) (pjX j)) (fsub (plY p) (pjY j))) (fint (PlayerRadius + ProjectileRadius))"

text \<open>The first player hit loses health; the owner is credited if known.\<close>

definition strike :: "nat \<Rightarrow> projectile \<Rightarrow> Arena \<Rightarrow> Arena" where
  "strike k j a = (let p = arPlayers a ! k; ps = (arPlayers a)[k := p\<lparr>plHealth := max 0 (plHealth p - ProjectileDamage)\<rparr>] in
     a\<lparr>arPlayers := (case arByID a (pjOwner j) of None \<Rightarrow> ps
        | Some h \<Rightarrow> ps[h := (ps ! h)\<lparr>plDamage := plDamage (ps ! h) + ProjectileDamage\<rparr>])\<rparr>)"

fun first_hit :: "projectile \<Rightarrow> nat \<Rightarrow> player list \<Rightarrow> nat option" where
  "first_hit j k [] = None"
| "first_hit j k (p # ps) = (if hits j p then Some k else first_hit j (k + 1) ps)"

definition off_field :: "f64 \<Rightarrow> f64 \<Rightarrow> bool" where
  "off_field x y \<longleftrightarrow> flt x (fint 0) \<or> flt Width x \<or> flt y (fint 0) \<or> flt Height y"

definition fly :: "projectile \<Rightarrow> projectile" where
  "fly j = j\<lparr>pjX := fadd (pjX j) (fmul (pjVX j) dt), pjY := fadd (pjY j) (fmul (pjVY j) dt)\<rparr>"

text \<open>The projectiles that stay, and the arena after those that hit.\<close>

fun fly_all :: "projectile list \<Rightarrow> Arena \<Rightarrow> projectile list \<times> Arena" where
  "fly_all [] a = ([], a)"
| "fly_all (j0 # js) a = (let j = fly j0 in
     if off_field (pjX j) (pjY j) then fly_all js a
     else case first_hit j 0 (arPlayers a) of
       Some k \<Rightarrow> fly_all js (strike k j a)
     | None \<Rightarrow> (case fly_all js a of (kept, a') \<Rightarrow> (j # kept, a')))"

definition arena_step :: "Arena \<Rightarrow> Arena" where
  "arena_step a = (case fly_all (arProjectiles a) (a\<lparr>arPlayers := map move_player (arPlayers a)\<rparr>) of
     (kept, a') \<Rightarrow> a'\<lparr>arProjectiles := kept\<rparr>)"

definition team_alive :: "int \<Rightarrow> Arena \<Rightarrow> nat" where
  "team_alive t a = length (filter (\<lambda>p. psTeam (plSpec p) = t \<and> alive p) (arPlayers a))"

definition team_health :: "int \<Rightarrow> Arena \<Rightarrow> int" where
  "team_health t a = sum_list (map plHealth (filter (\<lambda>p. psTeam (plSpec p) = t) (arPlayers a)))"

definition checkEnd :: "Arena \<Rightarrow> bool \<times> int" where
  "checkEnd a = (let t0 = team_alive 0 a; t1 = team_alive 1 a in
     if t0 = 0 \<and> t1 = 0 then (True, - 1)
     else if t0 = 0 then (True, 1)
     else if t1 = 0 then (True, 0)
     else if arTick a + 1 \<ge> MatchTicks then
       (True, if team_health 0 a > team_health 1 a then 0 else if team_health 1 a > team_health 0 a then 1 else - 1)
     else (False, - 1))"

definition Stop :: "Arena \<Rightarrow> Arena" where
  "Stop a = a\<lparr>arStopped := True\<rparr>"

definition finish :: "int \<Rightarrow> Arena \<Rightarrow> Arena" where
  "finish winner a = (let r = \<lparr>rsArenaID = arID a, rsMode = arMode a, rsWinnerTeam = winner, rsTicks = arTick a,
       rsDamage = fold (\<lambda>p f. f(psID (plSpec p) \<mapsto> plDamage p)) (arPlayers a) Map.empty,
       rsSurvivors = sort (map (psID \<circ> plSpec) (filter alive (arPlayers a)))\<rparr>;
     b = Stop (a\<lparr>arResult := Some r\<rparr>) in b\<lparr>arEnded := arEnded b @ [r]\<rparr>)"

definition finished :: "Arena \<Rightarrow> bool" where
  "finished a \<longleftrightarrow> arResult a \<noteq> None"

definition Tick :: "Arena \<Rightarrow> Arena \<times> bool" where
  "Tick a = (if finished a then (a, True)
     else let a1 = arena_step (drainInputs maxDrainPerTick a) in
       case checkEnd a1 of (over, winner) \<Rightarrow>
         let a2 = publishWith over winner (a1\<lparr>arTick := arTick a1 + 1\<rparr>) in
         if over then (finish winner a2, True) else (a2, False))"

text \<open>The loop of \<open>Run\<close>, one turn: \<open>select\<close> sees the closed channel, or the clock first.\<close>

definition run_turn :: "bool \<Rightarrow> Arena \<Rightarrow> Arena \<times> bool" where
  "run_turn stop_first a = (if arStopped a \<and> stop_first then (a, True) else Tick a)"

definition SetSink :: "string \<Rightarrow> nat option \<Rightarrow> Arena \<Rightarrow> Arena" where
  "SetSink i s a = a\<lparr>arSinks := (arSinks a)(i := s)\<rparr>"

definition HasPlayer :: "string \<Rightarrow> Arena \<Rightarrow> bool" where
  "HasPlayer i a \<longleftrightarrow> arByID a i \<noteq> None"

section \<open>What holds between ticks\<close>

datatype arena_op = OpPush Command | OpTick | OpSink string "nat option" | OpStop

fun arena_do :: "Arena \<Rightarrow> arena_op \<Rightarrow> Arena" where
  "arena_do a (OpPush c) = fst (Push c a)"
| "arena_do a OpTick = fst (Tick a)"
| "arena_do a (OpSink i s) = SetSink i s a"
| "arena_do a OpStop = Stop a"

text \<open>Positions are finite and inside the field; a result names survivors and a fair winner.\<close>

definition inside :: "rat \<Rightarrow> f64 \<Rightarrow> bool" where
  "inside w v \<longleftrightarrow> (\<exists>c. v = Fin c \<and> 14 \<le> c \<and> c \<le> w - 14)"

definition player_ok :: "player \<Rightarrow> bool" where
  "player_ok p \<longleftrightarrow> 0 \<le> plHealth p \<and> plHealth p \<le> 100 \<and> 0 \<le> plCooldown p \<and> plCooldown p \<le> 10 \<and> 0 \<le> plDamage p
     \<and> inside 600 (plX p) \<and> inside 400 (plY p)"

definition fair_result :: "Arena \<Rightarrow> Result \<Rightarrow> bool" where
  "fair_result a r \<longleftrightarrow> rsTicks r = arTick a \<and> rsSurvivors r = sort (map (psID \<circ> plSpec) (filter alive (arPlayers a)))
     \<and> rsWinnerTeam r \<in> {- 1, 0, 1}
     \<and> (\<forall>t \<in> {0, 1}. rsWinnerTeam r = t \<longrightarrow> team_alive t a > 0
          \<and> (team_alive (1 - t) a = 0 \<or> arTick a \<ge> MatchTicks \<and> team_health t a > team_health (1 - t) a))"

definition arena_frame :: "Arena \<Rightarrow> _" where
  "arena_frame a = (map plSpec (arPlayers a), arByID a, arTick a, arResult a, arEnded a, arStopped a)"

definition fire_budget :: "Arena \<Rightarrow> nat" where
  "fire_budget a = length (arPlayers a) * unat (arTick a) + sum_list (map (nat \<circ> plCooldown) (arPlayers a))"

definition fires_ok :: "Arena \<Rightarrow> bool" where
  "fires_ok a \<longleftrightarrow> 10 * unat (arNextProjID a) \<le> fire_budget a"

definition arena_ok :: "Arena \<Rightarrow> bool" where
  "arena_ok a \<longleftrightarrow> (\<forall>p \<in> set (arPlayers a). player_ok p) \<and> fires_ok a \<and> unat (arTick a) \<le> 2700
     \<and> (\<exists>over winner. arSnapshot a = snapshot_of over winner a)
     \<and> (case arResult a of None \<Rightarrow> arEnded a = [] \<and> unat (arTick a) < 2700 | Some r \<Rightarrow> arEnded a = [r] \<and> fair_result a r \<and> arStopped a)"

lemma all_update: "\<forall>p \<in> set xs. P p \<Longrightarrow> (P (xs ! k) \<Longrightarrow> P q) \<Longrightarrow> \<forall>p \<in> set (xs[k := q]). P p"
  by (cases "k < length xs") (auto dest!: set_update_subset_insert [THEN subsetD] simp: not_less list_update_beyond)

lemma specs_update [simp]: "plSpec q = plSpec (xs ! k) \<Longrightarrow> map plSpec (xs[k := q]) = map plSpec xs"
  by (cases "k < length xs") (simp_all add: map_update list_update_same_conv not_less list_update_beyond)

lemma arena_fire_cases:
  obtains "arena_fire k c a = a"
  | j where "plCooldown (arPlayers a ! k) \<le> 0" "arena_fire k c a = a\<lparr>arPlayers := (arPlayers a)[k := (arPlayers a ! k)\<lparr>plCooldown := FireCooldownTick\<rparr>],
      arNextProjID := arNextProjID a + 1, arProjectiles := arProjectiles a @ [j]\<rparr>"
proof (cases "\<not> alive (arPlayers a ! k) \<or> plCooldown (arPlayers a ! k) > 0 \<or> feq (fhypot (cAimX c) (cAimY c)) (fint 0)")
  case True
  then have "arena_fire k c a = a" by (auto simp: arena_fire_def Let_def)
  then show ?thesis by (rule that)
next
  case False
  then show ?thesis by (intro that(2)) (auto simp: arena_fire_def Let_def)
qed

lemma arena_fire_frame [simp]: "arena_frame (arena_fire k c a) = arena_frame a"
  by (rule arena_fire_cases [of k c a]) (simp_all add: arena_frame_def)

lemma take_command_frame [simp]: "arena_frame (take_command c a) = arena_frame a"
proof -
  have "arena_frame (a\<lparr>arPlayers := ps\<rparr>) = arena_frame a" if "map plSpec ps = map plSpec (arPlayers a)" for ps
    using that by (simp add: arena_frame_def)
  then show ?thesis by (simp add: take_command_def split: option.split CmdKind.split)
qed

lemma drain_frame [simp]: "arena_frame (drainInputs n a) = arena_frame a"
proof (induction n a rule: drainInputs.induct)
  case (2 n a)
  then show ?case by (cases "arInputs a") (simp_all, simp add: arena_frame_def)
qed simp

abbreviation players_ok :: "Arena \<Rightarrow> bool" where
  "players_ok a \<equiv> \<forall>p \<in> set (arPlayers a). player_ok p"

lemma arena_fire_players: "players_ok a \<Longrightarrow> players_ok (arena_fire k c a)"
proof (rule arena_fire_cases [of k c a])
  fix j assume "players_ok a" and e: "arena_fire k c a = a\<lparr>arPlayers := (arPlayers a)[k := (arPlayers a ! k)\<lparr>plCooldown := FireCooldownTick\<rparr>],
      arNextProjID := arNextProjID a + 1, arProjectiles := arProjectiles a @ [j]\<rparr>"
  then have "\<forall>p \<in> set ((arPlayers a)[k := (arPlayers a ! k)\<lparr>plCooldown := FireCooldownTick\<rparr>]). player_ok p"
    by (elim all_update) (simp add: player_ok_def FireCooldownTick_def)
  then show ?thesis by (simp add: e)
qed simp

lemma take_command_players: "players_ok a \<Longrightarrow> players_ok (take_command c a)"
proof -
  assume ok: "players_ok a"
  then have "\<forall>p \<in> set ((arPlayers a)[k := (arPlayers a ! k)\<lparr>plIn := c\<rparr>]). player_ok p"
    "\<forall>p \<in> set ((arPlayers a)[k := (arPlayers a ! k)\<lparr>plHealth := 0\<rparr>]). player_ok p" for k
    by (elim all_update, simp add: player_ok_def)+
  then show ?thesis using arena_fire_players [OF ok] ok by (simp add: take_command_def split: option.split CmdKind.split)
qed

lemma drain_players: "players_ok a \<Longrightarrow> players_ok (drainInputs n a)"
proof (induction n a rule: drainInputs.induct)
  case (2 n a)
  show ?case
  proof (cases "arInputs a")
    case (Cons c cs)
    have "players_ok (take_command c (a\<lparr>arInputs := cs\<rparr>))" by (rule take_command_players) (use 2(2) in simp)
    then show ?thesis using 2(1) [OF Cons] by (simp add: Cons)
  qed (use 2(2) in simp)
qed simp

lemma sum_update:
  fixes f :: "'a \<Rightarrow> nat"
  shows "k < length xs \<Longrightarrow> sum_list (map f (xs[k := q])) + f (xs ! k) = sum_list (map f xs) + f q"
proof (induction xs arbitrary: k)
  case (Cons x xs)
  then show ?case by (cases k) auto
qed simp

lemma cooldown_update [simp]:
  "plCooldown q = plCooldown (xs ! k) \<Longrightarrow> sum_list (map (nat \<circ> plCooldown) (xs[k := q])) = sum_list (map (nat \<circ> plCooldown) xs)"
  using sum_update [of k xs "nat \<circ> plCooldown" q] by (cases "k < length xs") (simp_all add: not_less list_update_beyond)

text \<open>A shot costs ten ticks of the budget, so shots can be counted without wrapping around.\<close>

definition few_players :: "Arena \<Rightarrow> bool" where
  "few_players a \<longleftrightarrow> length (arPlayers a) < 2 ^ 40 \<and> unat (arTick a) \<le> 2700"

lemma budget_bound:
  assumes "\<forall>p \<in> set (arPlayers a). player_ok p" "few_players a"
  shows "fire_budget a < 2 ^ 60"
proof -
  have "sum_list (map (nat \<circ> plCooldown) ps) \<le> 10 * length ps" if "\<forall>p \<in> set ps. player_ok p" for ps
    using that by (induction ps) (auto simp: player_ok_def)
  then have "fire_budget a \<le> length (arPlayers a) * 2700 + 10 * length (arPlayers a)"
    unfolding fire_budget_def using assms by (intro add_mono mult_left_mono) (simp_all add: few_players_def)
  also have "\<dots> < 2 ^ 60" using assms(2) by (simp add: few_players_def)
  finally show ?thesis .
qed

lemma arena_fire_budget:
  assumes "players_ok a" "few_players a" "fires_ok a" "k < length (arPlayers a)"
  shows "fires_ok (arena_fire k c a)"
proof (rule arena_fire_cases [of k c a])
  fix j
  let ?p = "arPlayers a ! k"
  assume cd: "plCooldown ?p \<le> 0" and e: "arena_fire k c a = a\<lparr>arPlayers := (arPlayers a)[k := ?p\<lparr>plCooldown := FireCooldownTick\<rparr>],
      arNextProjID := arNextProjID a + 1, arProjectiles := arProjectiles a @ [j]\<rparr>"
  have b: "fire_budget (arena_fire k c a) = fire_budget a + 10"
    using sum_update [OF assms(4), of "nat \<circ> plCooldown" "?p\<lparr>plCooldown := FireCooldownTick\<rparr>"] cd
    by (simp add: e fire_budget_def FireCooldownTick_def)
  have "unat (arNextProjID a) < 2 ^ 60" using assms(3) budget_bound [OF assms(1,2)] by (simp add: fires_ok_def)
  then have "unat (arNextProjID a + 1) = unat (arNextProjID a) + 1" by (simp add: unat_word_ariths)
  then show ?thesis using assms(3) b by (simp add: fires_ok_def e)
qed (use assms in simp)

lemma budget_frame:
  assumes "arena_frame b = arena_frame a" "map plCooldown (arPlayers b) = map plCooldown (arPlayers a)"
  shows "fire_budget b = fire_budget a"
proof -
  have "length (arPlayers b) = length (arPlayers a)" using assms(2) map_eq_imp_length_eq by blast
  moreover have "map (nat \<circ> plCooldown) (arPlayers b) = map (nat \<circ> plCooldown) (arPlayers a)"
    using arg_cong [OF assms(2), of "map nat"] by simp
  ultimately show ?thesis using assms(1) by (simp add: fire_budget_def arena_frame_def)
qed

lemma few_frame: "arena_frame b = arena_frame a \<Longrightarrow> few_players b = few_players a"
  by (auto simp: arena_frame_def few_players_def dest: map_eq_imp_length_eq)

text \<open>The index of a known player is a place in the list.\<close>

definition indexed :: "Arena \<Rightarrow> bool" where
  "indexed a \<longleftrightarrow> (\<forall>i k. arByID a i = Some k \<longrightarrow> k < length (arPlayers a))"

lemma indexed_frame: "arena_frame b = arena_frame a \<Longrightarrow> indexed b = indexed a"
  by (auto simp: arena_frame_def indexed_def dest: map_eq_imp_length_eq)

lemma index_players_bound: "index_players ps i = Some k \<Longrightarrow> k < length ps"
  by (auto simp: index_players_def dest!: map_of_SomeD set_zip_rightD)

lemma take_command_fires:
  assumes "players_ok a" "few_players a" "fires_ok a" "indexed a"
  shows "fires_ok (take_command c a)"
proof -
  have "fires_ok (a\<lparr>arPlayers := (arPlayers a)[k := q]\<rparr>)" if "plCooldown q = plCooldown (arPlayers a ! k)" for k q
    using assms(3) that by (simp add: fires_ok_def fire_budget_def)
  then show ?thesis using arena_fire_budget [OF assms(1-3)] assms(3,4)
    by (auto simp: take_command_def indexed_def split: option.split CmdKind.split)
qed

lemma drain_fires:
  "players_ok a \<Longrightarrow> few_players a \<Longrightarrow> fires_ok a \<Longrightarrow> indexed a \<Longrightarrow> fires_ok (drainInputs n a)"
proof (induction n a rule: drainInputs.induct)
  case (2 n a)
  show ?case
  proof (cases "arInputs a")
    case (Cons c cs)
    let ?b = "a\<lparr>arInputs := cs\<rparr>"
    have fr: "arena_frame ?b = arena_frame a" by (simp add: arena_frame_def)
    have b: "players_ok ?b" "few_players ?b" "fires_ok ?b" "indexed ?b"
      using 2(2-5) few_frame [OF fr] indexed_frame [OF fr] by (simp_all add: fires_ok_def fire_budget_def)
    have fr2: "arena_frame (take_command c ?b) = arena_frame ?b" by simp
    show ?thesis
      using 2(1) [OF Cons take_command_players [OF b(1)] _ take_command_fires [OF b]] b(2,4) few_frame [OF fr2] indexed_frame [OF fr2]
      by (simp add: Cons)
  qed (use 2(4) in simp)
qed simp

section \<open>A step keeps players in the field\<close>

lemma velocity_cases: "velocity b c \<in> {Fin 0, Fin 220, Fin (- 220)}"
proof -
  have "fadd (Fin (- 220)) (Fin 220) = Fin 0" "fsub (Fin 0) (Fin 220) = Fin (- 220)" "fadd (Fin 0) (Fin 220) = Fin 220"
    using fround_int [of "- 220"] fround_int [of 220] by (simp_all add: fsub_def fround_def [of 0])
  then show ?thesis by (simp add: velocity_def Speed_def Let_def)
qed

lemma dt_small: obtains d where "dt = Fin d" "\<bar>d\<bar> \<le> 1"
proof -
  obtain d where d: "fround (1 / 30) = Fin d" by (rule fround_finite [of "1 / 30"]) simp_all
  have "\<bar>d - 1 / 30\<bar> \<le> \<bar>1 / 30\<bar> / 2 ^ 53 + tiny / 2" by (rule fround_near [OF d])
  also have "\<dots> \<le> 1 / 2" using tiny_bounds(2) by (simp add: power_int_minus)
  finally have "d - 1 / 30 \<le> 1 / 2" "- (d - 1 / 30) \<le> 1 / 2" by (simp_all only: abs_le_iff)
  then have "\<bar>d\<bar> \<le> 1" unfolding abs_le_iff by linarith
  then show ?thesis using d that by (simp add: dt_def)
qed

text \<open>A finite position moved by a tick and clamped is a position in the field.\<close>

lemma move_inside:
  assumes "inside w x" "w \<le> 600" "28 \<le> w"
  shows "inside w (clamp (fadd x (fmul (velocity b c) dt)) (Fin 14) (Fin (w - 14)))"
proof -
  obtain c0 where x: "x = Fin c0" "14 \<le> c0" "c0 \<le> w - 14" using assms(1) by (auto simp: inside_def)
  obtain v where v: "velocity b c = Fin v" "\<bar>v\<bar> \<le> 220" using velocity_cases [of b c] by auto
  obtain d where d: "dt = Fin d" "\<bar>d\<bar> \<le> 1" by (rule dt_small)
  have vd: "\<bar>v * d\<bar> \<le> 220" using v(2) d(2) mult_mono [of "\<bar>v\<bar>" 220 "\<bar>d\<bar>" 1] by (simp add: abs_mult)
  obtain m where m: "fround (v * d) = Fin m" by (rule fround_finite [of "v * d"]) (use vd in simp)
  have "\<bar>m - v * d\<bar> \<le> \<bar>v * d\<bar> / 2 ^ 53 + tiny / 2" by (rule fround_near [OF m])
  also have "\<dots> \<le> 1" using vd tiny_bounds(2) by (simp add: power_int_minus)
  finally have "\<bar>m\<bar> \<le> 221" using vd by linarith
  then have "\<bar>c0 + m\<bar> \<le> 2 ^ 60" using x assms(2) by simp
  then obtain s where s: "fround (c0 + m) = Fin s" by (rule fround_finite)
  obtain r where "clamp (Fin s) (Fin 14) (Fin (w - 14)) = Fin r" "14 \<le> r" "r \<le> w - 14" by (rule clamp_fin [of 14 "w - 14" s]) (use assms(3) in simp_all)
  then show ?thesis by (simp add: inside_def x v d m s)
qed

lemma move_player_ok: "player_ok p \<Longrightarrow> player_ok (move_player p)"
proof -
  assume p: "player_ok p"
  have "inside 600 (clamp (fadd (plX q) (fmul (velocity b c) dt)) (fint PlayerRadius) (fint (600 - PlayerRadius)))"
    "inside 400 (clamp (fadd (plY q) (fmul (velocity b c) dt)) (fint PlayerRadius) (fint (400 - PlayerRadius)))"
    if "plX q = plX p" "plY q = plY p" for b c and q :: player
    using move_inside [of 600 "plX p" b c] move_inside [of 400 "plY p" b c] p that by (simp_all add: player_ok_def PlayerRadius_def)
  then show ?thesis using p by (simp add: move_player_def Let_def player_ok_def)
qed

section \<open>A match ends\<close>

lemma strike_frame [simp]: "arena_frame (strike k j a) = arena_frame a"
  by (simp add: arena_frame_def strike_def Let_def split: option.split)

lemma strike_players: "players_ok a \<Longrightarrow> players_ok (strike k j a)"
proof -
  assume ok: "players_ok a"
  let ?ps = "(arPlayers a)[k := (arPlayers a ! k)\<lparr>plHealth := max 0 (plHealth (arPlayers a ! k) - ProjectileDamage)\<rparr>]"
  have 1: "\<forall>p \<in> set ?ps. player_ok p" using ok by (elim all_update) (auto simp: player_ok_def ProjectileDamage_def)
  then have "\<forall>p \<in> set (?ps[h := (?ps ! h)\<lparr>plDamage := plDamage (?ps ! h) + ProjectileDamage\<rparr>]). player_ok p" for h
    by (elim all_update) (auto simp: player_ok_def ProjectileDamage_def)
  then show ?thesis using 1 by (simp add: strike_def Let_def split: option.split)
qed

lemma map_update_same: "f q = f (xs ! k) \<Longrightarrow> map f (xs[k := q]) = map f xs"
  by (cases "k < length xs") (simp_all add: map_update list_update_same_conv not_less list_update_beyond)

lemma strike_cooldowns: "map plCooldown (arPlayers (strike k j a)) = map plCooldown (arPlayers a)"
  by (simp add: strike_def Let_def map_update_same split: option.split)

lemma fly_all_keeps:
  assumes "fly_all js a = (kept, a')"
  shows "arena_frame a' = arena_frame a \<and> map plCooldown (arPlayers a') = map plCooldown (arPlayers a)
    \<and> arNextProjID a' = arNextProjID a \<and> (players_ok a \<longrightarrow> players_ok a')"
  using assms
proof (induction js arbitrary: a kept)
  case (Cons j js)
  have s: "arNextProjID (strike k i b) = arNextProjID b" for k i b by (simp add: strike_def Let_def)
  show ?case
  proof (cases "off_field (pjX (fly j)) (pjY (fly j))")
    case False
    show ?thesis
    proof (cases "first_hit (fly j) 0 (arPlayers a)")
      case None
      then show ?thesis using Cons False by (auto simp: Let_def split: prod.splits)
    next
      case (Some k)
      then have "fly_all js (strike k (fly j) a) = (kept, a')" using Cons.prems False by (simp add: Let_def)
      from Cons.IH [OF this] show ?thesis using strike_players [of a k "fly j"] strike_cooldowns by (simp add: s)
    qed
  qed (use Cons in \<open>simp add: Let_def\<close>)
qed simp

lemma move_player_same [simp]: "plSpec (move_player p) = plSpec p"
  by (simp add: move_player_def Let_def)

lemma arena_step_keeps:
  assumes "players_ok a"
  shows "players_ok (arena_step a)" "arena_frame (arena_step a) = arena_frame a" "arNextProjID (arena_step a) = arNextProjID a"
    "map plCooldown (arPlayers (arena_step a)) = map (plCooldown \<circ> move_player) (arPlayers a)"
proof -
  let ?b = "a\<lparr>arPlayers := map move_player (arPlayers a)\<rparr>"
  obtain kept a' where f: "fly_all (arProjectiles a) ?b = (kept, a')" by fastforce
  have st: "arena_step a = a'\<lparr>arProjectiles := kept\<rparr>" by (simp add: arena_step_def f)
  have b: "players_ok ?b" "arena_frame ?b = arena_frame a" using assms move_player_ok by (auto simp: arena_frame_def)
  note k = fly_all_keeps [OF f]
  show "players_ok (arena_step a)" using k b(1) by (simp add: st)
  show "arena_frame (arena_step a) = arena_frame a" using k b(2) by (simp add: st arena_frame_def)
  show "arNextProjID (arena_step a) = arNextProjID a" using k by (simp add: st)
  show "map plCooldown (arPlayers (arena_step a)) = map (plCooldown \<circ> move_player) (arPlayers a)" using k by (simp add: st)
qed

lemma move_cooldown: "plCooldown (move_player p) = (if plCooldown p > 0 then plCooldown p - 1 else plCooldown p)"
  by (simp add: move_player_def Let_def)

text \<open>A tick adds to the budget of every player at least what its cooldown takes away.\<close>

lemma step_budget:
  assumes "map plCooldown qs = map (plCooldown \<circ> move_player) ps"
  shows "length ps * t + sum_list (map (nat \<circ> plCooldown) ps) \<le> length qs * Suc t + sum_list (map (nat \<circ> plCooldown) qs)"
proof -
  have "map (nat \<circ> plCooldown) qs = map (nat \<circ> plCooldown \<circ> move_player) ps"
    using arg_cong [OF assms, of "map nat"] by simp
  moreover have "sum_list (map (nat \<circ> plCooldown) ps) \<le> length ps + sum_list (map (nat \<circ> plCooldown \<circ> move_player) ps)"
    by (induction ps) (auto simp: move_cooldown)
  moreover have "length qs = length ps" using assms map_eq_imp_length_eq by (metis length_map)
  ultimately show ?thesis by simp
qed

lemma checkEnd_fair:
  assumes "checkEnd a = (True, winner)" "unat (arTick a) < 2700" "b = a\<lparr>arTick := arTick a + 1\<rparr>"
  shows "winner \<in> {- 1, 0, 1} \<and> (\<forall>t \<in> {0, 1}. winner = t \<longrightarrow> team_alive t b > 0
     \<and> (team_alive (1 - t) b = 0 \<or> arTick b \<ge> MatchTicks \<and> team_health t b > team_health (1 - t) b))"
  using assms by (auto simp: checkEnd_def Let_def team_alive_def team_health_def split: if_splits)

lemma checkEnd_time: "checkEnd a = (False, winner) \<Longrightarrow> unat (arTick a) < 2700 \<Longrightarrow> unat (arTick a + 1) < 2700"
  by (auto simp: checkEnd_def Let_def MatchTicks_def word_less_nat_alt word_le_nat_alt not_le split: if_splits)

lemma Tick_ok:
  assumes ok: "arena_ok a" and few: "length (arPlayers a) < 2 ^ 40" and idx: "indexed a"
  shows "arena_ok (fst (Tick a))" "indexed (fst (Tick a))" "length (arPlayers (fst (Tick a))) = length (arPlayers a)"
    and "arResult a = None \<Longrightarrow> arResult (fst (Tick a)) = None \<Longrightarrow> unat (arTick (fst (Tick a))) = unat (arTick a) + 1"
proof -
  have "arena_ok (fst (Tick a)) \<and> indexed (fst (Tick a)) \<and> length (arPlayers (fst (Tick a))) = length (arPlayers a)
    \<and> (arResult a = None \<longrightarrow> arResult (fst (Tick a)) = None \<longrightarrow> unat (arTick (fst (Tick a))) = unat (arTick a) + 1)"
  proof (cases "finished a")
    case True
    then show ?thesis using ok idx by (auto simp: Tick_def finished_def)
  next
    case False
    then have none: "arResult a = None" by (simp add: finished_def)
    have t: "unat (arTick a) < 2700" and en: "arEnded a = []" and p: "players_ok a" and f: "fires_ok a"
      using ok none by (simp_all add: arena_ok_def)
    let ?d = "drainInputs maxDrainPerTick a"
    let ?s = "arena_step ?d"
    have fewp: "few_players a" using few t by (simp add: few_players_def)
    have d: "players_ok ?d" "fires_ok ?d" using drain_players [OF p] drain_fires [OF p fewp f idx] by simp_all
    note s = arena_step_keeps [OF d(1)]
    have fr: "arena_frame ?s = arena_frame a" using s(2) by simp
    obtain over winner where ce: "checkEnd ?s = (over, winner)" by fastforce
    let ?t = "?s\<lparr>arTick := arTick ?s + 1\<rparr>"
    have same: "arTick ?s = arTick a" "arResult ?s = None" "arEnded ?s = []" "length (arPlayers ?s) = length (arPlayers a)"
      "arTick ?d = arTick a" "length (arPlayers ?d) = length (arPlayers a)"
      using fr none en drain_frame [of maxDrainPerTick a] by (auto simp: arena_frame_def dest: map_eq_imp_length_eq)
    have inc: "unat (arTick a + 1) = unat (arTick a) + 1" using t by (simp add: unat_word_ariths)
    have fires: "fires_ok ?t"
      using d(2) step_budget [OF s(4), of "unat (arTick a)"] s(3) same inc by (simp add: fires_ok_def fire_budget_def)
    have idx': "indexed ?t" using idx indexed_frame [OF fr] by (simp add: indexed_def)
    have ok': "players_ok ?t" using s(1) by simp
    show ?thesis
    proof (cases over)
      case True
      have ce': "checkEnd ?s = (True, winner)" using ce True by simp
      have "fair_result (finish winner (publishWith True winner ?t)) (the (arResult (finish winner (publishWith True winner ?t))))"
        using checkEnd_fair [OF ce' _ refl] t same
        by (simp add: fair_result_def finish_def publishWith_def Stop_def Let_def team_alive_def team_health_def)
      then show ?thesis using True ok' fires idx' same inc t False
        by (auto simp: Tick_def Let_def ce arena_ok_def finish_def publishWith_def Stop_def fires_ok_def fire_budget_def indexed_def snapshot_of_def)
    next
      case False
      then have "unat (arTick a + 1) < 2700" using checkEnd_time [of ?s winner] ce t same by simp
      then show ?thesis using False ok' fires idx' same inc t \<open>\<not> finished a\<close>
        by (auto simp: Tick_def Let_def ce arena_ok_def publishWith_def fires_ok_def fire_budget_def indexed_def snapshot_of_def)
    qed
  qed
  then show "arena_ok (fst (Tick a))" "indexed (fst (Tick a))" "length (arPlayers (fst (Tick a))) = length (arPlayers a)"
    and "arResult a = None \<Longrightarrow> arResult (fst (Tick a)) = None \<Longrightarrow> unat (arTick (fst (Tick a))) = unat (arTick a) + 1" by simp_all
qed

section \<open>From the start\<close>

lemma spawn_inside:
  assumes "spawnPos t n = (x, y)"
  shows "inside 600 x" "inside 400 y"
proof -
  have "fsub (Fin 600) (Fin 80) = Fin 520" "fdiv (Fin 400) (Fin 2) = Fin 200" "fadd (Fin 200) (Fin 90) = Fin 290"
    using fround_int [of 520] fround_int [of 200] fround_int [of 290] by (simp_all add: fsub_def)
  moreover have "inside 600 (Fin 520)" "inside 600 (Fin 80)" "inside 400 (Fin 200)" "inside 400 (Fin 290)" by (simp_all add: inside_def)
  ultimately show "inside 600 x" "inside 400 y"
    using assms by (auto simp: spawnPos_def Width_def Height_def simp del: fadd.simps fdiv.simps split: if_splits)
qed

lemma place_players_ok: "\<forall>p \<in> set (place_players counts ss). player_ok p \<and> plCooldown p = 0"
  by (induction ss arbitrary: counts) (auto simp: player_ok_def MaxHealth_def intro: spawn_inside [OF sym] split: prod.splits)

lemma place_players_length [simp]: "length (place_players counts ss) = length ss"
  by (induction ss arbitrary: counts) (auto split: prod.splits)

definition arena_inv :: "Arena \<Rightarrow> bool" where
  "arena_inv a \<longleftrightarrow> arena_ok a \<and> indexed a \<and> length (arPlayers a) < 2 ^ 40"

lemma NewArena_inv:
  assumes "length specs < 2 ^ 40"
  shows "arena_inv (NewArena i m specs)" "arTick (NewArena i m specs) = 0" "arResult (NewArena i m specs) = None"
proof -
  let ?a = "NewArena i m specs"
  have p: "arPlayers ?a = sort_key (psID \<circ> plSpec) (place_players (\<lambda>_. 0) specs)" "arByID ?a = index_players (arPlayers ?a)"
    and z: "arTick ?a = 0" "arResult ?a = None" "arNextProjID ?a = 0" "arEnded ?a = []" "\<exists>over winner. arSnapshot ?a = snapshot_of over winner ?a"
    by (auto simp: NewArena_def Let_def publishWith_def snapshot_of_def)
  have "players_ok ?a" using place_players_ok by (simp add: p)
  moreover have "indexed ?a" using index_players_bound p(2) by (simp add: indexed_def)
  ultimately show "arena_inv ?a" using assms z by (simp add: arena_inv_def arena_ok_def fires_ok_def p(1))
  show "arTick ?a = 0" "arResult ?a = None" by (fact z)+
qed

lemma arena_do_inv:
  assumes "arena_inv a"
  shows "arena_inv (arena_do a x)"
    "arResult a = None \<Longrightarrow> arResult (arena_do a x) = None \<Longrightarrow> unat (arTick (arena_do a x)) = unat (arTick a) + (if x = OpTick then 1 else 0)"
    "arResult a \<noteq> None \<Longrightarrow> arResult (arena_do a x) = arResult a"
proof -
  have same: "arena_inv b" if "arPlayers b = arPlayers a" "arByID b = arByID a" "arNextProjID b = arNextProjID a" "arTick b = arTick a"
    "arSnapshot b = arSnapshot a" "arResult b = arResult a" "arEnded b = arEnded a" "arStopped a \<longrightarrow> arStopped b"
    "arID b = arID a" "arProjectiles b = arProjectiles a" for b
  proof -
    have "snapshot_of over w b = snapshot_of over w a" for over w using that by (simp add: snapshot_of_def)
    then show ?thesis using assms that
      by (auto simp: arena_inv_def arena_ok_def indexed_def fires_ok_def fire_budget_def fair_result_def team_alive_def team_health_def
          split: option.splits)
  qed
  note t = Tick_ok [of a]
  have inv: "arena_ok a" "length (arPlayers a) < 2 ^ 40" "indexed a" using assms by (simp_all add: arena_inv_def)
  have "arena_inv (fst (Tick a))" using t [OF inv] inv by (simp add: arena_inv_def)
  then show "arena_inv (arena_do a x)" by (cases x) (auto intro!: same simp: Push_def SetSink_def Stop_def)
  show "arResult a = None \<Longrightarrow> arResult (arena_do a x) = None \<Longrightarrow> unat (arTick (arena_do a x)) = unat (arTick a) + (if x = OpTick then 1 else 0)"
    using t(4) [OF inv] by (cases x) (auto simp: Push_def SetSink_def Stop_def)
  show "arResult a \<noteq> None \<Longrightarrow> arResult (arena_do a x) = arResult a"
    by (cases x) (auto simp: Push_def SetSink_def Stop_def Tick_def finished_def)
qed

lemma arena_run:
  assumes "arena_inv a"
  shows "arena_inv (foldl arena_do a xs)
    \<and> (arResult (foldl arena_do a xs) = None \<longrightarrow> arResult a = None \<and> unat (arTick (foldl arena_do a xs)) = unat (arTick a) + length (filter (\<lambda>x. x = OpTick) xs))"
  using assms
proof (induction xs arbitrary: a)
  case (Cons x xs)
  note ih = Cons.IH [OF arena_do_inv(1) [OF Cons.prems], of x] and st = arena_do_inv(2,3) [OF Cons.prems, of x]
  show ?case
  proof (cases "arResult (foldl arena_do (arena_do a x) xs)")
    case None
    then have "arResult (arena_do a x) = None" "unat (arTick (foldl arena_do (arena_do a x) xs)) = unat (arTick (arena_do a x)) + length (filter (\<lambda>x. x = OpTick) xs)"
      using ih by simp_all
    moreover from this(1) have "arResult a = None" using st(2) by (cases "arResult a") simp_all
    ultimately show ?thesis using ih st(1) None by simp
  qed (use ih in simp)
qed simp

text \<open>\<^bold>\<open>C10\<close> An arena stays well formed: whatever commands players push (aims that are not numbers included), however
  receivers are bound and ticks fall, every player's position is finite and inside the field, health within 0 and
  100, the cooldown within 0 and 10; shots are at most one per player and ten ticks (ten shots cost at most a
  hundred ticks of the players' time), the published snapshot is the state's, and a result is
  delivered once and is fair: a winning team has survivors, and the other has none or, when time is up, less health.\<close>

theorem arena_well_formed:
  assumes "length specs < 2 ^ 40"
  shows "arena_ok (foldl arena_do (NewArena i m specs) ops)"
  using arena_run [OF NewArena_inv(1) [OF assms]] by (simp add: arena_inv_def)

text \<open>\<^bold>\<open>C9\<close> Every match ends: once the clock has ticked 2700 times, whatever was pushed in between, the arena has a result,
  delivered to \<open>OnEnd\<close> exactly once, its loop is stopped, and the match took at most 2700 ticks.\<close>

theorem arena_match_ends:
  assumes "length specs < 2 ^ 40" "length (filter (\<lambda>x. x = OpTick) ops) \<ge> 2700"
  shows "\<exists>r. arResult (foldl arena_do (NewArena i m specs) ops) = Some r \<and> arEnded (foldl arena_do (NewArena i m specs) ops) = [r]
    \<and> arStopped (foldl arena_do (NewArena i m specs) ops) \<and> unat (rsTicks r) \<le> 2700"
proof -
  let ?a = "foldl arena_do (NewArena i m specs) ops"
  note r = arena_run [OF NewArena_inv(1) [OF assms(1)], of i m ops]
  have ok: "arena_ok ?a" using r by (simp add: arena_inv_def)
  have "arResult ?a \<noteq> None"
  proof
    assume n: "arResult ?a = None"
    then have "unat (arTick ?a) \<ge> 2700" using r NewArena_inv(2) [OF assms(1)] assms(2) by simp
    then show False using ok n by (simp add: arena_ok_def)
  qed
  then show ?thesis using ok by (auto simp: arena_ok_def fair_result_def)
qed

definition sample_specs :: "PlayerSpec list" where
  "sample_specs = [\<lparr>psID = ''a'', psName = ''Ada'', psTeam = 0, psSink = Some 1\<rparr>, \<lparr>psID = ''b'', psName = ''Bob'', psTeam = 1, psSink = None\<rparr>]"

lemma arena_well_formed_witness:
  "arena_ok (foldl arena_do (NewArena ''m'' Mode1v1 sample_specs) [OpPush (no_command\<lparr>cPlayerID := ''a'', cKind := CmdFire, cAimX := Inf False\<rparr>), OpTick])"
  by (rule arena_well_formed) (simp add: sample_specs_def)

lemma arena_match_ends_witness:
  "\<exists>r. arResult (foldl arena_do (NewArena ''m'' Mode1v1 sample_specs) (replicate 2700 OpTick)) = Some r
     \<and> arEnded (foldl arena_do (NewArena ''m'' Mode1v1 sample_specs) (replicate 2700 OpTick)) = [r]
     \<and> arStopped (foldl arena_do (NewArena ''m'' Mode1v1 sample_specs) (replicate 2700 OpTick)) \<and> unat (rsTicks r) \<le> 2700"
  by (rule arena_match_ends) (simp_all add: sample_specs_def)

section \<open>An aim too far away\<close>

definition far_aim :: Command where
  "far_aim = no_command\<lparr>cPlayerID := ''a'', cKind := CmdFire, cAimX := Fin far, cAimY := Fin far\<rparr>"

lemma far_aim_shot:
  assumes "arByID a ''a'' = Some k" "alive (arPlayers a ! k)" "plCooldown (arPlayers a ! k) = 0" "plX (arPlayers a ! k) = Fin (of_int x)" "plY (arPlayers a ! k) = Fin (of_int y)"
    "0 \<le> x" "x \<le> 600" "0 \<le> y" "y \<le> 400"
  shows "\<exists>j. arProjectiles (take_command far_aim a) = arProjectiles a @ [j] \<and> fly j = j \<and> \<not> off_field (pjX j) (pjY j)"
proof -
  have r: "fround (of_int x) = Fin (of_int x)" "fround (of_int y) = Fin (of_int y)" using assms fround_int by simp_all
  obtain d where d: "dt = Fin d" by (rule dt_small)
  have z: "fdiv (Fin far) (Inf False) = Fin 0" "fmul (Fin 0) ProjectileSpeed = Fin 0" by (simp_all add: ProjectileSpeed_def fround_def [of 0])
  have fl: "fadd (Fin (of_int c)) (fmul (Fin 0) dt) = Fin (of_int c)" if "fround (of_int c) = Fin (of_int c)" for c using that by (simp add: d fround_def [of 0])
  show ?thesis using assms fl [OF r(1)] fl [OF r(2)]
    by (simp add: take_command_def far_aim_def arena_fire_def Let_def fhypot_overflow no_command_def z fly_def off_field_def Width_def Height_def
        del: fdiv.simps fmul.simps fadd.simps)
qed

theorem far_aim_stays:
  "\<exists>j. arProjectiles (take_command far_aim (NewArena ''m'' Mode1v1 sample_specs)) = [j] \<and> fly j = j \<and> \<not> off_field (pjX j) (pjY j)"
proof -
  let ?a = "NewArena ''m'' Mode1v1 sample_specs"
  have "fdiv Height (fint 2) = Fin 200" "fsub Width (fint 80) = Fin 520" using fround_int [of 200] fround_int [of 520] by (simp_all add: Height_def Width_def fsub_def)
  then have "arByID ?a ''a'' = Some 0" "alive (arPlayers ?a ! 0)" "plCooldown (arPlayers ?a ! 0) = 0" "plX (arPlayers ?a ! 0) = Fin (of_int 80)"
      "plY (arPlayers ?a ! 0) = Fin (of_int 200)" "arProjectiles ?a = []"
    by (simp_all add: NewArena_def Let_def publishWith_def sample_specs_def spawnPos_def index_players_def alive_def MaxHealth_def insort_key.simps sort_key_def)
  from far_aim_shot [OF this(1-5)] this(6) show ?thesis by simp
qed

end
