(* ===== verification/Matchmaking.thy ===== *)
theory Matchmaking
  imports Arena
begin

text \<open>
  Matchmaking (\<open>services/matchmaking\<close>): the queues and registrations of the \<open>Matcher\<close> under its lock, the
  saga that sets up a match, and the provisioner that runs arenas in this process. A saga is a goroutine: its
  steps are those between its calls, and steps of different sagas, ended matches and clients interleave in any
  order. Whether a call of a provisioner or of the assigner (the gateway) fails is part of a step. Shown: each
  saga is all or nothing, no arena is left behind, nobody is lost; and how players are doubled or left waiting.
\<close>

section \<open>Data\<close>


definition teamSizeFor :: "string \<Rightarrow> nat" where
  "teamSizeFor mode = (if mode = Mode1v1 then 1 else if mode = Mode2v2 then 2 else 0)"

definition EventMatchFormed :: string where "EventMatchFormed = ''MatchFormed''"
definition EventArenaProvisioned :: string where "EventArenaProvisioned = ''ArenaProvisioned''"
definition EventPlayersAssigned :: string where "EventPlayersAssigned = ''PlayersAssigned''"
definition EventMatchCancelled :: string where "EventMatchCancelled = ''MatchCancelled''"

definition MatchStream :: "string \<Rightarrow> string" where
  "MatchStream matchID = ''match-'' @ matchID"

record MatchFormed =
  mfMatchID :: string
  mfMode :: string
  mfPlayers :: "string list"
  mfTeams :: "int list"

record MatchCancelled =
  mcMatchID :: string
  mcReason :: string

text \<open>A session is the reference of its actor.\<close>

record QueuedPlayer =
  qpID :: string
  qpName :: string
  qpSession :: "nat option"

record match =
  mtID :: string
  mtMode :: string
  mtPlayers :: "QueuedPlayer list"
  mtTeams :: "int list"

text \<open>\<open>mregistry\<close> and \<open>minQueue\<close> are the Go maps; a missing queue is the empty slice. Of the assigner only whether
  there is one is kept.\<close>

record Matcher =
  mqueues :: "string \<Rightarrow> QueuedPlayer list"
  mregistry :: "string \<rightharpoonup> QueuedPlayer"
  minQueue :: "string \<rightharpoonup> string"
  mnextID :: int
  minstance :: string
  mmatches :: int
  massigner :: bool

definition NewMatcherInstance :: "bool \<Rightarrow> string \<Rightarrow> Matcher" where
  "NewMatcherInstance assigner inst = \<lparr>mqueues = (\<lambda>_. []), mregistry = Map.empty, minQueue = Map.empty, mnextID = 0,
     minstance = inst, mmatches = 0, massigner = assigner\<rparr>"

definition NewMatcher :: "bool \<Rightarrow> Matcher" where
  "NewMatcher assigner = NewMatcherInstance assigner []"

section \<open>The matcher under its lock\<close>

definition match_name :: "string \<Rightarrow> int \<Rightarrow> string" where
  "match_name inst n = (if inst = [] then ''m'' @ sdec n else ''m'' @ inst @ ''-'' @ sdec n)"

definition matchID :: "Matcher \<Rightarrow> Matcher \<times> string" where
  "matchID m = (let n = i64 (mnextID m + 1) in (m\<lparr>mnextID := n\<rparr>, match_name (minstance m) n))"

definition SetAssigner :: "bool \<Rightarrow> Matcher \<Rightarrow> Matcher" where
  "SetAssigner a m = m\<lparr>massigner := a\<rparr>"

definition mm_Register :: "QueuedPlayer \<Rightarrow> Matcher \<Rightarrow> Matcher" where
  "mm_Register p m = m\<lparr>mregistry := (mregistry m)(qpID p \<mapsto> p)\<rparr>"

fun queue_drop :: "string \<Rightarrow> QueuedPlayer list \<Rightarrow> QueuedPlayer list" where
  "queue_drop i [] = []"
| "queue_drop i (p # q) = (if qpID p = i then q else p # queue_drop i q)"

definition Unregister :: "string \<Rightarrow> Matcher \<Rightarrow> Matcher" where
  "Unregister i m = (let m1 = m\<lparr>mregistry := (mregistry m)(i := None)\<rparr> in
     case minQueue m i of
       None \<Rightarrow> m1
     | Some mode \<Rightarrow> m1\<lparr>mqueues := (mqueues m)(mode := queue_drop i (mqueues m mode)), minQueue := (minQueue m)(i := None)\<rparr>)"

fun queue_position :: "string \<Rightarrow> QueuedPlayer list \<Rightarrow> nat option" where
  "queue_position i [] = None"
| "queue_position i (p # q) = (if qpID p = i then Some 1 else map_option Suc (queue_position i q))"

text \<open>The players of a match leave the queue; the first half is team 0, the second team 1.\<close>

definition formLocked :: "string \<Rightarrow> Matcher \<Rightarrow> Matcher \<times> match option" where
  "formLocked mode m = (let need = 2 * teamSizeFor mode; q = mqueues m mode in
     if length q < need then (m, None)
     else let picked = take need q;
        m1 = m\<lparr>mqueues := (mqueues m)(mode := drop need q), minQueue := fold (\<lambda>p f. f(qpID p := None)) picked (minQueue m)\<rparr>
      in case matchID m1 of (m2, i) \<Rightarrow>
        (m2, Some \<lparr>mtID = i, mtMode = mode, mtPlayers = picked,
           mtTeams = map (\<lambda>k. if k \<ge> need div 2 then 1 else 0) [0..<need]\<rparr>))"

definition unknown_mode :: "string \<Rightarrow> string" where
  "unknown_mode mode = ''matchmaking: unknown mode \"'' @ mode @ ''\"''"

definition queue_entry :: "Matcher \<Rightarrow> string \<Rightarrow> QueuedPlayer" where
  "queue_entry m i = (case mregistry m i of Some p \<Rightarrow> p | None \<Rightarrow> \<lparr>qpID = i, qpName = i, qpSession = None\<rparr>)"

definition mm_Enqueue :: "string \<Rightarrow> string \<Rightarrow> Matcher \<Rightarrow> Matcher \<times> (string + nat) \<times> match option" where
  "mm_Enqueue i mode m = (if teamSizeFor mode = 0 then (m, Inl (unknown_mode mode), None)
     else case Option.bind (minQueue m i) (\<lambda>cur. queue_position i (mqueues m cur)) of
       Some pos \<Rightarrow> (m, Inr pos, None)
     | None \<Rightarrow>
        (let q = mqueues m mode @ [queue_entry m i];
             m1 = m\<lparr>mqueues := (mqueues m)(mode := q), minQueue := (minQueue m)(i \<mapsto> mode)\<rparr>
         in case formLocked mode m1 of (m2, mt) \<Rightarrow> (m2, Inr (length q), mt)))"

text \<open>The locked part of \<open>cancel\<close>: everyone goes back, to the front.\<close>

definition requeue :: "match \<Rightarrow> Matcher \<Rightarrow> Matcher" where
  "requeue mt m = m\<lparr>mqueues := (mqueues m)(mtMode mt := mtPlayers mt @ mqueues m (mtMode mt)),
     minQueue := fold (\<lambda>p f. f(qpID p \<mapsto> mtMode mt)) (mtPlayers mt) (minQueue m)\<rparr>"

definition QueueLen :: "string \<Rightarrow> Matcher \<Rightarrow> nat" where
  "QueueLen mode m = length (mqueues m mode)"

definition Matches :: "Matcher \<Rightarrow> int" where
  "Matches m = mmatches m"

text \<open>The gRPC endpoint.\<close>

definition service_Enqueue :: "string \<Rightarrow> string \<Rightarrow> Matcher \<Rightarrow> Matcher \<times> (string + nat) \<times> match option" where
  "service_Enqueue i mode m = (if i = [] then (m, Inl ''player_id is required'', None) else mm_Enqueue i mode m)"

section \<open>Arenas in this process\<close>

record ArenaSpec =
  asID :: string
  asMode :: string
  asPlayers :: "PlayerSpec list"

record Handle =
  hID :: string
  hMode :: string

type_synonym arenas = "(string \<times> ArenaSpec) list"

definition lp_Provision :: "ArenaSpec \<Rightarrow> arenas \<Rightarrow> string + arenas \<times> Handle" where
  "lp_Provision spec A = (if asID spec = [] then Inl ''matchmaking: arena id is required''
     else if map_of A (asID spec) \<noteq> None then Inl (''matchmaking: arena '' @ asID spec @ '' already exists'')
     else Inr (A @ [(asID spec, spec)], \<lparr>hID = asID spec, hMode = asMode spec\<rparr>))"

definition lp_Destroy :: "string \<Rightarrow> arenas \<Rightarrow> arenas" where
  "lp_Destroy i A = filter (\<lambda>(k, v). k \<noteq> i) A"

definition lp_Count :: "arenas \<Rightarrow> nat" where
  "lp_Count A = length A"

definition lp_Get :: "string \<Rightarrow> arenas \<Rightarrow> ArenaSpec option" where
  "lp_Get i A = map_of A i"

section \<open>The saga\<close>

text \<open>Encodings of the events' data, and where a saga is: before the call it makes next. \<open>Assigning\<close> has read
  whether there is an assigner, the index of the next player and those assigned; \<open>Releasing\<close> those still to
  be given back.\<close>

record mm_json =
  jformed :: "MatchFormed \<Rightarrow> bytes"
  jcancelled :: "MatchCancelled \<Rightarrow> bytes"

datatype saga_pc = Form | Provisioning | Provisioned Handle | Assigning Handle bool nat "string list"
  | Releasing "string list" Handle string | Destroying Handle string | Restoring string | Cancelling string
  | Assigned | Counting | Finished bool

datatype assigner_call = CallAssign string string int | CallRelease string

record mm_world =
  wmatcher :: Matcher
  warenas :: arenas
  wsagas :: "(match \<times> saga_pc) list"
  wends :: "(string list \<times> string) list"
  wcalls :: "assigner_call list"
  waudit :: "(string \<times> string \<times> bytes) list"

definition mm_append :: "string \<Rightarrow> string \<Rightarrow> bytes \<Rightarrow> mm_world \<Rightarrow> mm_world" where
  "mm_append i typ data w = w\<lparr>waudit := waudit w @ [(MatchStream i, typ, data)]\<rparr>"

definition appendMatchFormed :: "mm_json \<Rightarrow> match \<Rightarrow> mm_world \<Rightarrow> mm_world" where
  "appendMatchFormed J mt = mm_append (mtID mt) EventMatchFormed
     (jformed J \<lparr>mfMatchID = mtID mt, mfMode = mtMode mt, mfPlayers = map qpID (mtPlayers mt), mfTeams = mtTeams mt\<rparr>)"

definition mm_appendPhase :: "string \<Rightarrow> string \<Rightarrow> mm_world \<Rightarrow> mm_world" where
  "mm_appendPhase i typ = mm_append i typ []"

definition arena_name :: "match \<Rightarrow> string" where
  "arena_name mt = ''arena-'' @ mtID mt"

definition arena_spec :: "match \<Rightarrow> ArenaSpec" where
  "arena_spec mt = \<lparr>asID = arena_name mt, asMode = mtMode mt,
     asPlayers = map (\<lambda>(p, t). \<lparr>psID = qpID p, psName = qpName p, psTeam = t, psSink = qpSession p\<rparr>) (zip (mtPlayers mt) (mtTeams mt))\<rparr>"

text \<open>The audit trail and the announcement of a cancelled match.\<close>

definition saga_cancelled :: "mm_json \<Rightarrow> match \<Rightarrow> string \<Rightarrow> mm_world \<Rightarrow> mm_world" where
  "saga_cancelled J mt reason = mm_append (mtID mt) EventMatchCancelled (jcancelled J \<lparr>mcMatchID = mtID mt, mcReason = reason\<rparr>)"

text \<open>One step of a saga; \<open>fail\<close> is the error of the call it makes, if it fails. A failing provisioner has
  created nothing.\<close>

definition saga_move :: "mm_json \<Rightarrow> string option \<Rightarrow> match \<Rightarrow> saga_pc \<Rightarrow> mm_world \<Rightarrow> saga_pc \<times> mm_world" where
  "saga_move J fail mt pc w = (case pc of
     Form \<Rightarrow> (Provisioning, appendMatchFormed J mt w)
   | Provisioning \<Rightarrow>
       (case (case fail of Some e \<Rightarrow> Inl e | None \<Rightarrow> lp_Provision (arena_spec mt) (warenas w)) of
          Inl e \<Rightarrow> (Restoring (''provision: '' @ e), w)
        | Inr (A, h) \<Rightarrow> (Provisioned h, w\<lparr>warenas := A\<rparr>))
   | Provisioned h \<Rightarrow> (Assigning h (massigner (wmatcher w)) 0 [], mm_appendPhase (mtID mt) EventArenaProvisioned w)
   | Assigning h asg k ids \<Rightarrow>
       if k \<ge> length (mtPlayers mt) then (Assigned, w)
       else if \<not> asg then (Assigning h asg (k + 1) ids, w)
       else let i = qpID (mtPlayers mt ! k) in
         (case fail of
            Some e \<Rightarrow> (Releasing ids h (''assign '' @ i @ '': '' @ e), w)
          | None \<Rightarrow> (Assigning h asg (k + 1) (ids @ [i]), w\<lparr>wcalls := wcalls w @ [CallAssign i (hID h) (mtTeams mt ! k)]\<rparr>))
   | Releasing ids h reason \<Rightarrow>
       (case ids of [] \<Rightarrow> (Destroying h reason, w)
        | i # ids \<Rightarrow> (Releasing ids h reason, w\<lparr>wcalls := wcalls w @ [CallRelease i]\<rparr>))
   | Destroying h reason \<Rightarrow> (Restoring reason, w\<lparr>warenas := lp_Destroy (hID h) (warenas w)\<rparr>)
   | Restoring reason \<Rightarrow> (Cancelling reason, w\<lparr>wmatcher := requeue mt (wmatcher w)\<rparr>)
   | Cancelling reason \<Rightarrow> (Finished False, saga_cancelled J mt reason w)
   | Assigned \<Rightarrow> (Counting, mm_appendPhase (mtID mt) EventPlayersAssigned w)
   | Counting \<Rightarrow> (Finished True, w\<lparr>wmatcher := (wmatcher w)\<lparr>mmatches := i64 (mmatches (wmatcher w) + 1)\<rparr>\<rparr>)
   | Finished ok \<Rightarrow> (Finished ok, w))"

text \<open>\<open>onMatchEnd\<close>: everyone is released, then the arena destroyed.\<close>

definition onMatchEnd :: "match \<Rightarrow> mm_world \<Rightarrow> mm_world" where
  "onMatchEnd mt w = w\<lparr>wends := wends w @ [(if massigner (wmatcher w) then map qpID (mtPlayers mt) else [], arena_name mt)]\<rparr>"

definition end_move :: "string list \<times> string \<Rightarrow> mm_world \<Rightarrow> (string list \<times> string) \<times> mm_world" where
  "end_move e w = (case e of
     (i # ids, a) \<Rightarrow> ((ids, a), w\<lparr>wcalls := wcalls w @ [CallRelease i]\<rparr>)
   | ([], a) \<Rightarrow> (([], a), w\<lparr>warenas := lp_Destroy a (warenas w)\<rparr>))"

section \<open>Everything at once\<close>

datatype mm_event = EvRegister QueuedPlayer | EvUnregister string | EvEnqueue string string
  | EvSetAssigner bool | EvSaga nat "string option" | EvMatchEnd nat | EvEnd nat

text \<open>A match may end as soon as its arena runs.\<close>

fun runs_arena :: "saga_pc \<Rightarrow> bool" where
  "runs_arena (Provisioned h) = True"
| "runs_arena (Assigning h asg k ids) = True"
| "runs_arena (Releasing ids h reason) = True"
| "runs_arena (Destroying h reason) = True"
| "runs_arena Assigned = True"
| "runs_arena Counting = True"
| "runs_arena (Finished ok) = ok"
| "runs_arena pc = False"

definition put_matcher :: "Matcher \<Rightarrow> match option \<Rightarrow> mm_world \<Rightarrow> mm_world" where
  "put_matcher m mt w = w\<lparr>wmatcher := m, wsagas := wsagas w @ (case mt of None \<Rightarrow> [] | Some mt \<Rightarrow> [(mt, Form)])\<rparr>"

fun mm_step :: "mm_json \<Rightarrow> mm_world \<Rightarrow> mm_event \<Rightarrow> mm_world" where
  "mm_step J w (EvRegister p) = put_matcher (mm_Register p (wmatcher w)) None w"
| "mm_step J w (EvUnregister i) = put_matcher (Unregister i (wmatcher w)) None w"
| "mm_step J w (EvEnqueue i mode) = (case mm_Enqueue i mode (wmatcher w) of (m, r, mt) \<Rightarrow> put_matcher m mt w)"
| "mm_step J w (EvSetAssigner a) = put_matcher (SetAssigner a (wmatcher w)) None w"
| "mm_step J w (EvSaga n fail) = (if n \<ge> length (wsagas w) then w else
     case wsagas w ! n of (mt, pc) \<Rightarrow> case saga_move J fail mt pc w of (pc', w') \<Rightarrow> w'\<lparr>wsagas := (wsagas w)[n := (mt, pc')]\<rparr>)"
| "mm_step J w (EvMatchEnd n) = (if n < length (wsagas w) \<and> runs_arena (snd (wsagas w ! n)) then onMatchEnd (fst (wsagas w ! n)) w else w)"
| "mm_step J w (EvEnd n) = (if n \<ge> length (wends w) then w else
     case end_move (wends w ! n) w of (e, w') \<Rightarrow> w'\<lparr>wends := (wends w)[n := e]\<rparr>)"

definition mm_start :: "bool \<Rightarrow> string \<Rightarrow> mm_world" where
  "mm_start assigner inst = \<lparr>wmatcher = NewMatcherInstance assigner inst, warenas = [], wsagas = [], wends = [], wcalls = [], waudit = []\<rparr>"

abbreviation mm_run :: "mm_json \<Rightarrow> mm_event list \<Rightarrow> mm_world \<Rightarrow> mm_world" where
  "mm_run J evs w \<equiv> foldl (mm_step J) w evs"

section \<open>All or nothing\<close>

definition match_ok :: "match \<Rightarrow> bool" where
  "match_ok mt \<longleftrightarrow> (let n = teamSizeFor (mtMode mt) in n > 0 \<and> length (mtPlayers mt) = 2 * n \<and> mtTeams mt = replicate n 0 @ replicate n 1)"

definition assign_call :: "match \<Rightarrow> nat \<Rightarrow> assigner_call" where
  "assign_call mt j = CallAssign (qpID (mtPlayers mt ! j)) (arena_name mt) (mtTeams mt ! j)"

text \<open>Since the last time the call was made, the player was released.\<close>

definition released_since :: "assigner_call \<Rightarrow> string \<Rightarrow> assigner_call list \<Rightarrow> bool" where
  "released_since c i cs \<longleftrightarrow> CallRelease i \<in> set (takeWhile (\<lambda>x. x \<noteq> c) (rev cs))"

lemma released_since_snoc [simp]: "released_since c i (cs @ [x]) \<longleftrightarrow> x \<noteq> c \<and> (x = CallRelease i \<or> released_since c i cs)"
  unfolding released_since_def by (cases "x = c") auto

text \<open>Players a saga still has to give back, how many it has placed, and what its audit trail can be.\<close>

fun pending :: "saga_pc \<Rightarrow> string set" where
  "pending (Assigning h asg k ids) = set ids"
| "pending (Releasing ids h reason) = set ids"
| "pending Assigned = UNIV"
| "pending Counting = UNIV"
| "pending (Finished ok) = (if ok then UNIV else {})"
| "pending pc = {}"

fun placed :: "match \<Rightarrow> saga_pc \<Rightarrow> nat" where
  "placed mt (Assigning h asg k ids) = k"
| "placed mt Assigned = length (mtPlayers mt)"
| "placed mt Counting = length (mtPlayers mt)"
| "placed mt (Finished ok) = (if ok then length (mtPlayers mt) else 0)"
| "placed mt pc = 0"

fun pc_ok :: "match \<Rightarrow> saga_pc \<Rightarrow> bool" where
  "pc_ok mt (Provisioned h) \<longleftrightarrow> hID h = arena_name mt"
| "pc_ok mt (Assigning h asg k ids) \<longleftrightarrow> hID h = arena_name mt \<and> asg \<and> k \<le> length (mtPlayers mt)"
| "pc_ok mt (Releasing ids h reason) \<longleftrightarrow> hID h = arena_name mt"
| "pc_ok mt (Destroying h reason) \<longleftrightarrow> hID h = arena_name mt"
| "pc_ok mt pc \<longleftrightarrow> True"

fun trails :: "saga_pc \<Rightarrow> string list set" where
  "trails Form = {[]}"
| "trails Provisioning = {[EventMatchFormed]}"
| "trails (Provisioned h) = {[EventMatchFormed]}"
| "trails (Restoring r) = {[EventMatchFormed], [EventMatchFormed, EventArenaProvisioned]}"
| "trails (Cancelling r) = {[EventMatchFormed], [EventMatchFormed, EventArenaProvisioned]}"
| "trails Counting = {[EventMatchFormed, EventArenaProvisioned, EventPlayersAssigned]}"
| "trails (Finished ok) = (if ok then {[EventMatchFormed, EventArenaProvisioned, EventPlayersAssigned]}
     else {[EventMatchFormed, EventMatchCancelled], [EventMatchFormed, EventArenaProvisioned, EventMatchCancelled]})"
| "trails pc = {[EventMatchFormed, EventArenaProvisioned]}"

definition trail :: "match \<Rightarrow> (string \<times> string \<times> bytes) list \<Rightarrow> string list" where
  "trail mt au = map (fst \<circ> snd) (filter (\<lambda>x. fst x = MatchStream (mtID mt)) au)"

definition saga_ok :: "assigner_call list \<Rightarrow> (string \<times> string \<times> bytes) list \<Rightarrow> match \<times> saga_pc \<Rightarrow> bool" where
  "saga_ok cs au x \<longleftrightarrow> (case x of (mt, pc) \<Rightarrow> match_ok mt \<and> pc_ok mt pc
     \<and> (\<forall>j < length (mtPlayers mt). assign_call mt j \<in> set cs \<longrightarrow>
          qpID (mtPlayers mt ! j) \<in> pending pc \<or> released_since (assign_call mt j) (qpID (mtPlayers mt ! j)) cs)
     \<and> (\<forall>j < placed mt pc. assign_call mt j \<in> set cs)
     \<and> trail mt au \<in> trails pc)"

text \<open>What a saga does to the shared state concerns its own arena and its own stream only.\<close>

definition mine :: "match \<Rightarrow> assigner_call \<Rightarrow> bool" where
  "mine mt c \<longleftrightarrow> (case c of CallAssign i a t \<Rightarrow> a = arena_name mt | CallRelease i \<Rightarrow> True)"

definition saga_adds :: "match \<Rightarrow> mm_world \<Rightarrow> mm_world \<Rightarrow> bool" where
  "saga_adds mt w w' \<longleftrightarrow> wsagas w' = wsagas w
     \<and> (wcalls w' = wcalls w \<or> (\<exists>c. mine mt c \<and> wcalls w' = wcalls w @ [c]))
     \<and> (waudit w' = waudit w \<or> (\<exists>y. waudit w' = waudit w @ [(MatchStream (mtID mt), y)]))
     \<and> minstance (wmatcher w') = minstance (wmatcher w) \<and> mnextID (wmatcher w') = mnextID (wmatcher w)
     \<and> massigner (wmatcher w') = massigner (wmatcher w)"

lemma trail_snoc: "trail mt (au @ [(s, ty, d)]) = trail mt au @ (if s = MatchStream (mtID mt) then [ty] else [])"
  by (simp add: trail_def)

lemma assign_call_release [simp]: "assign_call mt j \<noteq> CallRelease i" "CallRelease i \<noteq> assign_call mt j"
  by (simp_all add: assign_call_def)

lemma saga_move_adds: "saga_move J fail mt pc w = (pc', w') \<Longrightarrow> pc_ok mt pc \<Longrightarrow> saga_adds mt w w'"
  by (auto simp: saga_move_def saga_adds_def mine_def mm_append_def appendMatchFormed_def mm_appendPhase_def saga_cancelled_def
      requeue_def Let_def split: saga_pc.splits if_splits option.splits sum.splits list.splits prod.splits)

lemma set_lp_Destroy: "set (lp_Destroy i A) = {x \<in> set A. fst x \<noteq> i}"
  by (auto simp: lp_Destroy_def)

lemma saga_move_arenas:
  assumes "saga_move J fail mt pc w = (pc', w')" "pc_ok mt pc" "a \<in> fst ` set (warenas w')"
  shows "a \<in> fst ` set (warenas w) \<and> (a = arena_name mt \<longrightarrow> runs_arena pc \<longrightarrow> runs_arena pc') \<or> a = arena_name mt \<and> runs_arena pc'"
  using assms
  by (cases pc) (auto simp: saga_move_def mm_append_def appendMatchFormed_def mm_appendPhase_def saga_cancelled_def
      Let_def lp_Provision_def arena_spec_def set_lp_Destroy split: if_splits option.splits sum.splits list.splits)

lemma saga_move_ok:
  assumes "saga_move J fail mt pc w = (pc', w')" "saga_ok (wcalls w) (waudit w) (mt, pc)" "massigner (wmatcher w)"
  shows "saga_ok (wcalls w') (waudit w') (mt, pc')"
proof (cases pc)
  case (Assigning h asg k ids)
  then have k: "asg" "hID h = arena_name mt" "k \<le> length (mtPlayers mt)" using assms(2) by (simp_all add: saga_ok_def)
  show ?thesis
  proof (cases "k < length (mtPlayers mt) \<and> fail = None")
    case True
    let ?c = "CallAssign (qpID (mtPlayers mt ! k)) (arena_name mt) (mtTeams mt ! k)"
    have c: "?c = assign_call mt k" by (simp add: assign_call_def)
    have w: "pc' = Assigning h asg (k + 1) (ids @ [qpID (mtPlayers mt ! k)])" "w' = w\<lparr>wcalls := wcalls w @ [?c]\<rparr>"
      using assms(1) True k by (simp_all add: saga_move_def Assigning Let_def)
    have "qpID (mtPlayers mt ! j) \<in> set (ids @ [qpID (mtPlayers mt ! k)])
        \<or> released_since (assign_call mt j) (qpID (mtPlayers mt ! j)) (wcalls w @ [?c])"
      if j: "j < length (mtPlayers mt)" "assign_call mt j \<in> set (wcalls w @ [?c])" for j
    proof (cases "assign_call mt j = ?c")
      case True
      then show ?thesis by (simp add: assign_call_def)
    next
      case False
      then have "assign_call mt j \<in> set (wcalls w)" using j(2) by auto
      then have "qpID (mtPlayers mt ! j) \<in> set ids \<or> released_since (assign_call mt j) (qpID (mtPlayers mt ! j)) (wcalls w)"
        using assms(2) j(1) by (simp add: saga_ok_def Assigning)
      then show ?thesis using False by auto
    qed
    then have A: "\<forall>j < length (mtPlayers mt). assign_call mt j \<in> set (wcalls w @ [?c]) \<longrightarrow>
        qpID (mtPlayers mt ! j) \<in> set (ids @ [qpID (mtPlayers mt ! k)])
        \<or> released_since (assign_call mt j) (qpID (mtPlayers mt ! j)) (wcalls w @ [?c])" by blast
    have "assign_call mt j \<in> set (wcalls w @ [?c])" if "j < k + 1" for j
      using assms(2) that unfolding c by (cases "j = k") (auto simp: saga_ok_def Assigning)
    then have B: "\<forall>j < k + 1. assign_call mt j \<in> set (wcalls w @ [?c])" by blast
    have "match_ok mt" "trail mt (waudit w) = [EventMatchFormed, EventArenaProvisioned]"
      using assms(2) by (simp_all add: saga_ok_def Assigning)
    then show ?thesis unfolding w saga_ok_def prod.case pending.simps placed.simps using A B True k by (intro conjI) simp_all
  next
    case False
    then show ?thesis using assms k by (auto simp: saga_move_def Assigning saga_ok_def Let_def split: if_splits option.splits)
  qed
next
  case (Releasing ids h reason)
  then show ?thesis using assms by (cases ids) (auto simp: saga_move_def saga_ok_def)
next
  case Provisioning
  then show ?thesis using assms by (auto simp: saga_move_def saga_ok_def lp_Provision_def arena_spec_def split: if_splits option.splits)
qed (use assms in \<open>auto simp: saga_move_def saga_ok_def mm_append_def appendMatchFormed_def mm_appendPhase_def saga_cancelled_def trail_snoc\<close>)

text \<open>What others do keeps a saga as it is.\<close>

lemma saga_ok_frame:
  assumes "saga_ok (wcalls w) (waudit w) (mt, pc)" "saga_adds mt' w w'" "mtID mt' \<noteq> mtID mt"
  shows "saga_ok (wcalls w') (waudit w') (mt, pc)"
proof -
  have n: "arena_name mt' \<noteq> arena_name mt" "MatchStream (mtID mt') \<noteq> MatchStream (mtID mt)"
    using assms(3) by (simp_all add: arena_name_def MatchStream_def)
  then have c: "\<forall>j. assign_call mt j \<noteq> c" if "mine mt' c" for c
    using that by (auto simp: mine_def assign_call_def split: assigner_call.splits)
  have calls: "saga_ok (wcalls w') (waudit w) (mt, pc)"
  proof (cases "wcalls w' = wcalls w")
    case False
    then obtain c where "mine mt' c" and w: "wcalls w' = wcalls w @ [c]" using assms(2) by (auto simp: saga_adds_def)
    then have "\<forall>j. c \<noteq> assign_call mt j" using c by metis
    then show ?thesis using assms(1) unfolding w saga_ok_def prod.case by (simp add: nth_append) metis
  qed (use assms(1) in simp)
  have "trail mt (waudit w') = trail mt (waudit w)" using assms(2) n by (auto simp: saga_adds_def trail_snoc)
  then show ?thesis using calls by (simp add: saga_ok_def)
qed

definition mm_inv :: "string \<Rightarrow> mm_world \<Rightarrow> bool" where
  "mm_inv inst w \<longleftrightarrow> minstance (wmatcher w) = inst \<and> massigner (wmatcher w) \<and> mnextID (wmatcher w) = i64 (int (length (wsagas w)))
     \<and> (\<forall>k < length (wsagas w). mtID (fst (wsagas w ! k)) = match_name inst (i64 (int k + 1)))
     \<and> (\<forall>x \<in> set (wsagas w). saga_ok (wcalls w) (waudit w) x)
     \<and> (\<forall>a \<in> fst ` set (warenas w). \<exists>x \<in> set (wsagas w). a = arena_name (fst x) \<and> runs_arena (snd x))
     \<and> (\<forall>i a t. CallAssign i a t \<in> set (wcalls w) \<longrightarrow> a \<in> arena_name ` fst ` set (wsagas w))
     \<and> (\<forall>s \<in> fst ` set (waudit w). s \<in> MatchStream ` mtID ` fst ` set (wsagas w))"

lemma match_name_inj [simp]: "match_name inst m = match_name inst n \<longleftrightarrow> m = n"
  by (simp add: match_name_def)

lemma saga_names:
  assumes "mm_inv inst w" "length (wsagas w) < 2 ^ 63" "j < length (wsagas w)" "k < length (wsagas w)" "j \<noteq> k"
  shows "mtID (fst (wsagas w ! j)) \<noteq> mtID (fst (wsagas w ! k))"
proof -
  have "i64 (int n + 1) = int n + 1" if "n < length (wsagas w)" for n
  proof (rule i64_id)
    have "n + 1 < 2 ^ 63" using that assms(2) by linarith
    then show "int n + 1 < 2 ^ 63" by simp
  qed simp
  then show ?thesis using assms by (simp add: mm_inv_def)
qed

lemma mm_inv_saga:
  assumes inv: "mm_inv inst w" and len: "length (wsagas w) < 2 ^ 63" and k: "k < length (wsagas w)" "wsagas w ! k = (mt, pc)"
    and move: "saga_move J fail mt pc w = (pc', w')"
  shows "mm_inv inst (w'\<lparr>wsagas := (wsagas w)[k := (mt, pc')]\<rparr>)"
proof -
  let ?ss = "(wsagas w)[k := (mt, pc')]"
  have mem: "(mt, pc) \<in> set (wsagas w)" using k nth_mem by metis
  have ok: "saga_ok (wcalls w) (waudit w) (mt, pc)" "massigner (wmatcher w)" using inv mem by (auto simp: mm_inv_def)
  then have adds: "saga_adds mt w w'" using saga_move_adds [OF move] by (simp add: saga_ok_def)
  have fsts: "map fst ?ss = map fst (wsagas w)" using k by (simp add: map_update list_update_same_conv)
  then have fst_set: "fst ` set ?ss = fst ` set (wsagas w)" by (metis set_map)
  have nth: "fst (?ss ! n) = fst (wsagas w ! n)" if "n < length (wsagas w)" for n using fsts that by (metis length_list_update nth_map)
  have each: "saga_ok (wcalls w') (waudit w') (?ss ! n)" if n: "n < length (wsagas w)" for n
  proof (cases "n = k")
    case True
    then show ?thesis using saga_move_ok [OF move ok] k by simp
  next
    case False
    obtain mt2 pc2 where x: "wsagas w ! n = (mt2, pc2)" by fastforce
    then have "saga_ok (wcalls w) (waudit w) (mt2, pc2)" using inv n nth_mem by (fastforce simp: mm_inv_def)
    moreover have "mtID mt \<noteq> mtID mt2" using saga_names [OF inv len k(1) n] False k(2) x by simp
    ultimately show ?thesis using saga_ok_frame [OF _ adds] False x by simp
  qed
  have arenas: "\<exists>x \<in> set ?ss. a = arena_name (fst x) \<and> runs_arena (snd x)" if a: "a \<in> fst ` set (warenas w')" for a
  proof -
    consider "a \<in> fst ` set (warenas w)" "a = arena_name mt \<longrightarrow> runs_arena pc \<longrightarrow> runs_arena pc'" | "a = arena_name mt" "runs_arena pc'"
      using saga_move_arenas [OF move _ a] ok(1) by (auto simp: saga_ok_def)
    then show ?thesis
    proof cases
      case 1
      then obtain x where x: "x \<in> set (wsagas w)" "a = arena_name (fst x)" "runs_arena (snd x)" using inv by (auto simp: mm_inv_def)
      then obtain n where n: "n < length (wsagas w)" "wsagas w ! n = x" by (auto simp: in_set_conv_nth)
      show ?thesis
      proof (cases "n = k")
        case True
        then have "x = (mt, pc)" using n k by simp
        then have "runs_arena pc'" "a = arena_name mt" using 1 x by simp_all
        then show ?thesis using set_update_memI [OF k(1), of "(mt, pc')"] by force
      next
        case False
        then have "?ss ! n = x" "n < length ?ss" using n by simp_all
        then have "x \<in> set ?ss" using nth_mem by metis
        then show ?thesis using x by metis
      qed
    next
      case 2
      then show ?thesis using set_update_memI [OF k(1), of "(mt, pc')"] by force
    qed
  qed
  have mem1: "mt \<in> fst ` set (wsagas w)" using mem by force
  have calls: "a \<in> arena_name ` fst ` set ?ss" if c: "CallAssign i a t \<in> set (wcalls w')" for i a t
  proof -
    have "CallAssign i a t \<in> set (wcalls w) \<or> a = arena_name mt" using adds c by (auto simp: saga_adds_def mine_def)
    then show ?thesis unfolding fst_set using inv mem1 unfolding mm_inv_def by blast
  qed
  have audit: "s \<in> MatchStream ` mtID ` fst ` set ?ss" if c: "s \<in> fst ` set (waudit w')" for s
  proof -
    have "s \<in> fst ` set (waudit w) \<or> s = MatchStream (mtID mt)" using adds c by (auto simp: saga_adds_def)
    then show ?thesis unfolding fst_set using inv mem1 unfolding mm_inv_def by blast
  qed
  have all: "\<forall>x \<in> set ?ss. saga_ok (wcalls w') (waudit w') x" using each by (metis in_set_conv_nth length_list_update)
  have ids: "\<forall>n < length ?ss. mtID (fst (?ss ! n)) = match_name inst (i64 (int n + 1))" using inv nth by (simp add: mm_inv_def)
  define v where "v = w'\<lparr>wsagas := ?ss\<rparr>"
  have v: "wsagas v = ?ss" "wcalls v = wcalls w'" "waudit v = waudit w'" "warenas v = warenas w'" "wmatcher v = wmatcher w'"
    by (simp_all add: v_def)
  have m: "minstance (wmatcher w') = inst" "massigner (wmatcher w')" "mnextID (wmatcher w') = i64 (int (length ?ss))"
    using inv adds by (simp_all add: mm_inv_def saga_adds_def)
  have "\<forall>a \<in> fst ` set (warenas w'). \<exists>x \<in> set ?ss. a = arena_name (fst x) \<and> runs_arena (snd x)"
    "\<forall>i a t. CallAssign i a t \<in> set (wcalls w') \<longrightarrow> a \<in> arena_name ` fst ` set ?ss"
    "\<forall>s \<in> fst ` set (waudit w'). s \<in> MatchStream ` mtID ` fst ` set ?ss"
    by (intro ballI arenas, assumption) (intro allI impI calls, assumption, intro ballI audit, assumption)
  then have "mm_inv inst v" unfolding mm_inv_def v using m ids all by (intro conjI)
  then show ?thesis by (simp add: v_def)
qed

lemma MatchStream_inj: "MatchStream i = MatchStream j \<longleftrightarrow> i = j"
  by (simp add: MatchStream_def)

lemma mm_inv_calls:
  assumes "mm_inv inst w"
  shows "mm_inv inst (w\<lparr>wcalls := wcalls w @ [CallRelease i], wends := es\<rparr>)" "mm_inv inst (w\<lparr>wends := es\<rparr>)"
    "mm_inv inst (w\<lparr>warenas := lp_Destroy a (warenas w), wends := es\<rparr>)"
  using assms by (auto simp: mm_inv_def saga_ok_def set_lp_Destroy)

lemma fresh_saga_ok:
  assumes inv: "mm_inv inst w" and len: "length (wsagas w) + 1 < 2 ^ 63"
    and mt: "match_ok mt" "mtID mt = match_name inst (i64 (int (length (wsagas w)) + 1))"
  shows "saga_ok (wcalls w) (waudit w) (mt, Form)"
proof -
  have new: "mtID mt \<notin> mtID ` fst ` set (wsagas w)"
  proof
    assume "mtID mt \<in> mtID ` fst ` set (wsagas w)"
    then obtain k where k: "k < length (wsagas w)" "mtID (fst (wsagas w ! k)) = mtID mt" by (auto simp: in_set_conv_nth)
    then have "i64 (int k + 1) = i64 (int (length (wsagas w)) + 1)" using inv mt(2) by (simp add: mm_inv_def)
    moreover have "i64 (int n + 1) = int n + 1" if "n \<le> length (wsagas w)" for n
    proof (rule i64_id)
      have "n + 1 < 2 ^ 63" using that len by linarith
      then show "int n + 1 < 2 ^ 63" by simp
    qed simp
    ultimately show False using k(1) by simp
  qed
  have "assign_call mt j \<notin> set (wcalls w)" for j
  proof
    assume "assign_call mt j \<in> set (wcalls w)"
    then have "arena_name mt \<in> arena_name ` fst ` set (wsagas w)" using inv unfolding mm_inv_def assign_call_def by blast
    then show False using new by (auto simp: arena_name_def)
  qed
  moreover have "trail mt (waudit w) = []"
  proof -
    have "\<forall>s \<in> fst ` set (waudit w). s \<noteq> MatchStream (mtID mt)" 
    proof
      fix s assume "s \<in> fst ` set (waudit w)"
      then have "s \<in> MatchStream ` mtID ` fst ` set (wsagas w)" using inv unfolding mm_inv_def by blast
      then obtain i where "i \<in> mtID ` fst ` set (wsagas w)" "s = MatchStream i" by blast
      then show "s \<noteq> MatchStream (mtID mt)" using new MatchStream_inj by metis
    qed
    then show ?thesis by (simp add: trail_def filter_empty_conv)
  qed
  ultimately show ?thesis using mt(1) by (simp add: saga_ok_def)
qed

lemma mm_Enqueue_cases:
  assumes "mm_Enqueue i mode m = (m', r, mt)"
  obtains "m' = m" "mt = None"
  | m1 where "teamSizeFor mode > 0" "formLocked mode m1 = (m', mt)" "r = Inr (length (mqueues m1 mode))"
      "m1 = m\<lparr>mqueues := (mqueues m)(mode := mqueues m mode @ [queue_entry m i]), minQueue := (minQueue m)(i \<mapsto> mode)\<rparr>"
  using assms by (auto simp: mm_Enqueue_def Let_def split: if_splits option.splits prod.splits)

lemma mm_inv_form:
  assumes "mm_inv inst w" "length (wsagas w) + 1 < 2 ^ 63"
    and "minstance m = inst" "massigner m" "mnextID m = mnextID (wmatcher w)" "formLocked mode m = (m', mt)" "teamSizeFor mode > 0"
  shows "mm_inv inst (put_matcher m' mt w)"
proof (cases mt)
  case None
  then have "m' = m" using assms(6) by (auto simp: formLocked_def Let_def split: if_splits prod.splits)
  then show ?thesis using assms None by (simp add: mm_inv_def put_matcher_def)
next
  case (Some x)
  let ?n = "teamSizeFor mode"
  have teams: "map (\<lambda>k. if k \<ge> (2 * n) div 2 then 1 else 0) [0..<2 * n] = replicate n 0 @ replicate n (1 :: int)" for n :: nat
    by (rule nth_equalityI) (simp_all add: nth_append)
  have id: "i64 (mnextID m + 1) = i64 (int (length (wsagas w)) + 1)" using assms(1,5) by (simp add: mm_inv_def)
  have x: "match_ok x" "mtID x = match_name inst (i64 (int (length (wsagas w)) + 1))"
    and m': "minstance m' = inst" "massigner m'" "mnextID m' = i64 (int (length (wsagas w)) + 1)"
    using assms(3,4,6,7) Some id teams [of ?n]
    by (auto simp: formLocked_def Let_def matchID_def match_ok_def split: if_splits)
  have "saga_ok (wcalls w) (waudit w) (x, Form)" by (rule fresh_saga_ok [OF assms(1,2) x])
  then show ?thesis using assms(1) x(2) m' Some
    by (auto simp: mm_inv_def put_matcher_def nth_append less_Suc_eq ac_simps)
qed

lemma mm_inv_step:
  assumes inv: "mm_inv inst w" and len: "length (wsagas w) + 1 < 2 ^ 63" and e: "e \<noteq> EvSetAssigner False"
  shows "mm_inv inst (mm_step J w e)" "length (wsagas (mm_step J w e)) \<le> length (wsagas w) + 1"
proof -
  have same: "mm_inv inst (put_matcher m None w)" if "minstance m = inst" "massigner m" "mnextID m = mnextID (wmatcher w)" for m
    using that inv by (simp add: mm_inv_def put_matcher_def)
  have w: "minstance (wmatcher w) = inst" "massigner (wmatcher w)" using inv by (simp_all add: mm_inv_def)
  show "mm_inv inst (mm_step J w e)"
  proof (cases e)
    case (EvRegister p)
    then show ?thesis using same w by (simp add: mm_Register_def)
  next
    case (EvUnregister i)
    then show ?thesis using same w by (simp add: Unregister_def Let_def split: option.splits)
  next
    case (EvEnqueue i mode)
    obtain m' r mt where m': "mm_Enqueue i mode (wmatcher w) = (m', r, mt)" by (cases "mm_Enqueue i mode (wmatcher w)")
    from m' have "mm_inv inst (put_matcher m' mt w)"
    proof (cases rule: mm_Enqueue_cases)
      case 1
      then show ?thesis using same w by simp
    next
      case (2 m1)
      then show ?thesis using mm_inv_form [OF inv len, of m1 mode m' mt] w by simp
    qed
    then show ?thesis by (simp add: EvEnqueue m')
  next
    case (EvSetAssigner a)
    then show ?thesis using same w e by (simp add: SetAssigner_def)
  next
    case (EvSaga n fail)
    then show ?thesis using inv len mm_inv_saga by (auto split: prod.splits)
  next
    case (EvMatchEnd n)
    then show ?thesis using inv mm_inv_calls(2) by (simp add: onMatchEnd_def)
  next
    case (EvEnd n)
    then show ?thesis using inv mm_inv_calls(1,3) by (auto simp: end_move_def split: prod.splits list.splits)
  qed
  show "length (wsagas (mm_step J w e)) \<le> length (wsagas w) + 1"
    by (cases e) (auto simp: put_matcher_def onMatchEnd_def end_move_def split: prod.splits option.splits list.splits)
qed

lemma mm_inv_run:
  assumes "\<forall>e \<in> set evs. e \<noteq> EvSetAssigner False" "length (wsagas w) + length evs < 2 ^ 63" "mm_inv inst w"
  shows "mm_inv inst (mm_run J evs w) \<and> length (wsagas (mm_run J evs w)) \<le> length (wsagas w) + length evs"
  using assms
proof (induction evs arbitrary: w)
  case (Cons e evs)
  have s: "mm_inv inst (mm_step J w e)" "length (wsagas (mm_step J w e)) \<le> length (wsagas w) + 1"
    using mm_inv_step [of inst w e J] Cons.prems by simp_all
  then show ?case using Cons.IH [of "mm_step J w e"] Cons.prems by simp
qed simp


text \<open>A lone pair: both are assigned, the arena runs.\<close>

lemmas mm_eval = mm_start_def NewMatcherInstance_def mm_Enqueue_def teamSizeFor_def Mode1v1_def Mode2v2_def queue_entry_def formLocked_def
  matchID_def i64_id put_matcher_def saga_move_def mm_append_def appendMatchFormed_def mm_appendPhase_def saga_cancelled_def lp_Provision_def
  arena_spec_def requeue_def lp_Destroy_def Unregister_def Let_def arena_name_def match_name_def mm_Register_def

definition plain_mm :: mm_json where
  "plain_mm = \<lparr>jformed = (\<lambda>_. []), jcancelled = (\<lambda>_. [])\<rparr>"

definition pair_events :: "mm_event list" where
  "pair_events = (let s = EvSaga 0 None in [EvEnqueue ''a'' Mode1v1, EvEnqueue ''b'' Mode1v1, s, s, s, s, s, s, s, s])"

lemma pair_run:
  "map snd (wsagas (mm_run plain_mm pair_events (mm_start True []))) = [Finished True]"
  "map (map qpID \<circ> mtPlayers \<circ> fst) (wsagas (mm_run plain_mm pair_events (mm_start True []))) = [[''a'', ''b'']]"
  by (simp_all add: pair_events_def mm_eval eval_nat_numeral)


section \<open>Nobody is lost\<close>

fun given_up :: "saga_pc \<Rightarrow> bool" where
  "given_up (Cancelling r) = True"
| "given_up (Finished ok) = (\<not> ok)"
| "given_up pc = False"

definition present :: "string \<Rightarrow> mm_world \<Rightarrow> bool" where
  "present p w \<longleftrightarrow> (\<exists>mode. p \<in> qpID ` set (mqueues (wmatcher w) mode))
     \<or> (\<exists>x \<in> set (wsagas w). p \<in> qpID ` set (mtPlayers (fst x)) \<and> \<not> given_up (snd x))"

lemma queue_drop_keeps: "p \<in> set q \<Longrightarrow> qpID p \<noteq> i \<Longrightarrow> p \<in> set (queue_drop i q)"
  by (induction q) auto

lemma queue_position_mem: "queue_position i q = Some n \<Longrightarrow> i \<in> qpID ` set q"
  by (induction q arbitrary: n) (auto split: if_splits)

lemma formLocked_keeps:
  assumes "formLocked mode m = (m', mt)" "p \<in> qpID ` set (mqueues m md)"
  shows "p \<in> qpID ` set (mqueues m' md) \<or> (\<exists>x. mt = Some x \<and> p \<in> qpID ` set (mtPlayers x))"
proof -
  have "set (take n q) \<union> set (drop n q) = set q" for n and q :: "QueuedPlayer list" by (metis append_take_drop_id set_append)
  then show ?thesis using assms by (fastforce simp: formLocked_def Let_def matchID_def split: if_splits prod.splits)
qed

lemma saga_move_keeps:
  assumes "saga_move J fail mt pc w = (pc', w')"
  shows "mqueues (wmatcher w) md \<noteq> mqueues (wmatcher w') md \<Longrightarrow> set (mqueues (wmatcher w) md) \<subseteq> set (mqueues (wmatcher w') md)"
    and "given_up pc' \<Longrightarrow> \<not> given_up pc \<Longrightarrow> set (mtPlayers mt) \<subseteq> set (mqueues (wmatcher w') (mtMode mt))"
    and "wsagas w' = wsagas w"
  using assms
  by (auto simp: saga_move_def mm_append_def appendMatchFormed_def mm_appendPhase_def saga_cancelled_def requeue_def Let_def
      split: saga_pc.splits if_splits option.splits sum.splits list.splits prod.splits)

lemma present_step:
  assumes p: "present p w" and e: "e \<noteq> EvUnregister p"
  shows "present p (mm_step J w e)"
proof (cases e)
  case (EvUnregister i)
  have "p \<in> qpID ` set (mqueues (Unregister i m) md)" if "p \<in> qpID ` set (mqueues m md)" "i \<noteq> p" for m md
    using that queue_drop_keeps by (fastforce simp: Unregister_def Let_def split: option.splits)
  note keep = this [of "wmatcher w"]
  show ?thesis
  proof (cases "\<exists>md. p \<in> qpID ` set (mqueues (wmatcher w) md)")
    case True
    then have "\<exists>md. p \<in> qpID ` set (mqueues (Unregister i (wmatcher w)) md)" using keep e EvUnregister by blast
    then show ?thesis by (simp add: EvUnregister present_def put_matcher_def)
  next
    case False
    then show ?thesis using p by (auto simp: EvUnregister present_def put_matcher_def)
  qed
next
  case (EvEnqueue i mode)
  obtain m' r mt where m': "mm_Enqueue i mode (wmatcher w) = (m', r, mt)" by (cases "mm_Enqueue i mode (wmatcher w)")
  then have "present p (put_matcher m' mt w)"
  proof (cases rule: mm_Enqueue_cases)
    case 1
    then show ?thesis using p by (simp add: present_def put_matcher_def)
  next
    case (2 m1)
    show ?thesis
    proof (cases "\<exists>md. p \<in> qpID ` set (mqueues (wmatcher w) md)")
      case True
      then obtain md where "p \<in> qpID ` set (mqueues (wmatcher w) md)" by blast
      then have "p \<in> qpID ` set (mqueues m1 md)" using 2(4) by auto
      from formLocked_keeps [OF 2(2) this] show ?thesis by (auto simp: present_def put_matcher_def)
    next
      case False
      then show ?thesis using p by (auto simp: present_def put_matcher_def)
    qed
  qed
  then show ?thesis by (simp add: EvEnqueue m')
next
  case (EvSaga n fail)
  show ?thesis
  proof (cases "n < length (wsagas w)")
    case True
    obtain mt pc where k: "wsagas w ! n = (mt, pc)" by fastforce
    obtain pc' w' where mv: "saga_move J fail mt pc w = (pc', w')" by fastforce
    note keeps = saga_move_keeps [OF mv]
    have step: "mm_step J w e = w'\<lparr>wsagas := (wsagas w)[n := (mt, pc')]\<rparr>" using True k mv by (simp add: EvSaga)
    show ?thesis
    proof (cases "\<exists>md. p \<in> qpID ` set (mqueues (wmatcher w) md)")
      case True
      then have "\<exists>md. p \<in> qpID ` set (mqueues (wmatcher w') md)" using keeps(1) by (metis image_mono subsetD)
      then show ?thesis by (simp add: step present_def)
    next
      case False
      then obtain x where x: "x \<in> set (wsagas w)" "p \<in> qpID ` set (mtPlayers (fst x))" "\<not> given_up (snd x)" using p by (auto simp: present_def)
      then obtain j where j: "j < length (wsagas w)" "wsagas w ! j = x" by (auto simp: in_set_conv_nth)
      show ?thesis
      proof (cases "j = n")
        case eq: True
        then have "x = (mt, pc)" using j k by simp
        then show ?thesis
        proof (cases "given_up pc'")
          case True
          then have "p \<in> qpID ` set (mqueues (wmatcher w') (mtMode mt))" using keeps(2) x \<open>x = (mt, pc)\<close> by auto
          then show ?thesis by (auto simp: step present_def)
        next
          case False
          have "(mt, pc') \<in> set ((wsagas w)[n := (mt, pc')])" using j eq by (simp add: set_update_memI)
          then show ?thesis using x \<open>x = (mt, pc)\<close> False by (force simp: step present_def)
        qed
      next
        case False
        then have "(wsagas w)[n := (mt, pc')] ! j = x" "j < length ((wsagas w)[n := (mt, pc')])" using j by simp_all
        then have "x \<in> set ((wsagas w)[n := (mt, pc')])" using nth_mem by metis
        then show ?thesis using x by (auto simp: step present_def)
      qed
    qed
  qed (use p in \<open>simp add: EvSaga\<close>)
qed (use p in \<open>auto simp: present_def put_matcher_def mm_Register_def SetAssigner_def onMatchEnd_def end_move_def split: prod.splits list.splits\<close>)

lemma registry_step:
  assumes "\<forall>i p. mregistry (wmatcher w) i = Some p \<longrightarrow> qpID p = i"
  shows "\<forall>i p. mregistry (wmatcher (mm_step J w e)) i = Some p \<longrightarrow> qpID p = i"
  using assms
  by (cases e) (auto simp: put_matcher_def mm_Register_def Unregister_def SetAssigner_def onMatchEnd_def end_move_def saga_move_def
      mm_append_def appendMatchFormed_def mm_appendPhase_def saga_cancelled_def requeue_def mm_Enqueue_def formLocked_def matchID_def Let_def
      split: prod.splits list.splits option.splits if_splits saga_pc.splits sum.splits)



section \<open>Where players are doubled or left waiting\<close>

text \<open>A player who asks again while the saga runs is queued a second time by its compensation, and can then be
  matched against himself.\<close>

definition twice_events :: "mm_event list" where
  "twice_events = (let s = EvSaga 0 (Some ''full'') in
     [EvEnqueue ''b'' Mode1v1, EvEnqueue ''a'' Mode1v1, EvEnqueue ''a'' Mode1v1, s, s, s, s, EvUnregister ''b'', EvEnqueue ''c'' Mode1v1])"

lemma requeue_duplicates:
  "map (map qpID \<circ> mtPlayers \<circ> fst) (wsagas (mm_run plain_mm twice_events (mm_start True []))) = [[''b'', ''a''], [''a'', ''a'']]"
  by (simp add: twice_events_def mm_eval eval_nat_numeral)

text \<open>Two players whose match was cancelled are back in the queue, enough for a match, and asking again only
  tells them their position: no match is formed until a third player comes.\<close>

definition waiting_events :: "mm_event list" where
  "waiting_events = (let s = EvSaga 0 (Some ''full'') in
     [EvEnqueue ''a'' Mode1v1, EvEnqueue ''b'' Mode1v1, s, s, s, s, EvEnqueue ''a'' Mode1v1, EvEnqueue ''b'' Mode1v1])"

lemma cancelled_match_waits:
  "case mm_run plain_mm waiting_events (mm_start True []) of w \<Rightarrow>
     QueueLen Mode1v1 (wmatcher w) = 2 * teamSizeFor Mode1v1 \<and> map snd (wsagas w) = [Finished False]"
  by (simp add: waiting_events_def mm_eval QueueLen_def eval_nat_numeral)

text \<open>A player whose connection is gone is queued again by the compensation of a match formed before.\<close>

lemma disconnected_requeued:
  "case mm_run plain_mm (let s = EvSaga 0 (Some ''full'') in
       [EvEnqueue ''a'' Mode1v1, EvEnqueue ''b'' Mode1v1, s, EvUnregister ''a'', s, s, s]) (mm_start True []) of w \<Rightarrow>
     map qpID (mqueues (wmatcher w) Mode1v1) = [''a'', ''b'']"
  by (simp add: mm_eval eval_nat_numeral)

end
