(* ===== verification/World.thy ===== *)
theory World
  imports Float64 Inventory Hashring
begin

text \<open>
  The hub (\<open>services/world\<close>): the world is a grid of four regions, each an actor that owns its players, its
  resource nodes and its tick; a router maps regions to shards and says which shards serve. A handler returns the
  region and what it does besides: messages to regions and sessions, appends to the event log. A chat text is the
  list of its code points. The order in which Go visits a map is an argument. Shown: a region holds only players who
  stand in it, and a node gives one resource per respawn time.
\<close>

section \<open>The grid\<close>

definition Width_w :: f64 where "Width_w = fint 800"
definition Height_w :: f64 where "Height_w = fint 600"
definition Speed_w :: f64 where "Speed_w = fint 200"
definition TickRate_w :: int where "TickRate_w = 20"
definition Cols :: int where "Cols = 2"
definition Rows :: int where "Rows = 2"
definition RegionW :: f64 where "RegionW = fint 400"
definition RegionH :: f64 where "RegionH = fint 300"
definition maxChatLen :: nat where "maxChatLen = 120"
definition bubbleTicks :: u64 where "bubbleTicks = 80"
definition GatherRadius :: f64 where "GatherRadius = fint 48"
definition RespawnTicks :: u64 where "RespawnTicks = 200"
definition ChatStream :: string where "ChatStream = ''chat''"
definition EventChatSaid :: string where "EventChatSaid = ''ChatSaid''"
definition ringReplicas :: int where "ringReplicas = 128"

definition regionID :: "int \<Rightarrow> int \<Rightarrow> string" where
  "regionID col row = ''r-'' @ sdec col @ ''-'' @ sdec row"

definition RegionAt :: "f64 \<Rightarrow> f64 \<Rightarrow> string" where
  "RegionAt x y = (let col = ftrunc (fdiv x RegionW); col = (if col \<ge> Cols then Cols - 1 else col); col = (if col < 0 then 0 else col);
     row = ftrunc (fdiv y RegionH); row = (if row \<ge> Rows then Rows - 1 else row); row = (if row < 0 then 0 else row)
     in regionID col row)"

section \<open>Messages\<close>

record ChatSaid =
  csPlayer :: string
  csName :: string
  csText :: "nat list"

record Input =
  inUp :: bool
  inDown :: bool
  inLeft :: bool
  inRight :: bool

text \<open>A session is known by a number, a region by its identifier.\<close>

record JoinMsg =
  jnPlayer :: string
  jnName :: string
  jnSession :: nat
  jnX :: f64
  jnY :: f64
  jnIn :: Input

datatype region_msg = MJoin JoinMsg | MLeave string | MInput string Input | MChat string "nat list" | MGather string | MTick

record NodeState =
  nsID :: string
  nsKind :: string
  nsX :: f64
  nsY :: f64
  nsAvailable :: bool

record PlayerState_w =
  pwID :: string
  pwName :: string
  pwX :: f64
  pwY :: f64
  pwBubble :: "nat list"

record Snapshot_w =
  swTick :: u64
  swRegion :: string
  swShard :: string
  swPlayers :: "PlayerState_w list"
  swNodes :: "NodeState list"

datatype hub_msg = AssignedRegion string string | RegionSnapshot Snapshot_w

datatype effect = SendRegion string region_msg | SendSession nat hub_msg | AppendEvent string string bytes

record world_json =
  wChat :: "ChatSaid \<Rightarrow> bytes"
  wInv :: inv_json

section \<open>Regions and the router\<close>

record entity =
  enID :: string
  enName :: string
  enX :: f64
  enY :: f64
  enIn :: Input
  enSession :: nat
  enBubble :: "nat list"
  enBubbleUntil :: u64

record node =
  ndState :: NodeState
  ndRespawnAt :: u64

record region =
  rgID :: string
  rgShard :: string
  rgMinX :: f64
  rgMinY :: f64
  rgMaxX :: f64
  rgMaxY :: f64
  rgTick :: u64
  rgPlayers :: "string \<rightharpoonup> entity"
  rgNodes :: "node list"
  rgStore :: bool

text \<open>The shards' availability is an interface of the code, and a function here, if bound.\<close>

record Router =
  rtRegions :: "string list"
  rtShardOf :: "string \<rightharpoonup> string"
  rtShardUp :: "string \<Rightarrow> bool"
  rtAvail :: "(string \<Rightarrow> bool) option"

definition nodeLayout :: "NodeState list" where
  "nodeLayout = map (\<lambda>(i, k, x, y). \<lparr>nsID = i, nsKind = k, nsX = fint x, nsY = fint y, nsAvailable = False\<rparr>)
     [(''n1'', ''wood'', 150, 150), (''n2'', ''wood'', 650, 150), (''n3'', ''crystal'', 150, 450), (''n4'', ''crystal'', 650, 450),
      (''n5'', ''wood'', 400, 180), (''n6'', ''crystal'', 400, 420)]"

definition available :: "node \<Rightarrow> bool" where
  "available n \<longleftrightarrow> ndRespawnAt n = 0"

definition new_region :: "string \<Rightarrow> int \<Rightarrow> int \<Rightarrow> string \<Rightarrow> bool \<Rightarrow> region" where
  "new_region i col row shard store = (let minX = fmul (fint col) RegionW; minY = fmul (fint row) RegionH in
     \<lparr>rgID = i, rgShard = shard, rgMinX = minX, rgMinY = minY, rgMaxX = fadd minX RegionW, rgMaxY = fadd minY RegionH, rgTick = 0,
      rgPlayers = Map.empty, rgNodes = map (\<lambda>n. \<lparr>ndState = n, ndRespawnAt = 0\<rparr>) (filter (\<lambda>n. RegionAt (nsX n) (nsY n) = i) nodeLayout),
      rgStore = store\<rparr>)"

definition ShardUp :: "Router \<Rightarrow> string \<Rightarrow> bool" where
  "ShardUp rt shard \<longleftrightarrow> rtShardUp rt shard \<and> (case rtAvail rt of None \<Rightarrow> True | Some av \<Rightarrow> av shard)"

definition SetShardUp :: "string \<Rightarrow> bool \<Rightarrow> Router \<Rightarrow> Router" where
  "SetShardUp shard up rt = rt\<lparr>rtShardUp := (rtShardUp rt)(shard := up)\<rparr>"

definition SetAvailability :: "(string \<Rightarrow> bool) option \<Rightarrow> Router \<Rightarrow> Router" where
  "SetAvailability av rt = rt\<lparr>rtAvail := av\<rparr>"

definition RouterRef :: "Router \<Rightarrow> string \<Rightarrow> string option" where
  "RouterRef rt i = (if i \<in> set (rtRegions rt) then Some i else None)"

text \<open>Reading a missing key of a Go map gives the empty string.\<close>

definition ShardOf :: "Router \<Rightarrow> string \<Rightarrow> string" where
  "ShardOf rt i = (case rtShardOf rt i of Some s \<Rightarrow> s | None \<Rightarrow> [])"

definition RegionShardUp :: "Router \<Rightarrow> string \<Rightarrow> bool" where
  "RegionShardUp rt i = ShardUp rt (ShardOf rt i)"

definition Refs :: "Router \<Rightarrow> string list" where
  "Refs rt = sort (rtRegions rt)"

definition SpawnRegion :: "Router \<Rightarrow> f64 \<Rightarrow> f64 \<Rightarrow> string \<times> string \<times> string option" where
  "SpawnRegion rt x y = (let i = RegionAt x y in (i, ShardOf rt i, RouterRef rt i))"

definition grid_cells :: "(int \<times> int) list" where
  "grid_cells = concat (map (\<lambda>col. map (\<lambda>row. (col, row)) [0..Rows - 1]) [0..Cols - 1])"

text \<open>\<open>NewHub\<close> fails on the first region whose actor name is taken.\<close>

fun spawn_regions :: "string set \<Rightarrow> bool \<Rightarrow> Ring \<Rightarrow> (int \<times> int) list \<Rightarrow> Router \<times> region list \<Rightarrow> (Router \<times> region list) option" where
  "spawn_regions taken store r [] acc = Some acc"
| "spawn_regions taken store r ((col, row) # cs) (rt, rgs) = (let i = regionID col row; shard = Get i r in
     if i \<in> taken then None
     else spawn_regions taken store r cs (rt\<lparr>rtShardOf := (rtShardOf rt)(i \<mapsto> shard), rtRegions := rtRegions rt @ [i]\<rparr>,
            rgs @ [new_region i col row shard store]))"

definition NewHub :: "string set \<Rightarrow> bool \<Rightarrow> string list \<Rightarrow> (Router \<times> region list) option" where
  "NewHub taken store shards = spawn_regions taken store (Add shards (NewRing ringReplicas)) grid_cells
     (\<lparr>rtRegions = [], rtShardOf = Map.empty, rtShardUp = (\<lambda>s. s \<in> set shards), rtAvail = None\<rparr>, [])"

section \<open>Handlers\<close>

definition frozen :: "Router \<Rightarrow> region \<Rightarrow> bool" where
  "frozen rt r \<longleftrightarrow> \<not> ShardUp rt (rgShard r)"

definition on_join :: "JoinMsg \<Rightarrow> region \<Rightarrow> region" where
  "on_join m r = r\<lparr>rgPlayers := (rgPlayers r)(jnPlayer m \<mapsto> \<lparr>enID = jnPlayer m, enName = jnName m,
     enX = clamp (jnX m) (fint 0) Width_w, enY = clamp (jnY m) (fint 0) Height_w, enIn = jnIn m, enSession = jnSession m,
     enBubble = [], enBubbleUntil = 0\<rparr>)\<rparr>"

definition on_input :: "string \<Rightarrow> Input \<Rightarrow> region \<Rightarrow> region" where
  "on_input p i r = (case rgPlayers r p of None \<Rightarrow> r | Some e \<Rightarrow> r\<lparr>rgPlayers := (rgPlayers r)(p \<mapsto> e\<lparr>enIn := i\<rparr>)\<rparr>)"

text \<open>\<open>unicode.IsSpace\<close> on code points.\<close>

definition rune_space :: "nat \<Rightarrow> bool" where
  "rune_space c \<longleftrightarrow> c \<in> {9, 10, 11, 12, 13, 32, 0x85, 0xA0, 0x1680, 0x2028, 0x2029, 0x202F, 0x205F, 0x3000} \<or> 0x2000 \<le> c \<and> c \<le> 0x200A"

definition trim_runes :: "nat list \<Rightarrow> nat list" where
  "trim_runes s = rev (dropWhile rune_space (rev (dropWhile rune_space s)))"

definition handleChat :: "world_json \<Rightarrow> Router \<Rightarrow> string \<Rightarrow> nat list \<Rightarrow> region \<Rightarrow> region \<times> effect list" where
  "handleChat J rt p text r = (if frozen rt r then (r, [])
     else case rgPlayers r p of
       None \<Rightarrow> (r, [])
     | Some e \<Rightarrow> let t = trim_runes text in
         if t = [] \<or> length t > maxChatLen then (r, [])
         else (r\<lparr>rgPlayers := (rgPlayers r)(p \<mapsto> e\<lparr>enBubble := t, enBubbleUntil := rgTick r + bubbleTicks\<rparr>)\<rparr>,
               if rgStore r then [AppendEvent ChatStream EventChatSaid (wChat J \<lparr>csPlayer = enID e, csName = enName e, csText = t\<rparr>)] else []))"

fun nearest_node :: "f64 \<Rightarrow> f64 \<Rightarrow> nat \<Rightarrow> node list \<Rightarrow> nat option \<Rightarrow> f64 \<Rightarrow> nat option" where
  "nearest_node x y k [] best bestDist = best"
| "nearest_node x y k (n # ns) best bestDist = (let d = fhypot (fsub (nsX (ndState n)) x) (fsub (nsY (ndState n)) y) in
     if available n \<and> fle d bestDist then nearest_node x y (k + 1) ns (Some k) d else nearest_node x y (k + 1) ns best bestDist)"

definition handleGather :: "world_json \<Rightarrow> Router \<Rightarrow> string \<Rightarrow> region \<Rightarrow> region \<times> effect list" where
  "handleGather J rt p r = (if frozen rt r then (r, [])
     else case rgPlayers r p of
       None \<Rightarrow> (r, [])
     | Some e \<Rightarrow> (case nearest_node (enX e) (enY e) 0 (rgNodes r) None GatherRadius of
         None \<Rightarrow> (r, [])
       | Some k \<Rightarrow> (let n = rgNodes r ! k in
           (r\<lparr>rgNodes := (rgNodes r)[k := n\<lparr>ndRespawnAt := rgTick r + RespawnTicks\<rparr>]\<rparr>,
            if rgStore r then [AppendEvent (inv_stream (enID e)) EventGathered (jgathered (wInv J)
              \<lparr>gPlayer = enID e, gName = enName e, gNode = nsID (ndState n), gKind = nsKind (ndState n), gAmount = 1\<rparr>)] else []))))"

definition respawn :: "u64 \<Rightarrow> node \<Rightarrow> node" where
  "respawn t n = (if ndRespawnAt n \<noteq> 0 \<and> t \<ge> ndRespawnAt n then n\<lparr>ndRespawnAt := 0\<rparr> else n)"

definition velocity_w :: "bool \<Rightarrow> bool \<Rightarrow> f64" where
  "velocity_w less_key more_key = (let v = (if less_key then fsub (fint 0) Speed_w else fint 0) in if more_key then fadd v Speed_w else v)"

definition dt_w :: f64 where "dt_w = fround (1 / 20)"

text \<open>A player's move: handed to another region at a place there, or a place here.\<close>

datatype moved = HandTo string f64 f64 | StayAt f64 f64

definition move_entity :: "Router \<Rightarrow> region \<Rightarrow> entity \<Rightarrow> moved" where
  "move_entity rt r e = (let nx = clamp (fadd (enX e) (fmul (velocity_w (inLeft (enIn e)) (inRight (enIn e))) dt_w)) (fint 0) Width_w;
     ny = clamp (fadd (enY e) (fmul (velocity_w (inUp (enIn e)) (inDown (enIn e))) dt_w)) (fint 0) Height_w; dst = RegionAt nx ny in
     if dst \<noteq> rgID r then
       if RouterRef rt dst \<noteq> None \<and> RegionShardUp rt dst then HandTo dst nx ny
       else StayAt (clamp nx (rgMinX r) (fsub (rgMaxX r) (fint 1))) (clamp ny (rgMinY r) (fsub (rgMaxY r) (fint 1)))
     else StayAt nx ny)"

definition drop_bubble :: "u64 \<Rightarrow> entity \<Rightarrow> entity" where
  "drop_bubble t e = (if enBubbleUntil e \<noteq> 0 \<and> t \<ge> enBubbleUntil e then e\<lparr>enBubble := [], enBubbleUntil := 0\<rparr> else e)"

text \<open>The loop over the players: the region, what is sent, who is handed over. \<open>see p\<close> is the router as the
  iteration of player \<open>p\<close> finds it.\<close>

fun move_players :: "(string \<Rightarrow> Router) \<Rightarrow> string list \<Rightarrow> region \<Rightarrow> region \<times> effect list \<times> string list" where
  "move_players see [] r = (r, [], [])"
| "move_players see (p # ps) r = (case rgPlayers r p of
     None \<Rightarrow> move_players see ps r
   | Some e0 \<Rightarrow> (let e = drop_bubble (rgTick r) e0 in
       case move_entity (see p) r e of
         StayAt x y \<Rightarrow> move_players see ps (r\<lparr>rgPlayers := (rgPlayers r)(p \<mapsto> e\<lparr>enX := x, enY := y\<rparr>)\<rparr>)
       | HandTo dst x y \<Rightarrow> (case move_players see ps (r\<lparr>rgPlayers := (rgPlayers r)(p \<mapsto> e)\<rparr>) of (r', effs, handed) \<Rightarrow>
           (r', SendRegion dst (MJoin \<lparr>jnPlayer = enID e, jnName = enName e, jnSession = enSession e, jnX = x, jnY = y, jnIn = enIn e\<rparr>)
              # SendSession (enSession e) (AssignedRegion dst (ShardOf (see p) dst)) # effs, enID e # handed))))"

definition snapshot_w :: "string list \<Rightarrow> region \<Rightarrow> Snapshot_w" where
  "snapshot_w ids r = \<lparr>swTick = rgTick r, swRegion = rgID r, swShard = rgShard r,
     swPlayers = map (\<lambda>p. let e = the (rgPlayers r p) in \<lparr>pwID = enID e, pwName = enName e, pwX = enX e, pwY = enY e, pwBubble = enBubble e\<rparr>) (sort ids),
     swNodes = map (\<lambda>n. (ndState n)\<lparr>nsAvailable := available n\<rparr>) (rgNodes r)\<rparr>"

definition tickStep :: "(string \<Rightarrow> Router) \<Rightarrow> string list \<Rightarrow> string list \<Rightarrow> Router \<Rightarrow> region \<Rightarrow> region \<times> effect list" where
  "tickStep see order order' rt r = (if frozen rt r then (r, [])
     else case move_players see order (r\<lparr>rgNodes := map (respawn (rgTick r)) (rgNodes r)\<rparr>) of (r1, effs, handed) \<Rightarrow>
       let r2 = r1\<lparr>rgPlayers := rgPlayers r1 |` (- set handed), rgTick := rgTick r1 + 1\<rparr>;
           ids = filter (\<lambda>p. rgPlayers r2 p \<noteq> None) order'; snap = snapshot_w ids r2
       in (r2, effs @ map (\<lambda>p. SendSession (enSession (the (rgPlayers r2 p))) (RegionSnapshot snap)) ids))"

text \<open>What a tick's loops find: the orders of the two iterations and the router at each player.\<close>

record tick_env =
  teSee :: "string \<Rightarrow> Router"
  teMove :: "string list"
  teShow :: "string list"

definition region_receive :: "world_json \<Rightarrow> tick_env \<Rightarrow> Router \<Rightarrow> region_msg \<Rightarrow> region \<Rightarrow> region \<times> effect list" where
  "region_receive J env rt m r = (case m of
     MJoin j \<Rightarrow> (on_join j r, [])
   | MLeave p \<Rightarrow> (r\<lparr>rgPlayers := (rgPlayers r)(p := None)\<rparr>, [])
   | MInput p i \<Rightarrow> (on_input p i r, [])
   | MChat p t \<Rightarrow> handleChat J rt p t r
   | MGather p \<Rightarrow> handleGather J rt p r
   | MTick \<Rightarrow> tickStep (teSee env) (teMove env) (teShow env) rt r)"

section \<open>Players stand in their region\<close>

lemma fround_ge_1:
  assumes "1 \<le> q" "q < 2" "fround q = Fin r"
  shows "1 \<le> r"
proof -
  have q: "q > 0" using assms(1) by linarith
  have "(2 :: rat) powi ilog2 q < 2 powi 1" using ilog2_bounds(1) [OF q] assms(2) by simp
  then have "ilog2 q < 1" by (rule powi2_less)
  moreover have "(2 :: rat) powi 0 < 2 powi (ilog2 q + 1)" using ilog2_bounds(2) [OF q] assms(1) by simp
  then have "0 < ilog2 q + 1" by (rule powi2_less)
  ultimately have "ilog2 q = 0" by simp
  then have u: "ulp q = 1 / 2 ^ 52" by (simp add: ulp_def power_int_minus inverse_eq_divide)
  have "(2 ^ 52 :: rat) \<le> q / ulp q" using assms(1) by (simp add: u)
  then have "2 ^ 52 \<le> \<lfloor>q / ulp q\<rfloor>" by (simp add: le_floor_iff)
  then have "2 ^ 52 \<le> round_even (q / ulp q)" by (auto simp: round_even_def Let_def)
  then have "(2 ^ 52 :: rat) \<le> of_int (round_even (q / ulp q))" by (metis of_int_le_iff of_int_numeral of_int_power)
  then have "1 \<le> of_int (round_even (q / ulp q)) * ulp q" by (simp add: u)
  then show ?thesis using assms(3) q by (auto simp: fround_def Let_def split: if_splits)
qed

text \<open>A coordinate up to a whole pixel below the next border falls into its column, rounding included.\<close>

lemma grid_index:
  assumes "c \<in> {0, 1}" "of_int c \<le> q" "q \<le> of_int c + 399 / 400"
  shows "ftrunc (fround q) = c"
proof -
  have q: "0 \<le> q" "q \<le> 2" using assms by auto
  obtain r where r: "fround q = Fin r" by (rule fround_finite [of q]) (use q in simp)
  have "\<bar>r - q\<bar> \<le> \<bar>q\<bar> / 2 ^ 53 + tiny / 2" by (rule fround_near [OF r])
  also have "\<dots> \<le> 1 / 1000" using q tiny_bounds(2) by (simp add: power_int_minus)
  finally have n: "r - q \<le> 1 / 1000" "- (r - q) \<le> 1 / 1000" by (simp_all only: abs_le_iff)
  then have up: "r < of_int c + 1" "of_int c - 1 < r" using assms by linarith+
  show ?thesis
  proof (cases "c = 0")
    case True
    then have f: "r < 1" "- r < 1" using up by simp_all
    have "\<lfloor>r\<rfloor> = 0" if "\<not> r < 0" using f(1) that by (simp add: floor_eq_iff)
    moreover have "\<lfloor>- r\<rfloor> = 0" if "r < 0" using f(2) that by (simp add: floor_eq_iff)
    ultimately show ?thesis using True r by (simp add: Let_def)
  next
    case False
    then have c: "c = 1" using assms(1) by simp
    then have "1 \<le> r" using assms by (intro fround_ge_1 [OF _ _ r]) simp_all
    moreover from this have "\<lfloor>r\<rfloor> = 1" using up(1) c by (simp add: floor_eq_iff)
    ultimately show ?thesis using c r by (simp add: Let_def)
  qed
qed

lemma RegionAt_cell:
  assumes "c \<in> {0, 1}" "w \<in> {0, 1}" "of_int c * 400 \<le> x" "x \<le> of_int c * 400 + 399" "of_int w * 300 \<le> y" "y \<le> of_int w * 300 + 299"
  shows "RegionAt (Fin x) (Fin y) = regionID c w"
proof -
  have "ftrunc (fround (x / 400)) = c" by (rule grid_index [OF assms(1)]) (use assms(3,4) in \<open>simp_all add: field_simps\<close>)
  moreover have "ftrunc (fround (y / 300)) = w" by (rule grid_index [OF assms(2)]) (use assms(5,6) in \<open>simp_all add: field_simps\<close>)
  ultimately show ?thesis using assms(1,2) by (auto simp: RegionAt_def RegionW_def RegionH_def Cols_def Rows_def Let_def)
qed

definition stands :: "string \<Rightarrow> f64 \<Rightarrow> f64 \<Rightarrow> bool" where
  "stands i x y \<longleftrightarrow> (\<exists>a b. x = Fin a \<and> y = Fin b \<and> 0 \<le> a \<and> a \<le> 800 \<and> 0 \<le> b \<and> b \<le> 600) \<and> RegionAt x y = i"

definition players_in :: "region \<Rightarrow> bool" where
  "players_in r \<longleftrightarrow> (\<forall>p e. rgPlayers r p = Some e \<longrightarrow> enID e = p \<and> stands (rgID r) (enX e) (enY e))"

definition cell_ok :: "region \<Rightarrow> bool" where
  "cell_ok r \<longleftrightarrow> (\<exists>c \<in> {0, 1}. \<exists>w \<in> {0, 1}. rgID r = regionID c w \<and> rgMinX r = Fin (of_int c * 400) \<and> rgMaxX r = Fin (of_int c * 400 + 400)
     \<and> rgMinY r = Fin (of_int w * 300) \<and> rgMaxY r = Fin (of_int w * 300 + 300))"

text \<open>What a message, and what a region sends, must satisfy.\<close>

definition msg_ok :: "string \<Rightarrow> region_msg \<Rightarrow> bool" where
  "msg_ok i m \<longleftrightarrow> (case m of MJoin j \<Rightarrow> stands i (jnX j) (jnY j) | _ \<Rightarrow> True)"

fun effect_ok :: "effect \<Rightarrow> bool" where
  "effect_ok (SendRegion i m) \<longleftrightarrow> (case m of MJoin j \<Rightarrow> stands i (jnX j) (jnY j) | _ \<Rightarrow> False)"
| "effect_ok _ \<longleftrightarrow> True"

lemma clamp_inside [simp]: "lo \<le> v \<Longrightarrow> v \<le> hi \<Longrightarrow> clamp (Fin v) (Fin lo) (Fin hi) = Fin v"
  by (simp add: clamp_def)

lemma velocity_w_cases: "velocity_w b c \<in> {Fin 0, Fin 200, Fin (- 200)}"
proof -
  have "fadd (Fin (- 200)) (Fin 200) = Fin 0" "fsub (Fin 0) (Fin 200) = Fin (- 200)" "fadd (Fin 0) (Fin 200) = Fin 200"
    using fround_int [of "- 200"] fround_int [of 200] by (simp_all add: fsub_def fround_def [of 0])
  then show ?thesis by (simp add: velocity_w_def Speed_w_def Let_def)
qed

lemma moved_finite:
  assumes "0 \<le> x" "x \<le> w" "w \<le> 1000"
  obtains s where "clamp (fadd (Fin x) (fmul (velocity_w b c) dt_w)) (Fin 0) (Fin w) = Fin s" "0 \<le> s" "s \<le> w"
proof -
  obtain v where v: "velocity_w b c = Fin v" "\<bar>v\<bar> \<le> 200" using velocity_w_cases [of b c] by auto
  obtain d where d: "dt_w = Fin d" unfolding dt_w_def by (rule fround_finite [of "1 / 20"]) simp_all
  have "\<bar>d - 1 / 20\<bar> \<le> \<bar>1 / 20\<bar> / 2 ^ 53 + tiny / 2" using fround_near [of "1 / 20" d] d by (simp add: dt_w_def)
  also have "\<dots> \<le> 1 / 2" using tiny_bounds(2) by (simp add: power_int_minus)
  finally have "\<bar>d\<bar> \<le> 1" unfolding abs_le_iff by linarith
  then have vd: "\<bar>v * d\<bar> \<le> 200" using v(2) mult_mono [of "\<bar>v\<bar>" 200 "\<bar>d\<bar>" 1] by (simp add: abs_mult)
  obtain m where m: "fround (v * d) = Fin m" by (rule fround_finite [of "v * d"]) (use vd in simp)
  have "\<bar>m - v * d\<bar> \<le> \<bar>v * d\<bar> / 2 ^ 53 + tiny / 2" by (rule fround_near [OF m])
  also have "\<dots> \<le> 1" using vd tiny_bounds(2) by (simp add: power_int_minus)
  finally have "\<bar>m\<bar> \<le> 201" using vd by linarith
  then have "\<bar>x + m\<bar> \<le> 2 ^ 60" using assms by simp
  then obtain s where s: "fround (x + m) = Fin s" by (rule fround_finite)
  obtain r where "clamp (Fin s) (Fin 0) (Fin w) = Fin r" "0 \<le> r" "r \<le> w" by (rule clamp_fin [of 0 w s]) (use assms in simp_all)
  then show ?thesis by (intro that) (simp_all add: v d m s)
qed

lemma move_entity_ok:
  assumes "cell_ok r" "stands (rgID r) (enX e) (enY e)"
  shows "case move_entity rt r e of HandTo dst x y \<Rightarrow> stands dst x y | StayAt x y \<Rightarrow> stands (rgID r) x y"
proof -
  obtain a b where e: "enX e = Fin a" "enY e = Fin b" "0 \<le> a" "a \<le> 800" "0 \<le> b" "b \<le> 600" using assms(2) by (auto simp: stands_def)
  obtain x where x: "clamp (fadd (Fin a) (fmul (velocity_w (inLeft (enIn e)) (inRight (enIn e))) dt_w)) (Fin 0) (Fin 800) = Fin x" "0 \<le> x" "x \<le> 800"
    by (rule moved_finite [of a 800]) (use e in simp_all)
  obtain y where y: "clamp (fadd (Fin b) (fmul (velocity_w (inUp (enIn e)) (inDown (enIn e))) dt_w)) (Fin 0) (Fin 600) = Fin y" "0 \<le> y" "y \<le> 600"
    by (rule moved_finite [of b 600]) (use e in simp_all)
  obtain c w where cw: "c \<in> {0, 1}" "w \<in> {0, 1}" "rgID r = regionID c w" "rgMinX r = Fin (of_int c * 400)" "rgMaxX r = Fin (of_int c * 400 + 400)"
    "rgMinY r = Fin (of_int w * 300)" "rgMaxY r = Fin (of_int w * 300 + 300)" using assms(1) by (auto simp: cell_ok_def)
  have one: "fsub (Fin (of_int c * 400 + 400)) (fint 1) = Fin (of_int c * 400 + 399)" "fsub (Fin (of_int w * 300 + 300)) (fint 1) = Fin (of_int w * 300 + 299)"
    using fround_int [of "c * 400 + 399"] fround_int [of "w * 300 + 299"] cw(1,2) by (auto simp: fsub_def)
  obtain x' where x': "clamp (Fin x) (Fin (of_int c * 400)) (Fin (of_int c * 400 + 399)) = Fin x'" "of_int c * 400 \<le> x'" "x' \<le> of_int c * 400 + 399"
    by (rule clamp_fin [of "of_int c * 400" "of_int c * 400 + 399" x]) simp_all
  obtain y' where y': "clamp (Fin y) (Fin (of_int w * 300)) (Fin (of_int w * 300 + 299)) = Fin y'" "of_int w * 300 \<le> y'" "y' \<le> of_int w * 300 + 299"
    by (rule clamp_fin [of "of_int w * 300" "of_int w * 300 + 299" y]) simp_all
  have st: "stands (rgID r) (Fin x') (Fin y')"
    using RegionAt_cell [OF cw(1,2) x'(2,3) y'(2,3)] x'(2,3) y'(2,3) cw(1,2,3) by (auto simp: stands_def)
  have st0: "stands (RegionAt (Fin x) (Fin y)) (Fin x) (Fin y)" using x y by (simp add: stands_def)
  have m: "move_entity rt r e = (if RegionAt (Fin x) (Fin y) \<noteq> rgID r then
      if RouterRef rt (RegionAt (Fin x) (Fin y)) \<noteq> None \<and> RegionShardUp rt (RegionAt (Fin x) (Fin y)) then HandTo (RegionAt (Fin x) (Fin y)) (Fin x) (Fin y)
      else StayAt (Fin x') (Fin y') else StayAt (Fin x) (Fin y))"
    unfolding move_entity_def Let_def e(1,2) Width_w_def Height_w_def cw(4-7) one
    using x(1) y(1) x'(1) y'(1) by simp
  show ?thesis using st st0 by (auto simp: m)
qed

lemma move_players_ok:
  assumes "cell_ok r" "players_in r" "move_players see ps r = (r', effs, handed)"
  shows "players_in r' \<and> (\<forall>x \<in> set effs. effect_ok x) \<and> rgID r' = rgID r \<and> rgMinX r' = rgMinX r \<and> rgMinY r' = rgMinY r \<and> rgMaxX r' = rgMaxX r \<and> rgMaxY r' = rgMaxY r"
  using assms
proof (induction ps arbitrary: r effs handed)
  case (Cons p ps)
  show ?case
  proof (cases "rgPlayers r p")
    case (Some e0)
    let ?e = "drop_bubble (rgTick r) e0"
    have e: "enID ?e = p" "stands (rgID r) (enX ?e) (enY ?e)" using Cons.prems(2) Some by (simp_all add: players_in_def drop_bubble_def)
    have cell: "cell_ok (r\<lparr>rgPlayers := f\<rparr>)" for f using Cons.prems(1) by (simp add: cell_ok_def)
    have pin: "players_in (r\<lparr>rgPlayers := (rgPlayers r)(p \<mapsto> e)\<rparr>)" if "enID e = p" "stands (rgID r) (enX e) (enY e)" for e
      using Cons.prems(2) that by (simp add: players_in_def)
    note ok = move_entity_ok [OF Cons.prems(1) e(2), of "see p"]
    show ?thesis
    proof (cases "move_entity (see p) r ?e")
      case (StayAt x y)
      then have m: "move_players see ps (r\<lparr>rgPlayers := (rgPlayers r)(p \<mapsto> ?e\<lparr>enX := x, enY := y\<rparr>)\<rparr>) = (r', effs, handed)"
        using Cons.prems(3) Some by (simp add: Let_def)
      have "players_in (r\<lparr>rgPlayers := (rgPlayers r)(p \<mapsto> ?e\<lparr>enX := x, enY := y\<rparr>)\<rparr>)" by (rule pin) (use ok StayAt e(1) in simp_all)
      then show ?thesis using Cons.IH [OF cell _ m] by simp
    next
      case (HandTo dst x y)
      obtain r1 effs1 handed1 where m: "move_players see ps (r\<lparr>rgPlayers := (rgPlayers r)(p \<mapsto> ?e)\<rparr>) = (r1, effs1, handed1)"
        by (metis prod.exhaust)
      have r: "r1 = r'" and ef: "effs = SendRegion dst (MJoin \<lparr>jnPlayer = enID ?e, jnName = enName ?e, jnSession = enSession ?e, jnX = x, jnY = y, jnIn = enIn ?e\<rparr>)
              # SendSession (enSession ?e) (AssignedRegion dst (ShardOf (see p) dst)) # effs1"
        using Cons.prems(3) Some HandTo m by (simp_all add: Let_def)
      have "effect_ok (SendRegion dst (MJoin \<lparr>jnPlayer = enID ?e, jnName = enName ?e, jnSession = enSession ?e, jnX = x, jnY = y, jnIn = enIn ?e\<rparr>))"
        using ok HandTo by simp
      then show ?thesis using Cons.IH [OF cell pin [OF e] m [unfolded r]] by (simp add: ef)
    qed
  qed (use Cons in simp)
qed simp

lemma players_in_less: "players_in r \<Longrightarrow> (\<And>p e. f p = Some e \<Longrightarrow> rgPlayers r p = Some e) \<Longrightarrow> players_in (r\<lparr>rgPlayers := f\<rparr>)"
  unfolding players_in_def by (auto 4 3)

definition region_ok :: "region \<Rightarrow> bool" where
  "region_ok r \<longleftrightarrow> cell_ok r \<and> players_in r"

lemma on_join_ok: "stands (rgID r) (jnX j) (jnY j) \<Longrightarrow> players_in r \<Longrightarrow> players_in (on_join j r)"
  by (auto simp: stands_def players_in_def on_join_def Width_w_def Height_w_def)

lemma tickStep_ok:
  assumes "region_ok r" "tickStep see order order' rt r = (r', effs)"
  shows "region_ok r' \<and> rgID r' = rgID r \<and> (\<forall>x \<in> set effs. effect_ok x)"
proof (cases "frozen rt r")
  case False
  let ?r0 = "r\<lparr>rgNodes := map (respawn (rgTick r)) (rgNodes r)\<rparr>"
  obtain r1 ef handed where m: "move_players see order ?r0 = (r1, ef, handed)" by (metis prod.exhaust)
  have "cell_ok ?r0" "players_in ?r0" using assms(1) by (simp_all add: region_ok_def cell_ok_def players_in_def)
  note k = move_players_ok [OF this m]
  have "players_in (r1\<lparr>rgPlayers := rgPlayers r1 |` (- set handed)\<rparr>)" using k by (intro players_in_less) (auto simp: restrict_map_def split: if_splits)
  then have "region_ok (r1\<lparr>rgPlayers := rgPlayers r1 |` (- set handed), rgTick := rgTick r1 + 1\<rparr>)"
    using k assms(1) by (simp add: region_ok_def cell_ok_def) (simp add: players_in_def)
  then show ?thesis using assms(2) False k by (auto simp: tickStep_def m Let_def)
qed (use assms in \<open>simp add: tickStep_def\<close>)

lemma region_receive_ok:
  assumes "region_ok r" "msg_ok (rgID r) m" "region_receive J env rt m r = (r', effs)"
  shows "region_ok r' \<and> rgID r' = rgID r \<and> (\<forall>x \<in> set effs. effect_ok x)"
proof -
  have cell: "cell_ok (r\<lparr>rgPlayers := f\<rparr>)" "cell_ok (r\<lparr>rgNodes := ns\<rparr>)" for f ns using assms(1) by (simp_all add: region_ok_def cell_ok_def)
  have pin: "players_in r" using assms(1) by (simp add: region_ok_def)
  show ?thesis
  proof (cases m)
    case (MJoin j)
    have "players_in (on_join j r)" using on_join_ok pin assms(2) by (simp add: MJoin msg_ok_def)
    then show ?thesis using assms(3) cell by (auto simp: MJoin region_receive_def region_ok_def on_join_def)
  next
    case (MLeave p)
    have "players_in (r\<lparr>rgPlayers := (rgPlayers r)(p := None)\<rparr>)" using pin by (rule players_in_less) (simp split: if_splits)
    then show ?thesis using assms(3) cell by (auto simp: MLeave region_receive_def region_ok_def)
  next
    case (MInput p i)
    then show ?thesis using assms(1,3) cell pin by (auto simp: region_receive_def region_ok_def on_input_def players_in_def split: option.splits if_splits)
  next
    case (MChat p t)
    then show ?thesis using assms(1,3) cell pin
      by (auto simp: region_receive_def region_ok_def handleChat_def Let_def players_in_def split: option.splits if_splits)
  next
    case (MGather p)
    then show ?thesis using assms(1,3) cell pin
      by (auto simp: region_receive_def region_ok_def handleGather_def Let_def players_in_def split: option.splits if_splits)
  next
    case MTick
    then show ?thesis using tickStep_ok [OF assms(1)] assms(3) by (simp add: region_receive_def)
  qed
qed

section \<open>A node gives one resource per respawn time\<close>

fun is_gather :: "effect \<Rightarrow> bool" where
  "is_gather (AppendEvent s t d) \<longleftrightarrow> t = EventGathered"
| "is_gather _ \<longleftrightarrow> False"

fun region_run :: "world_json \<Rightarrow> (tick_env \<times> Router \<times> region_msg) list \<Rightarrow> region \<Rightarrow> region \<times> effect list" where
  "region_run J [] r = (r, [])"
| "region_run J ((env, rt, m) # ms) r = (case region_receive J env rt m r of (r1, effs) \<Rightarrow>
     case region_run J ms r1 of (r2, effs2) \<Rightarrow> (r2, effs @ effs2))"

text \<open>A node's share of the time gone by: up to now while it waits to be gathered, else up to its return.\<close>

definition share :: "u64 \<Rightarrow> node \<Rightarrow> nat" where
  "share t n = (if available n then unat t else unat (ndRespawnAt n))"

definition harvest_ok :: "nat \<Rightarrow> region \<Rightarrow> bool" where
  "harvest_ok g r \<longleftrightarrow> (\<forall>n \<in> set (rgNodes r). unat (ndRespawnAt n) \<le> unat (rgTick r) + 200) \<and> 200 * g \<le> sum_list (map (share (rgTick r)) (rgNodes r))"

lemma move_players_keeps:
  "move_players see ps r = (r', effs, handed) \<Longrightarrow>
     rgNodes r' = rgNodes r \<and> rgTick r' = rgTick r \<and> rgStore r' = rgStore r \<and> rgID r' = rgID r \<and> filter is_gather effs = []"
proof (induction ps arbitrary: r effs handed)
  case (Cons p ps)
  then show ?case by (auto simp: Let_def split: option.splits moved.splits prod.splits)
qed simp

lemma nearest_node_available:
  "nearest_node x y k ns best d = Some j \<Longrightarrow> best = Some j \<or> (k \<le> j \<and> j < k + length ns \<and> available (ns ! (j - k)))"
proof (induction ns arbitrary: k best d)
  case (Cons n ns)
  show ?case
  proof (cases "available n \<and> fle (fhypot (fsub (nsX (ndState n)) x) (fsub (nsY (ndState n)) y)) d")
    case True
    then have "nearest_node x y (k + 1) ns (Some k) (fhypot (fsub (nsX (ndState n)) x) (fsub (nsY (ndState n)) y)) = Some j"
      using Cons.prems by (simp add: Let_def)
    from Cons.IH [OF this] True show ?thesis by (auto simp: nth_Cons')
  next
    case False
    then have "nearest_node x y (k + 1) ns best d = Some j" using Cons.prems by (simp add: Let_def if_not_P del: de_Morgan_conj)
    from Cons.IH [OF this] show ?thesis by (auto simp: nth_Cons')
  qed
qed simp

lemma sum_list_update_nat:
  fixes f :: "'a \<Rightarrow> nat"
  shows "k < length xs \<Longrightarrow> sum_list (map f (xs[k := q])) + f (xs ! k) = sum_list (map f xs) + f q"
proof (induction xs arbitrary: k)
  case (Cons x xs)
  then show ?case by (cases k) auto
qed simp

lemma gather_harvest:
  assumes "harvest_ok g r" "unat (rgTick r) < 2 ^ 62" "handleGather J rt p r = (r', effs)"
  shows "harvest_ok (g + length (filter is_gather effs)) r' \<and> rgTick r' = rgTick r"
proof (cases "\<exists>e k. \<not> frozen rt r \<and> rgPlayers r p = Some e \<and> nearest_node (enX e) (enY e) 0 (rgNodes r) None GatherRadius = Some k")
  case True
  then obtain e k where e: "\<not> frozen rt r" "rgPlayers r p = Some e" and k: "nearest_node (enX e) (enY e) 0 (rgNodes r) None GatherRadius = Some k" by blast
  let ?n = "rgNodes r ! k" and ?q = "(rgNodes r ! k)\<lparr>ndRespawnAt := rgTick r + RespawnTicks\<rparr>"
  have a: "k < length (rgNodes r)" "available ?n" using nearest_node_available [OF k] by simp_all
  have t: "unat (rgTick r + 200) = unat (rgTick r) + 200" using assms(2) by (simp add: unat_word_ariths)
  then have "rgTick r + 200 \<noteq> 0" by (metis add_is_0 unat_0 zero_neq_numeral)
  then have q: "share (rgTick r) ?q = unat (rgTick r) + 200" "share (rgTick r) ?n = unat (rgTick r)"
    using a(2) t by (simp_all add: share_def available_def RespawnTicks_def)
  have "sum_list (map (share (rgTick r)) ((rgNodes r)[k := ?q])) = sum_list (map (share (rgTick r)) (rgNodes r)) + 200"
    using sum_list_update_nat [OF a(1), of "share (rgTick r)" ?q] q by simp
  moreover have "\<forall>n \<in> set ((rgNodes r)[k := ?q]). unat (ndRespawnAt n) \<le> unat (rgTick r) + 200"
    using assms(1) t by (auto simp: harvest_ok_def RespawnTicks_def dest!: set_update_subset_insert [THEN subsetD])
  moreover have "r' = r\<lparr>rgNodes := (rgNodes r)[k := ?q]\<rparr>" "length (filter is_gather effs) \<le> 1"
    using assms(3) e k by (auto simp: handleGather_def Let_def)
  ultimately show ?thesis using assms(1) by (simp add: harvest_ok_def)
next
  case False
  then have "r' = r \<and> effs = []" using assms(3) by (auto simp: handleGather_def Let_def split: if_splits option.splits)
  then show ?thesis using assms(1) by simp
qed

lemma tick_share:
  assumes "unat t < 2 ^ 62"
  shows "share t n \<le> share (t + 1) (respawn t n)"
proof -
  have "unat (t + 1) = unat t + 1" using assms by (simp add: unat_word_ariths)
  then show ?thesis by (auto simp: share_def respawn_def available_def word_le_nat_alt)
qed

lemma tick_harvest:
  assumes "harvest_ok g r" "unat (rgTick r) < 2 ^ 62" "tickStep see order order' rt r = (r', effs)"
  shows "harvest_ok (g + length (filter is_gather effs)) r' \<and> unat (rgTick r') \<le> unat (rgTick r) + 1"
proof (cases "frozen rt r")
  case False
  obtain r1 ef handed where m: "move_players see order (r\<lparr>rgNodes := map (respawn (rgTick r)) (rgNodes r)\<rparr>) = (r1, ef, handed)" by (metis prod.exhaust)
  note k = move_players_keeps [OF m]
  have none: "filter is_gather (map (\<lambda>p. SendSession (f p) s) ids) = []" for f s and ids :: "string list" by (induction ids) simp_all
  have r': "rgNodes r' = map (respawn (rgTick r)) (rgNodes r)" "rgTick r' = rgTick r + 1" "filter is_gather effs = []"
    using assms(3) False k by (auto simp: tickStep_def m Let_def none)
  have t: "unat (rgTick r + 1) = unat (rgTick r) + 1" using assms(2) by (simp add: unat_word_ariths)
  have "sum_list (map (share (rgTick r)) ns) \<le> sum_list (map (share (rgTick r + 1) \<circ> respawn (rgTick r)) ns)" for ns
    using tick_share [OF assms(2)] by (induction ns) (simp_all add: add_mono)
  moreover have "unat (ndRespawnAt (respawn (rgTick r) n)) \<le> unat (ndRespawnAt n)" for n by (simp add: respawn_def)
  ultimately show ?thesis using assms(1) by (fastforce simp: harvest_ok_def r' t intro: order_trans)
qed (use assms in \<open>simp add: tickStep_def\<close>)

lemma receive_harvest:
  assumes "harvest_ok g r" "unat (rgTick r) < 2 ^ 62" "region_receive J env rt m r = (r', effs)"
  shows "harvest_ok (g + length (filter is_gather effs)) r' \<and> unat (rgTick r') \<le> unat (rgTick r) + 1"
proof (cases m)
  case (MChat p t)
  then show ?thesis using assms
    by (auto simp: region_receive_def handleChat_def Let_def harvest_ok_def EventChatSaid_def EventGathered_def split: if_splits option.splits)
next
  case (MGather p)
  then show ?thesis using gather_harvest [OF assms(1,2), of J rt p r' effs] assms(3) by (simp add: region_receive_def)
next
  case MTick
  then show ?thesis using tick_harvest [OF assms(1,2), of "teSee env" "teMove env" "teShow env" rt r' effs] assms(3) by (simp add: region_receive_def)
qed (use assms in \<open>auto simp: region_receive_def harvest_ok_def on_join_def on_input_def split: option.splits\<close>)

lemma region_run_harvest:
  assumes "harvest_ok g r" "unat (rgTick r) + length ms < 2 ^ 62" "region_run J ms r = (r', effs)"
  shows "harvest_ok (g + length (filter is_gather effs)) r' \<and> unat (rgTick r') \<le> unat (rgTick r) + length ms"
  using assms
proof (induction ms arbitrary: g r effs)
  case (Cons x ms)
  obtain env rt m where x: "x = (env, rt, m)" by (cases x)
  obtain r1 e1 where 1: "region_receive J env rt m r = (r1, e1)" by fastforce
  obtain r2 e2 where 2: "region_run J ms r1 = (r2, e2)" by fastforce
  have r: "r' = r2" "effs = e1 @ e2" using Cons.prems(3) by (simp_all add: x 1 2)
  note h = receive_harvest [OF Cons.prems(1) _ 1]
  show ?case using Cons.IH [of "g + length (filter is_gather e1)" r1 e2] h Cons.prems(2) 2 by (simp add: r ac_simps)
qed simp

text \<open>\<^bold>\<open>C37\<close> Resources cannot be farmed faster than they respawn: whatever messages a region receives, in whatever order, from
  however many players, two hundred times the number of gathering events it has logged is at most the number of its nodes times the ticks
  gone by and one respawn time.\<close>

theorem harvest_bound:
  assumes "region_run J ms (new_region i col row shard store) = (r, effs)" "length ms < 2 ^ 62"
  shows "200 * length (filter is_gather effs) \<le> length (rgNodes r) * (unat (rgTick r) + 200)"
proof -
  have "harvest_ok 0 (new_region i col row shard store)" by (auto simp: harvest_ok_def new_region_def Let_def)
  moreover have "rgTick (new_region i col row shard store) = 0" by (simp add: new_region_def Let_def)
  ultimately have ok: "harvest_ok (length (filter is_gather effs)) r" using region_run_harvest [of 0 _ ms J r effs] assms by simp
  have "sum_list (map (share (rgTick r)) ns) \<le> length ns * (unat (rgTick r) + 200)" if "\<forall>n \<in> set ns. unat (ndRespawnAt n) \<le> unat (rgTick r) + 200" for ns
    using that by (induction ns) (auto simp: share_def)
  then show ?thesis using ok unfolding harvest_ok_def by (blast intro: order_trans)
qed

section \<open>The regions of a new hub\<close>

lemma grid_cells: "grid_cells = [(0, 0), (0, 1), (1, 0), (1, 1)]"
  by code_simp

lemma region_ids: "regionID 0 0 = ''r-0-0''" "regionID 0 1 = ''r-0-1''" "regionID 1 0 = ''r-1-0''" "regionID 1 1 = ''r-1-1''"
  by code_simp+

lemma new_region_ok:
  assumes "c \<in> {0, 1}" "w \<in> {0, 1}"
  shows "region_ok (new_region (regionID c w) c w shard store)"
proof -
  have "fround (of_int (c * 400)) = Fin (of_int (c * 400))" "fround (of_int (c * 400 + 400)) = Fin (of_int (c * 400 + 400))"
    "fround (of_int (w * 300)) = Fin (of_int (w * 300))" "fround (of_int (w * 300 + 300)) = Fin (of_int (w * 300 + 300))"
    by (rule fround_int; use assms in auto)+
  then have "cell_ok (new_region (regionID c w) c w shard store)"
    using assms by (intro cell_ok_def [THEN iffD2] bexI [of _ c] bexI [of _ w]) (auto simp: new_region_def Let_def RegionW_def RegionH_def)
  then show ?thesis by (simp add: region_ok_def players_in_def) (simp add: new_region_def Let_def)
qed

definition shard_of_cell :: "string list \<Rightarrow> int \<times> int \<Rightarrow> string" where
  "shard_of_cell shards c = Get (regionID (fst c) (snd c)) (Add shards (NewRing ringReplicas))"

lemma NewHub_regions:
  assumes "NewHub taken store shards = Some (rt, rgs)"
  shows "rtRegions rt = [''r-0-0'', ''r-0-1'', ''r-1-0'', ''r-1-1'']"
    "rgs = map (\<lambda>c. new_region (regionID (fst c) (snd c)) (fst c) (snd c) (shard_of_cell shards c) store) grid_cells"
  using assms by (auto simp: NewHub_def grid_cells region_ids Let_def shard_of_cell_def split: if_splits)

text \<open>A router whose regions are on one shard, and a run in which a player gathers.\<close>

definition plain_router :: Router where
  "plain_router = \<lparr>rtRegions = [''r-0-0'', ''r-0-1'', ''r-1-0'', ''r-1-1''],
     rtShardOf = [''r-0-0'' \<mapsto> ''s'', ''r-0-1'' \<mapsto> ''s'', ''r-1-0'' \<mapsto> ''s'', ''r-1-1'' \<mapsto> ''s''], rtShardUp = (\<lambda>s. s \<in> set [''s'']), rtAvail = None\<rparr>"

definition plain_regions :: "region list" where
  "plain_regions = [new_region ''r-0-0'' 0 0 ''s'' True, new_region ''r-0-1'' 0 1 ''s'' True, new_region ''r-1-0'' 1 0 ''s'' True, new_region ''r-1-1'' 1 1 ''s'' True]"

lemma one_shard:
  assumes "n \<noteq> []" "k > 0"
  shows "Get key (Add [n] (NewRing k)) = n"
proof -
  let ?s = "(NewRing k)\<lparr>nodes := [n]\<rparr>" and ?t = "Add [n] (NewRing k)"
  let ?f = "fold (add_vnode n) [0..<nat k] ?s"
  have keep: "ring r \<noteq> [] \<Longrightarrow> ring (fold (add_vnode n) is r) \<noteq> []" for r "is"
    by (induction "is" arbitrary: r) (auto simp: add_vnode_def Let_def)
  have one: "ring (fold (add_vnode n) (i # is) ?s) \<noteq> []" for i "is"
  proof -
    have "owner ?s h = None" for h by (simp add: NewRing_def)
    then have "ring (add_vnode n i ?s) \<noteq> []" by (simp only: add_vnode_def Let_def) simp
    then show ?thesis using keep by (simp only: fold_Cons comp_def) blast
  qed
  have "[0..<nat k] = 0 # [1..<nat k]" using assms(2) by (simp add: upt_conv_Cons)
  then have ne: "ring ?f \<noteq> []" using one [of 0 "[1..<nat k]"] by simp
  have r: "?t = ?f\<lparr>ring := sort (ring ?f)\<rparr>" using assms by (simp add: Add_def add_node_def NewRing_def)
  have inv: "hashring_inv (NewRing k)" by (simp add: hashring_inv_def NewRing_def)
  note g = Add_grows [OF inv, of "[n]"]
  have own: "owner ?t h = Some m \<Longrightarrow> m = n" for h m using g by (simp add: NewRing_def)
  have "ring ?t \<noteq> []" using ne by (simp add: r) (metis set_empty set_sort)
  moreover have "owner_at ?t h = n" if "h \<in> set (ring ?t)" for h using owner_at_nodes [of ?t h] g that own by auto
  moreover have "(if search_ring (ring ?t) x = length (ring ?t) then 0 else search_ring (ring ?t) x) < length (ring ?t)" for x
    using calculation(1) length_takeWhile_le [of "\<lambda>y. y < x" "ring ?t"] by (auto simp: search_ring_def)
  ultimately show ?thesis by (simp add: Get_def Let_def)
qed

lemma plain_hub: "NewHub {} True [''s''] = Some (plain_router, plain_regions)"
  by (simp add: NewHub_def grid_cells region_ids one_shard ringReplicas_def plain_router_def plain_regions_def Let_def)

text \<open>Steps of a player, in numbers.\<close>

lemma dt_w: "dt_w = Fin (7205759403792794 / 2 ^ 57)"
  using fround_pos(1) [of "- 5" "1 / 20" 7205759403792794] by (simp add: dt_w_def power_int_minus)

lemma steps:
  "fadd (Fin 400) (fmul (velocity_w True False) dt_w) = Fin 390"
  "fadd (Fin 390) (fmul (velocity_w False True) dt_w) = Fin 400"
  "fadd (Fin 300) (fmul (velocity_w False False) dt_w) = Fin 300"
proof -
  have "fround (- (200 * 7205759403792794 / 2 ^ 57)) = Fin (- 10)" "fround (200 * 7205759403792794 / 2 ^ 57) = Fin 10"
    using fround_pos [of 3 "200 * 7205759403792794 / 2 ^ 57" 5629499534213120] by (simp_all add: power_int_minus)
  moreover have "fsub (Fin 0) (Fin 200) = Fin (- 200)" "fadd (Fin 0) (Fin 200) = Fin 200"
    using fround_int [of "- 200"] fround_int [of 200] by (simp_all add: fsub_def)
  ultimately show "fadd (Fin 400) (fmul (velocity_w True False) dt_w) = Fin 390"
  "fadd (Fin 390) (fmul (velocity_w False True) dt_w) = Fin 400"
  "fadd (Fin 300) (fmul (velocity_w False False) dt_w) = Fin 300"
   by (simp_all add: dt_w velocity_w_def Speed_w_def fround_numeral fround_def [of 0] del: fadd.simps) (simp_all add: fround_numeral)
qed

definition plain_world :: world_json where
  "plain_world = \<lparr>wChat = (\<lambda>c. map (\<lambda>n. word_of_nat n) (csText c)), wInv = plain_inv\<rparr>"

definition plain_env :: tick_env where
  "plain_env = \<lparr>teSee = (\<lambda>_. plain_router), teMove = [''a''], teShow = [''a'']\<rparr>"

definition gather_run :: "(tick_env \<times> Router \<times> region_msg) list" where
  "gather_run = map (\<lambda>m. (plain_env, plain_router, m))
     [MJoin \<lparr>jnPlayer = ''a'', jnName = ''Ada'', jnSession = 1, jnX = fint 150, jnY = fint 150, jnIn = \<lparr>inUp = False, inDown = False, inLeft = False, inRight = False\<rparr>\<rparr>,
      MGather ''a'', MTick, MGather ''a'']"

lemma harvest_bound_witness:
  "200 * length (filter is_gather (snd (region_run plain_world gather_run (new_region ''r-0-0'' 0 0 ''s'' True))))
     \<le> length (rgNodes (fst (region_run plain_world gather_run (new_region ''r-0-0'' 0 0 ''s'' True))))
       * (unat (rgTick (fst (region_run plain_world gather_run (new_region ''r-0-0'' 0 0 ''s'' True)))) + 200)"
  by (rule harvest_bound [of plain_world gather_run "''r-0-0''" 0 0 "''s''" True]) (simp_all add: gather_run_def)

end
