(* ===== verification/Session.thy ===== *)
theory Session
  imports World Arena "HOL-Library.Multiset"
begin

text \<open>
  A player's session (\<open>services/gateway/gateway.go\<close>, \<open>arenalink.go\<close>) and the coordinator that moves players
  between hub and arena (\<open>services/handoff\<close>). A session is an actor: a handler returns the session and, in order, what it
  does besides. Lock manager, matchmaker and event store are called through their results. Shown: transfer orders take
  effect as if they had arrived in the order of their fencing tokens.
\<close>

section \<open>Data\<close>

text \<open>A connection to an arena, here or in a pod, is known by a number.\<close>

record arenaLink =
  lkNo :: nat
  lkID :: string
  lkMode :: string

record clientMsg =
  cmType :: string
  cmUp :: bool
  cmDown :: bool
  cmLeft :: bool
  cmRight :: bool
  cmText :: "nat list"
  cmAimX :: f64
  cmAimY :: f64
  cmMode :: string

record session =
  seRegion :: "string option"
  seRegionID :: string
  seShard :: string
  seID :: string
  seName :: string
  seSelf :: nat
  seArena :: "arenaLink option"
  seTeam :: int
  seToken :: u64

text \<open>An order carries the number of the call that waits for its reply.\<close>

datatype session_msg = EnterArena arenaLink int u64 nat | EnterHub u64 nat | ArenaSnapshot Snapshot | FromHub hub_msg | FromClient clientMsg

datatype frame = FWelcome string string | FArena Snapshot int | FSnapshot Snapshot_w | FQueueError string | FQueued string
  | FArenaEnter arenaLink int | FHubEnter string string

datatype session_effect = ToRegion string region_msg | Write frame | PushArena arenaLink Command | CloseLink arenaLink
  | Reply nat "string option" | CloseConn

definition errStaleToken :: string where "errStaleToken = ''gateway: stale handoff token''"

section \<open>The session's handlers\<close>

text \<open>\<open>ctx.Send\<close> to no actor does nothing.\<close>

definition to_region :: "string option \<Rightarrow> region_msg \<Rightarrow> session_effect list" where
  "to_region r m = (case r of None \<Rightarrow> [] | Some i \<Rightarrow> [ToRegion i m])"

definition no_input :: Input where
  "no_input = \<lparr>inUp = False, inDown = False, inLeft = False, inRight = False\<rparr>"

definition spawn_join :: "session \<Rightarrow> region_msg" where
  "spawn_join s = MJoin \<lparr>jnPlayer = seID s, jnName = seName s, jnSession = seSelf s, jnX = fdiv Width_w (fint 2), jnY = fdiv Height_w (fint 2), jnIn = no_input\<rparr>"

definition to_spawn :: "Router \<Rightarrow> session \<Rightarrow> session" where
  "to_spawn rt s = (case SpawnRegion rt (fdiv Width_w (fint 2)) (fdiv Height_w (fint 2)) of (i, shard, ref) \<Rightarrow>
     s\<lparr>seRegion := ref, seRegionID := i, seShard := shard\<rparr>)"

definition new_session :: "string \<Rightarrow> string \<Rightarrow> nat \<Rightarrow> session" where
  "new_session i name self = \<lparr>seRegion = None, seRegionID = [], seShard = [], seID = i, seName = name, seSelf = self, seArena = None, seTeam = 0, seToken = 0\<rparr>"

definition PreStart :: "Router \<Rightarrow> session \<Rightarrow> session \<times> session_effect list" where
  "PreStart rt s0 = (let s = to_spawn rt s0 in (s, to_region (seRegion s) (spawn_join s) @ [Write (FWelcome (seID s) (seName s))]))"

definition onEnterArena :: "arenaLink \<Rightarrow> int \<Rightarrow> u64 \<Rightarrow> nat \<Rightarrow> session \<Rightarrow> session \<times> session_effect list" where
  "onEnterArena l team token reply s = (if token < seToken s then (s, [Reply reply (Some errStaleToken)])
     else (s\<lparr>seToken := token, seArena := Some l, seTeam := team\<rparr>,
       to_region (seRegion s) (MLeave (seID s)) @ (case seArena s of None \<Rightarrow> [] | Some old \<Rightarrow> [CloseLink old])
       @ [Write (FArenaEnter l team), Reply reply None]))"

definition onEnterHub :: "Router \<Rightarrow> u64 \<Rightarrow> nat \<Rightarrow> session \<Rightarrow> session \<times> session_effect list" where
  "onEnterHub rt token reply s = (if token < seToken s then (s, [Reply reply (Some errStaleToken)])
     else let s' = to_spawn rt (s\<lparr>seToken := token, seArena := None, seTeam := 0\<rparr>) in
       (s', (case seArena s of None \<Rightarrow> [] | Some old \<Rightarrow> [CloseLink old]) @ to_region (seRegion s') (spawn_join s')
         @ [Write (FHubEnter (seRegionID s') (seShard s')), Reply reply None]))"

text \<open>\<open>enqueue\<close> is the matchmaker's answer to a player and a mode, an error or none, if there is a matchmaker.\<close>

definition onClientMsg :: "(string \<Rightarrow> string \<Rightarrow> string option) option \<Rightarrow> clientMsg \<Rightarrow> session \<Rightarrow> session_effect list" where
  "onClientMsg enqueue m s = (if cmType m = ''queue'' then
       (case (enqueue, seArena s) of (Some q, None) \<Rightarrow> (case q (seID s) (cmMode m) of Some e \<Rightarrow> [Write (FQueueError e)] | None \<Rightarrow> [Write (FQueued (cmMode m))]) | _ \<Rightarrow> [])
     else case seArena s of
       Some l \<Rightarrow> if cmType m = ''fire'' then [PushArena l (no_command\<lparr>cPlayerID := seID s, cKind := CmdFire, cAimX := cmAimX m, cAimY := cmAimY m\<rparr>)]
         else if cmType m = ''input'' then [PushArena l (no_command\<lparr>cPlayerID := seID s, cKind := CmdMove, cUp := cmUp m, cDown := cmDown m, cLeft := cmLeft m, cRight := cmRight m\<rparr>)]
         else []
     | None \<Rightarrow> if cmType m = ''chat'' then to_region (seRegion s) (MChat (seID s) (cmText m))
         else if cmType m = ''gather'' then to_region (seRegion s) (MGather (seID s))
         else if cmType m = ''input'' then to_region (seRegion s) (MInput (seID s) \<lparr>inUp = cmUp m, inDown = cmDown m, inLeft = cmLeft m, inRight = cmRight m\<rparr>)
         else [])"

definition session_receive :: "Router \<Rightarrow> (string \<Rightarrow> string \<Rightarrow> string option) option \<Rightarrow> session_msg \<Rightarrow> session \<Rightarrow> session \<times> session_effect list" where
  "session_receive rt enqueue m s = (case m of
     EnterArena l team token reply \<Rightarrow> onEnterArena l team token reply s
   | EnterHub token reply \<Rightarrow> onEnterHub rt token reply s
   | ArenaSnapshot f \<Rightarrow> (s, case seArena s of None \<Rightarrow> [] | Some l \<Rightarrow> if snArenaID f = lkID l then [Write (FArena f (seTeam s))] else [])
   | FromHub (RegionSnapshot f) \<Rightarrow> (s, if seArena s = None then [Write (FSnapshot f)] else [])
   | FromHub (AssignedRegion i shard) \<Rightarrow> (s\<lparr>seRegion := Some i, seRegionID := i, seShard := shard\<rparr>, [])
   | FromClient c \<Rightarrow> (s, onClientMsg enqueue c s))"

definition PostStop :: "session \<Rightarrow> session_effect list" where
  "PostStop s = (case seArena s of None \<Rightarrow> [] | Some l \<Rightarrow> [PushArena l (no_command\<lparr>cPlayerID := seID s, cKind := CmdLeave\<rparr>), CloseLink l])
     @ to_region (seRegion s) (MLeave (seID s)) @ [CloseConn]"

text \<open>What the reader of the connection passes on: the known types of messages, as the rate limiter allows.\<close>

definition ws_accepts :: "bool \<Rightarrow> clientMsg \<Rightarrow> bool" where
  "ws_accepts allow m \<longleftrightarrow> cmType m \<in> {''input'', ''chat'', ''gather'', ''fire'', ''queue''} \<and> allow"

section \<open>The coordinator\<close>

definition EventLeftHub :: string where "EventLeftHub = ''PlayerLeftHub''"
definition EventEnteredArena :: string where "EventEnteredArena = ''PlayerEnteredArena''"
definition EventLeftArena :: string where "EventLeftArena = ''PlayerLeftArena''"
definition EventEnteredHub :: string where "EventEnteredHub = ''PlayerEnteredHub''"
definition EventHandoffFailed :: string where "EventHandoffFailed = ''HandoffFailed''"
definition ErrBusy :: string where "ErrBusy = ''handoff: player transfer already in progress''"

definition handoff_stream :: "string \<Rightarrow> string" where
  "handoff_stream p = ''handoff-'' @ p"

definition lockKey :: "string \<Rightarrow> string" where
  "lockKey p = ''player/'' @ p"

record Record =
  hrPlayer :: string
  hrArena :: string
  hrTeam :: int
  hrToken :: u64
  hrReason :: string

definition no_record :: Record where
  "no_record = \<lparr>hrPlayer = [], hrArena = [], hrTeam = 0, hrToken = 0, hrReason = []\<rparr>"

record Coordinator =
  coLocks :: bool
  coStore :: bool
  coNode :: string
  coSeq :: u64

definition NewCoordinator :: "bool \<Rightarrow> bool \<Rightarrow> string \<Rightarrow> Coordinator" where
  "NewCoordinator locks store node = \<lparr>coLocks = locks, coStore = store, coNode = (if node = [] then ''gateway-0'' else node), coSeq = 0\<rparr>"

text \<open>What a transfer does to the outside: releases of locks and entries of the audit trail (stream, type, data).\<close>

datatype handoff_effect = ReleaseLock string string | Audit string string Record

definition audit :: "Coordinator \<Rightarrow> string \<Rightarrow> string \<Rightarrow> Record \<Rightarrow> handoff_effect list" where
  "audit c p typ rec = (if coStore c then [Audit (handoff_stream p) typ rec] else [])"

text \<open>\<open>lock key owner\<close> is the lock manager's answer: an error, or a token and whether the lock was free.\<close>

definition acquire :: "(string \<Rightarrow> string \<Rightarrow> string + u64 \<times> bool) \<Rightarrow> string \<Rightarrow> Coordinator \<Rightarrow> Coordinator \<times> (string + u64 \<times> handoff_effect list)" where
  "acquire lock p c = (if \<not> coLocks c then (c, Inr (0, []))
     else let c' = c\<lparr>coSeq := coSeq c + 1\<rparr>; own = coNode c @ ''/'' @ dec (unat (coSeq c')) in
       (c', case lock (lockKey p) own of Inl e \<Rightarrow> Inl e | Inr (token, ok) \<Rightarrow> if ok then Inr (token, [ReleaseLock (lockKey p) own]) else Inl ErrBusy))"

text \<open>\<open>port token\<close> is the session's answer to the order with that token.\<close>

definition ToArena :: "(string \<Rightarrow> string \<Rightarrow> string + u64 \<times> bool) \<Rightarrow> (u64 \<Rightarrow> string option) \<Rightarrow> string \<Rightarrow> string \<Rightarrow> int \<Rightarrow> Coordinator
    \<Rightarrow> Coordinator \<times> handoff_effect list \<times> string option" where
  "ToArena lock port p arena team c = (case acquire lock p c of
     (c', Inl e) \<Rightarrow> (c', audit c p EventHandoffFailed (no_record\<lparr>hrPlayer := p, hrReason := e\<rparr>), Some e)
   | (c', Inr (token, release)) \<Rightarrow> (case port token of
       Some e \<Rightarrow> (c', audit c p EventHandoffFailed (no_record\<lparr>hrPlayer := p, hrArena := arena, hrToken := token, hrReason := e\<rparr>) @ release, Some e)
     | None \<Rightarrow> let rec = no_record\<lparr>hrPlayer := p, hrArena := arena, hrTeam := team, hrToken := token\<rparr> in
         (c', audit c p EventLeftHub rec @ audit c p EventEnteredArena rec @ release, None)))"

definition ToHub :: "(string \<Rightarrow> string \<Rightarrow> string + u64 \<times> bool) \<Rightarrow> (u64 \<Rightarrow> string option) \<Rightarrow> string \<Rightarrow> Coordinator
    \<Rightarrow> Coordinator \<times> handoff_effect list \<times> string option" where
  "ToHub lock port p c = (case acquire lock p c of
     (c', Inl e) \<Rightarrow> (c', audit c p EventHandoffFailed (no_record\<lparr>hrPlayer := p, hrReason := e\<rparr>), Some e)
   | (c', Inr (token, release)) \<Rightarrow> (case port token of
       Some e \<Rightarrow> (c', audit c p EventHandoffFailed (no_record\<lparr>hrPlayer := p, hrToken := token, hrReason := e\<rparr>) @ release, Some e)
     | None \<Rightarrow> let rec = no_record\<lparr>hrPlayer := p, hrToken := token\<rparr> in
         (c', audit c p EventLeftArena rec @ audit c p EventEnteredHub rec @ release, None)))"

section \<open>Orders take effect in the order of their tokens\<close>

fun order_token :: "session_msg \<Rightarrow> u64 option" where
  "order_token (EnterArena l team token reply) = Some token"
| "order_token (EnterHub token reply) = Some token"
| "order_token _ = None"

definition is_order :: "session_msg \<Rightarrow> bool" where
  "is_order m \<longleftrightarrow> order_token m \<noteq> None"

text \<open>Where a session has its player: in which arena, in which team, by which order.\<close>

definition placement :: "session \<Rightarrow> arenaLink option \<times> int \<times> u64" where
  "placement s = (seArena s, seTeam s, seToken s)"

fun placed_by :: "session_msg \<Rightarrow> arenaLink option \<times> int \<times> u64" where
  "placed_by (EnterArena l team token reply) = (Some l, team, token)"
| "placed_by (EnterHub token reply) = (None, 0, token)"
| "placed_by _ = (None, 0, 0)"

definition receive_all :: "Router \<Rightarrow> (string \<Rightarrow> string \<Rightarrow> string option) option \<Rightarrow> session_msg list \<Rightarrow> session \<Rightarrow> session" where
  "receive_all rt q ms s = foldl (\<lambda>s m. fst (session_receive rt q m s)) s ms"

lemma receive_placement:
  "placement (fst (session_receive rt q m s)) =
     (case order_token m of Some t \<Rightarrow> if t < seToken s then placement s else placed_by m | None \<Rightarrow> placement s)"
  by (cases m) (auto simp: session_receive_def onEnterArena_def onEnterHub_def to_spawn_def placement_def Let_def split: hub_msg.splits prod.splits)

lemma placed_by_token: "order_token m = Some t \<Longrightarrow> snd (snd (placed_by m)) = t"
  by (cases m) auto

text \<open>Either no order was good, or the one with the greatest token decides.\<close>

definition decides :: "session_msg \<Rightarrow> session_msg list \<Rightarrow> session \<Rightarrow> bool" where
  "decides m ms s \<longleftrightarrow> m \<in> set ms \<and> (\<exists>t. order_token m = Some t \<and> seToken s \<le> t \<and> (\<forall>m' \<in> set ms. \<forall>t'. order_token m' = Some t' \<longrightarrow> t' \<le> t))"

lemma receive_all_cases:
  "(\<forall>m \<in> set ms. \<forall>t. order_token m = Some t \<longrightarrow> t < seToken s) \<and> placement (receive_all rt q ms s) = placement s
   \<or> (\<exists>m. decides m ms s \<and> placement (receive_all rt q ms s) = placed_by m)"
proof (induction ms rule: rev_induct)
  case (snoc m ms)
  let ?s = "receive_all rt q ms s"
  have st: "placement (receive_all rt q (ms @ [m]) s) = (case order_token m of Some t \<Rightarrow> if t < seToken ?s then placement ?s else placed_by m | None \<Rightarrow> placement ?s)"
    using receive_placement [of rt q m ?s] by (simp add: receive_all_def)
  from snoc show ?case
  proof (elim disjE exE conjE)
    assume none: "\<forall>m \<in> set ms. \<forall>t. order_token m = Some t \<longrightarrow> t < seToken s" and p: "placement ?s = placement s"
    have tk: "seToken ?s = seToken s" using p by (simp add: placement_def)
    show ?thesis
    proof (cases "\<exists>t. order_token m = Some t \<and> \<not> t < seToken s")
      case True
      then obtain t where t: "order_token m = Some t" "seToken s \<le> t" by auto
      have "decides m (ms @ [m]) s" using none t by (fastforce simp: decides_def)
      moreover have "placement (receive_all rt q (ms @ [m]) s) = placed_by m" using st t tk by (simp add: leD)
      ultimately show ?thesis by blast
    next
      case False
      then have "placement (receive_all rt q (ms @ [m]) s) = placement s" using st p tk by (auto split: option.splits)
      then show ?thesis using none False by auto
    qed
  next
    fix m0 assume d: "decides m0 ms s" and p: "placement ?s = placed_by m0"
    obtain t0 where t0: "order_token m0 = Some t0" "seToken s \<le> t0" using d by (auto simp: decides_def)
    have tk: "seToken ?s = t0" using placed_by_token [OF t0(1)] by (simp add: placement_def flip: p)
    show ?thesis
    proof (cases "\<exists>t. order_token m = Some t \<and> t0 \<le> t")
      case True
      then obtain t where t: "order_token m = Some t" "t0 \<le> t" by blast
      have "decides m (ms @ [m]) s" using d t t0 by (auto simp: decides_def)
      moreover have "placement (receive_all rt q (ms @ [m]) s) = placed_by m" using st t tk by (simp add: leD)
      ultimately show ?thesis by blast
    next
      case False
      then have "decides m0 (ms @ [m]) s" using d t0 by (fastforce simp: decides_def)
      moreover have "placement (receive_all rt q (ms @ [m]) s) = placed_by m0" using st False tk p by (auto split: option.splits)
      ultimately show ?thesis by blast
    qed
  qed
qed (simp add: receive_all_def)

text \<open>\<^bold>\<open>C27\<close> Fencing makes transfers independent of the order in which they arrive: when the orders among a session's
  messages have different tokens, any two arrival orders of the same messages leave the player in the same arena or in the hub, in the same
  team, under the same token.\<close>

theorem transfers_commute:
  assumes "mset ms = mset ms'" "distinct (map order_token (filter is_order ms))"
  shows "placement (receive_all rt q ms s) = placement (receive_all rt' q' ms' s)"
proof -
  have set: "set ms' = set ms" using assms(1) by (metis set_mset_mset)
  have d: "decides m ms' s = decides m ms s" for m by (simp add: decides_def set)
  have one: "m1 = m2" if "decides m1 ms s" "decides m2 ms s" for m1 m2
  proof -
    note d = that
    obtain t1 where 1: "m1 \<in> set ms" "order_token m1 = Some t1" "\<forall>m' \<in> set ms. \<forall>t'. order_token m' = Some t' \<longrightarrow> t' \<le> t1"
      using d(1) by (auto simp: decides_def)
    obtain t2 where 2: "m2 \<in> set ms" "order_token m2 = Some t2" "\<forall>m' \<in> set ms. \<forall>t'. order_token m' = Some t' \<longrightarrow> t' \<le> t2"
      using d(2) by (auto simp: decides_def)
    have "t1 = t2" using 1 2 by (intro antisym) auto
    then have "m1 \<in> set (filter is_order ms)" "m2 \<in> set (filter is_order ms)" "order_token m1 = order_token m2"
      using 1 2 by (simp_all add: is_order_def)
    then show ?thesis using assms(2) by (auto simp: distinct_map dest: inj_onD)
  qed
  have no: "\<not> decides m ms s" if "\<forall>m \<in> set ms. \<forall>t. order_token m = Some t \<longrightarrow> t < seToken s" for m
    using that by (fastforce simp: decides_def)
  show ?thesis using receive_all_cases [of ms s rt q] receive_all_cases [of ms' s rt' q'] one no unfolding set d by metis
qed

lemma transfers_commute_witness:
  "placement (receive_all plain_router None [EnterArena \<lparr>lkNo = 1, lkID = ''m1'', lkMode = Mode1v1\<rparr> 0 5 0, EnterHub 6 1] (new_session ''a'' ''Ada'' 1))
     = placement (receive_all plain_router None [EnterHub 6 1, EnterArena \<lparr>lkNo = 1, lkID = ''m1'', lkMode = Mode1v1\<rparr> 0 5 0] (new_session ''a'' ''Ada'' 1))"
  by (rule transfers_commute) (simp_all add: is_order_def)

end
