(* ===== verification/Hub.thy ===== *)
theory Hub
  imports Session
begin

text \<open>
  The hub as a system of actors: four regions and the players' sessions, each with its mailbox, running one turn at a
  time. What a handler sends it sends one by one: to a region only when its mailbox has room (regions block their senders),
  to a session at once, if it lives and has room (sessions drop what does not fit). Readers of connections, the coordinator,
  arenas, the clock and the shards act at any time. Shown, for every interleaving: players stand in the region that
  holds them, and a handover between regions neither loses nor copies a player; and runs in which a player stays behind
  in a region, and in which two regions wait for each other forever.
\<close>

section \<open>The system\<close>

record region_proc =
  rpState :: region
  rpBox :: "region_msg list"
  rpOut :: "effect list"

datatype phase = Running | Closing | Dead

record session_proc =
  spState :: session
  spBox :: "session_msg list"
  spOut :: "session_effect list"
  spStop :: bool
  spPhase :: phase

text \<open>\<open>hbSent\<close> is what sessions have sent to regions so far; \<open>hbNames\<close> the names of live sessions. \<open>hbRegistry\<close> is the
  gateway's table of sessions, \<open>hbRegistered\<close> and \<open>hbCleaned\<close> which sessions have been entered into it and, when they had stopped, taken out.\<close>

record hub =
  hbRouter :: Router
  hbRegions :: "string \<rightharpoonup> region_proc"
  hbSessions :: "nat \<rightharpoonup> session_proc"
  hbNames :: "string \<rightharpoonup> nat"
  hbSent :: "region_msg list"
  hbLog :: "(string \<times> string \<times> bytes) list"
  hbRegistry :: "string \<rightharpoonup> nat"
  hbRegistered :: "nat list"
  hbCleaned :: "nat list"

definition region_capacity :: nat where "region_capacity = 64"
definition session_capacity :: nat where "session_capacity = 16"

definition region_push :: "string \<Rightarrow> region_msg \<Rightarrow> hub \<Rightarrow> hub option" where
  "region_push i m h = (case hbRegions h i of
     None \<Rightarrow> None
   | Some p \<Rightarrow> if length (rpBox p) < region_capacity then Some (h\<lparr>hbRegions := (hbRegions h)(i \<mapsto> p\<lparr>rpBox := rpBox p @ [m]\<rparr>)\<rparr>) else None)"

definition session_push :: "nat \<Rightarrow> session_msg \<Rightarrow> hub \<Rightarrow> hub" where
  "session_push n m h = (case hbSessions h n of
     None \<Rightarrow> h
   | Some p \<Rightarrow> if spPhase p \<noteq> Dead \<and> length (spBox p) < session_capacity
       then h\<lparr>hbSessions := (hbSessions h)(n \<mapsto> p\<lparr>spBox := spBox p @ [m]\<rparr>)\<rparr> else h)"

datatype hub_event = EvConnect nat string string | EvPost nat session_msg | EvStop nat | EvSession nat "(string \<Rightarrow> string \<Rightarrow> string option) option"
  | EvSessionDo nat bool | EvSessionDead nat | EvTick string | EvRegion string tick_env | EvRegionDo string bool | EvShard string bool
  | EvAvail "(string \<Rightarrow> bool) option" | EvRegister nat | EvCleanup nat

definition connect :: "nat \<Rightarrow> string \<Rightarrow> string \<Rightarrow> hub \<Rightarrow> hub option" where
  "connect n i name h = (if hbSessions h n \<noteq> None \<or> hbNames h i \<noteq> None then None
     else case PreStart (hbRouter h) (new_session i name n) of (s, effs) \<Rightarrow>
       Some (h\<lparr>hbSessions := (hbSessions h)(n \<mapsto> \<lparr>spState = s, spBox = [], spOut = effs, spStop = False, spPhase = Running\<rparr>),
               hbNames := (hbNames h)(i \<mapsto> n)\<rparr>))"

text \<open>A turn of a session: the request to stop comes first, then the next message.\<close>

definition session_turn :: "nat \<Rightarrow> (string \<Rightarrow> string \<Rightarrow> string option) option \<Rightarrow> hub \<Rightarrow> hub option" where
  "session_turn n q h = (case hbSessions h n of None \<Rightarrow> None
   | Some p \<Rightarrow> if spPhase p \<noteq> Running \<or> spOut p \<noteq> [] then None
       else if spStop p then Some (h\<lparr>hbSessions := (hbSessions h)(n \<mapsto> p\<lparr>spPhase := Closing, spOut := PostStop (spState p)\<rparr>)\<rparr>)
       else case spBox p of [] \<Rightarrow> None
         | m # ms \<Rightarrow> (case session_receive (hbRouter h) q m (spState p) of (s, effs) \<Rightarrow>
             Some (h\<lparr>hbSessions := (hbSessions h)(n \<mapsto> p\<lparr>spState := s, spBox := ms, spOut := effs\<rparr>)\<rparr>)))"

text \<open>The next thing a session's handler does; a failed write stops the session after the turn.\<close>

definition session_do :: "nat \<Rightarrow> bool \<Rightarrow> hub \<Rightarrow> hub option" where
  "session_do n ok h = (case hbSessions h n of None \<Rightarrow> None
   | Some p \<Rightarrow> (case spOut p of [] \<Rightarrow> None
     | e # es \<Rightarrow> (let h' = h\<lparr>hbSessions := (hbSessions h)(n \<mapsto> p\<lparr>spOut := es\<rparr>)\<rparr> in
         case e of
           ToRegion i m \<Rightarrow> (case region_push i m h' of None \<Rightarrow> None | Some h2 \<Rightarrow> Some (h2\<lparr>hbSent := hbSent h2 @ [m]\<rparr>))
         | Write f \<Rightarrow> Some (if ok then h' else h'\<lparr>hbSessions := (hbSessions h)(n \<mapsto> p\<lparr>spOut := es, spStop := True\<rparr>)\<rparr>)
         | _ \<Rightarrow> Some h')))"

definition session_end :: "nat \<Rightarrow> hub \<Rightarrow> hub option" where
  "session_end n h = (case hbSessions h n of None \<Rightarrow> None
   | Some p \<Rightarrow> if spPhase p = Closing \<and> spOut p = []
       then Some (h\<lparr>hbSessions := (hbSessions h)(n \<mapsto> p\<lparr>spPhase := Dead, spBox := []\<rparr>), hbNames := (hbNames h)(seID (spState p) := None)\<rparr>) else None)"

text \<open>A turn of a region. The loops of a tick visit no player twice.\<close>

definition region_turn :: "world_json \<Rightarrow> string \<Rightarrow> tick_env \<Rightarrow> hub \<Rightarrow> hub option" where
  "region_turn J i env h = (case hbRegions h i of None \<Rightarrow> None
   | Some p \<Rightarrow> if rpOut p \<noteq> [] \<or> \<not> distinct (teMove env) then None
       else case rpBox p of [] \<Rightarrow> None
         | m # ms \<Rightarrow> (case region_receive J (env\<lparr>teSee := (\<lambda>q. (teSee env q)\<lparr>rtRegions := rtRegions (hbRouter h), rtShardOf := rtShardOf (hbRouter h)\<rparr>)\<rparr>) (hbRouter h) m (rpState p) of
             (r, effs) \<Rightarrow> Some (h\<lparr>hbRegions := (hbRegions h)(i \<mapsto> \<lparr>rpState = r, rpBox = ms, rpOut = effs\<rparr>)\<rparr>)))"

definition region_do :: "string \<Rightarrow> bool \<Rightarrow> hub \<Rightarrow> hub option" where
  "region_do i ok h = (case hbRegions h i of None \<Rightarrow> None
   | Some p \<Rightarrow> (case rpOut p of [] \<Rightarrow> None
     | e # es \<Rightarrow> (let h' = h\<lparr>hbRegions := (hbRegions h)(i \<mapsto> p\<lparr>rpOut := es\<rparr>)\<rparr> in
         case e of
           SendRegion dst m \<Rightarrow> region_push dst m h'
         | SendSession n m \<Rightarrow> Some (session_push n (FromHub m) h')
         | AppendEvent st t d \<Rightarrow> Some (if ok then h'\<lparr>hbLog := hbLog h' @ [(st, t, d)]\<rparr> else h'))))"

text \<open>After the actor is spawned the handler registers it; a goroutine of its own waits for the actor's end and removes the player.\<close>

definition register :: "nat \<Rightarrow> hub \<Rightarrow> hub option" where
  "register n h = (case hbSessions h n of None \<Rightarrow> None
   | Some p \<Rightarrow> if n \<in> set (hbRegistered h) then None
       else Some (h\<lparr>hbRegistry := (hbRegistry h)(seID (spState p) \<mapsto> n), hbRegistered := n # hbRegistered h\<rparr>))"

definition cleanup :: "nat \<Rightarrow> hub \<Rightarrow> hub option" where
  "cleanup n h = (case hbSessions h n of None \<Rightarrow> None
   | Some p \<Rightarrow> if spPhase p = Dead \<and> n \<in> set (hbRegistered h) \<and> n \<notin> set (hbCleaned h)
       then Some (h\<lparr>hbRegistry := (hbRegistry h)(seID (spState p) := None), hbCleaned := n # hbCleaned h\<rparr>) else None)"

fun from_outside :: "session_msg \<Rightarrow> bool" where
  "from_outside (FromHub m) \<longleftrightarrow> False"
| "from_outside _ \<longleftrightarrow> True"

fun hub_step :: "world_json \<Rightarrow> hub_event \<Rightarrow> hub \<Rightarrow> hub option" where
  "hub_step J (EvConnect n i name) h = connect n i name h"
| "hub_step J (EvPost n m) h = (if from_outside m then Some (session_push n m h) else None)"
| "hub_step J (EvStop n) h = (case hbSessions h n of None \<Rightarrow> None
     | Some p \<Rightarrow> Some (h\<lparr>hbSessions := (hbSessions h)(n \<mapsto> p\<lparr>spStop := True\<rparr>)\<rparr>))"
| "hub_step J (EvSession n q) h = session_turn n q h"
| "hub_step J (EvSessionDo n ok) h = session_do n ok h"
| "hub_step J (EvSessionDead n) h = session_end n h"
| "hub_step J (EvTick i) h = region_push i MTick h"
| "hub_step J (EvRegion i env) h = region_turn J i env h"
| "hub_step J (EvRegionDo i ok) h = region_do i ok h"
| "hub_step J (EvShard s up) h = Some (h\<lparr>hbRouter := SetShardUp s up (hbRouter h)\<rparr>)"
| "hub_step J (EvAvail av) h = Some (h\<lparr>hbRouter := SetAvailability av (hbRouter h)\<rparr>)"
| "hub_step J (EvRegister n) h = register n h"
| "hub_step J (EvCleanup n) h = cleanup n h"

text \<open>An event that is not possible does not happen.\<close>

definition hub_run :: "world_json \<Rightarrow> hub_event list \<Rightarrow> hub \<Rightarrow> hub" where
  "hub_run J evs h = foldl (\<lambda>h e. case hub_step J e h of Some h' \<Rightarrow> h' | None \<Rightarrow> h) h evs"

definition hub_start :: "Router \<Rightarrow> region list \<Rightarrow> hub" where
  "hub_start rt rgs = \<lparr>hbRouter = rt, hbRegions = map_of (map (\<lambda>r. (rgID r, \<lparr>rpState = r, rpBox = [], rpOut = []\<rparr>)) rgs),
     hbSessions = Map.empty, hbNames = Map.empty, hbSent = [], hbLog = [], hbRegistry = Map.empty, hbRegistered = [], hbCleaned = []\<rparr>"

section \<open>Players stand where they are held\<close>

text \<open>What sessions are about to send: players join where they appear.\<close>

fun session_effect_ok :: "session_effect \<Rightarrow> bool" where
  "session_effect_ok (ToRegion i m) \<longleftrightarrow> msg_ok i m"
| "session_effect_ok _ \<longleftrightarrow> True"

fun effect_known :: "string list \<Rightarrow> effect \<Rightarrow> bool" where
  "effect_known ids (SendRegion dst m) \<longleftrightarrow> dst \<in> set ids"
| "effect_known ids _ \<longleftrightarrow> True"

definition proc_ok :: "Router \<Rightarrow> string \<Rightarrow> region_proc \<Rightarrow> bool" where
  "proc_ok rt i p \<longleftrightarrow> rgID (rpState p) = i \<and> region_ok (rpState p) \<and> (\<forall>m \<in> set (rpBox p). msg_ok i m)
     \<and> (\<forall>e \<in> set (rpOut p). effect_ok e \<and> effect_known (rtRegions rt) e)"

definition hub_ok :: "hub \<Rightarrow> bool" where
  "hub_ok h \<longleftrightarrow> distinct (rtRegions (hbRouter h)) \<and> (\<forall>i. (hbRegions h i \<noteq> None) = (i \<in> set (rtRegions (hbRouter h))))
     \<and> (\<forall>i p. hbRegions h i = Some p \<longrightarrow> proc_ok (hbRouter h) i p)
     \<and> (\<forall>n p. hbSessions h n = Some p \<longrightarrow> (\<forall>e \<in> set (spOut p). session_effect_ok e))"

lemma spawn_stands: "stands (RegionAt (fdiv Width_w (fint 2)) (fdiv Height_w (fint 2))) (fdiv Width_w (fint 2)) (fdiv Height_w (fint 2))"
proof -
  have "fdiv Width_w (fint 2) = Fin 400" "fdiv Height_w (fint 2) = Fin 300"
    using fround_int [of 400] fround_int [of 300] by (simp_all add: Width_w_def Height_w_def)
  then show ?thesis by (simp add: stands_def)
qed

lemma to_region_leave_ok [simp]: "\<forall>e \<in> set (to_region r (MLeave p)). session_effect_ok e"
  "\<forall>e \<in> set (to_region r (MChat p t)). session_effect_ok e" "\<forall>e \<in> set (to_region r (MGather p)). session_effect_ok e"
  "\<forall>e \<in> set (to_region r (MInput p i)). session_effect_ok e"
  by (cases r; simp add: to_region_def msg_ok_def)+

lemma to_spawn_ok: "\<forall>e \<in> set (to_region (seRegion (to_spawn rt s)) (spawn_join s')). session_effect_ok e"
  using spawn_stands by (auto simp: to_region_def to_spawn_def SpawnRegion_def RouterRef_def Let_def spawn_join_def msg_ok_def split: option.splits)

lemma session_receive_ok:
  assumes "session_receive rt q m s = (s', effs)"
  shows "\<forall>e \<in> set effs. session_effect_ok e"
proof -
  have "\<forall>e \<in> set (onClientMsg q c s). session_effect_ok e" for c
    by (auto simp: onClientMsg_def simp del: to_region_leave_ok dest: to_region_leave_ok [THEN bspec] split: option.splits if_splits)
  moreover have "\<forall>e \<in> set effs. session_effect_ok e" if "onEnterHub rt t r s = (s', effs)" for t r
    using that to_spawn_ok by (auto simp: onEnterHub_def Let_def split: option.splits if_splits)
  moreover have "\<forall>e \<in> set effs. session_effect_ok e" if "onEnterArena l tm t r s = (s', effs)" for l tm t r
    using that to_region_leave_ok by (auto simp: onEnterArena_def split: option.splits if_splits)
  ultimately show ?thesis using assms
    by (cases m) (auto simp: session_receive_def split: hub_msg.splits option.splits if_splits)
qed

lemma move_entity_known: "move_entity rt r e = HandTo dst x y \<Longrightarrow> dst \<in> set (rtRegions rt)"
  by (auto simp: move_entity_def RouterRef_def Let_def split: if_splits)

lemma move_players_known:
  "move_players see ps r = (r', effs, handed) \<Longrightarrow> (\<And>p. rtRegions (see p) = ids) \<Longrightarrow> SendRegion dst m \<in> set effs \<Longrightarrow> dst \<in> set ids"
proof (induction ps arbitrary: r effs handed)
  case (Cons p ps)
  then show ?case by (auto simp: Let_def split: option.splits moved.splits prod.splits dest!: move_entity_known)
qed simp

lemma receive_known:
  assumes "region_receive J env rt m r = (r', effs)" "\<And>p. rtRegions (teSee env p) = ids" "SendRegion dst m' \<in> set effs"
  shows "dst \<in> set ids"
proof (cases m)
  case MTick
  obtain r1 ef handed where mp: "move_players (teSee env) (teMove env) (r\<lparr>rgNodes := map (respawn (rgTick r)) (rgNodes r)\<rparr>) = (r1, ef, handed)"
    by (metis prod.exhaust)
  have "SendRegion dst m' \<in> set ef" using assms(1,3) MTick by (auto simp: region_receive_def tickStep_def mp Let_def split: if_splits)
  then show ?thesis using move_players_known [OF mp assms(2)] by blast
qed (use assms in \<open>auto simp: region_receive_def handleChat_def handleGather_def Let_def split: if_splits option.splits\<close>)

lemma region_push_ok:
  assumes "hub_ok h" "msg_ok i m" "region_push i m h = Some h'"
  shows "hub_ok h'"
  using assms by (auto simp: region_push_def hub_ok_def proc_ok_def split: option.splits if_splits)

lemma session_push_ok: "hub_ok h \<Longrightarrow> hub_ok (session_push n m h)"
  by (auto simp: session_push_def hub_ok_def split: option.splits)

lemma hub_ok_set_session:
  assumes "hub_ok h" "\<forall>e \<in> set (spOut p). session_effect_ok e"
  shows "hub_ok (h\<lparr>hbSessions := (hbSessions h)(n \<mapsto> p)\<rparr>)" "hub_ok (h\<lparr>hbSessions := (hbSessions h)(n \<mapsto> p), hbNames := f\<rparr>)"
  using assms by (auto simp: hub_ok_def)

lemma hub_ok_set_region:
  assumes "hub_ok h" "proc_ok (hbRouter h) i p" "hbRegions h i \<noteq> None"
  shows "hub_ok (h\<lparr>hbRegions := (hbRegions h)(i \<mapsto> p)\<rparr>)"
  using assms by (auto simp: hub_ok_def)

lemma region_turn_ok:
  assumes "hub_ok h" "region_turn J i env h = Some h'"
  shows "hub_ok h'"
proof -
  let ?env = "env\<lparr>teSee := (\<lambda>q. (teSee env q)\<lparr>rtRegions := rtRegions (hbRouter h), rtShardOf := rtShardOf (hbRouter h)\<rparr>)\<rparr>"
  obtain p m ms r effs where p: "hbRegions h i = Some p" "rpBox p = m # ms" and rec: "region_receive J ?env (hbRouter h) m (rpState p) = (r, effs)"
    and h': "h' = h\<lparr>hbRegions := (hbRegions h)(i \<mapsto> \<lparr>rpState = r, rpBox = ms, rpOut = effs\<rparr>)\<rparr>"
    using assms(2) by (auto simp: region_turn_def split: option.splits if_splits list.splits prod.splits)
  have ok: "proc_ok (hbRouter h) i p" using assms(1) p(1) by (simp add: hub_ok_def)
  have r: "region_ok r \<and> rgID r = rgID (rpState p) \<and> (\<forall>x \<in> set effs. effect_ok x)"
    by (rule region_receive_ok [OF _ _ rec]) (use ok p(2) in \<open>simp_all add: proc_ok_def\<close>)
  have "effect_known (rtRegions (hbRouter h)) e" if "e \<in> set effs" for e
    using receive_known [OF rec, of "rtRegions (hbRouter h)"] that by (cases e) auto
  then show ?thesis unfolding h' using r ok p by (intro hub_ok_set_region [OF assms(1)]) (auto simp: proc_ok_def)
qed

lemma region_do_ok:
  assumes "hub_ok h" "region_do i ok h = Some h'"
  shows "hub_ok h'"
proof -
  obtain p e es where p: "hbRegions h i = Some p" "rpOut p = e # es"
    using assms(2) by (auto simp: region_do_def split: option.splits list.splits)
  let ?h = "h\<lparr>hbRegions := (hbRegions h)(i \<mapsto> p\<lparr>rpOut := es\<rparr>)\<rparr>"
  have pk: "proc_ok (hbRouter h) i p" using assms(1) p(1) by (simp add: hub_ok_def)
  then have e: "effect_ok e" using p(2) by (simp add: proc_ok_def)
  have em: "msg_ok dst m" if "e = SendRegion dst m" for dst m using e that by (simp add: msg_ok_def split: region_msg.splits)
  have h: "hub_ok ?h" using pk p by (intro hub_ok_set_region [OF assms(1)]) (auto simp: proc_ok_def)
  show ?thesis
  proof (cases e)
    case (SendRegion dst m)
    then show ?thesis using region_push_ok [OF h, of dst m h'] em assms(2) p by (simp add: region_do_def Let_def)
  next
    case (SendSession n m)
    then show ?thesis using session_push_ok [OF h] assms(2) p by (auto simp: region_do_def Let_def)
  next
    case (AppendEvent st t d)
    then have "h' = (if ok then ?h\<lparr>hbLog := hbLog h @ [(st, t, d)]\<rparr> else ?h)" using assms(2) p by (auto simp: region_do_def Let_def)
    moreover have "hub_ok (?h\<lparr>hbLog := l\<rparr>)" for l using h by (simp add: hub_ok_def)
    ultimately show ?thesis using h by simp
  qed
qed

lemma session_turn_ok:
  assumes "hub_ok h" "session_turn n q h = Some h'"
  shows "hub_ok h'"
proof -
  have "\<forall>e \<in> set (PostStop s). session_effect_ok e" for s
    using to_region_leave_ok(1) [of "seRegion s" "seID s"] by (auto simp: PostStop_def split: option.splits)
  then show ?thesis using assms session_receive_ok
    by (fastforce simp: session_turn_def intro!: hub_ok_set_session split: option.splits if_splits list.splits prod.splits)
qed

lemma session_do_ok:
  assumes "hub_ok h" "session_do n ok h = Some h'"
  shows "hub_ok h'"
proof -
  obtain p e es where p: "hbSessions h n = Some p" "spOut p = e # es"
    using assms(2) by (auto simp: session_do_def split: option.splits list.splits)
  have e: "session_effect_ok e" "\<forall>x \<in> set es. session_effect_ok x" using assms(1) p by (fastforce simp: hub_ok_def)+
  have h: "hub_ok (h\<lparr>hbSessions := (hbSessions h)(n \<mapsto> p\<lparr>spOut := es, spStop := b\<rparr>)\<rparr>)" "hub_ok (h\<lparr>hbSessions := (hbSessions h)(n \<mapsto> p\<lparr>spOut := es\<rparr>)\<rparr>)" for b
    using e(2) by (intro hub_ok_set_session(1) [OF assms(1)]; simp)+
  have sent: "hub_ok (g\<lparr>hbSent := l\<rparr>) = hub_ok g" for g l by (simp add: hub_ok_def)
  show ?thesis
  proof (cases e)
    case (ToRegion i m)
    then obtain h2 where "region_push i m (h\<lparr>hbSessions := (hbSessions h)(n \<mapsto> p\<lparr>spOut := es\<rparr>)\<rparr>) = Some h2" "h' = h2\<lparr>hbSent := hbSent h2 @ [m]\<rparr>"
      using assms(2) p by (auto simp: session_do_def Let_def split: option.splits)
    then show ?thesis using region_push_ok [OF h(2)] e(1) ToRegion sent by auto
  qed (use assms(2) p h in \<open>auto simp: session_do_def Let_def split: if_splits\<close>)
qed

lemma connect_ok: "hub_ok h \<Longrightarrow> connect n i name h = Some h' \<Longrightarrow> hub_ok h'"
  using to_spawn_ok by (auto simp: connect_def PreStart_def Let_def intro!: hub_ok_set_session split: if_splits)

lemma session_end_ok: "hub_ok h \<Longrightarrow> session_end n h = Some h' \<Longrightarrow> hub_ok h'"
  by (auto simp: session_end_def hub_ok_def split: option.splits if_splits)

lemma hub_ok_router: "hub_ok (h\<lparr>hbRouter := SetShardUp s u (hbRouter h)\<rparr>) = hub_ok h" "hub_ok (h\<lparr>hbRouter := SetAvailability av (hbRouter h)\<rparr>) = hub_ok h"
  by (simp_all add: hub_ok_def proc_ok_def SetShardUp_def SetAvailability_def)

lemma hub_step_ok:
  assumes "hub_ok h" "hub_step J ev h = Some h'"
  shows "hub_ok h'"
proof (cases ev)
  case (EvConnect n i name)
  then show ?thesis using connect_ok [OF assms(1)] assms(2) by simp
next
  case (EvPost n m)
  then show ?thesis using session_push_ok [OF assms(1), of n m] assms(2) by (simp split: if_splits)
next
  case (EvStop n)
  then obtain p where p: "hbSessions h n = Some p" "h' = h\<lparr>hbSessions := (hbSessions h)(n \<mapsto> p\<lparr>spStop := True\<rparr>)\<rparr>"
    using assms(2) by (auto split: option.splits)
  then have "\<forall>e \<in> set (spOut p). session_effect_ok e" using assms(1) by (simp add: hub_ok_def)
  then show ?thesis unfolding p(2) by (intro hub_ok_set_session(1) [OF assms(1)]) simp
next
  case (EvSession n q)
  then show ?thesis using session_turn_ok [OF assms(1)] assms(2) by simp
next
  case (EvSessionDo n ok)
  then show ?thesis using session_do_ok [OF assms(1)] assms(2) by simp
next
  case (EvSessionDead n)
  then show ?thesis using session_end_ok [OF assms(1)] assms(2) by simp
next
  case (EvTick i)
  then show ?thesis using assms region_push_ok [OF assms(1), of i MTick] by (simp add: msg_ok_def)
next
  case (EvRegion i env)
  then show ?thesis using region_turn_ok [OF assms(1)] assms(2) by simp
next
  case (EvRegionDo i ok)
  then show ?thesis using region_do_ok [OF assms(1)] assms(2) by simp
next
  case (EvRegister n)
  then show ?thesis using assms by (auto simp: register_def hub_ok_def split: option.splits if_splits)
next
  case (EvCleanup n)
  then show ?thesis using assms by (auto simp: cleanup_def hub_ok_def split: option.splits if_splits)
qed (use assms hub_ok_router in auto)

lemma hub_run_ok: "hub_ok h \<Longrightarrow> hub_ok (hub_run J evs h)"
  by (induction evs arbitrary: h) (auto simp: hub_run_def split: option.split dest: hub_step_ok)

lemma hub_start_ok:
  assumes "NewHub taken store shards = Some (rt, rgs)"
  shows "hub_ok (hub_start rt rgs)"
proof -
  note nh = NewHub_regions [OF assms]
  have id: "rgID (new_region i c w sh store) = i" for i c w sh by (simp add: new_region_def Let_def)
  have "region_ok (new_region ''r-0-0'' 0 0 sh store)" "region_ok (new_region ''r-0-1'' 0 1 sh store)"
    "region_ok (new_region ''r-1-0'' 1 0 sh store)" "region_ok (new_region ''r-1-1'' 1 1 sh store)" for sh
    using new_region_ok [of 0 0 sh store] new_region_ok [of 0 1 sh store] new_region_ok [of 1 0 sh store] new_region_ok [of 1 1 sh store]
    by (simp_all add: region_ids)
  then show ?thesis by (auto simp: hub_ok_def hub_start_def nh grid_cells region_ids proc_ok_def id)
qed

section \<open>Nobody is lost or copied\<close>

fun is_join :: "string \<Rightarrow> region_msg \<Rightarrow> bool" where
  "is_join p (MJoin j) \<longleftrightarrow> jnPlayer j = p"
| "is_join p _ \<longleftrightarrow> False"

fun is_leave :: "string \<Rightarrow> region_msg \<Rightarrow> bool" where
  "is_leave p (MLeave q) \<longleftrightarrow> q = p"
| "is_leave p _ \<longleftrightarrow> False"

fun hands :: "string \<Rightarrow> effect \<Rightarrow> bool" where
  "hands p (SendRegion dst m) \<longleftrightarrow> is_join p m"
| "hands p _ \<longleftrightarrow> False"

text \<open>How often a player is in a region, in its mailbox, or being handed over by it; and in the hub.\<close>

definition holds :: "string \<Rightarrow> region \<Rightarrow> nat" where
  "holds p r = (if rgPlayers r p \<noteq> None then 1 else 0)"

definition arriving :: "string \<Rightarrow> region_msg list \<Rightarrow> nat" where
  "arriving p ms = length (filter (is_join p) ms)"

definition departing :: "string \<Rightarrow> effect list \<Rightarrow> nat" where
  "departing p es = length (filter (hands p) es)"

definition copies_at :: "string \<Rightarrow> region_proc option \<Rightarrow> nat" where
  "copies_at p q = (case q of None \<Rightarrow> 0 | Some q \<Rightarrow> holds p (rpState q) + arriving p (rpBox q) + departing p (rpOut q))"

definition copies :: "string \<Rightarrow> hub \<Rightarrow> nat" where
  "copies p h = sum_list (map (\<lambda>i. copies_at p (hbRegions h i)) (rtRegions (hbRouter h)))"

lemma sum_list_change:
  fixes f f' :: "'a \<Rightarrow> nat"
  shows "distinct ids \<Longrightarrow> i \<in> set ids \<Longrightarrow> (\<And>j. j \<noteq> i \<Longrightarrow> f' j = f j) \<Longrightarrow> sum_list (map f' ids) + f i = sum_list (map f ids) + f' i"
proof (induction ids)
  case (Cons a ids)
  show ?case
  proof (cases "a = i")
    case True
    have "map f' ids = map f ids" by (rule map_cong [OF refl], rule Cons.prems(3)) (use Cons.prems(1) True in auto)
    then have "sum_list (map f' ids) = sum_list (map f ids)" by (rule arg_cong)
    then show ?thesis using True by simp
  qed (use Cons in auto)
qed simp

lemma copies_set_region:
  assumes "hub_ok h" "hbRegions h i \<noteq> None"
  shows "copies p (h\<lparr>hbRegions := (hbRegions h)(i \<mapsto> q)\<rparr>) + copies_at p (hbRegions h i) = copies p h + copies_at p (Some q)"
proof -
  have "distinct (rtRegions (hbRouter h))" "i \<in> set (rtRegions (hbRouter h))" using assms by (auto simp: hub_ok_def)
  from sum_list_change [OF this, of "\<lambda>j. copies_at p (((hbRegions h)(i \<mapsto> q)) j)" "\<lambda>j. copies_at p (hbRegions h j)"]
  show ?thesis by (simp add: copies_def)
qed

lemma copies_at_le:
  assumes "hub_ok h" "hbRegions h i \<noteq> None"
  shows "copies_at p (hbRegions h i) \<le> copies p h"
proof -
  have "i \<in> set (rtRegions (hbRouter h))" using assms by (auto simp: hub_ok_def)
  then show ?thesis unfolding copies_def by (intro member_le_sum_list) auto
qed

lemma copies_same: "hbRegions h' = hbRegions h \<Longrightarrow> rtRegions (hbRouter h') = rtRegions (hbRouter h) \<Longrightarrow> copies p h' = copies p h"
  by (simp add: copies_def)

lemma copies_region_push:
  assumes "hub_ok h" "region_push i m h = Some h'" "i \<in> set (rtRegions (hbRouter h))"
  shows "copies p h' = copies p h + (if is_join p m then 1 else 0)"
proof -
  obtain q where q: "hbRegions h i = Some q" using assms(1,3) by (fastforce simp: hub_ok_def)
  then have h': "h' = h\<lparr>hbRegions := (hbRegions h)(i \<mapsto> q\<lparr>rpBox := rpBox q @ [m]\<rparr>)\<rparr>" using assms(2) by (simp add: region_push_def split: if_splits)
  show ?thesis using copies_set_region [OF assms(1), of i p "q\<lparr>rpBox := rpBox q @ [m]\<rparr>"] q by (simp add: h' copies_at_def arriving_def)
qed

lemma copies_session_push [simp]: "copies p (session_push n m h) = copies p h"
  by (rule copies_same) (simp_all add: session_push_def split: option.split)

definition keyed :: "region \<Rightarrow> bool" where
  "keyed r \<longleftrightarrow> (\<forall>p e. rgPlayers r p = Some e \<longrightarrow> enID e = p)"

lemma region_ok_keyed: "region_ok r \<Longrightarrow> keyed r"
  by (simp add: region_ok_def players_in_def keyed_def)

text \<open>The loop of a tick hands over players of the region, each once.\<close>

lemma move_players_hands:
  assumes "keyed r" "distinct ps" "move_players see ps r = (r', effs, handed)"
  shows "(\<forall>p. (rgPlayers r' p = None) = (rgPlayers r p = None)) \<and> (\<forall>p. departing p effs = (if p \<in> set handed then 1 else 0))
    \<and> set handed \<subseteq> set ps \<and> (\<forall>p \<in> set handed. rgPlayers r p \<noteq> None)"
  using assms
proof (induction ps arbitrary: r effs handed)
  case (Cons p ps)
  show ?case
  proof (cases "rgPlayers r p")
    case None
    then show ?thesis using Cons by fastforce
  next
    case (Some e0)
    let ?e = "drop_bubble (rgTick r) e0"
    have e: "enID ?e = p" using Cons.prems(1) Some by (simp add: keyed_def drop_bubble_def)
    have k: "keyed (r\<lparr>rgPlayers := (rgPlayers r)(p \<mapsto> e)\<rparr>)" if "enID e = p" for e using Cons.prems(1) that by (simp add: keyed_def)
    show ?thesis
    proof (cases "move_entity (see p) r ?e")
      case (StayAt x y)
      then have m: "move_players see ps (r\<lparr>rgPlayers := (rgPlayers r)(p \<mapsto> ?e\<lparr>enX := x, enY := y\<rparr>)\<rparr>) = (r', effs, handed)"
        using Cons.prems(3) Some by (simp add: Let_def)
      show ?thesis using Cons.IH [OF k _ m] e Cons.prems(2) Some by (auto split: if_splits)
    next
      case (HandTo dst x y)
      obtain effs1 handed1 where m: "move_players see ps (r\<lparr>rgPlayers := (rgPlayers r)(p \<mapsto> ?e)\<rparr>) = (r', effs1, handed1)"
        and ef: "effs = SendRegion dst (MJoin \<lparr>jnPlayer = enID ?e, jnName = enName ?e, jnSession = enSession ?e, jnX = x, jnY = y, jnIn = enIn ?e\<rparr>)
              # SendSession (enSession ?e) (AssignedRegion dst (ShardOf (see p) dst)) # effs1" and hd: "handed = enID ?e # handed1"
        using Cons.prems(3) Some HandTo by (auto simp: Let_def split: prod.splits)
      have "p \<notin> set handed1" using Cons.IH [OF k [OF e] _ m] Cons.prems(2) by auto
      then show ?thesis using Cons.IH [OF k [OF e] _ m] Cons.prems(2) e Some by (auto simp: ef hd departing_def split: if_splits)
    qed
  qed
qed (simp add: departing_def)

lemma tickStep_copies:
  assumes "keyed r" "distinct order" "tickStep see order order' rt r = (r', effs)"
  shows "holds p r' + departing p effs = holds p r"
proof (cases "frozen rt r")
  case False
  let ?r0 = "r\<lparr>rgNodes := map (respawn (rgTick r)) (rgNodes r)\<rparr>"
  obtain r1 ef handed where m: "move_players see order ?r0 = (r1, ef, handed)" by (metis prod.exhaust)
  have "keyed ?r0" using assms(1) by (simp add: keyed_def)
  note k = move_players_hands [OF this assms(2) m]
  have none: "departing p (map (\<lambda>p. SendSession (f p) s) ids) = 0" for f s and ids :: "string list" by (induction ids) (simp_all add: departing_def)
  have "rgPlayers r' = rgPlayers r1 |` (- set handed)" "departing p effs = departing p ef"
    using assms(3) False none by (auto simp: tickStep_def m Let_def departing_def)
  moreover have "(rgPlayers r1 p = None) = (rgPlayers r p = None)" "departing p ef = (if p \<in> set handed then 1 else 0)"
    "p \<in> set handed \<Longrightarrow> rgPlayers r p \<noteq> None" using k by auto
  ultimately show ?thesis by (cases "p \<in> set handed"; simp add: holds_def restrict_map_def)
qed (use assms in \<open>simp add: tickStep_def departing_def\<close>)

text \<open>A message received: a player who joins is there, one who leaves is not, all else keeps everybody.\<close>

lemma receive_copies:
  assumes "region_ok r" "distinct (teMove env)" "region_receive J env rt m r = (r', effs)"
  shows "holds p r' + departing p effs = (if is_join p m then 1 else if is_leave p m then 0 else holds p r)"
proof (cases m)
  case MTick
  then show ?thesis using tickStep_copies [OF region_ok_keyed [OF assms(1)] assms(2)] assms(3) by (simp add: region_receive_def)
qed (use assms(3) in \<open>auto simp: region_receive_def holds_def departing_def on_join_def on_input_def handleChat_def handleGather_def Let_def
    split: if_splits option.splits\<close>)

text \<open>What a history of messages to regions makes of a player: no more copies than joins; and with a join and no leave, at least one.\<close>

definition stayed :: "string \<Rightarrow> region_msg list \<Rightarrow> bool" where
  "stayed p ms \<longleftrightarrow> filter (is_leave p) ms = []"

definition accounted :: "string \<Rightarrow> hub \<Rightarrow> bool" where
  "accounted p h \<longleftrightarrow> copies p h \<le> arriving p (hbSent h) \<and> (stayed p (hbSent h) \<longrightarrow> (arriving p (hbSent h) > 0 \<longrightarrow> copies p h > 0)
     \<and> (\<forall>i q. hbRegions h i = Some q \<longrightarrow> stayed p (rpBox q)))"

lemma arriving_simps [simp]: "arriving p [] = 0" "arriving p (m # ms) = (if is_join p m then 1 else 0) + arriving p ms"
  "arriving p (xs @ ys) = arriving p xs + arriving p ys"
  by (simp_all add: arriving_def)

lemma stayed_simps [simp]: "stayed p []" "stayed p (m # ms) \<longleftrightarrow> \<not> is_leave p m \<and> stayed p ms" "stayed p (xs @ ys) \<longleftrightarrow> stayed p xs \<and> stayed p ys"
  by (auto simp: stayed_def)

lemma region_push_known: "region_push i m h = Some h' \<Longrightarrow> hub_ok h \<Longrightarrow> i \<in> set (rtRegions (hbRouter h))"
  by (auto simp: region_push_def hub_ok_def split: option.splits)

text \<open>A message pushed by a session is history; one pushed by a region comes out of its handler.\<close>

lemma accounted_session_push:
  assumes "hub_ok h" "accounted p h" "region_push i m h = Some h'"
  shows "accounted p (h'\<lparr>hbSent := hbSent h' @ [m]\<rparr>)"
proof -
  obtain q where q: "hbRegions h i = Some q" and h': "h' = h\<lparr>hbRegions := (hbRegions h)(i \<mapsto> q\<lparr>rpBox := rpBox q @ [m]\<rparr>)\<rparr>"
    using assms(3) by (auto simp: region_push_def split: option.splits if_splits)
  have c: "copies p (h'\<lparr>hbSent := hbSent h' @ [m]\<rparr>) = copies p h + (if is_join p m then 1 else 0)"
    using copies_region_push [OF assms(1,3) region_push_known [OF assms(3,1)], of p] copies_same [of "h'\<lparr>hbSent := hbSent h' @ [m]\<rparr>" h'] by simp
  show ?thesis using assms(2) q unfolding accounted_def c by (auto simp: h')
qed

lemma accounted_region_turn:
  assumes "hub_ok h" "accounted p h" "region_turn J i env h = Some h'"
  shows "accounted p h'"
proof -
  let ?env = "env\<lparr>teSee := (\<lambda>q. (teSee env q)\<lparr>rtRegions := rtRegions (hbRouter h), rtShardOf := rtShardOf (hbRouter h)\<rparr>)\<rparr>"
  obtain q m ms r effs where q: "hbRegions h i = Some q" "rpBox q = m # ms" "rpOut q = []" and rec: "region_receive J ?env (hbRouter h) m (rpState q) = (r, effs)"
    and h': "h' = h\<lparr>hbRegions := (hbRegions h)(i \<mapsto> \<lparr>rpState = r, rpBox = ms, rpOut = effs\<rparr>)\<rparr>" and d: "distinct (teMove env)"
    using assms(3) by (auto simp: region_turn_def split: option.splits if_splits list.splits prod.splits)
  have "region_ok (rpState q)" using assms(1) q(1) by (simp add: hub_ok_def proc_ok_def)
  from receive_copies [OF this _ rec] d
  have r: "holds p r + departing p effs = (if is_join p m then 1 else if is_leave p m then 0 else holds p (rpState q))" for p by simp
  have c: "copies p h' + copies_at p (Some q) = copies p h + copies_at p (Some \<lparr>rpState = r, rpBox = ms, rpOut = effs\<rparr>)"
    using copies_set_region [OF assms(1), of i p "\<lparr>rpState = r, rpBox = ms, rpOut = effs\<rparr>"] q(1) by (simp add: h')
  have at: "copies_at p (Some q) = holds p (rpState q) + (if is_join p m then 1 else 0) + arriving p ms"
    "copies_at p (Some \<lparr>rpState = r, rpBox = ms, rpOut = effs\<rparr>) = (if is_join p m then 1 else if is_leave p m then 0 else holds p (rpState q)) + arriving p ms"
    using r [of p] q by (simp_all add: copies_at_def departing_def)
  have up: "copies p h' \<le> copies p h" using c at by (simp split: if_splits)
  have "copies p h' > 0" if "copies p h > 0" "\<not> is_leave p m"
    using c at that copies_at_le [OF assms(1), of i p] q(1) by (simp split: if_splits)
  moreover have ms: "\<not> is_leave p m \<and> stayed p ms" if "stayed p (hbSent h)"
  proof -
    have "stayed p (rpBox q)" using assms(2) that q(1) unfolding accounted_def by blast
    then show ?thesis by (simp add: q(2))
  qed
  ultimately have pos: "stayed p (hbSent h) \<Longrightarrow> arriving p (hbSent h) > 0 \<Longrightarrow> copies p h' > 0" using assms(2) by (simp add: accounted_def)
  have sent: "hbSent h' = hbSent h" by (simp add: h')
  show ?thesis unfolding accounted_def sent
  proof (intro conjI impI allI)
    show "copies p h' \<le> arriving p (hbSent h)" using assms(2) up by (simp add: accounted_def)
    show "stayed p (rpBox x)" if "stayed p (hbSent h)" "hbRegions h' j = Some x" for j x
      using ms [OF that(1)] that assms(2) by (cases "j = i") (auto simp: h' accounted_def)
  qed (use pos in blast)
qed

lemma accounted_region_do:
  assumes "hub_ok h" "accounted p h" "region_do i ok h = Some h'"
  shows "accounted p h'"
proof -
  obtain q e es where q: "hbRegions h i = Some q" "rpOut q = e # es"
    using assms(3) by (auto simp: region_do_def split: option.splits list.splits)
  let ?q = "q\<lparr>rpOut := es\<rparr>" and ?h = "h\<lparr>hbRegions := (hbRegions h)(i \<mapsto> q\<lparr>rpOut := es\<rparr>)\<rparr>"
  have pk: "proc_ok (hbRouter h) i q" using assms(1) q(1) by (simp add: hub_ok_def)
  then have e: "effect_ok e" using q(2) by (simp add: proc_ok_def)
  have h: "hub_ok ?h" using pk q by (intro hub_ok_set_region [OF assms(1)]) (auto simp: proc_ok_def)
  have c: "copies p ?h + (if hands p e then 1 else 0) = copies p h"
    using copies_set_region [OF assms(1), of i p ?q] q by (auto simp: copies_at_def departing_def split: if_splits)
  have same: "accounted p g" if "copies p g = copies p h" "hbSent g = hbSent h"
    "\<forall>j x. hbRegions g j = Some x \<longrightarrow> (\<exists>y ys. hbRegions h j = Some y \<and> rpBox x = rpBox y @ ys \<and> stayed p ys)" for g
    using assms(2) that unfolding accounted_def by fastforce
  have keep: "\<exists>y ys. hbRegions h j = Some y \<and> rpBox x = rpBox y @ ys \<and> stayed p ys" if "hbRegions ?h j = Some x" for j x
    using that q(1) by (cases "j = i") (auto intro!: exI [of _ "[]"])
  show ?thesis
  proof (cases e)
    case (SendRegion dst m)
    then have push: "region_push dst m ?h = Some h'" using assms(3) q by (simp add: region_do_def Let_def)
    have m: "\<not> is_leave p m" using e SendRegion by (cases m) auto
    have "copies p h' = copies p ?h + (if is_join p m then 1 else 0)" by (rule copies_region_push [OF h push region_push_known [OF push h]])
    then have "copies p h' = copies p h" using c SendRegion by simp
    then show ?thesis
    proof (rule same)
      show "hbSent h' = hbSent h" using push by (auto simp: region_push_def split: option.splits if_splits)
      show "\<forall>j x. hbRegions h' j = Some x \<longrightarrow> (\<exists>y ys. hbRegions h j = Some y \<and> rpBox x = rpBox y @ ys \<and> stayed p ys)"
        using push q m by (fastforce simp: region_push_def split: option.splits if_splits)
    qed
  next
    case (SendSession n m)
    then have h': "h' = session_push n (FromHub m) ?h" using assms(3) q by (simp add: region_do_def Let_def)
    have reg: "hbRegions h' = hbRegions ?h" "hbSent h' = hbSent h" by (simp_all add: h' session_push_def split: option.split)
    have "copies p h' = copies p h" using c SendSession by (simp add: h')
    then show ?thesis by (rule same) (use reg keep in auto)
  next
    case (AppendEvent st t d)
    then have h': "h' = ?h \<or> h' = ?h\<lparr>hbLog := hbLog h @ [(st, t, d)]\<rparr>" using assms(3) q by (auto simp: region_do_def Let_def split: if_splits)
    have "copies p h' = copies p ?h" using h' by (auto intro!: copies_same)
    then have "copies p h' = copies p h" using c AppendEvent by simp
    then show ?thesis by (rule same) (use h' keep in auto)
  qed
qed

lemma accounted_same:
  "accounted p h \<Longrightarrow> hbRegions h' = hbRegions h \<Longrightarrow> rtRegions (hbRouter h') = rtRegions (hbRouter h) \<Longrightarrow> hbSent h' = hbSent h \<Longrightarrow> accounted p h'"
  using copies_same [of h' h p] by (simp add: accounted_def)

lemma hub_step_accounted:
  assumes "hub_ok h" "accounted p h" "hub_step J ev h = Some h'"
  shows "accounted p h'"
proof (cases ev)
  case (EvConnect n i name)
  then show ?thesis using assms(3) by (intro accounted_same [OF assms(2)]) (auto simp: connect_def split: if_splits prod.splits)
next
  case (EvPost n m)
  then show ?thesis using assms(3) by (intro accounted_same [OF assms(2)]) (auto simp: session_push_def split: if_splits option.splits)
next
  case (EvStop n)
  then show ?thesis using assms(3) by (intro accounted_same [OF assms(2)]) (auto split: option.splits)
next
  case (EvSession n q)
  then show ?thesis using assms(3) by (intro accounted_same [OF assms(2)]) (auto simp: session_turn_def split: option.splits if_splits list.splits prod.splits)
next
  case (EvSessionDo n ok)
  then obtain q e es where q: "hbSessions h n = Some q" "spOut q = e # es"
    using assms(3) by (auto simp: session_do_def split: option.splits list.splits)
  let ?h = "h\<lparr>hbSessions := (hbSessions h)(n \<mapsto> q\<lparr>spOut := es\<rparr>)\<rparr>"
  have "\<forall>e \<in> set es. session_effect_ok e" using assms(1) q by (fastforce simp: hub_ok_def)
  then have h: "hub_ok ?h" "accounted p ?h" using assms(1) by (auto intro: hub_ok_set_session accounted_same [OF assms(2)])
  show ?thesis
  proof (cases e)
    case (ToRegion i m)
    then obtain h2 where h2: "region_push i m ?h = Some h2" "h' = h2\<lparr>hbSent := hbSent h2 @ [m]\<rparr>"
      using assms(3) EvSessionDo q by (auto simp: session_do_def Let_def split: option.splits)
    show ?thesis unfolding h2(2) by (rule accounted_session_push [OF h h2(1)])
  qed (use assms(3) EvSessionDo q in \<open>intro accounted_same [OF assms(2)]; auto simp: session_do_def Let_def split: if_splits\<close>)+
next
  case (EvSessionDead n)
  then show ?thesis using assms(3) by (intro accounted_same [OF assms(2)]) (auto simp: session_end_def split: option.splits if_splits)
next
  case (EvTick i)
  then have push: "region_push i MTick h = Some h'" using assms(3) by simp
  obtain q where q: "hbRegions h i = Some q" and h': "h' = h\<lparr>hbRegions := (hbRegions h)(i \<mapsto> q\<lparr>rpBox := rpBox q @ [MTick]\<rparr>)\<rparr>"
    using push by (auto simp: region_push_def split: option.splits if_splits)
  have c: "copies p h' = copies p h" using copies_region_push [OF assms(1) push region_push_known [OF push assms(1)], of p] by simp
  show ?thesis using assms(2) q unfolding accounted_def c by (auto simp: h')
next
  case (EvRegion i env)
  then show ?thesis using accounted_region_turn [OF assms(1,2)] assms(3) by simp
next
  case (EvRegionDo i ok)
  then show ?thesis using accounted_region_do [OF assms(1,2)] assms(3) by simp
qed (use assms(3) in \<open>intro accounted_same [OF assms(2)]; auto simp: SetShardUp_def SetAvailability_def register_def cleanup_def split: option.splits if_splits\<close>)+

lemma hub_run_accounted: "hub_ok h \<Longrightarrow> accounted p h \<Longrightarrow> accounted p (hub_run J evs h)"
  by (induction evs arbitrary: h) (auto simp: hub_run_def split: option.split dest: hub_step_ok hub_step_accounted)

end
