(* ===== verification/HubRuns.thy ===== *)
theory HubRuns
  imports Hub
begin

text \<open>
  What the hub guarantees a player, with runs of it: a player walks in, crosses borders and changes to an arena and back,
  evaluated on hubs whose two upper regions stay empty (\<open>lower\<close>). Two runs show what the hub does not guarantee: a
  player left behind in a region, and regions that wait for each other forever.
\<close>

section \<open>Hubs with two regions in use\<close>

lemma new_region_simps [simp]:
  "rgID (new_region i c w sh store) = i" "rgShard (new_region i c w sh store) = sh" "rgTick (new_region i c w sh store) = 0"
  "rgPlayers (new_region i c w sh store) = Map.empty" "rgStore (new_region i c w sh store) = store"
  by (simp_all add: new_region_def Let_def)

lemma spawn_point: "fdiv Width_w (Fin 2) = Fin 400" "fdiv Height_w (Fin 2) = Fin 300"
  by (simp_all add: Width_w_def Height_w_def fround_numeral)

lemma places: "RegionAt (Fin 400) (Fin 300) = ''r-1-1''" "RegionAt (Fin 390) (Fin 300) = ''r-0-1''"
  using RegionAt_cell [of 1 1 400 300] RegionAt_cell [of 0 1 390 300] by (simp_all add: region_ids)

text \<open>Hubs whose upper regions are empty, by their lower regions, sessions, names and history.\<close>

definition lower :: "region_proc \<Rightarrow> region_proc \<Rightarrow> (nat \<rightharpoonup> session_proc) \<Rightarrow> (string \<rightharpoonup> nat) \<Rightarrow> region_msg list \<Rightarrow> hub" where
  "lower a b ss nm sent = \<lparr>hbRouter = plain_router, hbRegions = [''r-0-0'' \<mapsto> \<lparr>rpState = new_region ''r-0-0'' 0 0 ''s'' True, rpBox = [], rpOut = []\<rparr>,
     ''r-0-1'' \<mapsto> a, ''r-1-0'' \<mapsto> \<lparr>rpState = new_region ''r-1-0'' 1 0 ''s'' True, rpBox = [], rpOut = []\<rparr>, ''r-1-1'' \<mapsto> b],
     hbSessions = ss, hbNames = nm, hbSent = sent, hbLog = [], hbRegistry = Map.empty, hbRegistered = [], hbCleaned = []\<rparr>"

definition at_spawn :: "nat \<Rightarrow> string \<Rightarrow> session" where
  "at_spawn n i = (new_session i i n)\<lparr>seRegion := Some ''r-1-1'', seRegionID := ''r-1-1'', seShard := ''s''\<rparr>"

definition plain_order :: "string list \<Rightarrow> string list \<Rightarrow> tick_env" where
  "plain_order ps qs = \<lparr>teSee = (\<lambda>_. plain_router), teMove = ps, teShow = qs\<rparr>"

definition keys :: "bool \<Rightarrow> bool \<Rightarrow> Input" where
  "keys l r = \<lparr>inUp = False, inDown = False, inLeft = l, inRight = r\<rparr>"

definition press :: "bool \<Rightarrow> bool \<Rightarrow> session_msg" where
  "press l r = FromClient \<lparr>cmType = ''input'', cmUp = False, cmDown = False, cmLeft = l, cmRight = r, cmText = [], cmAimX = fint 0, cmAimY = fint 0, cmMode = []\<rparr>"

definition comes :: "string \<Rightarrow> nat \<Rightarrow> rat \<Rightarrow> Input \<Rightarrow> region_msg" where
  "comes i n x k = MJoin \<lparr>jnPlayer = i, jnName = i, jnSession = n, jnX = Fin x, jnY = Fin 300, jnIn = k\<rparr>"

definition walker :: "string \<Rightarrow> nat \<Rightarrow> rat \<Rightarrow> Input \<Rightarrow> entity" where
  "walker i n x k = \<lparr>enID = i, enName = i, enX = Fin x, enY = Fin 300, enIn = k, enSession = n, enBubble = [], enBubbleUntil = 0\<rparr>"

lemma lower_start: "hub_start plain_router plain_regions = lower \<lparr>rpState = new_region ''r-0-1'' 0 1 ''s'' True, rpBox = [], rpOut = []\<rparr>
    \<lparr>rpState = new_region ''r-1-1'' 1 1 ''s'' True, rpBox = [], rpOut = []\<rparr> Map.empty Map.empty []"
  by (simp add: hub_start_def lower_def plain_regions_def fun_eq_iff)

lemma router_same: "plain_router\<lparr>rtRegions := rtRegions plain_router, rtShardOf := rtShardOf plain_router\<rparr> = plain_router"
  by simp

lemma no_input_keys: "no_input = keys False False"
  by (simp add: no_input_def keys_def)

lemma spawn_plain: "SpawnRegion plain_router (Fin 400) (Fin 300) = (''r-1-1'', ''s'', Some ''r-1-1'')"
  by (simp add: SpawnRegion_def places ShardOf_def RouterRef_def plain_router_def Let_def)

lemma lower_connect:
  "ss n = None \<Longrightarrow> nm i = None \<Longrightarrow> hub_step J (EvConnect n i i) (lower a b ss nm sent) =
     Some (lower a b (ss(n \<mapsto> \<lparr>spState = at_spawn n i, spBox = [], spOut = [ToRegion ''r-1-1'' (comes i n 400 (keys False False)), Write (FWelcome i i)],
       spStop = False, spPhase = Running\<rparr>)) (nm(i \<mapsto> n)) sent)"
  by (simp add: lower_def connect_def PreStart_def to_spawn_def spawn_point spawn_plain Let_def at_spawn_def new_session_def to_region_def spawn_join_def
      comes_def no_input_keys)

lemma lower_post:
  "ss n \<noteq> None \<Longrightarrow> spPhase (the (ss n)) \<noteq> Dead \<Longrightarrow> length (spBox (the (ss n))) < 16 \<Longrightarrow> from_outside m \<Longrightarrow>
   hub_step J (EvPost n m) (lower a b ss nm sent) = Some (lower a b (ss(n \<mapsto> (the (ss n))\<lparr>spBox := spBox (the (ss n)) @ [m]\<rparr>)) nm sent)"
  by (auto simp: lower_def session_push_def session_capacity_def)

lemma lower_turn:
  "ss n \<noteq> None \<Longrightarrow> spPhase (the (ss n)) = Running \<Longrightarrow> spOut (the (ss n)) = [] \<Longrightarrow> \<not> spStop (the (ss n)) \<Longrightarrow> spBox (the (ss n)) \<noteq> [] \<Longrightarrow>
   hub_step J (EvSession n q) (lower a b ss nm sent) = (case session_receive plain_router q (hd (spBox (the (ss n)))) (spState (the (ss n))) of (s, effs) \<Rightarrow>
     Some (lower a b (ss(n \<mapsto> (the (ss n))\<lparr>spState := s, spBox := tl (spBox (the (ss n))), spOut := effs\<rparr>)) nm sent))"
  by (auto simp: lower_def session_turn_def split: prod.splits list.splits)

definition into :: "string \<Rightarrow> region_msg \<Rightarrow> region_proc \<Rightarrow> region_proc \<Rightarrow> (region_proc \<times> region_proc) option" where
  "into i m a b = (if i = ''r-1-1'' then if length (rpBox b) < 64 then Some (a, b\<lparr>rpBox := rpBox b @ [m]\<rparr>) else None
     else if i = ''r-0-1'' then if length (rpBox a) < 64 then Some (a\<lparr>rpBox := rpBox a @ [m]\<rparr>, b) else None else None)"

lemma lower_push:
  "i \<in> {''r-1-1'', ''r-0-1''} \<Longrightarrow> region_push i m (lower a b ss nm sent) = (case into i m a b of None \<Rightarrow> None | Some (a', b') \<Rightarrow> Some (lower a' b' ss nm sent))"
  by (auto simp: lower_def region_push_def region_capacity_def into_def fun_upd_twist)

lemma lower_do:
  assumes "ss n \<noteq> None" "spOut (the (ss n)) \<noteq> []" "case hd (spOut (the (ss n))) of ToRegion i m \<Rightarrow> i = ''r-1-1'' \<or> i = ''r-0-1'' | _ \<Rightarrow> True"
  shows "hub_step J (EvSessionDo n True) (lower a b ss nm sent) = (let ss' = ss(n \<mapsto> (the (ss n))\<lparr>spOut := tl (spOut (the (ss n)))\<rparr>) in
     case hd (spOut (the (ss n))) of
       ToRegion i m \<Rightarrow> (case into i m a b of None \<Rightarrow> None | Some (a', b') \<Rightarrow> Some (lower a' b' ss' nm (sent @ [m])))
     | _ \<Rightarrow> Some (lower a b ss' nm sent))"
proof -
  obtain p e es where p: "ss n = Some p" "spOut p = e # es" using assms(1,2) by (cases "spOut (the (ss n))") auto
  have u: "(lower a b ss nm sent)\<lparr>hbSessions := ss'\<rparr> = lower a b ss' nm sent" "hbSessions (lower a b ss nm sent) = ss"
    "(lower a b ss nm sent)\<lparr>hbSent := l\<rparr> = lower a b ss nm l" "hbSent (lower a b ss nm sent) = sent" for ss' a b l ss sent by (simp_all add: lower_def)
  show ?thesis using assms(3) p by (cases e) (auto simp: session_do_def Let_def u lower_push split: option.splits)
qed

lemma lower_region:
  assumes "distinct ps"
  shows "rpOut b = [] \<Longrightarrow> rpBox b \<noteq> [] \<Longrightarrow> hub_step J (EvRegion ''r-1-1'' (plain_order ps qs)) (lower a b ss nm sent) =
      (case region_receive J (plain_order ps qs) plain_router (hd (rpBox b)) (rpState b) of (r, effs) \<Rightarrow>
         Some (lower a \<lparr>rpState = r, rpBox = tl (rpBox b), rpOut = effs\<rparr> ss nm sent))"
    "rpOut a = [] \<Longrightarrow> rpBox a \<noteq> [] \<Longrightarrow> hub_step J (EvRegion ''r-0-1'' (plain_order ps qs)) (lower a b ss nm sent) =
      (case region_receive J (plain_order ps qs) plain_router (hd (rpBox a)) (rpState a) of (r, effs) \<Rightarrow>
         Some (lower \<lparr>rpState = r, rpBox = tl (rpBox a), rpOut = effs\<rparr> b ss nm sent))"
  using assms by (auto simp: lower_def region_turn_def plain_order_def fun_upd_twist split: prod.splits list.splits)

text \<open>A session that lives receives what fits.\<close>

definition told :: "nat \<Rightarrow> hub_msg \<Rightarrow> (nat \<rightharpoonup> session_proc) \<Rightarrow> nat \<rightharpoonup> session_proc" where
  "told n m ss = (case ss n of None \<Rightarrow> ss | Some p \<Rightarrow> if spPhase p \<noteq> Dead \<and> length (spBox p) < 16 then ss(n \<mapsto> p\<lparr>spBox := spBox p @ [FromHub m]\<rparr>) else ss)"

lemma lower_region_do:
  assumes "rpOut b \<noteq> []" "case hd (rpOut b) of SendRegion i m \<Rightarrow> i = ''r-0-1'' | SendSession n m \<Rightarrow> True | _ \<Rightarrow> False"
  shows "hub_step J (EvRegionDo ''r-1-1'' True) (lower a b ss nm sent) = (case hd (rpOut b) of
      SendRegion i m \<Rightarrow> (case into i m a (b\<lparr>rpOut := tl (rpOut b)\<rparr>) of None \<Rightarrow> None | Some (a', b') \<Rightarrow> Some (lower a' b' ss nm sent))
    | SendSession n m \<Rightarrow> Some (lower a (b\<lparr>rpOut := tl (rpOut b)\<rparr>) (told n m ss) nm sent) | AppendEvent s t d \<Rightarrow> None)"
proof -
  obtain e es where p: "rpOut b = e # es" using assms(1) by (cases "rpOut b") auto
  have u: "(lower a b ss nm sent)\<lparr>hbRegions := (hbRegions (lower a b ss nm sent))(''r-1-1'' \<mapsto> b')\<rparr> = lower a b' ss nm sent"
    "hbRegions (lower a b ss nm sent) ''r-1-1'' = Some b"
    "session_push n (FromHub m) (lower a b ss nm sent) = lower a b (told n m ss) nm sent" for b b' n m
    by (auto simp: lower_def session_push_def told_def session_capacity_def split: option.splits)
  show ?thesis using assms(2) p by (cases e) (auto simp: region_do_def Let_def u lower_push split: option.splits)
qed

lemma lower_tick:
  "length (rpBox b) < 64 \<Longrightarrow> hub_step J (EvTick ''r-1-1'') (lower a b ss nm sent) = Some (lower a (b\<lparr>rpBox := rpBox b @ [MTick]\<rparr>) ss nm sent)"
  "length (rpBox a) < 64 \<Longrightarrow> hub_step J (EvTick ''r-0-1'') (lower a b ss nm sent) = Some (lower (a\<lparr>rpBox := rpBox a @ [MTick]\<rparr>) b ss nm sent)"
  by (simp_all add: lower_def region_push_def region_capacity_def fun_upd_twist)

declare hub_step.simps [simp del]

lemma hub_run_Cons: "hub_run J (e # es) h = hub_run J es (case hub_step J e h of Some h' \<Rightarrow> h' | None \<Rightarrow> h)"
  by (simp add: hub_run_def)

lemma hub_run_Nil: "hub_run J [] h = h"
  by (simp add: hub_run_def)

lemma hub_run_append: "hub_run J (xs @ ys) h = hub_run J ys (hub_run J xs h)"
  by (simp add: hub_run_def)

lemma told_eval [simp]: "told n m (ss(n \<mapsto> p)) = (if spPhase p \<noteq> Dead \<and> length (spBox p) < 16 then ss(n \<mapsto> p\<lparr>spBox := spBox p @ [FromHub m]\<rparr>) else ss(n \<mapsto> p))"
  by (simp add: told_def)

lemma join_eval [simp]: "on_join \<lparr>jnPlayer = i, jnName = i, jnSession = n, jnX = Fin x, jnY = Fin 300, jnIn = k\<rparr> r =
   (if 0 \<le> x \<and> x \<le> 800 then r\<lparr>rgPlayers := (rgPlayers r)(i \<mapsto> walker i n x k)\<rparr> else on_join \<lparr>jnPlayer = i, jnName = i, jnSession = n, jnX = Fin x, jnY = Fin 300, jnIn = k\<rparr> r)"
  by (simp add: on_join_def walker_def Width_w_def Height_w_def)
declare join_eval [simp del]

lemma receive_eval:
  "0 \<le> x \<Longrightarrow> x \<le> 800 \<Longrightarrow> region_receive J env rt (comes i n x k) r = (r\<lparr>rgPlayers := (rgPlayers r)(i \<mapsto> walker i n x k)\<rparr>, [])"
  "region_receive J env rt (MLeave i) r = (r\<lparr>rgPlayers := (rgPlayers r)(i := None)\<rparr>, [])"
  "rgPlayers r i = Some e \<Longrightarrow> region_receive J env rt (MInput i k) r = (r\<lparr>rgPlayers := (rgPlayers r)(i \<mapsto> e\<lparr>enIn := k\<rparr>)\<rparr>, [])"
  "region_receive J env rt MTick r = tickStep (teSee env) (teMove env) (teShow env) rt r"
  by (simp_all add: region_receive_def comes_def join_eval on_input_def)

lemma walker_in [simp]: "(walker i n x k)\<lparr>enIn := k'\<rparr> = walker i n x k'"
  by (simp add: walker_def)

lemma from_press [simp]: "from_outside (press l r)"
  by (simp add: press_def)

lemma turn_eval:
  "session_receive rt q (press l r) s = (s, case seArena s of None \<Rightarrow> to_region (seRegion s) (MInput (seID s) (keys l r)) | Some k \<Rightarrow> onClientMsg q (case press l r of FromClient c \<Rightarrow> c) s)"
  "session_receive rt q (FromHub (AssignedRegion i sh)) s = (s\<lparr>seRegion := Some i, seRegionID := i, seShard := sh\<rparr>, [])"
  "session_receive rt q (EnterArena lk team t k) s = onEnterArena lk team t k s"
  "session_receive rt q (EnterHub t k) s = onEnterHub rt t k s"
  by (simp_all add: session_receive_def press_def onClientMsg_def keys_def split: option.split)

lemma walks:
  "rgID r = ''r-1-1'' \<Longrightarrow> move_entity plain_router r (walker i n 400 (keys True False)) = HandTo ''r-0-1'' (Fin 390) (Fin 300)"
  "rgID r = ''r-0-1'' \<Longrightarrow> move_entity plain_router r (walker i n 390 (keys False True)) = HandTo ''r-1-1'' (Fin 400) (Fin 300)"
  by (simp_all add: move_entity_def walker_def keys_def steps places Width_w_def Height_w_def Let_def RouterRef_def plain_router_def RegionShardUp_def
      ShardUp_def ShardOf_def del: fadd.simps)

lemma tick_hands:
  assumes "rgShard r = ''s''" "rgPlayers r = [i \<mapsto> walker i n x k]" "\<And>r'. rgID r' = rgID r \<Longrightarrow> move_entity plain_router r' (walker i n x k) = HandTo dst (Fin y) (Fin 300)"
    "dst \<in> set (rtRegions plain_router)"
  shows "tickStep (\<lambda>_. plain_router) [i] [] plain_router r = (r\<lparr>rgNodes := map (respawn (rgTick r)) (rgNodes r), rgPlayers := Map.empty, rgTick := rgTick r + 1\<rparr>,
    [SendRegion dst (comes i n y k), SendSession n (AssignedRegion dst ''s'')])"
proof -
  have nb: "drop_bubble t (walker i n x k) = walker i n x k" for t by (simp add: drop_bubble_def walker_def)
  have w: "enID (walker i n x k) = i" "enName (walker i n x k) = i" "enSession (walker i n x k) = n" "enIn (walker i n x k) = k" by (simp_all add: walker_def)
  have sh: "ShardOf plain_router dst = ''s''" using assms(4) by (auto simp: ShardOf_def plain_router_def)
  have "\<not> frozen plain_router r" by (simp add: frozen_def ShardUp_def plain_router_def assms(1))
  moreover have "[i \<mapsto> walker i n x k] |` (- {i}) = Map.empty" by (simp add: restrict_map_def fun_eq_iff)
  ultimately show ?thesis using assms(2) by (simp add: tickStep_def Let_def nb assms(3) w sh comes_def)
qed

text \<open>A player walks in and presses left; the clock ticks.\<close>

definition walk :: "nat \<Rightarrow> string \<Rightarrow> hub_event list" where
  "walk n i = [EvConnect n i i, EvSessionDo n True, EvSessionDo n True, EvRegion ''r-1-1'' (plain_order [] []),
     EvPost n (press True False), EvSession n None, EvSessionDo n True, EvRegion ''r-1-1'' (plain_order [] [])]"

lemmas lower_eval = hub_run_Cons hub_run_Nil lower_connect lower_do lower_region lower_post lower_turn lower_region_do lower_tick into_def receive_eval turn_eval
  Let_def at_spawn_def new_session_def to_region_def

lemma walk_eval:
  assumes "ss n = None" "nm i = None"
  shows "hub_run J (walk n i) (lower a \<lparr>rpState = r, rpBox = [], rpOut = []\<rparr> ss nm sent) =
     lower a \<lparr>rpState = r\<lparr>rgPlayers := (rgPlayers r)(i \<mapsto> walker i n 400 (keys True False))\<rparr>, rpBox = [], rpOut = []\<rparr>
     (ss(n \<mapsto> \<lparr>spState = at_spawn n i, spBox = [], spOut = [], spStop = False, spPhase = Running\<rparr>)) (nm(i \<mapsto> n))
     (sent @ [comes i n 400 (keys False False), MInput i (keys True False)])"
  using assms by (simp add: walk_def lower_eval walker_def)

text \<open>A transfer to an arena that is under way while the player crosses a border.\<close>

definition some_link :: arenaLink where "some_link = \<lparr>lkNo = 1, lkID = ''m'', lkMode = ''1v1''\<rparr>"

definition transfer :: "hub_event list" where
  "transfer = [EvTick ''r-1-1'', EvPost 1 (EnterArena some_link 0 1 0), EvRegion ''r-1-1'' (plain_order [''a''] []), EvRegionDo ''r-1-1'' True, EvRegionDo ''r-1-1'' True,
     EvSession 1 None, EvSessionDo 1 True, EvSessionDo 1 True, EvSessionDo 1 True, EvRegion ''r-0-1'' (plain_order [] []), EvRegion ''r-1-1'' (plain_order [] []),
     EvSession 1 None]"

definition return :: "hub_event list" where
  "return = [EvPost 1 (EnterHub 2 1), EvSession 1 None, EvSessionDo 1 True, EvSessionDo 1 True, EvSessionDo 1 True, EvSessionDo 1 True, EvRegion ''r-1-1'' (plain_order [] [])]"

lemma tick_left:
  assumes "rgShard r = ''s''" "rgPlayers r = [i \<mapsto> walker i n 400 (keys True False)]" "rgID r = ''r-1-1''"
  shows "tickStep (\<lambda>_. plain_router) [i] [] plain_router r = (r\<lparr>rgNodes := map (respawn (rgTick r)) (rgNodes r), rgPlayers := Map.empty, rgTick := rgTick r + 1\<rparr>,
    [SendRegion ''r-0-1'' (comes i n 390 (keys True False)), SendSession n (AssignedRegion ''r-0-1'' ''s'')])"
  by (rule tick_hands [OF assms(1,2)]) (simp add: walks assms(3), simp add: plain_router_def)

lemma plain_order_sel [simp]: "teSee (plain_order ps qs) = (\<lambda>_. plain_router)" "teMove (plain_order ps qs) = ps" "teShow (plain_order ps qs) = qs"
  by (simp_all add: plain_order_def)

definition tired :: "region \<Rightarrow> region" where
  "tired r = r\<lparr>rgNodes := map (respawn (rgTick r)) (rgNodes r), rgTick := rgTick r + 1, rgPlayers := Map.empty\<rparr>"

lemma transfer_eval:
  assumes "rgShard r = ''s''" "rgPlayers r = Map.empty" "rgID r = ''r-1-1''" "rgPlayers l = Map.empty"
  shows "hub_run J (walk 1 ''a'' @ transfer) (lower \<lparr>rpState = l, rpBox = [], rpOut = []\<rparr> \<lparr>rpState = r, rpBox = [], rpOut = []\<rparr> Map.empty Map.empty []) =
     lower \<lparr>rpState = l\<lparr>rgPlayers := [''a'' \<mapsto> walker ''a'' 1 390 (keys True False)]\<rparr>, rpBox = [], rpOut = []\<rparr>
       \<lparr>rpState = tired (r\<lparr>rgPlayers := [''a'' \<mapsto> walker ''a'' 1 400 (keys True False)]\<rparr>), rpBox = [], rpOut = []\<rparr>
     [1 \<mapsto> \<lparr>spState = (at_spawn 1 ''a'')\<lparr>seRegion := Some ''r-0-1'', seRegionID := ''r-0-1'', seArena := Some some_link, seToken := 1\<rparr>, spBox = [], spOut = [], spStop = False, spPhase = Running\<rparr>] [''a'' \<mapsto> 1]
     ([comes ''a'' 1 400 (keys False False), MInput ''a'' (keys True False), MLeave ''a''])"
  unfolding hub_run_append
  by (simp add: walk_eval assms) (simp add: transfer_def lower_eval tick_left assms onEnterArena_def tired_def)

lemma return_eval:
  assumes "rgPlayers r = Map.empty"
  shows "hub_run J return (lower a \<lparr>rpState = r, rpBox = [], rpOut = []\<rparr>
     [1 \<mapsto> \<lparr>spState = (at_spawn 1 ''a'')\<lparr>seRegion := Some ''r-0-1'', seRegionID := ''r-0-1'', seArena := Some some_link, seToken := 1\<rparr>, spBox = [], spOut = [], spStop = False, spPhase = Running\<rparr>] nm sent) =
     lower a \<lparr>rpState = r\<lparr>rgPlayers := [''a'' \<mapsto> walker ''a'' 1 400 (keys False False)]\<rparr>, rpBox = [], rpOut = []\<rparr>
     [1 \<mapsto> \<lparr>spState = (at_spawn 1 ''a'')\<lparr>seToken := 2\<rparr>, spBox = [], spOut = [], spStop = False, spPhase = Running\<rparr>] nm (sent @ [comes ''a'' 1 400 (keys False False)])"
  by (simp add: return_def lower_eval onEnterHub_def to_spawn_def spawn_point spawn_plain spawn_join_def assms no_input_keys flip: comes_def)

lemma lower_regions: "hbRegions (lower a b ss nm sent) ''r-0-1'' = Some a" "hbRegions (lower a b ss nm sent) ''r-1-1'' = Some b" "hbSessions (lower a b ss nm sent) = ss"
  by (simp_all add: lower_def)

lemmas left_behind = trans [OF arg_cong [OF lower_start, of "hub_run J (walk 1 ''a'' @ transfer)"] transfer_eval [OF new_region_simps(2,4,1,4)]] for J

lemma tired_empty: "rgPlayers (tired r) = Map.empty"
  by (simp add: tired_def)

text \<open>A player who crosses a border while an order to enter an arena waits stays behind in the region crossed into,
  with every message delivered; and on coming back is in two regions at once.\<close>

theorem player_left_behind:
  "\<exists>p q s. hbRegions (hub_run J (walk 1 ''a'' @ transfer) (hub_start plain_router plain_regions)) ''r-0-1'' = Some p
     \<and> hbRegions (hub_run J (walk 1 ''a'' @ transfer) (hub_start plain_router plain_regions)) ''r-1-1'' = Some q
     \<and> hbSessions (hub_run J (walk 1 ''a'' @ transfer) (hub_start plain_router plain_regions)) 1 = Some s
     \<and> rpBox p = [] \<and> rpOut p = [] \<and> rpBox q = [] \<and> rpOut q = [] \<and> spBox s = [] \<and> spOut s = []
     \<and> seArena (spState s) \<noteq> None \<and> rgPlayers (rpState p) ''a'' \<noteq> None"
  unfolding left_behind by (simp add: lower_regions)

theorem player_in_two_regions:
  "\<exists>p q. hbRegions (hub_run J ((walk 1 ''a'' @ transfer) @ return) (hub_start plain_router plain_regions)) ''r-0-1'' = Some p
     \<and> hbRegions (hub_run J ((walk 1 ''a'' @ transfer) @ return) (hub_start plain_router plain_regions)) ''r-1-1'' = Some q
     \<and> rgPlayers (rpState p) ''a'' \<noteq> None \<and> rgPlayers (rpState q) ''a'' \<noteq> None"
  unfolding hub_run_append [of J "walk 1 ''a'' @ transfer" return] left_behind return_eval [OF tired_empty] by (simp add: lower_regions)

section \<open>Two regions wait for each other\<close>

definition cross :: "hub_event list" where
  "cross = [EvTick ''r-1-1'', EvRegion ''r-1-1'' (plain_order [''a''] []), EvRegionDo ''r-1-1'' True, EvRegionDo ''r-1-1'' True, EvRegion ''r-0-1'' (plain_order [] []),
     EvSession 1 None, EvPost 1 (press False True), EvSession 1 None, EvSessionDo 1 True, EvRegion ''r-0-1'' (plain_order [] [])]"

definition meet :: "hub_event list" where
  "meet = [EvTick ''r-1-1'', EvTick ''r-0-1'', EvRegion ''r-1-1'' (plain_order [''b''] []), EvRegion ''r-0-1'' (plain_order [''a''] [])]"

definition flood :: "hub_event list" where
  "flood = replicate 64 (EvTick ''r-1-1'') @ replicate 64 (EvTick ''r-0-1'')"

lemma tick_back:
  assumes "rgShard r = ''s''" "rgPlayers r = [i \<mapsto> walker i n 390 (keys False True)]" "rgID r = ''r-0-1''"
  shows "tickStep (\<lambda>_. plain_router) [i] [] plain_router r = (r\<lparr>rgNodes := map (respawn (rgTick r)) (rgNodes r), rgPlayers := Map.empty, rgTick := rgTick r + 1\<rparr>,
    [SendRegion ''r-1-1'' (comes i n 400 (keys False True)), SendSession n (AssignedRegion ''r-1-1'' ''s'')])"
  by (rule tick_hands [OF assms(1,2)]) (simp add: walks assms(3), simp add: plain_router_def)

lemma flood_right: "length (rpBox b) + k \<le> 64 \<Longrightarrow>
  hub_run J (replicate k (EvTick ''r-1-1'')) (lower a b ss nm sent) = lower a (b\<lparr>rpBox := rpBox b @ replicate k MTick\<rparr>) ss nm sent"
  by (induction k arbitrary: b) (simp_all add: hub_run_Nil hub_run_Cons lower_tick)

lemma flood_left: "length (rpBox a) + k \<le> 64 \<Longrightarrow>
  hub_run J (replicate k (EvTick ''r-0-1'')) (lower a b ss nm sent) = lower (a\<lparr>rpBox := rpBox a @ replicate k MTick\<rparr>) b ss nm sent"
  by (induction k arbitrary: a) (simp_all add: hub_run_Nil hub_run_Cons lower_tick)

text \<open>Each has a player for the other, and no room.\<close>

definition stuck :: "region_proc \<Rightarrow> region_proc \<Rightarrow> hub \<Rightarrow> bool" where
  "stuck a b h \<longleftrightarrow> hbRegions h ''r-0-1'' = Some a \<and> hbRegions h ''r-1-1'' = Some b \<and> length (rpBox a) = 64 \<and> length (rpBox b) = 64
     \<and> (\<exists>m es m' es'. rpOut a = SendRegion ''r-1-1'' m # es \<and> rpOut b = SendRegion ''r-0-1'' m' # es')"

lemma stuck_push: "stuck a b h \<Longrightarrow> region_push i m h = Some h' \<Longrightarrow> stuck a b h'"
  by (auto simp: stuck_def region_push_def region_capacity_def split: option.splits if_splits)

lemma stuck_keep: "stuck a b h \<Longrightarrow> hbRegions h' = hbRegions h \<Longrightarrow> stuck a b h'"
  by (simp add: stuck_def)

lemma stuck_upd: "stuck a b h \<Longrightarrow> i \<noteq> ''r-0-1'' \<Longrightarrow> i \<noteq> ''r-1-1'' \<Longrightarrow> stuck a b (h\<lparr>hbRegions := (hbRegions h)(i \<mapsto> p)\<rparr>)"
  by (simp add: stuck_def)

lemma stuck_region_turn: "stuck a b h \<Longrightarrow> region_turn J i env h = Some h' \<Longrightarrow> stuck a b h'"
proof -
  assume s: "stuck a b h" and t: "region_turn J i env h = Some h'"
  then have "i \<noteq> ''r-0-1''" "i \<noteq> ''r-1-1''" by (auto simp: region_turn_def stuck_def)
  then show ?thesis using t stuck_upd [OF s] by (auto simp: region_turn_def split: option.splits if_splits list.splits prod.splits)
qed

lemma stuck_region_do: "stuck a b h \<Longrightarrow> region_do i ok h = Some h' \<Longrightarrow> stuck a b h'"
proof -
  assume s: "stuck a b h" and d: "region_do i ok h = Some h'"
  have ne: "i \<noteq> ''r-0-1''" "i \<noteq> ''r-1-1''" using s d by (auto simp: region_do_def stuck_def Let_def region_push_def region_capacity_def)
  obtain p e es where p: "hbRegions h i = Some p" "rpOut p = e # es" using d by (auto simp: region_do_def split: option.splits list.splits)
  let ?h = "h\<lparr>hbRegions := (hbRegions h)(i \<mapsto> p\<lparr>rpOut := es\<rparr>)\<rparr>"
  have h: "stuck a b ?h" by (rule stuck_upd [OF s ne])
  show ?thesis
  proof (cases e)
    case (SendRegion dst m)
    then show ?thesis using stuck_push [OF h] d p by (simp add: region_do_def Let_def)
  next
    case (SendSession n m)
    then have "h' = session_push n (FromHub m) ?h" using d p by (simp add: region_do_def Let_def)
    then show ?thesis using stuck_keep [OF h] by (simp add: session_push_def split: option.split)
  next
    case (AppendEvent st t x)
    then show ?thesis using stuck_keep [OF h] d p by (auto simp: region_do_def Let_def split: if_splits)
  qed
qed

lemma stuck_session_do: "stuck a b h \<Longrightarrow> session_do n ok h = Some h' \<Longrightarrow> stuck a b h'"
proof -
  assume s: "stuck a b h" and d: "session_do n ok h = Some h'"
  obtain p e es where p: "hbSessions h n = Some p" "spOut p = e # es" using d by (auto simp: session_do_def split: option.splits list.splits)
  have h: "stuck a b (h\<lparr>hbSessions := f\<rparr>)" for f by (rule stuck_keep [OF s]) simp
  show ?thesis
  proof (cases e)
    case (ToRegion i m)
    then obtain h2 where "region_push i m (h\<lparr>hbSessions := (hbSessions h)(n \<mapsto> p\<lparr>spOut := es\<rparr>)\<rparr>) = Some h2" "h' = h2\<lparr>hbSent := hbSent h2 @ [m]\<rparr>"
      using d p by (auto simp: session_do_def Let_def split: option.splits)
    then show ?thesis using stuck_push [OF h] stuck_keep by fastforce
  qed (use d p h in \<open>auto simp: session_do_def Let_def split: if_splits\<close>)
qed

lemma stuck_step:
  assumes "stuck a b h" "hub_step J ev h = Some h'"
  shows "stuck a b h'"
proof (cases ev)
  case (EvConnect n i name)
  then show ?thesis using assms(2) by (intro stuck_keep [OF assms(1)]) (auto simp: hub_step.simps connect_def split: if_splits prod.splits)
next
  case (EvPost n m)
  then show ?thesis using assms(2) by (intro stuck_keep [OF assms(1)]) (auto simp: hub_step.simps session_push_def split: if_splits option.splits)
next
  case (EvStop n)
  then show ?thesis using assms(2) by (intro stuck_keep [OF assms(1)]) (auto simp: hub_step.simps split: option.splits)
next
  case (EvSession n q)
  then show ?thesis using assms(2) by (intro stuck_keep [OF assms(1)]) (auto simp: hub_step.simps session_turn_def split: option.splits if_splits list.splits prod.splits)
next
  case (EvSessionDo n ok)
  then show ?thesis using stuck_session_do [OF assms(1)] assms(2) by (simp add: hub_step.simps)
next
  case (EvSessionDead n)
  then show ?thesis using assms(2) by (intro stuck_keep [OF assms(1)]) (auto simp: hub_step.simps session_end_def split: option.splits if_splits)
next
  case (EvTick i)
  then show ?thesis using stuck_push [OF assms(1)] assms(2) by (simp add: hub_step.simps)
next
  case (EvRegion i env)
  then show ?thesis using stuck_region_turn [OF assms(1)] assms(2) by (simp add: hub_step.simps)
next
  case (EvRegionDo i ok)
  then show ?thesis using stuck_region_do [OF assms(1)] assms(2) by (simp add: hub_step.simps)
qed (use assms(2) in \<open>intro stuck_keep [OF assms(1)]; auto simp: hub_step.simps register_def cleanup_def split: option.splits if_splits\<close>)+

lemma stuck_run: "stuck a b h \<Longrightarrow> stuck a b (hub_run J evs h)"
  by (induction evs arbitrary: h) (auto simp: hub_run_Nil hub_run_Cons split: option.split dest: stuck_step)

lemma meet_eval:
  assumes "rgShard r = ''s''" "rgPlayers r = Map.empty" "rgID r = ''r-1-1''" "rgShard l = ''s''" "rgPlayers l = Map.empty" "rgID l = ''r-0-1''"
  shows "\<exists>r1 l1 ss nm sent. hub_run J (walk 1 ''a'' @ cross @ walk 2 ''b'' @ meet) (lower \<lparr>rpState = l, rpBox = [], rpOut = []\<rparr> \<lparr>rpState = r, rpBox = [], rpOut = []\<rparr> Map.empty Map.empty []) =
     lower \<lparr>rpState = l1, rpBox = [], rpOut = [SendRegion ''r-1-1'' (comes ''a'' 1 400 (keys False True)), SendSession 1 (AssignedRegion ''r-1-1'' ''s'')]\<rparr>
       \<lparr>rpState = r1, rpBox = [], rpOut = [SendRegion ''r-0-1'' (comes ''b'' 2 390 (keys True False)), SendSession 2 (AssignedRegion ''r-0-1'' ''s'')]\<rparr> ss nm sent"
  unfolding hub_run_append
  by (simp add: walk_eval assms) (simp add: cross_def meet_def lower_eval tick_left tick_back assms walk_eval, intro exI, rule refl)

text \<open>Regions deliver to each other by waiting: two regions that hand each other a player while both mailboxes are
  full stand still for good, whatever happens from then on.\<close>

theorem regions_deadlock:
  "\<exists>a b. stuck a b (hub_run J (walk 1 ''a'' @ cross @ walk 2 ''b'' @ meet @ flood) (hub_start plain_router plain_regions))
     \<and> (\<forall>more. stuck a b (hub_run J more (hub_run J (walk 1 ''a'' @ cross @ walk 2 ''b'' @ meet @ flood) (hub_start plain_router plain_regions))))"
proof -
  let ?r = "new_region ''r-1-1'' 1 1 ''s'' True" and ?l = "new_region ''r-0-1'' 0 1 ''s'' True"
  let ?h = "hub_run J (walk 1 ''a'' @ cross @ walk 2 ''b'' @ meet) (hub_start plain_router plain_regions)"
  obtain r1 l1 ss nm sent where h: "?h = lower \<lparr>rpState = l1, rpBox = [], rpOut = [SendRegion ''r-1-1'' (comes ''a'' 1 400 (keys False True)), SendSession 1 (AssignedRegion ''r-1-1'' ''s'')]\<rparr>
       \<lparr>rpState = r1, rpBox = [], rpOut = [SendRegion ''r-0-1'' (comes ''b'' 2 390 (keys True False)), SendSession 2 (AssignedRegion ''r-0-1'' ''s'')]\<rparr> ss nm sent"
    using meet_eval [of ?r ?l J] unfolding lower_start by auto
  let ?e = "hub_run J (walk 1 ''a'' @ cross @ walk 2 ''b'' @ meet @ flood) (hub_start plain_router plain_regions)"
  have e: "?e = hub_run J flood ?h" by (simp add: hub_run_append)
  have "\<exists>a b. stuck a b (hub_run J flood (lower \<lparr>rpState = l1, rpBox = [], rpOut = [SendRegion ''r-1-1'' (comes ''a'' 1 400 (keys False True)), SendSession 1 (AssignedRegion ''r-1-1'' ''s'')]\<rparr>
       \<lparr>rpState = r1, rpBox = [], rpOut = [SendRegion ''r-0-1'' (comes ''b'' 2 390 (keys True False)), SendSession 2 (AssignedRegion ''r-0-1'' ''s'')]\<rparr> ss nm sent))"
    unfolding flood_def hub_run_append by (simp add: flood_right flood_left stuck_def lower_regions)
  then obtain a b where "stuck a b ?e" unfolding e h by blast
  then show ?thesis using stuck_run by blast
qed

section \<open>A player who reconnects\<close>

fun at_desk :: "hub_event \<Rightarrow> bool" where
  "at_desk (EvRegister n) \<longleftrightarrow> True"
| "at_desk (EvCleanup n) \<longleftrightarrow> True"
| "at_desk _ \<longleftrightarrow> False"

definition with_desk :: "(string \<rightharpoonup> nat) \<Rightarrow> nat list \<Rightarrow> nat list \<Rightarrow> hub \<Rightarrow> hub" where
  "with_desk g r c h = h\<lparr>hbRegistry := g, hbRegistered := r, hbCleaned := c\<rparr>"

text \<open>Only the two events of the registry see or touch it.\<close>

lemma push_desk: "region_push i m (with_desk g r c h) = map_option (with_desk g r c) (region_push i m h)"
  "session_push n sm (with_desk g r c h) = with_desk g r c (session_push n sm h)"
  by (simp_all add: region_push_def session_push_def with_desk_def split: option.split)

lemma desk_sel: "hbRouter (with_desk g r c h) = hbRouter h" "hbRegions (with_desk g r c h) = hbRegions h" "hbSessions (with_desk g r c h) = hbSessions h"
  "hbNames (with_desk g r c h) = hbNames h" "hbSent (with_desk g r c h) = hbSent h" "hbLog (with_desk g r c h) = hbLog h"
  "(with_desk g r c h)\<lparr>hbSessions := x\<rparr> = with_desk g r c (h\<lparr>hbSessions := x\<rparr>)" "(with_desk g r c h)\<lparr>hbRegions := y\<rparr> = with_desk g r c (h\<lparr>hbRegions := y\<rparr>)"
  "(with_desk g r c h)\<lparr>hbNames := z\<rparr> = with_desk g r c (h\<lparr>hbNames := z\<rparr>)" "(with_desk g r c h)\<lparr>hbSent := l\<rparr> = with_desk g r c (h\<lparr>hbSent := l\<rparr>)"
  "(with_desk g r c h)\<lparr>hbLog := w\<rparr> = with_desk g r c (h\<lparr>hbLog := w\<rparr>)" "(with_desk g r c h)\<lparr>hbRouter := v\<rparr> = with_desk g r c (h\<lparr>hbRouter := v\<rparr>)"
  by (simp_all add: with_desk_def)

lemma step_desk: "\<not> at_desk ev \<Longrightarrow> hub_step J ev (with_desk g r c h) = map_option (with_desk g r c) (hub_step J ev h)"
proof (cases ev)
  case (EvSessionDo n ok)
  then show ?thesis by (simp add: hub_step.simps session_do_def desk_sel push_desk Let_def split: option.split list.split session_effect.split)
next
  case (EvRegionDo i ok)
  then show ?thesis by (simp add: hub_step.simps region_do_def desk_sel push_desk Let_def split: option.split list.split effect.split)
next
  case (EvRegion i env)
  then show ?thesis by (simp add: hub_step.simps region_turn_def desk_sel split: option.split list.split prod.split)
next
  case (EvSession n q)
  then show ?thesis by (simp add: hub_step.simps session_turn_def desk_sel split: option.split list.split prod.split)
qed (simp_all add: hub_step.simps connect_def session_end_def desk_sel push_desk split: option.split prod.split)

lemma desk_eval:
  "ss n \<noteq> None \<Longrightarrow> n \<notin> set r \<Longrightarrow> hub_step J (EvRegister n) (with_desk g r c (lower a b ss nm sent)) =
     Some (with_desk (g(seID (spState (the (ss n))) \<mapsto> n)) (n # r) c (lower a b ss nm sent))"
  "ss n \<noteq> None \<Longrightarrow> spPhase (the (ss n)) = Dead \<Longrightarrow> n \<in> set r \<Longrightarrow> n \<notin> set c \<Longrightarrow> hub_step J (EvCleanup n) (with_desk g r c (lower a b ss nm sent)) =
     Some (with_desk (g(seID (spState (the (ss n))) := None)) r (n # c) (lower a b ss nm sent))"
  by (auto simp: hub_step.simps register_def cleanup_def with_desk_def lower_def)

lemma lower_end:
  "ss n \<noteq> None \<Longrightarrow> hub_step J (EvStop n) (lower a b ss nm sent) = Some (lower a b (ss(n \<mapsto> (the (ss n))\<lparr>spStop := True\<rparr>)) nm sent)"
  "ss n \<noteq> None \<Longrightarrow> spPhase (the (ss n)) = Running \<Longrightarrow> spOut (the (ss n)) = [] \<Longrightarrow> spStop (the (ss n)) \<Longrightarrow>
     hub_step J (EvSession n q) (lower a b ss nm sent) = Some (lower a b (ss(n \<mapsto> (the (ss n))\<lparr>spPhase := Closing, spOut := PostStop (spState (the (ss n)))\<rparr>)) nm sent)"
  "ss n \<noteq> None \<Longrightarrow> spPhase (the (ss n)) = Closing \<Longrightarrow> spOut (the (ss n)) = [] \<Longrightarrow>
     hub_step J (EvSessionDead n) (lower a b ss nm sent) = Some (lower a b (ss(n \<mapsto> (the (ss n))\<lparr>spPhase := Dead, spBox := []\<rparr>)) (nm(seID (spState (the (ss n))) := None)) sent)"
  by (auto simp: hub_step.simps lower_def session_turn_def session_end_def)

definition reconnect :: "hub_event list" where
  "reconnect = [EvConnect 1 ''a'' ''a'', EvRegister 1, EvSessionDo 1 True, EvSessionDo 1 True, EvStop 1, EvSession 1 None, EvSessionDo 1 True, EvSessionDo 1 True,
     EvSessionDead 1, EvConnect 2 ''a'' ''a'', EvRegister 2, EvCleanup 1]"

lemma reconnect_eval:
  "hub_run J reconnect (with_desk Map.empty [] [] (lower \<lparr>rpState = l, rpBox = [], rpOut = []\<rparr> \<lparr>rpState = r, rpBox = [], rpOut = []\<rparr> Map.empty Map.empty [])) =
   with_desk Map.empty [2, 1] [1] (lower \<lparr>rpState = l, rpBox = [], rpOut = []\<rparr>
     \<lparr>rpState = r, rpBox = [comes ''a'' 1 400 (keys False False), MLeave ''a''], rpOut = []\<rparr>
     [1 \<mapsto> \<lparr>spState = at_spawn 1 ''a'', spBox = [], spOut = [], spStop = True, spPhase = Dead\<rparr>,
      2 \<mapsto> \<lparr>spState = at_spawn 2 ''a'', spBox = [], spOut = [ToRegion ''r-1-1'' (comes ''a'' 2 400 (keys False False)), Write (FWelcome ''a'' ''a'')],
            spStop = False, spPhase = Running\<rparr>]
     [''a'' \<mapsto> 2] [comes ''a'' 1 400 (keys False False), MLeave ''a''])"
  by (simp add: reconnect_def lower_eval step_desk desk_eval lower_end PostStop_def)

text \<open>The end of a player's former session takes the new one out of the registry: it lives, but orders cannot reach it.\<close>

theorem reconnect_unregisters:
  "hbRegistry (hub_run J reconnect (hub_start plain_router plain_regions)) ''a'' = None
   \<and> (\<exists>p. hbSessions (hub_run J reconnect (hub_start plain_router plain_regions)) 2 = Some p \<and> spPhase p = Running \<and> \<not> spStop p \<and> seID (spState p) = ''a'')"
proof -
  have "hub_start plain_router plain_regions = with_desk Map.empty [] [] (hub_start plain_router plain_regions)"
    by (simp add: with_desk_def hub_start_def)
  also have "\<dots> = with_desk Map.empty [] [] (lower \<lparr>rpState = new_region ''r-0-1'' 0 1 ''s'' True, rpBox = [], rpOut = []\<rparr>
      \<lparr>rpState = new_region ''r-1-1'' 1 1 ''s'' True, rpBox = [], rpOut = []\<rparr> Map.empty Map.empty [])" by (simp only: lower_start)
  finally show ?thesis by (simp only: reconnect_eval) (simp add: with_desk_def lower_def at_spawn_def new_session_def)
qed

section \<open>What the hub guarantees\<close>

text \<open>\<^bold>\<open>C13\<close> A player who has joined the hub once and has not left it is in exactly one place: in one region, or on the way into
  one, whatever regions, sessions, clients, orders, clock and shards do in the meantime, however players cross borders, and
  whatever sessions lose because their mailboxes are full.\<close>

theorem hub_one_place:
  assumes "NewHub taken store shards = Some (rt, rgs)"
    and "arriving p (hbSent (hub_run J evs (hub_start rt rgs))) = 1" "stayed p (hbSent (hub_run J evs (hub_start rt rgs)))"
  shows "copies p (hub_run J evs (hub_start rt rgs)) = 1"
proof -
  have ok: "hub_ok (hub_start rt rgs)" by (rule hub_start_ok [OF assms(1)])
  have "copies p (hub_start rt rgs) = 0"
    unfolding copies_def by (auto simp: hub_start_def NewHub_regions [OF assms(1)] grid_cells region_ids copies_at_def holds_def departing_def)
  then have "accounted p (hub_start rt rgs)"
    by (auto simp: accounted_def) (auto simp: hub_start_def dest!: map_of_SomeD)
  from hub_run_accounted [OF ok this, of J evs] assms(2,3) show ?thesis by (simp add: accounted_def)
qed

lemma hub_one_place_witness:
  "copies ''a'' (hub_run plain_world (walk 1 ''a'') (hub_start plain_router plain_regions)) = 1"
proof -
  have "hbSent (hub_run plain_world (walk 1 ''a'') (hub_start plain_router plain_regions)) = [comes ''a'' 1 400 (keys False False), MInput ''a'' (keys True False)]"
    unfolding lower_start by (subst walk_eval) (simp_all add: lower_def)
  then show ?thesis by (intro hub_one_place [OF plain_hub]) (simp_all add: comes_def)
qed

text \<open>\<^bold>\<open>C30\<close> Every player a region holds stands in that region, inside the world and at finite coordinates, under the player's own
  name, in every reachable state: clamping, rounding, borders and unavailable neighbours included.\<close>

theorem hub_standing:
  assumes "NewHub taken store shards = Some (rt, rgs)" "hbRegions (hub_run J evs (hub_start rt rgs)) i = Some q" "rgPlayers (rpState q) p = Some e"
  shows "enID e = p \<and> stands i (enX e) (enY e)"
proof -
  have "proc_ok (hbRouter (hub_run J evs (hub_start rt rgs))) i q" using hub_run_ok [OF hub_start_ok [OF assms(1)], of J evs] assms(2) by (simp add: hub_ok_def)
  then show ?thesis using assms(3) by (auto simp: proc_ok_def region_ok_def players_in_def)
qed

lemma hub_standing_witness: "enID (walker ''a'' 1 400 (keys True False)) = ''a'' \<and> stands ''r-1-1'' (enX (walker ''a'' 1 400 (keys True False))) (enY (walker ''a'' 1 400 (keys True False)))"
proof (rule hub_standing [OF plain_hub])
  show "hbRegions (hub_run plain_world (walk 1 ''a'') (hub_start plain_router plain_regions)) ''r-1-1''
      = Some \<lparr>rpState = (new_region ''r-1-1'' 1 1 ''s'' True)\<lparr>rgPlayers := [''a'' \<mapsto> walker ''a'' 1 400 (keys True False)]\<rparr>, rpBox = [], rpOut = []\<rparr>"
    unfolding lower_start by (subst walk_eval) (simp_all add: lower_regions)
qed simp

end
