(* ===== verification/Spec2Isabelle.thy ===== *)
theory Spec2Isabelle
  imports Prelude Sample Codec Wal Bloom Records Memtable Merge Sstable Text Db Crash
    Raft RaftCluster RaftVotes RaftLogs RaftCommit RaftSafety
    Clock Crdt Resilience Ratelimit Ringbuf Hashring Dlock DlockCluster Kv Raftstore Es Elog Inventory Bus Outbox Trade
    Float64
    Arena
    Matchmaking
    World
    Session
    Hub
    HubRuns
begin

text \<open>
  Shardlands, a multiplayer game server: a storage engine, Raft, an event store and the services of the game on
  them. This library models the program's own logic, definition by definition from the Go sources, and proves what
  makes each part correct; each theory opens with what it holds.
\<close>

section \<open>Parts\<close>

text \<open>
  \<^bold>\<open>The storage engine (src/pkg/storage).\<close>
  \<open>Codec\<close> is the record framing of \<open>codec.go\<close>, byte for byte, with every error of \<open>decodeRec\<close>; \<open>Wal\<close> the
  log of \<open>wal.go\<close> over the bytes of its file; \<open>Bloom\<close> the filter of \<open>bloom.go\<close>; \<open>Memtable\<close> the skip list of
  \<open>memtable.go\<close> over an explicit heap of nodes, the coin flips an argument; \<open>Merge\<close> the merging iterator and the
  tombstone filter of \<open>merge.go\<close>; \<open>Sstable\<close> the table files of \<open>sstable.go\<close>; \<open>Db\<close> the database of \<open>db.go\<close>
  (write path, flush, compaction, open, manifest) over a directory of files, each write also as the list of its file
  operations; \<open>Crash\<close> stops that list at any point, the last write torn. \<open>Records\<close> has the shared specification,
  key-sorted records, and the locale \<open>sorted_source\<close> the memtable and the tables interpret. Shown: each layer
  implements it, the database answers as a map, a crash loses no acknowledged write; and where that fails, a torn
  tail behind which the log is continued.
\<close>

text \<open>
  \<^bold>\<open>Raft (src/pkg/raft).\<close>
  \<open>Raft\<close> has the node: one definition for each critical section of \<open>node.go\<close> (election, vote and append
  handlers, replies, replication, commit, proposal, applier, ticker, restart from storage) and the in-memory network
  of \<open>transport.go\<close>. \<open>RaftCluster\<close> puts nodes, calls in flight and storage together as a transition system whose
  messages are delayed, reordered, repeated and lost and whose nodes crash and restart. \<open>RaftVotes\<close>, \<open>RaftLogs\<close>,
  \<open>RaftCommit\<close> and \<open>RaftSafety\<close> are its invariants in the order they build on each other: one leader per term, log
  matching, leader completeness, state machine safety.
\<close>

text \<open>
  \<^bold>\<open>Locks (src/pkg/dlock).\<close>
  \<open>Dlock\<close> has the replicated lock table and the manager's calls: fencing tokens, exclusive leases. \<open>DlockCluster\<close>
  joins it to Raft: replicas that have applied equally many entries are equal.
\<close>

text \<open>
  \<^bold>\<open>Stores on the database (src/pkg/raftstore, src/pkg/es).\<close>
  \<open>Kv\<close> is the interface of the storage as its clients see it, a locale interpreted on \<open>Db\<close>. \<open>Raftstore\<close> keeps
  Raft's hard state on it, \<open>Es\<close> the event log; both with round trips over any history and with the crash points
  that break them. \<open>Elog\<close> is the event store as services see it: their operations are programs over its calls, other
  goroutines act between the calls, the locale \<open>event_log\<close> says a call acts as on a bare list of events, and
  \<open>rg\<close> is a rely/guarantee predicate for programs that run among others.
\<close>

text \<open>
  \<^bold>\<open>Services on the event store (src/services, src/pkg/bus).\<close>
  \<open>Inventory\<close>: balances as folds, reservations by optimistic retries (no double spending under any interleaving and
  any failures), the read model. \<open>Bus\<close>: subscriptions, acknowledgement, redelivery, dead letters. \<open>Outbox\<close>: the
  relay with its checkpoint and the deduplicating consumer, exactly once together. \<open>Trade\<close>: the trade saga by an
  orchestrator and by a choreographer, all or nothing when calls do not fail, and two runs where goods are duplicated.
\<close>

text \<open>
  \<^bold>\<open>Building blocks.\<close>
  \<open>Clock\<close> (\<open>pkg/clock\<close>): Lamport and vector clocks against the happened-before relation of an execution. \<open>Crdt\<close>
  (\<open>pkg/crdt\<close>): counters under any gossip. \<open>Resilience\<close> (\<open>pkg/resilience\<close>): breaker, bulkhead and their
  composition. \<open>Ratelimit\<close> (\<open>pkg/ratelimit\<close>): token buckets. \<open>Ringbuf\<close> (\<open>pkg/ringbuf\<close>): the lock-free queue at
  the granularity of its shared accesses. \<open>Hashring\<close> (\<open>pkg/hashring\<close>): consistent hashing and minimal remapping.
\<close>

text \<open>
  \<^bold>\<open>The game (src/services).\<close>
  \<open>Matchmaking\<close> (\<open>services/matchmaking\<close>): queues, the match saga and the in-process provisioner; all or nothing,
  nobody lost, no arena left behind, and where players are doubled or left waiting. \<open>Float64\<close> is Go's
  double precision arithmetic; \<open>Arena\<close> (\<open>services/arena/arena.go\<close>) a match on it, tick by tick: it ends once, in
  time, its players in the field whatever they send; and an aim too far away to be normalised. \<open>World\<close>
  (\<open>services/world\<close>) has the regions of the hub and their router, \<open>Session\<close> the session of a player
  (\<open>services/gateway\<close>) and the coordinator of transfers (\<open>services/handoff\<close>), \<open>Hub\<close> all of them as a system
  of actors with bounded mailboxes, \<open>HubRuns\<close> its guarantees and runs: a player who stays is in one place, and is
  where the region is; transfers take effect in the order of their tokens; resources respawn no faster than they should;
  but a player can be left behind, two regions can wait for each other, a reconnect can lose the new session.
\<close>

section \<open>Conventions\<close>

text \<open>
  A structure is a record, an enumeration a datatype, an integer that can wrap a machine word (or \<open>i64\<close> of the
  exact result); a map is a function to options, or an association list where its order or its listing matters.
  Errors are values: every early return is a branch. A mutex makes an operation one step; code without one is split
  at its shared accesses. Clock readings, coin flips, failures of calls and the order of goroutines are arguments,
  so the theorems hold for all of them. Encodings by libraries (JSON) are parameters with their round trip as
  hypothesis, instantiated in the witnesses by the codecs of \<open>Sample\<close>. \<open>Prelude\<close> and \<open>Text\<close> hold the words, byte
  strings and standard-library text routines the parts share.

  Fuel appears where the code loops until something outside it changes: the reservation retries of \<open>Inventory\<close> (the
  code's own bound of attempts), \<open>project\<close> of \<open>Es\<close> and the choreographer of \<open>Trade\<close>, which follow a log until its end;
  the theorems state that the given fuel suffices. All other definitions are total.
\<close>

section \<open>Not modelled\<close>

text \<open>
  Failing system calls of the storage engine; connecting to NATS, Vault, Kubernetes, HTTP, gRPC and WebSocket (calls
  of libraries around the logic above); metrics, logging and tracing; the commands and the assembly of the server;
  experiments and test fixtures; generated code.
\<close>

end
